(* ===== verification/Prelude.thy ===== *)
theory Prelude
  imports Main "HOL-Library.Word" "HOL-Library.Monad_Syntax"
begin

text \<open>
  The vocabulary every component shares.

  \<^item> Machine integers are words of their C width. Pointers are \<open>ptr = addr option\<close>, with
    \<open>None\<close> for \<open>NULL\<close>; a heap of structures is a map from addresses to records.
  \<^item> Code that touches memory runs in the option monad. \<open>None\<close> is \<^emph>\<open>no defined result\<close>: a
    dereference of \<open>NULL\<close> or of a freed structure, a double free, taking a spin lock that the
    same path already holds, or a loop that never ends. A theorem that an operation
    \<^emph>\<open>returns\<close> is a theorem that its value is \<open>Some\<close>.
  \<^item> \<open>malloc\<close> belongs to the pre-built \<^verbatim>\<open>liballoc-x86_64.a\<close>, which has no source here. Each call
    of it is a parameter of type \<open>ptr\<close>: \<open>None\<close> when it fails, otherwise the address of the
    block, which the theorems assume is not in use.
  \<^item> Doubly linked lists through a heap (\<open>dseg\<close>, \<open>dll\<close>) and the lemmas on linking and
    unlinking, stated once in the locales \<open>dll_node\<close> and \<open>dll_payload\<close> and interpreted for the
    nodes of the locked queue and for the virtual memory areas.
\<close>

unbundle bit_operations_syntax

section \<open>Types\<close>

type_synonym u8 = "8 word"
type_synonym u16 = "16 word"
type_synonym u32 = "32 word"
type_synonym u64 = "64 word"
type_synonym addr = nat
type_synonym ptr = "addr option"

abbreviation SIZE_MAX :: u64 where
  "SIZE_MAX \<equiv> - 1"

named_theorems word_nat \<open>64-bit comparisons and operations read as natural numbers\<close>

section \<open>Words\<close>

lemma less_add_one_word: "i \<noteq> - 1 \<Longrightarrow> i < i + 1" for i :: "'a::len word"
  using inc_less_eq_iff [of i i] by auto

lemma unat_less_64 [simp]: "unat (x :: u64) < 2 ^ 64"
  using unsigned_less [of x, where ?'a = nat] by simp

lemma unat_less_64_numeral [simp]: "unat (x :: u64) < 18446744073709551616"
  using unat_less_64 [of x] by simp

lemma unat_max_sub [simp]: "unat (- 1 - b :: u64) = 2 ^ 64 - 1 - unat b"
  by (simp add: unat_sub word_order.extremum unsigned_minus_1_eq_mask mask_eq_exp_minus_1)

text \<open>The overflow guard \<open>a > UINT64_MAX - b\<close> of the sources.\<close>

lemma no_wrap_add: "a \<le> - 1 - (b :: u64) \<longleftrightarrow> unat a + unat b < 2 ^ 64"
  unfolding word_le_nat_alt unat_max_sub using unat_less_64 [of b] by linarith

lemma unat_add_small: "unat a + unat (b :: u64) < 2 ^ 64 \<Longrightarrow> unat (a + b) = unat a + unat b"
  by (simp add: unat_word_ariths)

lemma unat_mult_small: "unat a * unat (b :: u64) < 2 ^ 64 \<Longrightarrow> unat (a * b) = unat a * unat b"
  by (simp add: unat_word_ariths)

lemma unat_align_down: "unat (x AND NOT (mask n) :: u64) = unat x div 2 ^ n * 2 ^ n"
proof -
  have "x AND NOT (mask n) = push_bit n (drop_bit n x)"
    by (rule bit_word_eqI) (auto simp: bit_simps)
  moreover have "unat x div 2 ^ n * 2 ^ n < 2 ^ 64"
    using unat_less_64 [of x] div_times_less_eq_dividend [of "unat x" "2 ^ n"] by (meson le_less_trans)
  ultimately show ?thesis
    by (simp only: unsigned_push_bit_eq unat_drop_bit_eq)
       (simp add: take_bit_nat_eq_self push_bit_eq_mult drop_bit_eq_div)
qed

lemmas [word_nat] = word_less_nat_alt word_le_nat_alt unat_add_small unat_mult_small no_wrap_add unat_div unat_mod

lemma unat_add_one_word: "i \<noteq> - 1 \<Longrightarrow> unat (i + 1) = unat i + 1" for i :: "'a::len word"
  using unatSuc [of i] max_word_wrap [of i] by (auto simp: add.commute)

lemma sint_u32: "unat (r :: u32) < 2 ^ 31 \<Longrightarrow> sint r = int (unat r)"
proof -
  assume a: "unat r < 2 ^ 31"
  have "uint r < 2 ^ 31" using a by (metis of_nat_less_numeral_power_cancel_iff uint_nat)
  moreover have "- (2 ^ 31) \<le> uint r" by (rule order_trans [of _ 0]) simp_all
  ultimately have "sint r = uint r" by (simp add: sint_uint signed_take_bit_int_eq_self)
  then show ?thesis by simp
qed

lemma cyclic_eq: "t < n \<Longrightarrow> i < n \<Longrightarrow> (t + i) mod n = t \<longleftrightarrow> i = 0" for t i n :: nat
  by (metis add.right_neutral mod_add_eq mod_less mod_mod_trivial nat_add_left_cancel_less add_diff_cancel_left' mod_eq_dvd_iff_nat nat_dvd_not_less le_add1 not_gr_zero)

text \<open>The test for a power of two, \<open>(x & (x - 1)) == 0\<close>.\<close>

lemma bit_top:
  assumes "2 ^ l \<le> y" "y < 2 ^ (l + 1)"
  shows "bit (y::nat) l"
proof -
  have "y div 2 ^ l = 1" using assms by (intro div_nat_eqI) simp_all
  then show ?thesis by (simp add: bit_iff_odd)
qed

lemma and_pred_power:
  assumes "x \<noteq> 0" "x AND (x - 1) = (0 :: nat)"
  shows "\<exists>k. x = 2 ^ k"
proof -
  obtain l where l: "2 ^ l \<le> x" "x < 2 ^ (l + 1)" using ex_power_ivl1 [of 2 x] assms(1) by auto
  have "x = 2 ^ l"
  proof (rule ccontr)
    assume "x \<noteq> 2 ^ l"
    with l have "bit x l" "bit (x - 1) l" by (auto intro!: bit_top)
    with assms(2) show False by (metis bit_and_iff bit_0_eq bot_apply bot_bool_def)
  qed
  then show ?thesis ..
qed

section \<open>Memory accesses in the option monad\<close>

definition deref :: "(addr \<rightharpoonup> 'n) \<Rightarrow> ptr \<Rightarrow> 'n option" where
  "deref h p = (case p of None \<Rightarrow> None | Some a \<Rightarrow> h a)"

definition upd :: "(addr \<rightharpoonup> 'n) \<Rightarrow> ptr \<Rightarrow> ('n \<Rightarrow> 'n) \<Rightarrow> (addr \<rightharpoonup> 'n) option" where
  "upd h p f = (case p of None \<Rightarrow> None
     | Some a \<Rightarrow> (case h a of None \<Rightarrow> None | Some n \<Rightarrow> Some (h(a \<mapsto> f n))))"

definition release :: "(addr \<rightharpoonup> 'n) \<Rightarrow> ptr \<Rightarrow> (addr \<rightharpoonup> 'n) option" where
  "release h p = (case p of None \<Rightarrow> Some h
     | Some a \<Rightarrow> (case h a of None \<Rightarrow> None | Some n \<Rightarrow> Some (h(a := None))))"

text \<open>The heaps agree outside \<open>S\<close>: what an operation does not touch.\<close>

definition unchanged_off :: "addr set \<Rightarrow> (addr \<rightharpoonup> 'n) \<Rightarrow> (addr \<rightharpoonup> 'n) \<Rightarrow> bool" where
  "unchanged_off S h h' \<longleftrightarrow> (\<forall>c. c \<notin> S \<longrightarrow> h' c = h c)"

lemma unchanged_off_refl [simp]: "unchanged_off S h h"
  by (simp add: unchanged_off_def)

lemma unchanged_off_upd [simp]: "a \<in> S \<Longrightarrow> unchanged_off S h (h'(a := v)) = unchanged_off S h h'"
  by (auto simp: unchanged_off_def)

lemma unchanged_off_upd_left [simp]: "a \<in> S \<Longrightarrow> unchanged_off S (h(a := v)) h' = unchanged_off S h h'"
  by (auto simp: unchanged_off_def)

lemma unchanged_off_mono: "unchanged_off S h h' \<Longrightarrow> S \<subseteq> T \<Longrightarrow> unchanged_off T h h'"
  by (auto simp: unchanged_off_def)

lemma unchanged_off_trans:
  "unchanged_off S h h' \<Longrightarrow> unchanged_off T h' h'' \<Longrightarrow> unchanged_off (S \<union> T) h h''"
  by (simp add: unchanged_off_def)

lemma unchanged_offD: "unchanged_off S h h' \<Longrightarrow> c \<notin> S \<Longrightarrow> h' c = h c"
  by (simp add: unchanged_off_def)

lemma deref_Some [simp]: "deref h (Some a) = h a"
  by (simp add: deref_def)

lemma deref_None [simp]: "deref h None = None"
  by (simp add: deref_def)

lemma upd_None [simp]: "upd h None f = None"
  by (simp add: upd_def)

lemma upd_Some [simp]: "h a = Some n \<Longrightarrow> upd h (Some a) f = Some (h(a \<mapsto> f n))"
  by (simp add: upd_def)

lemma release_None [simp]: "release h None = Some h"
  by (simp add: release_def)

lemma release_Some [simp]: "h a = Some n \<Longrightarrow> release h (Some a) = Some (h(a := None))"
  by (simp add: release_def)

section \<open>Doubly linked lists in a heap\<close>

text \<open>
  \<open>dseg nx pv h before first as after final\<close>: the nodes \<open>as\<close> form a chain that \<open>first\<close> enters,
  whose first node points back to \<open>before\<close>, whose last node points on to \<open>after\<close>, and \<open>final\<close>
  is the last node (or \<open>before\<close> when the chain is empty).
\<close>

primrec dseg ::
  "('n \<Rightarrow> ptr) \<Rightarrow> ('n \<Rightarrow> ptr) \<Rightarrow> (addr \<rightharpoonup> 'n) \<Rightarrow> ptr \<Rightarrow> ptr \<Rightarrow> addr list \<Rightarrow> ptr \<Rightarrow> ptr \<Rightarrow> bool"
where
  "dseg nx pv h before first [] after final = (first = after \<and> final = before)"
| "dseg nx pv h before first (a # as) after final =
     (first = Some a \<and>
      (\<exists>n. h a = Some n \<and> pv n = before \<and> dseg nx pv h (Some a) (nx n) as after final))"

definition dll :: "('n \<Rightarrow> ptr) \<Rightarrow> ('n \<Rightarrow> ptr) \<Rightarrow> (addr \<rightharpoonup> 'n) \<Rightarrow> ptr \<Rightarrow> addr list \<Rightarrow> ptr \<Rightarrow> bool" where
  "dll nx pv h first as final \<longleftrightarrow> dseg nx pv h None first as None final \<and> distinct as"

lemma dseg_append [simp]:
  "dseg nx pv h b f (xs @ ys) e l \<longleftrightarrow>
     (\<exists>m k. dseg nx pv h b f xs m k \<and> dseg nx pv h k m ys e l)"
  by (induction xs arbitrary: b f) auto

lemma dseg_frame [simp]:
  "a \<notin> set xs \<Longrightarrow> dseg nx pv (h(a := v)) b f xs e l = dseg nx pv h b f xs e l"
  by (induction xs arbitrary: b f) auto

lemma dseg_dom: "dseg nx pv h b f xs e l \<Longrightarrow> a \<in> set xs \<Longrightarrow> \<exists>n. h a = Some n"
  by (induction xs arbitrary: b f) auto

lemma dseg_last: "dseg nx pv h b f xs e l \<Longrightarrow> xs \<noteq> [] \<Longrightarrow> l = Some (List.last xs)"
  by (induction xs arbitrary: b f) (auto split: if_splits)

lemma dseg_first: "dseg nx pv h b f xs e l \<Longrightarrow> xs \<noteq> [] \<Longrightarrow> f = Some (hd xs)"
  by (cases xs) auto

lemma dseg_cong:
  "(\<And>a. a \<in> set xs \<Longrightarrow> h' a = h a) \<Longrightarrow> dseg nx pv h' b f xs e l = dseg nx pv h b f xs e l"
  by (induction xs arbitrary: b f) auto

lemma dll_dom: "dll nx pv h f xs l \<Longrightarrow> a \<in> set xs \<Longrightarrow> \<exists>n. h a = Some n"
  unfolding dll_def by (blast intro: dseg_dom)

lemma dll_Nil [simp]: "dll nx pv h f [] l \<longleftrightarrow> f = None \<and> l = None"
  by (simp add: dll_def)

lemma dll_first_None: "dll nx pv h f xs l \<Longrightarrow> f = None \<longleftrightarrow> xs = []"
  unfolding dll_def by (cases xs) auto

lemma dll_last_None: "dll nx pv h f xs l \<Longrightarrow> l = None \<longleftrightarrow> xs = []"
  unfolding dll_def by (metis dseg.simps(1) dseg_last option.distinct(1))

lemma dll_split:
  assumes "dll nx pv h f (xs @ a # ys) l"
  obtains n where "h a = Some n" "dseg nx pv h None f xs (Some a) (pv n)"
    "dseg nx pv h (Some a) (nx n) ys None l" "a \<notin> set xs" "a \<notin> set ys" "distinct xs"
    "distinct ys" "set xs \<inter> set ys = {}"
  using assms by (auto simp: dll_def)

lemma dll_frame: "a \<notin> set xs \<Longrightarrow> dll nx pv (h(a := v)) f xs l = dll nx pv h f xs l"
  by (simp add: dll_def)

lemma dseg_same_links:
  "h a = Some n \<Longrightarrow> nx n' = nx n \<Longrightarrow> pv n' = pv n \<Longrightarrow> dseg nx pv (h(a \<mapsto> n')) b f xs e l = dseg nx pv h b f xs e l"
  by (induction xs arbitrary: b f) auto

lemma dll_same_links:
  "h a = Some n \<Longrightarrow> nx n' = nx n \<Longrightarrow> pv n' = pv n \<Longrightarrow> dll nx pv (h(a \<mapsto> n')) f xs l = dll nx pv h f xs l"
  by (simp add: dll_def dseg_same_links)

definition first_of :: "addr list \<Rightarrow> ptr" where
  "first_of xs = (case xs of [] \<Rightarrow> None | x # _ \<Rightarrow> Some x)"

definition last_of :: "addr list \<Rightarrow> ptr" where
  "last_of xs = (if xs = [] then None else Some (List.last xs))"

lemma first_of_simps [simp]: "first_of [] = None" "first_of (x # xs) = Some x"
  by (simp_all add: first_of_def)

lemma last_of_simps [simp]: "last_of [] = None" "last_of (xs @ [x]) = Some x"
  by (simp_all add: last_of_def)

lemma dll_ends:
  assumes "dll nx pv h f (xs @ ys) l"
  shows "dseg nx pv h None f xs (first_of ys) (last_of xs)" "dseg nx pv h (last_of xs) (first_of ys) ys None l"
proof -
  obtain m k where s: "dseg nx pv h None f xs m k" "dseg nx pv h k m ys None l" using assms by (auto simp: dll_def)
  have "k = last_of xs" using s(1) by (cases xs rule: rev_cases) (auto simp: last_of_def dest: dseg_last)
  moreover have "m = first_of ys" using s(2) by (cases ys) auto
  ultimately show "dseg nx pv h None f xs (first_of ys) (last_of xs)" "dseg nx pv h (last_of xs) (first_of ys) ys None l" using s by simp_all
qed

text \<open>
  The interface of a node: its two links, and the writes of one link that leave the other alone.
\<close>

locale dll_node =
  fixes nx pv :: "'n \<Rightarrow> ptr" and set_nx set_pv :: "ptr \<Rightarrow> 'n \<Rightarrow> 'n"
  assumes nx_set_nx [simp]: "nx (set_nx p n) = p"
    and nx_set_pv [simp]: "nx (set_pv p n) = nx n"
    and pv_set_pv [simp]: "pv (set_pv p n) = p"
    and pv_set_nx [simp]: "pv (set_nx p n) = pv n"
begin

lemma seg_set_after:
  assumes "dseg nx pv h b f xs e (Some a)" and "xs \<noteq> []" and "distinct xs" and "h a = Some n"
  shows "dseg nx pv (h(a \<mapsto> set_nx q n)) b f xs q (Some a)"
proof -
  from assms(1,2) obtain ys where ys: "xs = ys @ [a]"
    using dseg_last by (metis append_butlast_last_id option.inject)
  with assms show ?thesis by auto
qed

lemma seg_set_before:
  assumes "dseg nx pv h b (Some a) xs e l" and "xs \<noteq> []" and "distinct xs" and "h a = Some n"
  shows "dseg nx pv (h(a \<mapsto> set_pv q n)) q (Some a) xs e l"
  using assms by (cases xs) auto

text \<open>Unlinking a node: its neighbours are made to point past it.\<close>

definition unlink :: "(addr \<rightharpoonup> 'n) \<Rightarrow> 'n \<Rightarrow> (addr \<rightharpoonup> 'n)" where
  "unlink h n =
     (let h1 = (case pv n of None \<Rightarrow> h | Some p \<Rightarrow> h(p \<mapsto> set_nx (nx n) (the (h p))))
      in case nx n of None \<Rightarrow> h1 | Some q \<Rightarrow> h1(q \<mapsto> set_pv (pv n) (the (h1 q))))"

lemma seg_unlink_left:
  assumes "dseg nx pv h None f xs (Some a) p" and "distinct xs"
  shows "dseg nx pv (case p of None \<Rightarrow> h | Some b \<Rightarrow> h(b \<mapsto> set_nx q (the (h b))))
           None (if p = None then q else f) xs q p"
proof (cases xs rule: rev_cases)
  case Nil
  with assms show ?thesis by simp
next
  case (snoc zs b)
  with assms have p: "p = Some b" by (auto dest: dseg_last)
  from snoc assms(1) obtain n where "h b = Some n" by auto
  with assms p snoc show ?thesis
    using seg_set_after [of h None f xs "Some a" b n q] by simp
qed

lemma seg_unlink_right:
  assumes "dseg nx pv h (Some a) q ys None l" and "distinct ys"
  shows "dseg nx pv (case q of None \<Rightarrow> h | Some b \<Rightarrow> h(b \<mapsto> set_pv p (the (h b))))
           p q ys None (if q = None then p else l)"
proof (cases ys)
  case Nil
  with assms show ?thesis by simp
next
  case (Cons b zs)
  with assms obtain n where "q = Some b" "h b = Some n" by auto
  with assms Cons show ?thesis
    using seg_set_before [of h "Some a" b ys None l n p] by simp
qed

theorem dll_unlink:
  assumes "dll nx pv h f (xs @ a # ys) l" and "h a = Some n"
  shows "dll nx pv (unlink h n) (if pv n = None then nx n else f) (xs @ ys)
           (if nx n = None then pv n else l)"
proof -
  from assms(1) obtain n' where n': "h a = Some n'"
    and l: "dseg nx pv h None f xs (Some a) (pv n')"
    and r: "dseg nx pv h (Some a) (nx n') ys None l"
    and d: "a \<notin> set xs" "a \<notin> set ys" "distinct xs" "distinct ys" "set xs \<inter> set ys = {}"
    by (rule dll_split)
  from n' assms(2) have [simp]: "n' = n" by simp
  let ?h1 = "case pv n of None \<Rightarrow> h | Some p \<Rightarrow> h(p \<mapsto> set_nx (nx n) (the (h p)))"
  have p: "pv n = Some p \<Longrightarrow> p \<in> set xs" for p
    using l by (cases xs rule: rev_cases) auto
  have q: "nx n = Some q \<Longrightarrow> q \<in> set ys" for q
    using r by (cases ys) auto
  have l1: "dseg nx pv ?h1 None (if pv n = None then nx n else f) xs (nx n) (pv n)"
    using seg_unlink_left [OF l d(3)] by simp
  have "dseg nx pv ?h1 (Some a) (nx n) ys None l"
    using r p d(5) by (cases "pv n") (auto simp: disjoint_iff)
  from seg_unlink_right [OF this d(4), of "pv n"]
  have r2: "dseg nx pv (unlink h n) (pv n) (nx n) ys None (if nx n = None then pv n else l)"
    by (simp add: unlink_def Let_def)
  have l2: "dseg nx pv (unlink h n) None (if pv n = None then nx n else f) xs (nx n) (pv n)"
  proof (cases "nx n")
    case None
    with l1 show ?thesis by (simp add: unlink_def)
  next
    case (Some q)
    with \<open>\<And>q. nx n = Some q \<Longrightarrow> q \<in> set ys\<close> d(5) have "q \<notin> set xs" by blast
    from dseg_frame [OF this, of nx pv ?h1] l1 Some show ?thesis
      by (simp add: unlink_def Let_def)
  qed
  from l2 r2 d show ?thesis by (auto simp: dll_def)
qed

lemma unlink_other:
  assumes "dll nx pv h f (xs @ a # ys) l" and "h a = Some n" and "c \<notin> set xs" and "c \<notin> set ys"
  shows "unlink h n c = h c"
proof -
  from assms(1,2) have l: "dseg nx pv h None f xs (Some a) (pv n)"
    and r: "dseg nx pv h (Some a) (nx n) ys None l"
    by (auto elim!: dll_split)
  have p: "pv n = Some p \<Longrightarrow> p \<in> set xs" for p
    using l by (cases xs rule: rev_cases) auto
  have q: "nx n = Some q \<Longrightarrow> q \<in> set ys" for q
    using r by (cases ys) auto
  show ?thesis using p q assms(3,4)
    by (auto simp: unlink_def Let_def split: option.split)
qed

text \<open>Linking a node behind the last one.\<close>

theorem dll_append:
  assumes "dll nx pv h f xs l" and "a \<notin> set xs"
    and "h' = (case l of None \<Rightarrow> h | Some t \<Rightarrow> h(t \<mapsto> set_nx (Some a) (the (h t))))"
    and "nx n = None" and "pv n = l"
  shows "dll nx pv (h'(a \<mapsto> n)) (if f = None then Some a else f) (xs @ [a]) (Some a)"
proof (cases xs rule: rev_cases)
  case Nil
  with assms show ?thesis by (auto simp: dll_def)
next
  case (snoc zs b)
  from assms(1) snoc have l: "l = Some b" by (auto simp: dll_def dest: dseg_last)
  from assms(1) snoc have f: "f \<noteq> None" using dll_first_None by blast
  from assms(1) snoc obtain m where m: "h b = Some m" by (auto simp: dll_def)
  have "dseg nx pv h' None f xs (Some a) (Some b)"
    using seg_set_after [of h None f xs None b m "Some a"] assms(1,3) l m snoc by (simp add: dll_def)
  with assms l f show ?thesis by (auto simp: dll_def)
qed

text \<open>Linking a node between two neighbours.\<close>

definition link :: "(addr \<rightharpoonup> 'n) \<Rightarrow> ptr \<Rightarrow> ptr \<Rightarrow> addr \<Rightarrow> 'n \<Rightarrow> (addr \<rightharpoonup> 'n)" where
  "link h p q a n =
     (let h1 = h(a \<mapsto> n);
          h2 = (case p of None \<Rightarrow> h1 | Some b \<Rightarrow> h1(b \<mapsto> set_nx (Some a) (the (h1 b))))
      in case q of None \<Rightarrow> h2 | Some c \<Rightarrow> h2(c \<mapsto> set_pv (Some a) (the (h2 c))))"

theorem dll_link:
  assumes "dll nx pv h f (xs @ ys) l" "a \<notin> set xs" "a \<notin> set ys" "nx n = first_of ys" "pv n = last_of xs"
  shows "dll nx pv (link h (last_of xs) (first_of ys) a n) (if last_of xs = None then Some a else f) (xs @ a # ys)
    (if first_of ys = None then Some a else l)"
proof -
  note e = dll_ends [OF assms(1)]
  have d: "distinct xs" "distinct ys" "set xs \<inter> set ys = {}" using assms(1) by (auto simp: dll_def)
  let ?h1 = "h(a \<mapsto> n)"
  let ?h2 = "case last_of xs of None \<Rightarrow> ?h1 | Some b \<Rightarrow> ?h1(b \<mapsto> set_nx (Some a) (the (?h1 b)))"
  let ?h3 = "case first_of ys of None \<Rightarrow> ?h2 | Some c \<Rightarrow> ?h2(c \<mapsto> set_pv (Some a) (the (?h2 c)))"
  have l1: "dseg nx pv ?h2 None (if last_of xs = None then Some a else f) xs (Some a) (last_of xs)"
  proof (cases xs rule: rev_cases)
    case Nil
    then show ?thesis by simp
  next
    case (snoc zs b)
    have s1: "dseg nx pv ?h1 None f xs (first_of ys) (Some b)" using e(1) assms(2) snoc by simp
    obtain m where m: "?h1 b = Some m" using dseg_dom [OF s1, of b] snoc by auto
    have "dseg nx pv (?h1(b \<mapsto> set_nx (Some a) m)) None f xs (Some a) (Some b)"
      by (rule seg_set_after [OF s1 _ d(1) m]) (simp add: snoc)
    then show ?thesis using snoc m by simp
  qed
  have "List.last xs \<notin> set ys" if "xs \<noteq> []" using d(3) that by (metis disjoint_iff last_in_set)
  then have r1: "dseg nx pv ?h2 (last_of xs) (first_of ys) ys None l" using e(2) assms(3) by (cases "xs = []") (simp_all add: last_of_def)
  have r2: "dseg nx pv ?h3 (Some a) (first_of ys) ys None (if first_of ys = None then Some a else l)"
  proof (cases ys)
    case Nil
    then show ?thesis using r1 by simp
  next
    case (Cons c zs)
    obtain m where m: "?h2 c = Some m" using dseg_dom [OF r1, of c] Cons by auto
    have "dseg nx pv (?h2(c \<mapsto> set_pv (Some a) m)) (Some a) (Some c) ys None l"
      using seg_set_before [of ?h2 "last_of xs" c ys None l m "Some a"] r1 Cons d(2) m by simp
    then show ?thesis using Cons m by simp
  qed
  have l2: "dseg nx pv ?h3 None (if last_of xs = None then Some a else f) xs (Some a) (last_of xs)"
    using l1 d(3) by (cases ys) auto
  have "?h3 a = Some n" using assms(2,3) by (cases ys; cases xs rule: rev_cases) (auto simp: last_of_def)
  then show ?thesis using l2 r2 assms(2-5) d unfolding dll_def link_def Let_def by (auto simp: disjoint_iff)
qed

lemma link_other: "c \<notin> set xs \<Longrightarrow> c \<notin> set ys \<Longrightarrow> c \<noteq> a \<Longrightarrow> link h (last_of xs) (first_of ys) a n c = h c"
  by (cases ys) (auto simp: link_def Let_def last_of_def)

end

text \<open>
  A node with a payload that the writes of links leave alone. The payloads along a chain are the
  abstract value of the list.
\<close>

definition payloads :: "('n \<Rightarrow> 'p) \<Rightarrow> (addr \<rightharpoonup> 'n) \<Rightarrow> addr list \<Rightarrow> 'p list" where
  "payloads pay h xs = map (\<lambda>a. pay (the (h a))) xs"

lemma payloads_Nil [simp]: "payloads pay h [] = []"
  by (simp add: payloads_def)

lemma payloads_Cons: "payloads pay h (a # xs) = pay (the (h a)) # payloads pay h xs"
  by (simp add: payloads_def)

lemma payloads_append: "payloads pay h (xs @ ys) = payloads pay h xs @ payloads pay h ys"
  by (simp add: payloads_def)

lemma length_payloads [simp]: "length (payloads pay h xs) = length xs"
  by (simp add: payloads_def)

lemma payloads_frame [simp]: "a \<notin> set xs \<Longrightarrow> payloads pay (h(a := v)) xs = payloads pay h xs"
  by (auto simp: payloads_def)

locale dll_payload = dll_node nx pv set_nx set_pv
  for nx pv :: "'n \<Rightarrow> ptr" and set_nx set_pv +
  fixes pay :: "'n \<Rightarrow> 'p"
  assumes pay_set_nx [simp]: "pay (set_nx p n) = pay n"
    and pay_set_pv [simp]: "pay (set_pv p n) = pay n"
begin

lemma payloads_set_link:
  assumes "h b = Some m"
  shows "payloads pay (h(b \<mapsto> set_nx q m)) xs = payloads pay h xs"
    and "payloads pay (h(b \<mapsto> set_pv q m)) xs = payloads pay h xs"
  using assms by (auto simp: payloads_def)

lemma payloads_unlink:
  assumes "dll nx pv h f (xs @ a # ys) l" and "h a = Some n"
  shows "payloads pay (unlink h n) zs = payloads pay h zs"
proof -
  from assms have l: "dseg nx pv h None f xs (Some a) (pv n)"
    and r: "dseg nx pv h (Some a) (nx n) ys None l"
    by (auto elim!: dll_split)
  have p: "pv n = Some p \<Longrightarrow> \<exists>m. h p = Some m" for p
    using l by (cases xs rule: rev_cases) auto
  have q: "nx n = Some q \<Longrightarrow> \<exists>m. h q = Some m" for q
    using r by (cases ys) auto
  show ?thesis using p q
    by (auto simp: unlink_def Let_def payloads_def split: option.split)
qed

lemma payloads_append_link:
  assumes "dll nx pv h f xs l" and "a \<notin> set xs"
    and "h' = (case l of None \<Rightarrow> h | Some t \<Rightarrow> h(t \<mapsto> set_nx (Some a) (the (h t))))"
  shows "payloads pay (h'(a \<mapsto> n)) (xs @ [a]) = payloads pay h xs @ [pay n]"
  using assms by (auto simp: payloads_def split: option.split)

lemma payloads_link:
  assumes "dll nx pv h f (xs @ ys) l" "a \<notin> set xs" "a \<notin> set ys"
  shows "payloads pay (link h (last_of xs) (first_of ys) a n) (xs @ a # ys) = payloads pay h xs @ pay n # payloads pay h ys"
proof -
  have d: "\<exists>m. h b = Some m" if "b \<in> set xs \<union> set ys" for b using dll_dom [OF assms(1)] that by auto
  have "pay (the (link h (last_of xs) (first_of ys) a n b)) = (if b = a then pay n else pay (the (h b)))" for b
    using assms(2,3) by (cases ys) (auto simp: link_def Let_def last_of_def)
  then show ?thesis using assms(2,3) by (auto simp: payloads_def)
qed

end

section \<open>Elimination of results\<close>

lemma bind_SomeE: "f \<bind> g = Some r \<Longrightarrow> (\<And>v. f = Some v \<Longrightarrow> g v = Some r \<Longrightarrow> Q) \<Longrightarrow> Q"
  by (cases f) auto

lemma if_SomeE: "(if c then f else g) = Some r \<Longrightarrow> (c \<Longrightarrow> f = Some r \<Longrightarrow> Q) \<Longrightarrow> (\<not> c \<Longrightarrow> g = Some r \<Longrightarrow> Q) \<Longrightarrow> Q"
  by (cases c) auto

lemma case_option_SomeE:
  "(case x of None \<Rightarrow> f | Some y \<Rightarrow> g y) = Some r \<Longrightarrow> (x = None \<Longrightarrow> f = Some r \<Longrightarrow> Q) \<Longrightarrow> (\<And>y. x = Some y \<Longrightarrow> g y = Some r \<Longrightarrow> Q) \<Longrightarrow> Q"
  by (cases x) auto

section \<open>Spin locks\<close>

text \<open>
  A spin lock (\<^verbatim>\<open>include/cpu/lock.h\<close>) is its lock bit. Taking a lock that is already held by the
  running CPU never returns, which is \<open>None\<close>.
\<close>

definition spin_lock :: "bool \<Rightarrow> bool option" where
  "spin_lock l = (if l then None else Some True)"

definition spin_unlock :: "bool \<Rightarrow> bool" where
  "spin_unlock l = False"

lemma spin_lock_simps [simp]: "spin_lock False = Some True" "spin_unlock l = False"
  by (simp_all add: spin_lock_def spin_unlock_def)

end
