(* ===== verification/LockQueue.thy ===== *)
theory LockQueue
  imports Prelude
begin

text \<open>
  The locked, indexed queue of \<^verbatim>\<open>kernel/lock_queue.cpp\<close> (\<^verbatim>\<open>include/lock_queue.h\<close>), the container
  behind the scheduler's run queues, process and thread lists, message queues and descriptor
  tables: a doubly linked list of nodes in the kernel heap, each with an index unique in its
  queue, a tail pointer, a round-robin cursor and an element count.

  A queue argument is a \<open>lock_queue option\<close> (\<open>None\<close> for a \<open>NULL\<close> queue), the nodes live in a
  \<open>node_heap\<close>, and the result carries the new heap, the new queue and the C return value.
  The spin lock is a bit: acquiring it when it is set never returns (\<open>None\<close>), so a theorem that
  an operation returns a well-formed queue (which is unlocked) shows that every path of it
  releases the lock. The operations on one queue are atomic sections under that lock.
\<close>

section \<open>Data\<close>

record lock_node =
  ln_data :: ptr
  ln_next :: ptr
  ln_prev :: ptr
  ln_index :: u64

record lock_queue =
  lq_head :: ptr
  lq_tail :: ptr
  lq_rr_cursor :: ptr
  lq_lock :: bool
  lq_iter_lock :: bool
  lq_size :: u64
  lq_next_index :: u64

type_synonym node_heap = "addr \<rightharpoonup> lock_node"

abbreviation lock_q :: "lock_queue \<Rightarrow> lock_queue option" where
  "lock_q q \<equiv> map_option (\<lambda>l. q\<lparr>lq_lock := l\<rparr>) (spin_lock (lq_lock q))"

abbreviation unlock_q :: "lock_queue \<Rightarrow> lock_queue" where
  "unlock_q q \<equiv> q\<lparr>lq_lock := spin_unlock (lq_lock q)\<rparr>"

section \<open>Operations\<close>

text \<open>A fresh node. \<open>malloc\<close> leaves the index undefined; every path that links the node writes it.\<close>

abbreviation new_node :: "ptr \<Rightarrow> lock_node" where
  "new_node d \<equiv> \<lparr>ln_data = d, ln_next = None, ln_prev = None, ln_index = 0\<rparr>"

definition queue_append_node :: "node_heap \<Rightarrow> lock_queue \<Rightarrow> addr \<Rightarrow> (node_heap \<times> lock_queue) option" where
  "queue_append_node h q a = do {
     h \<leftarrow> upd h (Some a) (\<lambda>n. n\<lparr>ln_next := None\<rparr>);
     (h, q) \<leftarrow> (if lq_head q = None then do {
         h \<leftarrow> upd h (Some a) (\<lambda>n. n\<lparr>ln_prev := None\<rparr>);
         Some (h, q\<lparr>lq_head := Some a, lq_tail := Some a\<rparr>)
       } else do {
         h \<leftarrow> upd h (Some a) (\<lambda>n. n\<lparr>ln_prev := lq_tail q\<rparr>);
         h \<leftarrow> upd h (lq_tail q) (\<lambda>t. t\<lparr>ln_next := Some a\<rparr>);
         Some (h, q\<lparr>lq_tail := Some a\<rparr>)
       });
     let q = (if lq_rr_cursor q = None then q\<lparr>lq_rr_cursor := lq_head q\<rparr> else q);
     Some (h, q\<lparr>lq_size := lq_size q + 1\<rparr>)
   }"

text \<open>The writes that take a node out of the chain, the same text in both places that do it.\<close>

definition unlink_node :: "node_heap \<Rightarrow> lock_queue \<Rightarrow> lock_node \<Rightarrow> (node_heap \<times> lock_queue) option" where
  "unlink_node h q n = do {
     (h, q) \<leftarrow> (if ln_prev n \<noteq> None
        then do { h \<leftarrow> upd h (ln_prev n) (\<lambda>p. p\<lparr>ln_next := ln_next n\<rparr>); Some (h, q) }
        else Some (h, q\<lparr>lq_head := ln_next n\<rparr>));
     (if ln_next n \<noteq> None
        then do { h \<leftarrow> upd h (ln_next n) (\<lambda>s. s\<lparr>ln_prev := ln_prev n\<rparr>); Some (h, q) }
        else Some (h, q\<lparr>lq_tail := ln_prev n\<rparr>))
   }"

definition queue_remove_locked ::
  "node_heap \<Rightarrow> lock_queue option \<Rightarrow> ptr \<Rightarrow> (node_heap \<times> lock_queue option \<times> ptr) option" where
  "queue_remove_locked h qp node =
     (case qp of None \<Rightarrow> Some (h, None, None) | Some q \<Rightarrow>
     (case node of None \<Rightarrow> Some (h, Some q, None) | Some a \<Rightarrow> do {
        n \<leftarrow> h a;
        let next_cursor = (if ln_next n \<noteq> None then ln_next n else lq_head q);
        (h, q) \<leftarrow> unlink_node h q n;
        let q = (if lq_rr_cursor q = Some a
                 then q\<lparr>lq_rr_cursor := (if ln_next n \<noteq> None then ln_next n else lq_head q)\<rparr>
                 else q);
        let q = (if lq_head q = None then q\<lparr>lq_tail := None, lq_rr_cursor := None\<rparr>
                 else if lq_rr_cursor q = None
                 then q\<lparr>lq_rr_cursor := (if next_cursor \<noteq> None then next_cursor else lq_head q)\<rparr>
                 else q);
        n \<leftarrow> h a;
        let handle = ln_data n;
        h \<leftarrow> release h (Some a);
        Some (h, Some (q\<lparr>lq_size := lq_size q - 1\<rparr>), handle)
      }))"

definition queue_init :: "bool \<Rightarrow> lock_queue option" where
  "queue_init ok = (if ok then Some \<lparr>lq_head = None, lq_tail = None, lq_rr_cursor = None,
     lq_lock = False, lq_iter_lock = False, lq_size = 0, lq_next_index = 0\<rparr> else None)"

definition lock_queue_enqueue ::
  "node_heap \<Rightarrow> lock_queue option \<Rightarrow> ptr \<Rightarrow> ptr \<Rightarrow> (node_heap \<times> lock_queue option \<times> u64) option" where
  "lock_queue_enqueue h qp d m =
     (case qp of None \<Rightarrow> Some (h, None, SIZE_MAX) | Some q \<Rightarrow>
     (case m of None \<Rightarrow> Some (h, Some q, SIZE_MAX) | Some a \<Rightarrow> do {
        let h = h(a \<mapsto> new_node d);
        q \<leftarrow> lock_q q;
        if lq_next_index q = SIZE_MAX then do {
          h \<leftarrow> release h (Some a);
          Some (h, Some (unlock_q q), SIZE_MAX)
        } else do {
          let idx = lq_next_index q;
          let q = q\<lparr>lq_next_index := lq_next_index q + 1\<rparr>;
          h \<leftarrow> upd h (Some a) (\<lambda>n. n\<lparr>ln_index := idx\<rparr>);
          (h, q) \<leftarrow> queue_append_node h q a;
          Some (h, Some (unlock_q q), idx)
        }
      }))"

definition queue_enqueue ::
  "node_heap \<Rightarrow> lock_queue option \<Rightarrow> ptr \<Rightarrow> ptr \<Rightarrow> (node_heap \<times> lock_queue option \<times> u64) option" where
  "queue_enqueue h qp d m =
     (case qp of None \<Rightarrow> Some (h, None, SIZE_MAX) | Some q \<Rightarrow>
     (case m of None \<Rightarrow> Some (h, Some q, SIZE_MAX) | Some a \<Rightarrow> do {
        let h = h(a \<mapsto> new_node d);
        q \<leftarrow> lock_q q;
        if lq_next_index q = SIZE_MAX then do {
          h \<leftarrow> release h (Some a);
          Some (h, Some (unlock_q q), SIZE_MAX)
        } else do {
          let idx = lq_next_index q;
          let q = q\<lparr>lq_next_index := lq_next_index q + 1\<rparr>;
          h \<leftarrow> upd h (Some a) (\<lambda>n. n\<lparr>ln_index := idx\<rparr>);
          (h, q) \<leftarrow> queue_append_node h q a;
          Some (h, Some (unlock_q q), idx)
        }
      }))"

text \<open>The scan \<open>current = q->head; while (current != NULL) ...; current = current->next\<close>.\<close>

partial_function (option) queue_search ::
  "node_heap \<Rightarrow> (addr \<Rightarrow> lock_node \<Rightarrow> bool) \<Rightarrow> ptr \<Rightarrow> ptr option" where
  "queue_search h P current = (case current of None \<Rightarrow> Some None
     | Some a \<Rightarrow> (case h a of None \<Rightarrow> None
        | Some n \<Rightarrow> if P a n then Some (Some a) else queue_search h P (ln_next n)))"

partial_function (option) lowest_unused :: "node_heap \<Rightarrow> ptr \<Rightarrow> u64 \<Rightarrow> u64 option" where
  "lowest_unused h first i = do {
     used \<leftarrow> queue_search h (\<lambda>_ n. ln_index n = i) first;
     if used = None then Some i else lowest_unused h first (i + 1)
   }"

definition queue_enqueue_lowest ::
  "node_heap \<Rightarrow> lock_queue option \<Rightarrow> ptr \<Rightarrow> ptr \<Rightarrow> (node_heap \<times> lock_queue option \<times> u64) option" where
  "queue_enqueue_lowest h qp d m =
     (case qp of None \<Rightarrow> Some (h, None, SIZE_MAX) | Some q \<Rightarrow>
     (case m of None \<Rightarrow> Some (h, Some q, SIZE_MAX) | Some a \<Rightarrow> do {
        let h = h(a \<mapsto> new_node d);
        q \<leftarrow> lock_q q;
        i \<leftarrow> lowest_unused h (lq_head q) 0;
        if i = SIZE_MAX then do {
          h \<leftarrow> release h (Some a);
          Some (h, Some (unlock_q q), SIZE_MAX)
        } else do {
          h \<leftarrow> upd h (Some a) (\<lambda>n. n\<lparr>ln_index := i\<rparr>);
          (h, q) \<leftarrow> queue_append_node h q a;
          let q = (if i \<ge> lq_next_index q \<and> i \<noteq> SIZE_MAX then q\<lparr>lq_next_index := i + 1\<rparr> else q);
          Some (h, Some (unlock_q q), i)
        }
      }))"

definition queue_enqueue_ref ::
  "node_heap \<Rightarrow> lock_queue option \<Rightarrow> ptr \<Rightarrow> ptr
     \<Rightarrow> (node_heap \<times> lock_queue option \<times> u64 \<times> ptr) option" where
  "queue_enqueue_ref h qp d m =
     (case qp of None \<Rightarrow> Some (h, None, SIZE_MAX, None) | Some q \<Rightarrow>
     (case m of None \<Rightarrow> Some (h, Some q, SIZE_MAX, None) | Some a \<Rightarrow> do {
        let h = h(a \<mapsto> new_node d);
        q \<leftarrow> lock_q q;
        if lq_next_index q = SIZE_MAX then do {
          h \<leftarrow> release h (Some a);
          Some (h, Some (unlock_q q), SIZE_MAX, None)
        } else do {
          let idx = lq_next_index q;
          let q = q\<lparr>lq_next_index := lq_next_index q + 1\<rparr>;
          h \<leftarrow> upd h (Some a) (\<lambda>n. n\<lparr>ln_index := idx\<rparr>);
          (h, q) \<leftarrow> queue_append_node h q a;
          Some (h, Some (unlock_q q), idx, Some a)
        }
      }))"

definition queue_enqueue_preallocated ::
  "node_heap \<Rightarrow> lock_queue option \<Rightarrow> ptr \<Rightarrow> ptr
     \<Rightarrow> (node_heap \<times> lock_queue option \<times> u64 \<times> ptr \<times> u64 option) option" where
  "queue_enqueue_preallocated h qp d node =
     (case qp of None \<Rightarrow> Some (h, None, SIZE_MAX, None, None) | Some q \<Rightarrow>
     (case node of None \<Rightarrow> Some (h, Some q, SIZE_MAX, None, None) | Some a \<Rightarrow> do {
        q \<leftarrow> lock_q q;
        if lq_next_index q = SIZE_MAX then Some (h, Some (unlock_q q), SIZE_MAX, None, None)
        else do {
          let idx = lq_next_index q;
          let q = q\<lparr>lq_next_index := lq_next_index q + 1\<rparr>;
          h \<leftarrow> upd h (Some a) (\<lambda>n. n\<lparr>ln_data := d, ln_index := idx\<rparr>);
          (h, q) \<leftarrow> queue_append_node h q a;
          Some (h, Some (unlock_q q), idx, Some a, Some idx)
        }
      }))"

definition queue_detach_preallocated ::
  "node_heap \<Rightarrow> lock_queue option \<Rightarrow> ptr \<Rightarrow> (node_heap \<times> lock_queue option \<times> bool) option" where
  "queue_detach_preallocated h qp node =
     (case qp of None \<Rightarrow> Some (h, None, False) | Some q \<Rightarrow>
     (case node of None \<Rightarrow> Some (h, Some q, False) | Some a \<Rightarrow> do {
        q \<leftarrow> lock_q q;
        found \<leftarrow> queue_search h (\<lambda>b _. b = a) (lq_head q);
        if found = None then Some (h, Some (unlock_q q), False)
        else do {
          n \<leftarrow> h a;
          (h, q) \<leftarrow> unlink_node h q n;
          let q = (if lq_rr_cursor q = Some a
                   then q\<lparr>lq_rr_cursor := (if ln_next n \<noteq> None then ln_next n else lq_head q)\<rparr>
                   else q);
          h \<leftarrow> upd h (Some a) (\<lambda>n. n\<lparr>ln_next := None, ln_prev := None\<rparr>);
          Some (h, Some (unlock_q (q\<lparr>lq_size := lq_size q - 1\<rparr>)), True)
        }
      }))"

definition queue_enqueue_id ::
  "node_heap \<Rightarrow> lock_queue option \<Rightarrow> ptr \<Rightarrow> u64 \<Rightarrow> ptr
     \<Rightarrow> (node_heap \<times> lock_queue option \<times> u64) option" where
  "queue_enqueue_id h qp d i m =
     (case qp of None \<Rightarrow> Some (h, None, SIZE_MAX) | Some q \<Rightarrow>
      if i = SIZE_MAX then Some (h, Some q, SIZE_MAX) else
     (case m of None \<Rightarrow> Some (h, Some q, SIZE_MAX) | Some a \<Rightarrow> do {
        let h = h(a \<mapsto> new_node d);
        q \<leftarrow> lock_q q;
        used \<leftarrow> queue_search h (\<lambda>_ n. ln_index n = i) (lq_head q);
        if used \<noteq> None then do {
          h \<leftarrow> release h (Some a);
          Some (h, Some (unlock_q q), SIZE_MAX)
        } else do {
          h \<leftarrow> upd h (Some a) (\<lambda>n. n\<lparr>ln_index := i\<rparr>);
          (h, q) \<leftarrow> queue_append_node h q a;
          let q = (if i \<ge> lq_next_index q \<and> i \<noteq> SIZE_MAX then q\<lparr>lq_next_index := i + 1\<rparr> else q);
          Some (h, Some (unlock_q q), i)
        }
      }))"

text \<open>
  The source reads \<open>current->data\<close> after it has released the lock; the model reads it in the heap of the locked section,
  which is the same value as long as no other task frees the node in between.
\<close>

definition queue_get ::
  "node_heap \<Rightarrow> lock_queue option \<Rightarrow> u64 \<Rightarrow> (lock_queue option \<times> ptr) option" where
  "queue_get h qp i =
     (case qp of None \<Rightarrow> Some (None, None) | Some q \<Rightarrow> do {
        q \<leftarrow> lock_q q;
        current \<leftarrow> queue_search h (\<lambda>_ n. ln_index n = i) (lq_head q);
        case current of None \<Rightarrow> Some (Some (unlock_q q), None)
        | Some a \<Rightarrow> do { n \<leftarrow> h a; Some (Some (unlock_q q), ln_data n) }
      })"

definition queue_remove_at ::
  "node_heap \<Rightarrow> lock_queue option \<Rightarrow> u64 \<Rightarrow> (node_heap \<times> lock_queue option \<times> ptr) option" where
  "queue_remove_at h qp i =
     (case qp of None \<Rightarrow> Some (h, None, None) | Some q \<Rightarrow> do {
        q \<leftarrow> lock_q q;
        current \<leftarrow> queue_search h (\<lambda>_ n. ln_index n = i) (lq_head q);
        if current \<noteq> None then do {
          (h, qp, handle) \<leftarrow> queue_remove_locked h (Some q) current;
          Some (h, map_option unlock_q qp, handle)
        } else Some (h, Some (unlock_q q), None)
      })"

definition queue_remove_data ::
  "node_heap \<Rightarrow> lock_queue option \<Rightarrow> ptr \<Rightarrow> (node_heap \<times> lock_queue option \<times> ptr) option" where
  "queue_remove_data h qp d =
     (case qp of None \<Rightarrow> Some (h, None, None) | Some q \<Rightarrow>
      if d = None then Some (h, Some q, None) else do {
        q \<leftarrow> lock_q q;
        current \<leftarrow> queue_search h (\<lambda>_ n. ln_data n = d) (lq_head q);
        if current \<noteq> None then do {
          (h, qp, handle) \<leftarrow> queue_remove_locked h (Some q) current;
          Some (h, map_option unlock_q qp, handle)
        } else Some (h, Some (unlock_q q), None)
      })"

definition queue_remove_node ::
  "node_heap \<Rightarrow> lock_queue option \<Rightarrow> ptr \<Rightarrow> (node_heap \<times> lock_queue option \<times> ptr) option" where
  "queue_remove_node h qp node =
     (case qp of None \<Rightarrow> Some (h, None, None) | Some q \<Rightarrow>
     (case node of None \<Rightarrow> Some (h, Some q, None) | Some a \<Rightarrow> do {
        q \<leftarrow> lock_q q;
        current \<leftarrow> queue_search h (\<lambda>b _. b = a) (lq_head q);
        if current = None then Some (h, Some (unlock_q q), None)
        else do {
          (h, qp, handle) \<leftarrow> queue_remove_locked h (Some q) node;
          Some (h, map_option unlock_q qp, handle)
        }
      }))"

definition queue_dequeue ::
  "node_heap \<Rightarrow> lock_queue option \<Rightarrow> (node_heap \<times> lock_queue option \<times> ptr) option" where
  "queue_dequeue h qp = do {
     q \<leftarrow> qp;
     q \<leftarrow> lock_q q;
     case lq_head q of None \<Rightarrow> Some (h, Some (unlock_q q), None)
     | Some temp \<Rightarrow> do {
         n \<leftarrow> h temp;
         let q = q\<lparr>lq_head := ln_next n\<rparr>;
         h \<leftarrow> (if lq_head q \<noteq> None then upd h (lq_head q) (\<lambda>f. f\<lparr>ln_prev := None\<rparr>) else Some h);
         let q = (if lq_head q = None then q\<lparr>lq_tail := None\<rparr> else q);
         let q = (if lq_rr_cursor q = Some temp then q\<lparr>lq_rr_cursor := lq_head q\<rparr> else q);
         let q = unlock_q (q\<lparr>lq_size := lq_size q - 1\<rparr>);
         h \<leftarrow> release h (Some temp);
         Some (h, Some q, ln_data n)
       }
   }"

partial_function (option) free_nodes :: "node_heap \<Rightarrow> ptr \<Rightarrow> node_heap option" where
  "free_nodes h current = (case current of None \<Rightarrow> Some h
     | Some a \<Rightarrow> (case h a of None \<Rightarrow> None
        | Some n \<Rightarrow> free_nodes (h(a := None)) (ln_next n)))"

definition queue_destroy :: "node_heap \<Rightarrow> lock_queue option \<Rightarrow> node_heap option" where
  "queue_destroy h qp = do {
     q \<leftarrow> qp;
     q \<leftarrow> lock_q q;
     free_nodes h (lq_head q)
   }"

text \<open>
  The copying loop. \<open>ms\<close> are the results of the successive \<open>malloc\<close> calls (a list that has run out
  stands for calls that fail); the flag of the result is \<open>False\<close> when a \<open>malloc\<close> failed.
\<close>

partial_function (option) copy_nodes ::
  "node_heap \<Rightarrow> (ptr \<Rightarrow> ptr) option \<Rightarrow> ptr \<Rightarrow> lock_queue \<Rightarrow> ptr list
     \<Rightarrow> (node_heap \<times> lock_queue \<times> bool) option" where
  "copy_nodes h data_copy current new_q ms =
     (case current of None \<Rightarrow> Some (h, new_q, True) | Some c \<Rightarrow> do {
        n \<leftarrow> h c;
        case ms of [] \<Rightarrow> Some (h, new_q, False) | m # ms' \<Rightarrow>
        (case m of None \<Rightarrow> Some (h, new_q, False) | Some a \<Rightarrow> do {
           let new_node = \<lparr>ln_data = (case data_copy of None \<Rightarrow> ln_data n | Some f \<Rightarrow> f (ln_data n)),
                           ln_next = None, ln_prev = lq_tail new_q, ln_index = ln_index n\<rparr>;
           (h, new_q) \<leftarrow> (if lq_head new_q = None
              then Some (h(a \<mapsto> new_node\<lparr>ln_prev := None\<rparr>),
                         new_q\<lparr>lq_head := Some a, lq_tail := Some a\<rparr>)
              else do {
                h \<leftarrow> upd (h(a \<mapsto> new_node)) (lq_tail new_q) (\<lambda>t. t\<lparr>ln_next := Some a\<rparr>);
                Some (h, new_q\<lparr>lq_tail := Some a\<rparr>) });
           n \<leftarrow> h c;
           copy_nodes h data_copy (ln_next n) new_q ms'
         })
      })"

definition queue_copy ::
  "node_heap \<Rightarrow> lock_queue option \<Rightarrow> (ptr \<Rightarrow> ptr) option \<Rightarrow> bool \<Rightarrow> ptr list
     \<Rightarrow> (node_heap \<times> lock_queue option \<times> lock_queue option) option" where
  "queue_copy h srcp data_copy ok ms =
     (case srcp of None \<Rightarrow> Some (h, None, None) | Some src \<Rightarrow> do {
        src \<leftarrow> lock_q src;
        case queue_init ok of None \<Rightarrow> Some (h, Some (unlock_q src), None)
        | Some new_q \<Rightarrow> do {
            (h, new_q, done) \<leftarrow> copy_nodes h data_copy (lq_head src) new_q ms;
            if \<not> done then do {
              h \<leftarrow> queue_destroy h (Some new_q);
              Some (h, Some (unlock_q src), None)
            } else Some (h, Some (unlock_q src),
                Some (new_q\<lparr>lq_size := lq_size src, lq_next_index := lq_next_index src\<rparr>))
          }
      })"

partial_function (option) iterate_nodes ::
  "node_heap \<Rightarrow> (ptr \<Rightarrow> 's \<Rightarrow> 's) \<Rightarrow> ptr \<Rightarrow> 's \<Rightarrow> 's option" where
  "iterate_nodes h callback current s = (case current of None \<Rightarrow> Some s
     | Some a \<Rightarrow> (case h a of None \<Rightarrow> None
        | Some n \<Rightarrow> iterate_nodes h callback (ln_next n) (callback (ln_data n) s)))"

definition queue_iterate ::
  "node_heap \<Rightarrow> lock_queue option \<Rightarrow> (ptr \<Rightarrow> 's \<Rightarrow> 's) \<Rightarrow> 's \<Rightarrow> (lock_queue option \<times> 's) option" where
  "queue_iterate h qp callback s = do {
     q \<leftarrow> qp;
     q \<leftarrow> lock_q q;
     s \<leftarrow> iterate_nodes h callback (lq_head q) s;
     Some (Some (unlock_q q), s)
   }"

section \<open>Representation and invariant\<close>

text \<open>
  \<open>queue_at h q xs\<close>: the queue \<open>q\<close> is unlocked and its nodes are exactly \<open>xs\<close>, in order, with both
  links, the tail, the count and the cursor consistent; every index is used once and lies below
  \<open>next_index\<close>. The abstract value \<open>entries h xs\<close> is the list of (index, data) pairs.
\<close>

abbreviation ln_entry :: "lock_node \<Rightarrow> u64 \<times> ptr" where
  "ln_entry n \<equiv> (ln_index n, ln_data n)"

abbreviation entries :: "node_heap \<Rightarrow> addr list \<Rightarrow> (u64 \<times> ptr) list" where
  "entries \<equiv> payloads ln_entry"

definition queue_links :: "node_heap \<Rightarrow> lock_queue \<Rightarrow> addr list \<Rightarrow> bool" where
  "queue_links h q xs \<longleftrightarrow>
     dll ln_next ln_prev h (lq_head q) xs (lq_tail q) \<and>
     length xs < 2 ^ 64 \<and> lq_size q = of_nat (length xs) \<and>
     (\<forall>c. lq_rr_cursor q = Some c \<longrightarrow> c \<in> set xs)"

definition indices_ok :: "(u64 \<times> ptr) list \<Rightarrow> u64 \<Rightarrow> bool" where
  "indices_ok es nxt \<longleftrightarrow> distinct (map fst es) \<and> (\<forall>i \<in> set (map fst es). i < nxt)"

definition queue_at :: "node_heap \<Rightarrow> lock_queue \<Rightarrow> addr list \<Rightarrow> bool" where
  "queue_at h q xs \<longleftrightarrow> \<not> lq_lock q \<and> queue_links h q xs \<and> indices_ok (entries h xs) (lq_next_index q)"

interpretation lq: dll_payload ln_next ln_prev "\<lambda>p n. n\<lparr>ln_next := p\<rparr>" "\<lambda>p n. n\<lparr>ln_prev := p\<rparr>" ln_entry
  by unfold_locales simp_all

section \<open>Lemmas\<close>

lemma queue_search_seg:
  assumes "dseg ln_next ln_prev h b f xs None l"
  shows "queue_search h P f = Some (find (\<lambda>a. P a (the (h a))) xs)"
  using assms
proof (induction xs arbitrary: b f)
  case Nil
  then show ?case by (simp add: queue_search.simps)
next
  case (Cons a xs)
  then obtain n where "f = Some a" "h a = Some n" "dseg ln_next ln_prev h (Some a) (ln_next n) xs None l"
    by auto
  with Cons.IH [of "Some a" "ln_next n"] show ?case
    by (subst queue_search.simps) simp
qed

lemma queue_search_links [simp]:
  "queue_links h q xs \<Longrightarrow> queue_search h P (lq_head q) = Some (find (\<lambda>a. P a (the (h a))) xs)"
  by (auto simp: queue_links_def dll_def intro: queue_search_seg)

lemma queue_links_lock [simp]:
  "queue_links h (q\<lparr>lq_lock := l\<rparr>) xs = queue_links h q xs"
  "queue_links h (q\<lparr>lq_next_index := i\<rparr>) xs = queue_links h q xs"
  by (simp_all add: queue_links_def)

lemma queue_links_frame: "a \<notin> set xs \<Longrightarrow> queue_links (h(a := v)) q xs = queue_links h q xs"
  by (simp add: queue_links_def dll_frame)

lemma queue_links_dom: "queue_links h q xs \<Longrightarrow> a \<in> set xs \<Longrightarrow> \<exists>n. h a = Some n"
  unfolding queue_links_def by (blast intro: dll_dom)

lemma queue_links_fresh: "queue_links h q xs \<Longrightarrow> h a = None \<Longrightarrow> a \<notin> set xs"
  using queue_links_dom by fastforce

lemma indices_ok_length: "indices_ok es nxt \<Longrightarrow> length es \<le> unat nxt"
proof -
  assume ok: "indices_ok es nxt"
  have "distinct (map (unat \<circ> fst) es)"
    using ok by (simp add: indices_ok_def distinct_map inj_on_def comp_def unsigned_word_eqI)
  then have "length es = card (set (map (unat \<circ> fst) es))"
    using distinct_card by fastforce
  also have "\<dots> \<le> card {..<unat nxt}"
    using ok by (intro card_mono) (auto simp: indices_ok_def word_less_nat_alt)
  finally show ?thesis by simp
qed

lemma queue_append_node_spec:
  assumes links: "queue_links h q xs" and a: "a \<notin> set xs" and n: "h a = Some n"
    and len: "length xs + 1 < 2 ^ 64"
  shows "\<exists>h' q'. queue_append_node h q a = Some (h', q') \<and> queue_links h' q' (xs @ [a]) \<and>
    entries h' (xs @ [a]) = entries h xs @ [ln_entry n] \<and> lq_lock q' = lq_lock q \<and>
    lq_next_index q' = lq_next_index q \<and> unchanged_off (set (xs @ [a])) h h'"
proof -
  let ?n = "n\<lparr>ln_next := None, ln_prev := lq_tail q\<rparr>"
  let ?h = "case lq_tail q of None \<Rightarrow> h | Some t \<Rightarrow> h(t \<mapsto> (the (h t))\<lparr>ln_next := Some a\<rparr>)"
  let ?h' = "?h(a \<mapsto> ?n)"
  from links have d: "dll ln_next ln_prev h (lq_head q) xs (lq_tail q)"
    and sz: "lq_size q = of_nat (length xs)" and cur: "\<forall>c. lq_rr_cursor q = Some c \<longrightarrow> c \<in> set xs"
    by (auto simp: queue_links_def)
  have app: "dll ln_next ln_prev ?h' (if lq_head q = None then Some a else lq_head q) (xs @ [a]) (Some a)"
    by (rule lq.dll_append [OF d a]) auto
  have pay: "entries ?h' (xs @ [a]) = entries h xs @ [ln_entry ?n]"
    by (rule lq.payloads_append_link [OF d a]) auto
  have t: "t \<in> set xs \<and> t \<noteq> a \<and> (\<exists>m. h t = Some m)" if "lq_tail q = Some t" for t
  proof -
    from that d have "xs \<noteq> []" by auto
    with that d have "t = last xs" by (auto simp: dll_def dest: dseg_last)
    with \<open>xs \<noteq> []\<close> have "t \<in> set xs" by simp
    with dll_dom [OF d this] a show ?thesis by auto
  qed
  let ?q = "q\<lparr>lq_head := (if lq_head q = None then Some a else lq_head q), lq_tail := Some a,
     lq_rr_cursor := (if lq_rr_cursor q = None then (if lq_head q = None then Some a else lq_head q)
        else lq_rr_cursor q), lq_size := lq_size q + 1\<rparr>"
  have run: "queue_append_node h q a = Some (?h', ?q)"
  proof (cases "lq_head q")
    case None
    with dll_first_None [OF d] dll_last_None [OF d] have "lq_tail q = None" by auto
    with None n show ?thesis by (simp add: queue_append_node_def)
  next
    case (Some f)
    with dll_first_None [OF d] dll_last_None [OF d] have "lq_tail q \<noteq> None" by auto
    then obtain t where tl: "lq_tail q = Some t" by auto
    with t obtain m where "h t = Some m" "t \<noteq> a" by blast
    with Some tl n show ?thesis
      by (simp add: queue_append_node_def fun_upd_twist)
  qed
  have f: "lq_head q = Some f \<Longrightarrow> f \<in> set xs" for f
    using d by (cases xs) (auto simp: dll_def)
  have "queue_links ?h' ?q (xs @ [a])"
    using app sz len cur f by (auto simp: queue_links_def)
  moreover have "unchanged_off (set (xs @ [a])) h ?h'"
    using t by (auto simp: unchanged_off_def split: option.split)
  ultimately show ?thesis using run pay by auto
qed

lemma indices_ok_snoc:
  assumes "indices_ok es nxt" and "i \<notin> fst ` set es" and "i \<noteq> SIZE_MAX"
  shows "indices_ok (es @ [(i, d)]) (if nxt \<le> i then i + 1 else nxt)"
    and "length es + 1 < 2 ^ 64"
proof -
  have i: "i < i + 1" using assms(3) by (rule less_add_one_word)
  show ok: "indices_ok (es @ [(i, d)]) (if nxt \<le> i then i + 1 else nxt)"
    using assms(1,2) i by (auto simp: indices_ok_def)
  from indices_ok_length [OF ok] have "length es + 1 \<le> unat (if nxt \<le> i then i + 1 else nxt)"
    by simp
  also have "\<dots> < 2 ^ 64" by (rule unat_less_64)
  finally show "length es + 1 < 2 ^ 64" .
qed

lemma queue_at_frame: "a \<notin> set xs \<Longrightarrow> queue_at (h(a := v)) q xs = queue_at h q xs"
  by (simp add: queue_at_def queue_links_frame)

lemma queue_at_unused_index:
  "queue_at h q xs \<Longrightarrow> lq_next_index q \<notin> fst ` set (entries h xs)"
  by (fastforce simp: queue_at_def indices_ok_def)

text \<open>Publishing a node under a fresh index: the common core of all the enqueue operations.\<close>

lemma publish_node:
  assumes at: "queue_at h q xs" and a: "h a = None" and i: "i \<notin> fst ` set (entries h xs)" "i \<noteq> SIZE_MAX"
  shows "\<exists>h' q'. queue_append_node (h(a \<mapsto> n\<lparr>ln_index := i\<rparr>)) (q\<lparr>lq_lock := True, lq_next_index := nx\<rparr>) a
      = Some (h', q') \<and> queue_links h' q' (xs @ [a]) \<and>
    entries h' (xs @ [a]) = entries h xs @ [(i, ln_data n)] \<and> lq_next_index q' = nx \<and>
    unchanged_off (set (xs @ [a])) h h'"
proof -
  let ?h = "h(a \<mapsto> n\<lparr>ln_index := i\<rparr>)" and ?q = "q\<lparr>lq_lock := True, lq_next_index := nx\<rparr>"
  have fresh: "a \<notin> set xs" using at a queue_links_fresh by (auto simp: queue_at_def)
  have links: "queue_links ?h ?q xs"
    using at fresh by (simp add: queue_at_def queue_links_frame)
  have len: "length xs + 1 < 2 ^ 64"
    using indices_ok_snoc(2) [of "entries h xs" "lq_next_index q" i] at i by (simp add: queue_at_def)
  have n: "?h a = Some (n\<lparr>ln_index := i\<rparr>)" by simp
  from queue_append_node_spec [where h = ?h and a = a, OF links fresh n len] fresh show ?thesis
    by auto
qed

lemma queue_enqueue_spec:
  assumes at: "queue_at h q xs" and a: "h a = None" and nx: "lq_next_index q \<noteq> SIZE_MAX"
  shows "\<exists>h' q'. queue_enqueue h (Some q) d (Some a) = Some (h', Some q', lq_next_index q) \<and>
    queue_at h' q' (xs @ [a]) \<and> entries h' (xs @ [a]) = entries h xs @ [(lq_next_index q, d)] \<and>
    lq_next_index q' = lq_next_index q + 1 \<and> unchanged_off (set (xs @ [a])) h h'"
proof -
  let ?i = "lq_next_index q"
  note i = queue_at_unused_index [OF at]
  obtain h' q' where r: "queue_append_node (h(a \<mapsto> (new_node d)\<lparr>ln_index := ?i\<rparr>))
        (q\<lparr>lq_lock := True, lq_next_index := ?i + 1\<rparr>) a = Some (h', q')"
      "queue_links h' q' (xs @ [a])" "entries h' (xs @ [a]) = entries h xs @ [(?i, d)]"
      "lq_next_index q' = ?i + 1" "unchanged_off (set (xs @ [a])) h h'"
    using publish_node [OF at a i nx, of "new_node d" "?i + 1"] by fastforce
  have "queue_enqueue h (Some q) d (Some a) = Some (h', Some (unlock_q q'), ?i)"
    using r(1) at nx by (simp add: queue_enqueue_def queue_at_def)
  moreover have "queue_at h' (unlock_q q') (xs @ [a])"
    using r indices_ok_snoc(1) [of "entries h xs" ?i ?i d] at i nx
    by (simp add: queue_at_def)
  ultimately show ?thesis using r by auto
qed

lemma neighbours:
  assumes "dll ln_next ln_prev h f (xs @ a # ys) l" and "h a = Some n"
  shows "ln_prev n = Some p \<Longrightarrow> p \<in> set xs \<and> p \<noteq> a \<and> p \<notin> set ys \<and> (\<exists>m. h p = Some m)"
    and "ln_next n = Some s \<Longrightarrow> s \<in> set ys \<and> s \<noteq> a \<and> s \<notin> set xs \<and> (\<exists>m. h s = Some m)"
    and "ln_prev n = None \<longleftrightarrow> xs = []"
    and "ln_next n = None \<longleftrightarrow> ys = []"
proof -
  from assms have l: "dseg ln_next ln_prev h None f xs (Some a) (ln_prev n)"
    and r: "dseg ln_next ln_prev h (Some a) (ln_next n) ys None l"
    and d: "distinct (xs @ a # ys)"
    by (auto elim!: dll_split)
  show "ln_prev n = Some p \<Longrightarrow> p \<in> set xs \<and> p \<noteq> a \<and> p \<notin> set ys \<and> (\<exists>m. h p = Some m)"
    using l d by (cases xs rule: rev_cases) auto
  show "ln_next n = Some s \<Longrightarrow> s \<in> set ys \<and> s \<noteq> a \<and> s \<notin> set xs \<and> (\<exists>m. h s = Some m)"
    using r d by (cases ys) auto
  show "ln_prev n = None \<longleftrightarrow> xs = []" using l by (cases xs rule: rev_cases) auto
  show "ln_next n = None \<longleftrightarrow> ys = []" using r by (cases ys) auto
qed

lemma unlink_node_spec:
  assumes d: "dll ln_next ln_prev h f (xs @ a # ys) l" and n: "h a = Some n"
  shows "unlink_node h q n = Some (lq.unlink h n,
     q\<lparr>lq_head := (if ln_prev n = None then ln_next n else lq_head q),
       lq_tail := (if ln_next n = None then ln_prev n else lq_tail q)\<rparr>)"
  using neighbours [OF d n]
  by (cases "ln_prev n"; cases "ln_next n") (auto simp: unlink_node_def lq.unlink_def)

lemma queue_remove_locked_spec:
  assumes links: "queue_links h q (xs @ a # ys)" and n: "h a = Some n"
  shows "\<exists>h' q'. queue_remove_locked h (Some q) (Some a) = Some (h', Some q', ln_data n) \<and>
    queue_links h' q' (xs @ ys) \<and> entries h' (xs @ ys) = entries h (xs @ ys) \<and> h' a = None \<and>
    lq_lock q' = lq_lock q \<and> lq_next_index q' = lq_next_index q \<and>
    unchanged_off (set (xs @ a # ys)) h h'"
proof -
  from links have d: "dll ln_next ln_prev h (lq_head q) (xs @ a # ys) (lq_tail q)"
    and len: "length (xs @ a # ys) < 2 ^ 64" and sz: "lq_size q = of_nat (length (xs @ a # ys))"
    and cur: "\<forall>c. lq_rr_cursor q = Some c \<longrightarrow> c \<in> set (xs @ a # ys)"
    by (auto simp: queue_links_def)
  let ?h = "lq.unlink h n"
  let ?q = "q\<lparr>lq_head := (if ln_prev n = None then ln_next n else lq_head q),
              lq_tail := (if ln_next n = None then ln_prev n else lq_tail q)\<rparr>"
  note nb = neighbours [OF d n]
  have a: "a \<notin> set (xs @ ys)" using d by (auto simp: dll_def)
  have ha: "?h a = Some n" using lq.unlink_other [OF d n] a n by simp
  have dl: "dll ln_next ln_prev (?h(a := None)) (lq_head ?q) (xs @ ys) (lq_tail ?q)"
    using lq.dll_unlink [OF d n] a by (simp add: dll_frame)
  have hd: "lq_head ?q = Some f \<Longrightarrow> f \<in> set (xs @ ys)" for f
    using dl by (cases "xs @ ys") (auto simp: dll_def)
  have none: "lq_head ?q = None \<longleftrightarrow> xs @ ys = []" using dl by (rule dll_first_None)
  define q1 where "q1 = (if lq_rr_cursor ?q = Some a
      then ?q\<lparr>lq_rr_cursor := (if ln_next n \<noteq> None then ln_next n else lq_head ?q)\<rparr> else ?q)"
  define nc where "nc = (if ln_next n \<noteq> None then ln_next n else lq_head q)"
  define q2 where "q2 = (if lq_head q1 = None then q1\<lparr>lq_tail := None, lq_rr_cursor := None\<rparr>
      else if lq_rr_cursor q1 = None
      then q1\<lparr>lq_rr_cursor := (if nc \<noteq> None then nc else lq_head q1)\<rparr> else q1)"
  have run: "queue_remove_locked h (Some q) (Some a) =
      Some (?h(a := None), Some (q2\<lparr>lq_size := lq_size q2 - 1\<rparr>), ln_data n)"
    unfolding queue_remove_locked_def q2_def q1_def nc_def
    by (auto simp add: n Let_def unlink_node_spec [OF d n] ha)
  have q12: "lq_head q2 = lq_head ?q" "lq_size q2 = lq_size q" "lq_lock q2 = lq_lock q"
      "lq_next_index q2 = lq_next_index q" "lq_tail q2 = lq_tail ?q"
    using none dl by (auto simp: q2_def q1_def)
  have nc_in: "nc = Some c \<Longrightarrow> c \<in> set (xs @ ys)" if "xs @ ys \<noteq> []" for c
    using that nb(2,4) d by (cases xs) (auto simp: nc_def dll_def split: if_splits)
  have cur2: "lq_rr_cursor q2 = Some c \<Longrightarrow> c \<in> set (xs @ ys)" for c
    using cur hd nc_in none nb(2) by (auto simp: q2_def q1_def split: if_splits)
  have "queue_links (?h(a := None)) (q2\<lparr>lq_size := lq_size q2 - 1\<rparr>) (xs @ ys)"
    using dl q12 len sz cur2 by (auto simp: queue_links_def)
  moreover have "entries (?h(a := None)) (xs @ ys) = entries h (xs @ ys)"
    using a lq.payloads_unlink [OF d n] by simp
  moreover have "unchanged_off (set (xs @ a # ys)) h (?h(a := None))"
    using lq.unlink_other [OF d n] by (auto simp: unchanged_off_def)
  ultimately show ?thesis using run q12 by auto
qed

lemma indices_ok_sub:
  "indices_ok (es @ e # fs) nxt \<Longrightarrow> indices_ok (es @ fs) nxt"
  by (auto simp: indices_ok_def)

lemma queue_remove_spec:
  assumes at: "queue_at h q (xs @ a # ys)"
  shows "\<exists>h' q'. queue_remove_locked h (Some (q\<lparr>lq_lock := True\<rparr>)) (Some a)
      = Some (h', Some q', ln_data (the (h a))) \<and> queue_at h' (unlock_q q') (xs @ ys) \<and>
    entries h' (xs @ ys) = entries h (xs @ ys) \<and> lq_next_index q' = lq_next_index q \<and> h' a = None \<and>
    unchanged_off (set (xs @ a # ys)) h h'"
proof -
  from at have links: "queue_links h (q\<lparr>lq_lock := True\<rparr>) (xs @ a # ys)" by (simp add: queue_at_def)
  obtain n where n: "h a = Some n" using queue_links_dom [OF links, of a] by auto
  have "indices_ok (entries h (xs @ ys)) (lq_next_index q)"
    using at by (auto simp: queue_at_def payloads_append payloads_Cons dest: indices_ok_sub)
  with queue_remove_locked_spec [OF links n] n show ?thesis
    by (fastforce simp: queue_at_def)
qed

lemma queue_dequeue_spec:
  assumes at: "queue_at h q (a # ys)"
  shows "\<exists>h' q'. queue_dequeue h (Some q) = Some (h', Some q', ln_data (the (h a))) \<and>
    queue_at h' q' ys \<and> entries h' ys = entries h ys \<and> lq_next_index q' = lq_next_index q \<and>
    h' a = None \<and> unchanged_off (set (a # ys)) h h'"
proof -
  from at have d: "dll ln_next ln_prev h (lq_head q) ([] @ a # ys) (lq_tail q)"
    and sz: "lq_size q = of_nat (length (a # ys))" and len: "length (a # ys) < 2 ^ 64"
    and cur: "\<forall>c. lq_rr_cursor q = Some c \<longrightarrow> c \<in> set (a # ys)" and l: "\<not> lq_lock q"
    and ix: "indices_ok (entries h (a # ys)) (lq_next_index q)"
    by (auto simp: queue_at_def queue_links_def)
  obtain n where n: "h a = Some n" using dll_dom [OF d, of a] by auto
  note nb = neighbours [OF d n]
  have hd: "lq_head q = Some a" using d by (simp add: dll_def)
  have a: "a \<notin> set ys" using d by (auto simp: dll_def)
  have pv: "ln_prev n = None" using nb(3) by simp
  let ?h = "lq.unlink h n"
  have h: "?h = (case ln_next n of None \<Rightarrow> h | Some s \<Rightarrow> h(s \<mapsto> (the (h s))\<lparr>ln_prev := None\<rparr>))"
    by (cases "ln_next n") (simp_all add: lq.unlink_def pv)
  have ha: "?h a = Some n" using lq.unlink_other [OF d n] a n by simp
  have tl: "lq_tail q = None \<longleftrightarrow> False" using dll_last_None [OF d] by simp
  let ?q = "q\<lparr>lq_head := ln_next n, lq_tail := (if ln_next n = None then None else lq_tail q),
     lq_rr_cursor := (if lq_rr_cursor q = Some a then ln_next n else lq_rr_cursor q),
     lq_size := lq_size q - 1\<rparr>"
  have run: "queue_dequeue h (Some q) = Some (?h(a := None), Some (?q\<lparr>lq_lock := False\<rparr>), ln_data n)"
    using l hd n h nb(2) by (cases "ln_next n") (auto simp: queue_dequeue_def Let_def)
  have "dll ln_next ln_prev (?h(a := None)) (lq_head ?q) ys (lq_tail ?q)"
    using lq.dll_unlink [OF d n] a pv by (cases "ln_next n") (simp_all add: dll_frame)
  moreover have "lq_rr_cursor ?q = Some c \<Longrightarrow> c \<in> set ys" for c
    using cur nb(2) by (auto split: if_splits)
  moreover have e: "entries (?h(a := None)) ys = entries h ys"
    using a lq.payloads_unlink [OF d n] by simp
  moreover have "indices_ok (entries h ys) (lq_next_index q)"
    using ix by (simp add: payloads_Cons indices_ok_def)
  ultimately have "queue_at (?h(a := None)) (?q\<lparr>lq_lock := False\<rparr>) ys"
    using sz len by (auto simp: queue_at_def queue_links_def)
  moreover have "unchanged_off (set (a # ys)) h (?h(a := None))"
    using lq.unlink_other [OF d n] by (auto simp: unchanged_off_def)
  ultimately show ?thesis using run e n by auto
qed

lemma queue_dequeue_empty:
  "queue_at h q [] \<Longrightarrow> queue_dequeue h (Some q) = Some (h, Some q, None)"
  by (simp add: queue_dequeue_def queue_at_def queue_links_def)

lemma find_index_map_of:
  "map_of (entries h xs) i =
     map_option (\<lambda>a. ln_data (the (h a))) (find (\<lambda>a. ln_index (the (h a)) = i) xs)"
  by (induction xs) (auto simp: payloads_Cons)

lemma find_index_None:
  "find (\<lambda>a. ln_index (the (h a)) = i) xs = None \<longleftrightarrow> i \<notin> fst ` set (entries h xs)"
  by (induction xs) (auto simp: payloads_Cons)

lemma find_split:
  "find P xs = Some a \<Longrightarrow> \<exists>us vs. xs = us @ a # vs \<and> P a \<and> (\<forall>u \<in> set us. \<not> P u)"
  by (induction xs) (auto split: if_splits, metis append_Nil list.set(1) empty_iff,
      metis append_Cons set_ConsD)

text \<open>The lowest unused index.\<close>

lemma lowest_unused_run:
  assumes links: "queue_links h q xs" and j: "j \<notin> fst ` set (entries h xs)"
    and used: "\<And>k. k < j \<Longrightarrow> k \<in> fst ` set (entries h xs)" and "i \<le> j"
  shows "lowest_unused h (lq_head q) i = Some j"
  using \<open>i \<le> j\<close>
proof (induction "unat j - unat i" arbitrary: i)
  case 0
  then have "i = j" by (simp add: word_le_nat_alt word_unat_eq_iff)
  have "find (\<lambda>a. ln_index (the (h a)) = j) xs = None"
    using j by (simp add: find_index_None)
  with \<open>i = j\<close> show ?case
    by (subst lowest_unused.simps) (simp add: queue_search_links [OF links])
next
  case (Suc m)
  then have lt: "i < j" by (simp add: word_less_nat_alt)
  with used have "i \<in> fst ` set (entries h xs)" by blast
  then have "find (\<lambda>a. ln_index (the (h a)) = i) xs \<noteq> None"
    by (simp add: find_index_None)
  moreover have "i \<noteq> - 1" using lt word_n1_ge [of j] by (auto simp: not_less)
  then have "unat (i + 1) = unat i + 1" by (rule unat_add_one_word)
  with Suc.hyps(2) lt have "m = unat j - unat (i + 1)" "i + 1 \<le> j"
    by (auto simp: word_less_nat_alt word_le_nat_alt)
  then have "lowest_unused h (lq_head q) (i + 1) = Some j" by (rule Suc.hyps(1))
  ultimately show ?case
    by (subst lowest_unused.simps) (auto simp: queue_search_links [OF links])
qed

end
