(* ===== verification/LockQueueSpec.thy ===== *)
theory LockQueueSpec
  imports LockQueue
begin

text \<open>
  What the locked queue promises to its clients: an abstract queue (a list of (index, data) pairs
  and the next index), the operations on it, and the theorem that the pointer code refines it.
  Copying, destroying and iterating a queue are related to the same list.
\<close>

section \<open>The abstract queue\<close>

datatype queue_op =
    Enqueue ptr ptr
  | EnqueueLowest ptr ptr
  | EnqueueId ptr u64 ptr
  | RemoveAt u64
  | RemoveData ptr
  | Dequeue
  | Get u64

datatype queue_res = RIndex u64 | RData ptr

type_synonym aqueue = "(u64 \<times> ptr) list \<times> u64"

definition remove_first :: "('e \<Rightarrow> bool) \<Rightarrow> 'e list \<Rightarrow> 'e list" where
  "remove_first P es = takeWhile (\<lambda>e. \<not> P e) es @ tl (dropWhile (\<lambda>e. \<not> P e) es)"

definition lowest_free :: "(u64 \<times> ptr) list \<Rightarrow> u64" where
  "lowest_free es = (LEAST i. i \<notin> fst ` set es)"

definition spec_insert :: "aqueue \<Rightarrow> u64 \<Rightarrow> ptr \<Rightarrow> ptr \<Rightarrow> aqueue \<times> queue_res" where
  "spec_insert aq i d m =
     (if m = None \<or> i = SIZE_MAX \<or> i \<in> fst ` set (fst aq) then (aq, RIndex SIZE_MAX)
      else ((fst aq @ [(i, d)], if snd aq \<le> i then i + 1 else snd aq), RIndex i))"

definition spec_lookup :: "aqueue \<Rightarrow> u64 \<Rightarrow> queue_res" where
  "spec_lookup aq i = RData (case map_of (fst aq) i of None \<Rightarrow> None | Some d \<Rightarrow> d)"

fun spec_step :: "aqueue \<Rightarrow> queue_op \<Rightarrow> aqueue \<times> queue_res" where
  "spec_step aq (Enqueue d m) = spec_insert aq (snd aq) d m"
| "spec_step aq (EnqueueLowest d m) = spec_insert aq (lowest_free (fst aq)) d m"
| "spec_step aq (EnqueueId d i m) = spec_insert aq i d m"
| "spec_step aq (RemoveAt i) = ((filter (\<lambda>e. fst e \<noteq> i) (fst aq), snd aq), spec_lookup aq i)"
| "spec_step aq (RemoveData d) =
     (if d \<noteq> None \<and> d \<in> snd ` set (fst aq)
      then ((remove_first (\<lambda>e. snd e = d) (fst aq), snd aq), RData d) else (aq, RData None))"
| "spec_step aq Dequeue =
     (case fst aq of [] \<Rightarrow> (aq, RData None) | e # es \<Rightarrow> ((es, snd aq), RData (snd e)))"
| "spec_step aq (Get i) = (aq, spec_lookup aq i)"

text \<open>The code, one operation at a time, on a queue that exists.\<close>

fun queue_step :: "node_heap \<Rightarrow> lock_queue \<Rightarrow> queue_op \<Rightarrow> (node_heap \<times> lock_queue option \<times> queue_res) option" where
  "queue_step h q (Enqueue d m) = do { (h, q, i) \<leftarrow> queue_enqueue h (Some q) d m; Some (h, q, RIndex i) }"
| "queue_step h q (EnqueueLowest d m) =
     do { (h, q, i) \<leftarrow> queue_enqueue_lowest h (Some q) d m; Some (h, q, RIndex i) }"
| "queue_step h q (EnqueueId d i m) =
     do { (h, q, i) \<leftarrow> queue_enqueue_id h (Some q) d i m; Some (h, q, RIndex i) }"
| "queue_step h q (RemoveAt i) = do { (h, q, d) \<leftarrow> queue_remove_at h (Some q) i; Some (h, q, RData d) }"
| "queue_step h q (RemoveData d) = do { (h, q, d) \<leftarrow> queue_remove_data h (Some q) d; Some (h, q, RData d) }"
| "queue_step h q Dequeue = do { (h, q, d) \<leftarrow> queue_dequeue h (Some q); Some (h, q, RData d) }"
| "queue_step h q (Get i) = do { (q, d) \<leftarrow> queue_get h (Some q) i; Some (h, q, RData d) }"

fun op_malloc :: "queue_op \<Rightarrow> ptr" where
  "op_malloc (Enqueue d m) = m"
| "op_malloc (EnqueueLowest d m) = m"
| "op_malloc (EnqueueId d i m) = m"
| "op_malloc _ = None"

text \<open>
  \<open>queue_steps_to h xs h' q' xs'\<close>: afterwards the queue is well formed with nodes \<open>xs'\<close>, and the
  rest of the heap is the same map as before: no other node has changed, the nodes that joined
  the queue were free, and the nodes that left it were freed.
\<close>

definition queue_steps_to ::
  "node_heap \<Rightarrow> addr list \<Rightarrow> node_heap \<Rightarrow> lock_queue \<Rightarrow> addr list \<Rightarrow> bool" where
  "queue_steps_to h xs h' q' xs' \<longleftrightarrow> queue_at h' q' xs' \<and> h' |` (- set xs') = h |` (- set xs)"

section \<open>Refinement\<close>

lemma steps_to_refl: "queue_at h q xs \<Longrightarrow> queue_steps_to h xs h q xs"
  by (simp add: queue_steps_to_def)

lemma steps_to_insert:
  assumes "h a = None" and "queue_at h' q' (xs @ [a])" and "unchanged_off (set (xs @ [a])) h h'"
  shows "queue_steps_to h xs h' q' (xs @ [a])"
  using assms by (auto simp: queue_steps_to_def unchanged_off_def restrict_map_def fun_eq_iff)

lemma steps_to_remove:
  assumes "h' a = None" and "queue_at h' q' (us @ vs)" and "unchanged_off (set (us @ a # vs)) h h'"
    and "a \<notin> set (us @ vs)"
  shows "queue_steps_to h (us @ a # vs) h' q' (us @ vs)"
  using assms by (auto simp: queue_steps_to_def unchanged_off_def restrict_map_def fun_eq_iff)

text \<open>An insertion at an index that is free ends in the state \<^const>\<open>spec_insert\<close> describes.\<close>

lemma insert_refines:
  assumes at: "queue_at h q xs" and a: "h a = None" and i: "i \<notin> fst ` set (entries h xs)" "i \<noteq> SIZE_MAX"
    and nx: "nx = (if lq_next_index q \<le> i then i + 1 else lq_next_index q)"
    and nx': "nx' = nx \<or> nx' = lq_next_index q"
  shows "\<exists>h' q'. queue_append_node (h(a \<mapsto> n\<lparr>ln_index := i\<rparr>)) (q\<lparr>lq_lock := True, lq_next_index := nx'\<rparr>) a
      = Some (h', q') \<and> lq_next_index q' = nx' \<and>
    queue_steps_to h xs h' (q'\<lparr>lq_lock := False, lq_next_index := nx\<rparr>) (xs @ [a]) \<and>
    entries h' (xs @ [a]) = entries h xs @ [(i, ln_data n)]"
proof -
  obtain h' q' where r: "queue_append_node (h(a \<mapsto> n\<lparr>ln_index := i\<rparr>))
        (q\<lparr>lq_lock := True, lq_next_index := nx'\<rparr>) a = Some (h', q')"
      "queue_links h' q' (xs @ [a])" "entries h' (xs @ [a]) = entries h xs @ [(i, ln_data n)]"
      "lq_next_index q' = nx'" "unchanged_off (set (xs @ [a])) h h'"
    using publish_node [OF at a i, of n nx'] by blast
  have "queue_at h' (q'\<lparr>lq_lock := False, lq_next_index := nx\<rparr>) (xs @ [a])"
    using r at i indices_ok_snoc(1) [of "entries h xs" "lq_next_index q" i "ln_data n"]
    by (simp add: queue_at_def nx)
  from steps_to_insert [OF a this r(5)] r show ?thesis by auto
qed

lemma heap_upd_None [simp]: "h a = None \<Longrightarrow> h(a := None) = h"
  by (rule fun_upd_idem)

lemma release_new [simp]: "h a = None \<Longrightarrow> release (h(a \<mapsto> n)) (Some a) = Some h"
  by (auto simp: release_def fun_upd_idem)

lemma queue_search_off [simp]:
  "queue_links h q xs \<Longrightarrow> h a = None \<Longrightarrow>
     queue_search (h(a \<mapsto> n)) P (lq_head q) = Some (find (\<lambda>b. P b (the ((h(a \<mapsto> n)) b))) xs)"
  using queue_search_links [of "h(a \<mapsto> n)" q xs P] queue_links_fresh queue_links_frame by blast

lemma lowest_free_unused:
  assumes "queue_at h q xs"
  shows "lowest_free (entries h xs) \<notin> fst ` set (entries h xs)"
    and "k < lowest_free (entries h xs) \<Longrightarrow> k \<in> fst ` set (entries h xs)"
  unfolding lowest_free_def
  by (rule LeastI [where P = "\<lambda>i. i \<notin> fst ` set (entries h xs)", OF queue_at_unused_index [OF assms]])
    (use not_less_Least in blast)

lemma find_off: "a \<notin> set xs \<Longrightarrow> find (\<lambda>b. P (the ((h(a \<mapsto> n)) b))) xs = find (\<lambda>b. P (the (h b))) xs"
  by (induction xs) auto

definition step_refines :: "node_heap \<Rightarrow> lock_queue \<Rightarrow> addr list \<Rightarrow> queue_op \<Rightarrow> bool" where
  "step_refines h q xs op \<longleftrightarrow> (\<exists>h' q' xs' r. queue_step h q op = Some (h', Some q', r) \<and>
     queue_steps_to h xs h' q' xs' \<and>
     ((entries h' xs', lq_next_index q'), r) = spec_step (entries h xs, lq_next_index q) op)"

lemma step_refines_same:
  assumes "queue_at h q xs" and "queue_step h q op = Some (h, Some q, r)"
    and "spec_step (entries h xs, lq_next_index q) op = ((entries h xs, lq_next_index q), r)"
  shows "step_refines h q xs op"
  unfolding step_refines_def using assms steps_to_refl by force

lemma lq_update_same [simp]:
  "q\<lparr>lq_lock := l, lq_next_index := lq_next_index q\<rparr> = q\<lparr>lq_lock := l\<rparr>"
  "q\<lparr>lq_lock := lq_lock q\<rparr> = q" "\<not> lq_lock q \<Longrightarrow> q\<lparr>lq_lock := False\<rparr> = q"
  by (cases q; simp)+

lemma enqueue_refines:
  assumes at: "queue_at h q xs" and m: "\<And>a. m = Some a \<Longrightarrow> h a = None"
  shows "step_refines h q xs (Enqueue d m)"
proof (cases "m = None \<or> lq_next_index q = SIZE_MAX")
  case True
  with at m show ?thesis
    by (intro step_refines_same) (auto simp: queue_enqueue_def spec_insert_def queue_at_def split: option.split)
next
  case False
  then obtain a where a: "m = Some a" "h a = None" and nx: "lq_next_index q \<noteq> SIZE_MAX" using m by auto
  note i = queue_at_unused_index [OF at]
  obtain h' q' where "queue_append_node (h(a \<mapsto> (new_node d)\<lparr>ln_index := lq_next_index q\<rparr>))
        (q\<lparr>lq_lock := True, lq_next_index := lq_next_index q + 1\<rparr>) a = Some (h', q')"
      "lq_next_index q' = lq_next_index q + 1"
      "queue_steps_to h xs h' (q'\<lparr>lq_lock := False, lq_next_index := lq_next_index q + 1\<rparr>) (xs @ [a])"
      "entries h' (xs @ [a]) = entries h xs @ [(lq_next_index q, d)]"
    using insert_refines [OF at a(2) i nx refl, of "lq_next_index q + 1" "new_node d"] by auto
  moreover from this have "q'\<lparr>lq_lock := False, lq_next_index := lq_next_index q + 1\<rparr> = unlock_q q'"
    by (cases q') simp
  ultimately show ?thesis
    using at a nx i unfolding step_refines_def
    by (intro exI [of _ h'] exI [of _ "unlock_q q'"] exI [of _ "xs @ [a]"] exI [of _ "RIndex (lq_next_index q)"])
      (auto simp: queue_enqueue_def queue_at_def spec_insert_def)
qed

text \<open>The two insertions at a chosen index share the tail of their code.\<close>

lemma insert_at_refines:
  assumes at: "queue_at h q xs" and a: "h a = None" and i: "i \<notin> fst ` set (entries h xs)" "i \<noteq> SIZE_MAX"
    and run: "queue_step h q op = do {
        (h, q) \<leftarrow> queue_append_node (h(a \<mapsto> (new_node d)\<lparr>ln_index := i\<rparr>)) (q\<lparr>lq_lock := True\<rparr>) a;
        let q = (if i \<ge> lq_next_index q \<and> i \<noteq> SIZE_MAX then q\<lparr>lq_next_index := i + 1\<rparr> else q);
        Some (h, Some (unlock_q q), RIndex i) }"
    and spec: "spec_step (entries h xs, lq_next_index q) op = spec_insert (entries h xs, lq_next_index q) i d (Some a)"
  shows "step_refines h q xs op"
proof -
  let ?nx = "if lq_next_index q \<le> i then i + 1 else lq_next_index q"
  obtain h' q' where r: "queue_append_node (h(a \<mapsto> (new_node d)\<lparr>ln_index := i\<rparr>)) (q\<lparr>lq_lock := True\<rparr>) a = Some (h', q')"
      "lq_next_index q' = lq_next_index q"
      "queue_steps_to h xs h' (q'\<lparr>lq_lock := False, lq_next_index := ?nx\<rparr>) (xs @ [a])"
      "entries h' (xs @ [a]) = entries h xs @ [(i, d)]"
    using insert_refines [OF at a i refl, of "lq_next_index q" "new_node d"] by auto
  define qf where "qf = q'\<lparr>lq_lock := False, lq_next_index := ?nx\<rparr>"
  have "unlock_q (if i \<ge> lq_next_index q' \<and> i \<noteq> SIZE_MAX then q'\<lparr>lq_next_index := i + 1\<rparr> else q') = qf"
    using r(2) i by (cases q') (simp add: qf_def)
  then have "queue_step h q op = Some (h', Some qf, RIndex i)"
    unfolding run r(1) by (simp add: Let_def)
  moreover have "queue_steps_to h xs h' qf (xs @ [a])" "lq_next_index qf = ?nx"
    using r(3) by (simp_all add: qf_def)
  ultimately show ?thesis
    using spec i r(4) unfolding step_refines_def by (auto simp: spec_insert_def)
qed

lemma enqueue_lowest_refines:
  assumes at: "queue_at h q xs" and m: "\<And>a. m = Some a \<Longrightarrow> h a = None"
  shows "step_refines h q xs (EnqueueLowest d m)"
proof -
  let ?i = "lowest_free (entries h xs)"
  note free = lowest_free_unused [OF at]
  from at have l: "queue_links h q xs" "\<not> lq_lock q" by (auto simp: queue_at_def)
  have low: "lowest_unused (h(a \<mapsto> n)) (lq_head q) 0 = Some ?i" if "h a = None" for a n
  proof -
    have "a \<notin> set xs" using queue_links_fresh [OF l(1) that] .
    with l(1) free show ?thesis
      by (intro lowest_unused_run [of _ _ xs]) (auto simp: queue_links_frame)
  qed
  show ?thesis
  proof (cases "m = None \<or> ?i = SIZE_MAX")
    case True
    with at m l low show ?thesis
      by (intro step_refines_same) (auto simp: queue_enqueue_lowest_def spec_insert_def split: option.split)
  next
    case False
    then obtain a where a: "m = Some a" "h a = None" and i: "?i \<noteq> SIZE_MAX" using m by auto
    from low [OF a(2)] a l i show ?thesis
      by (intro insert_at_refines [OF at a(2) free(1) i, of _ d]) (auto simp: queue_enqueue_lowest_def split_def Let_def)
  qed
qed

lemma enqueue_id_refines:
  assumes at: "queue_at h q xs" and m: "\<And>a. m = Some a \<Longrightarrow> h a = None"
  shows "step_refines h q xs (EnqueueId d i m)"
proof -
  from at have l: "queue_links h q xs" "\<not> lq_lock q" by (auto simp: queue_at_def)
  have s: "queue_search (h(a \<mapsto> n)) (\<lambda>_ n. ln_index n = i) (lq_head q) =
      Some (find (\<lambda>b. ln_index (the (h b)) = i) xs)" if "h a = None" for a n
    using queue_search_off [OF l(1) that, of n "\<lambda>_ n. ln_index n = i"]
      find_off [OF queue_links_fresh [OF l(1) that], of "\<lambda>n. ln_index n = i"] by (simp del: fun_upd_apply)
  show ?thesis
  proof (cases "m = None \<or> i = SIZE_MAX \<or> i \<in> fst ` set (entries h xs)")
    case True
    with at m l s find_index_None [of h i xs] show ?thesis
      by (intro step_refines_same) (auto simp: queue_enqueue_id_def spec_insert_def split: option.split)
  next
    case False
    then obtain a where a: "m = Some a" "h a = None" and i: "i \<notin> fst ` set (entries h xs)" "i \<noteq> SIZE_MAX"
      using m by auto
    from s [OF a(2)] a l i find_index_None [of h i xs] show ?thesis
      by (intro insert_at_refines [OF at a(2) i, of _ d]) (auto simp: queue_enqueue_id_def split_def Let_def)
  qed
qed

lemma queue_remove_refines:
  assumes at: "queue_at h q (us @ a # vs)"
    and run: "queue_step h q op = do {
       (h, qp, handle) \<leftarrow> queue_remove_locked h (Some (q\<lparr>lq_lock := True\<rparr>)) (Some a);
       Some (h, map_option unlock_q qp, RData handle) }"
    and spec: "spec_step (entries h (us @ a # vs), lq_next_index q) op =
      ((entries h (us @ vs), lq_next_index q), RData (ln_data (the (h a))))"
  shows "step_refines h q (us @ a # vs) op"
proof -
  obtain h' q' where r: "queue_remove_locked h (Some (q\<lparr>lq_lock := True\<rparr>)) (Some a)
        = Some (h', Some q', ln_data (the (h a)))" "queue_at h' (unlock_q q') (us @ vs)"
      "entries h' (us @ vs) = entries h (us @ vs)" "lq_next_index q' = lq_next_index q" "h' a = None"
      "unchanged_off (set (us @ a # vs)) h h'"
    using queue_remove_spec [OF at] by blast
  have "a \<notin> set (us @ vs)" using at by (auto simp: queue_at_def queue_links_def dll_def)
  from steps_to_remove [OF r(5,2,6) this] r run spec show ?thesis
    unfolding step_refines_def by fastforce
qed

lemma indices_filter:
  assumes "indices_ok (entries h (us @ a # vs)) nx"
  shows "filter (\<lambda>e. fst e \<noteq> ln_index (the (h a))) (entries h (us @ a # vs)) = entries h (us @ vs)"
proof -
  have "ln_index (the (h a)) \<notin> fst ` set (entries h us)" "ln_index (the (h a)) \<notin> fst ` set (entries h vs)"
    using assms by (auto simp: indices_ok_def payloads_append payloads_Cons image_iff)
  then have "filter (\<lambda>e. fst e \<noteq> ln_index (the (h a))) (entries h us) = entries h us"
    "filter (\<lambda>e. fst e \<noteq> ln_index (the (h a))) (entries h vs) = entries h vs"
    by (force intro: filter_True)+
  then show ?thesis by (simp add: payloads_append payloads_Cons)
qed

lemma remove_at_refines:
  assumes at: "queue_at h q xs"
  shows "step_refines h q xs (RemoveAt i)"
proof -
  from at have l: "queue_links h q xs" "\<not> lq_lock q" by (auto simp: queue_at_def)
  note s = queue_search_links [OF l(1)]
  show ?thesis
  proof (cases "find (\<lambda>a. ln_index (the (h a)) = i) xs")
    case None
    then have "i \<notin> fst ` set (entries h xs)" by (simp add: find_index_None)
    then have "filter (\<lambda>e. fst e \<noteq> i) (entries h xs) = entries h xs" by (force simp: filter_id_conv)
    with None at l s show ?thesis
      by (intro step_refines_same)
        (auto simp: queue_remove_at_def spec_lookup_def find_index_map_of)
  next
    case (Some a)
    then obtain us vs where xs: "xs = us @ a # vs" and i: "ln_index (the (h a)) = i"
      using find_split by fastforce
    have "filter (\<lambda>e. fst e \<noteq> i) (entries h xs) = entries h (us @ vs)"
      using at xs i indices_filter by (fastforce simp: queue_at_def)
    with at l s Some xs show ?thesis
      by (auto intro!: queue_remove_refines
          simp: queue_remove_at_def spec_lookup_def find_index_map_of split_def)
  qed
qed

lemma remove_first_split:
  "(\<And>u. u \<in> set us \<Longrightarrow> \<not> P u) \<Longrightarrow> P e \<Longrightarrow> remove_first P (us @ e # vs) = us @ vs"
  by (induction us) (auto simp: remove_first_def)

lemma remove_data_refines:
  assumes at: "queue_at h q xs"
  shows "step_refines h q xs (RemoveData d)"
proof (cases "d = None")
  case True
  with at show ?thesis by (intro step_refines_same) (auto simp: queue_remove_data_def)
next
  case d: False
  from at have l: "queue_links h q xs" "\<not> lq_lock q" by (auto simp: queue_at_def)
  note s = queue_search_links [OF l(1)]
  have mem: "d \<in> snd ` set (entries h xs) \<longleftrightarrow> find (\<lambda>a. ln_data (the (h a)) = d) xs \<noteq> None"
    by (induction xs) (auto simp: payloads_Cons)
  show ?thesis
  proof (cases "find (\<lambda>a. ln_data (the (h a)) = d) xs")
    case None
    with at l s d mem show ?thesis
      by (intro step_refines_same) (auto simp: queue_remove_data_def)
  next
    case (Some a)
    then obtain us vs where xs: "xs = us @ a # vs" and a: "ln_data (the (h a)) = d"
      and us: "\<forall>u \<in> set us. ln_data (the (h u)) \<noteq> d"
      using find_split [OF Some] by auto
    have "remove_first (\<lambda>e. snd e = d) (entries h xs) = entries h (us @ vs)"
      using us a unfolding xs payloads_append payloads_Cons
      by (intro remove_first_split) (auto simp: payloads_def)
    then have "spec_step (entries h xs, lq_next_index q) (RemoveData d) =
        ((entries h (us @ vs), lq_next_index q), RData d)"
      using mem Some d by simp
    with at l s d Some xs a show ?thesis
      by (auto intro!: queue_remove_refines simp del: spec_step.simps simp: queue_remove_data_def split_def)
  qed
qed

lemma dequeue_refines:
  assumes at: "queue_at h q xs"
  shows "step_refines h q xs Dequeue"
proof (cases xs)
  case Nil
  with at queue_dequeue_empty show ?thesis by (intro step_refines_same) auto
next
  case (Cons a ys)
  with at obtain h' q' where r: "queue_dequeue h (Some q) = Some (h', Some q', ln_data (the (h a)))"
      "queue_at h' q' ys" "entries h' ys = entries h ys" "lq_next_index q' = lq_next_index q"
      "h' a = None" "unchanged_off (set (a # ys)) h h'"
    using queue_dequeue_spec by blast
  have "a \<notin> set ys" using at Cons by (auto simp: queue_at_def queue_links_def dll_def)
  with steps_to_remove [of h' a q' "[]" ys h] r at Cons show ?thesis
    unfolding step_refines_def by (fastforce simp: payloads_Cons)
qed

lemma get_refines:
  assumes at: "queue_at h q xs"
  shows "step_refines h q xs (Get i)"
proof -
  from at have l: "queue_links h q xs" "\<not> lq_lock q" by (auto simp: queue_at_def)
  note s = queue_search_links [OF l(1)]
  have "h a \<noteq> None" if "find (\<lambda>a. ln_index (the (h a)) = i) xs = Some a" for a
    using find_split [OF that] queue_links_dom [OF l(1), of a] by auto
  with at l s show ?thesis
    by (intro step_refines_same)
      (auto simp: queue_get_def spec_lookup_def find_index_map_of split: option.split)
qed

theorem queue_step_refines:
  assumes "queue_at h q xs" and "\<And>a. op_malloc op = Some a \<Longrightarrow> h a = None"
  shows "step_refines h q xs op"
  using assms
  by (cases op) (auto intro: enqueue_refines enqueue_lowest_refines enqueue_id_refines remove_at_refines
      remove_data_refines dequeue_refines get_refines)

section \<open>Runs\<close>

fun queue_run :: "node_heap \<Rightarrow> lock_queue \<Rightarrow> queue_op list \<Rightarrow> (node_heap \<times> lock_queue \<times> queue_res list) option" where
  "queue_run h q [] = Some (h, q, [])"
| "queue_run h q (op # ops) = do {
     (h, qp, r) \<leftarrow> queue_step h q op;
     q \<leftarrow> qp;
     (h, q, rs) \<leftarrow> queue_run h q ops;
     Some (h, q, r # rs)
   }"

fun spec_run :: "aqueue \<Rightarrow> queue_op list \<Rightarrow> aqueue \<times> queue_res list" where
  "spec_run aq [] = (aq, [])"
| "spec_run aq (op # ops) =
     (let (aq', r) = spec_step aq op; (aq'', rs) = spec_run aq' ops in (aq'', r # rs))"

text \<open>Every \<open>malloc\<close> of the run returned an address that was unused at that moment.\<close>

fun run_fresh :: "node_heap \<Rightarrow> lock_queue \<Rightarrow> queue_op list \<Rightarrow> bool" where
  "run_fresh h q [] = True"
| "run_fresh h q (op # ops) =
     ((case op_malloc op of None \<Rightarrow> True | Some a \<Rightarrow> h a = None) \<and>
      (case queue_step h q op of Some (h', Some q', r) \<Rightarrow> run_fresh h' q' ops | _ \<Rightarrow> True))"

lemma queue_run_spec:
  assumes "queue_at h q xs" and "run_fresh h q ops"
  shows "\<exists>h' q' xs' rs. queue_run h q ops = Some (h', q', rs) \<and> queue_steps_to h xs h' q' xs' \<and>
    ((entries h' xs', lq_next_index q'), rs) = spec_run (entries h xs, lq_next_index q) ops"
  using assms
proof (induction ops arbitrary: h q xs)
  case Nil
  then show ?case using steps_to_refl by auto
next
  case (Cons op ops)
  then have fresh: "\<And>a. op_malloc op = Some a \<Longrightarrow> h a = None" by auto
  from queue_step_refines [OF Cons.prems(1) fresh] obtain h1 q1 xs1 r
    where step: "queue_step h q op = Some (h1, Some q1, r)" and to: "queue_steps_to h xs h1 q1 xs1"
      and spec: "((entries h1 xs1, lq_next_index q1), r) = spec_step (entries h xs, lq_next_index q) op"
    unfolding step_refines_def by blast
  from to Cons.prems(2) step have "queue_at h1 q1 xs1" "run_fresh h1 q1 ops"
    by (auto simp: queue_steps_to_def)
  from Cons.IH [OF this] obtain h2 q2 xs2 rs where "queue_run h1 q1 ops = Some (h2, q2, rs)"
      "queue_steps_to h1 xs1 h2 q2 xs2"
      "((entries h2 xs2, lq_next_index q2), rs) = spec_run (entries h1 xs1, lq_next_index q1) ops" by blast
  moreover from this to have "queue_steps_to h xs h2 q2 xs2" by (simp add: queue_steps_to_def)
  ultimately show ?case using step
    by (intro exI [of _ h2] exI [of _ q2] exI [of _ xs2] exI [of _ "r # rs"])
      (auto simp: spec [symmetric] Let_def split: prod.splits)
qed

section \<open>Iterating, destroying and copying\<close>

lemma iterate_nodes_spec:
  assumes "dseg ln_next ln_prev h b f xs None l"
  shows "iterate_nodes h cb f s = Some (fold (\<lambda>e. cb (snd e)) (entries h xs) s)"
  using assms
proof (induction xs arbitrary: b f s)
  case Nil
  then show ?case by (simp add: iterate_nodes.simps)
next
  case (Cons a xs)
  then show ?case by (subst iterate_nodes.simps) (auto simp: payloads_Cons)
qed

lemma free_nodes_spec:
  assumes "dseg ln_next ln_prev h b f xs None l" and "distinct xs"
  shows "free_nodes h f = Some (h |` (- set xs))"
  using assms
proof (induction xs arbitrary: b f h)
  case Nil
  then show ?case by (simp add: free_nodes.simps)
next
  case (Cons a xs)
  then obtain n where n: "f = Some a" "h a = Some n" "dseg ln_next ln_prev h (Some a) (ln_next n) xs None l"
    by auto
  with Cons.prems have "dseg ln_next ln_prev (h(a := None)) (Some a) (ln_next n) xs None l" by simp
  then have "free_nodes (h(a := None)) (ln_next n) = Some ((h(a := None)) |` (- set xs))"
    by (rule Cons.IH) (use Cons.prems(2) in simp)
  moreover have "(h(a := None)) |` (- set xs) = h |` (- set (a # xs))"
    by (auto simp: restrict_map_def fun_eq_iff)
  ultimately show ?case using n by (subst free_nodes.simps) simp
qed

definition copied :: "(ptr \<Rightarrow> ptr) option \<Rightarrow> (u64 \<times> ptr) list \<Rightarrow> (u64 \<times> ptr) list" where
  "copied dc es = map (\<lambda>(i, d). (i, case dc of None \<Rightarrow> d | Some f \<Rightarrow> f d)) es"

text \<open>
  The loop copies the nodes \<open>zs\<close> behind the nodes \<open>ns\<close> of the new queue, as far as the successful
  allocations \<open>as\<close> reach.
\<close>

lemma copy_nodes_spec:
  assumes "dseg ln_next ln_prev h b cur zs None l"
    and "dll ln_next ln_prev h (lq_head nq) ns (lq_tail nq)" and "set ns \<inter> set zs = {}"
    and "distinct as" and "\<forall>a \<in> set as. h a = None"
  shows "\<exists>h' nq'. copy_nodes h dc cur nq (map Some as) = Some (h', nq', length zs \<le> length as) \<and>
    dll ln_next ln_prev h' (lq_head nq') (ns @ take (length zs) as) (lq_tail nq') \<and>
    entries h' (ns @ take (length zs) as) = entries h ns @ copied dc (entries h (take (length as) zs)) \<and>
    (\<exists>hd tl. nq' = nq\<lparr>lq_head := hd, lq_tail := tl\<rparr>) \<and>
    h' |` (- set (ns @ take (length zs) as)) = h |` (- set ns)"
  using assms
proof (induction zs arbitrary: b cur h nq ns as)
  case Nil
  then show ?case by (cases nq) (simp add: copy_nodes.simps copied_def)
next
  case (Cons c zs)
  then obtain n where cur: "cur = Some c" and n: "h c = Some n"
    and seg: "dseg ln_next ln_prev h (Some c) (ln_next n) zs None l" by auto
  show ?case
  proof (cases as)
    case Nil
    with cur n Cons.prems show ?thesis
      by (subst copy_nodes.simps) (cases nq, simp add: copied_def)
  next
    case (Cons a as')
    note d = \<open>dll ln_next ln_prev h (lq_head nq) ns (lq_tail nq)\<close>
    let ?n = "\<lparr>ln_data = (case dc of None \<Rightarrow> ln_data n | Some f \<Rightarrow> f (ln_data n)), ln_next = None,
       ln_prev = lq_tail nq, ln_index = ln_index n\<rparr>"
    let ?h = "case lq_tail nq of None \<Rightarrow> h | Some t \<Rightarrow> h(t \<mapsto> (the (h t))\<lparr>ln_next := Some a\<rparr>)"
    define h1 where "h1 = ?h(a \<mapsto> ?n)"
    define q1 where "q1 = nq\<lparr>lq_head := (if lq_head nq = None then Some a else lq_head nq), lq_tail := Some a\<rparr>"
    have ha: "h a = None" and as': "distinct as'" "a \<notin> set as'" "\<forall>x \<in> set as'. h x = None"
      using Cons.prems Cons by auto
    have a: "a \<notin> set ns" "a \<notin> set (c # zs)"
      using ha dll_dom [OF d] dseg_dom [OF \<open>dseg ln_next ln_prev h b cur (c # zs) None l\<close>] by fastforce+
    note dis = \<open>set ns \<inter> set (c # zs) = {}\<close>
    have t: "t \<in> set ns \<and> (\<exists>m. h t = Some m)" if "lq_tail nq = Some t" for t
    proof -
      from that d have "ns \<noteq> []" by auto
      with that d have "t \<in> set ns" by (auto simp: dll_def dest!: dseg_last)
      with dll_dom [OF d] show ?thesis by blast
    qed
    have off: "h1 x = h x" if "x \<noteq> a" "x \<notin> set ns" for x
      using that t by (auto simp: h1_def split: option.split)
    have offz: "h1 x = h x" if "x \<in> set zs" for x
      using that a dis by (intro off) auto
    have d1: "dll ln_next ln_prev h1 (lq_head q1) (ns @ [a]) (lq_tail q1)"
      using lq.dll_append [OF d a(1) refl, of ?n] by (simp add: h1_def q1_def)
    have e1: "entries h1 (ns @ [a]) = entries h ns @ copied dc [(ln_index n, ln_data n)]"
      using lq.payloads_append_link [OF d a(1) refl, of ?n] by (simp add: h1_def copied_def)
    have seg1: "dseg ln_next ln_prev h1 (Some c) (ln_next n) zs None l"
      by (subst dseg_cong [where h = h, OF offz]) (auto intro: seg)
    have fr1: "\<forall>x \<in> set as'. h1 x = None"
      using as' off dll_dom [OF d] by fastforce
    have "set (ns @ [a]) \<inter> set zs = {}" using dis a by auto
    from Cons.IH [OF seg1 d1 this as'(1) fr1] obtain h' nq' where r:
        "copy_nodes h1 dc (ln_next n) q1 (map Some as') = Some (h', nq', length zs \<le> length as')"
        "dll ln_next ln_prev h' (lq_head nq') ((ns @ [a]) @ take (length zs) as') (lq_tail nq')"
        "entries h' ((ns @ [a]) @ take (length zs) as') =
           entries h1 (ns @ [a]) @ copied dc (entries h1 (take (length as') zs))"
        "\<exists>hd tl. nq' = q1\<lparr>lq_head := hd, lq_tail := tl\<rparr>"
        "h' |` (- set ((ns @ [a]) @ take (length zs) as')) = h1 |` (- set (ns @ [a]))"
      by blast
    have ez: "entries h1 zs' = entries h zs'" if "set zs' \<subseteq> set zs" for zs'
      using that offz by (auto simp: payloads_def subset_iff)
    have run: "copy_nodes h dc cur nq (map Some as) = copy_nodes h1 dc (ln_next n) q1 (map Some as')"
    proof (cases "lq_tail nq")
      case None
      with dll_first_None [OF d] dll_last_None [OF d] have "lq_head nq = None" by auto
      with None cur n Cons a show ?thesis
        by (subst copy_nodes.simps) (simp add: h1_def q1_def Let_def)
    next
      case (Some t)
      with dll_first_None [OF d] dll_last_None [OF d] have "lq_head nq \<noteq> None" by auto
      moreover from t [OF Some] a dis obtain m where "h t = Some m" "t \<noteq> a" "t \<noteq> c" by auto
      ultimately show ?thesis using Some cur n Cons a
        by (subst copy_nodes.simps) (auto simp add: h1_def q1_def Let_def fun_upd_twist)
    qed
    have "h1 |` (- set (ns @ [a])) = h |` (- set ns)"
      using off ha by (auto simp: restrict_map_def fun_eq_iff)
    moreover have "entries h' (ns @ take (length (c # zs)) as) =
        entries h ns @ copied dc (entries h (take (length as) (c # zs)))"
      using r(3) e1 ez [of "take (length as') zs"] Cons n
      by (simp add: payloads_Cons copied_def set_take_subset)
    moreover have "\<exists>hd tl. nq' = nq\<lparr>lq_head := hd, lq_tail := tl\<rparr>"
      using r(4) by (auto simp: q1_def)
    ultimately show ?thesis using r run Cons by auto
  qed
qed

lemma copied_length [simp]: "length (copied dc es) = length es"
  by (simp add: copied_def)

lemma map_fst_copied [simp]: "map fst (copied dc es) = map fst es"
  by (induction es) (auto simp: copied_def)

lemma indices_ok_copied [simp]: "indices_ok (copied dc es) nx = indices_ok es nx"
  unfolding indices_ok_def map_fst_copied ..

lemma queue_copy_loop:
  assumes at: "queue_at h q xs" and fresh: "distinct as" "\<forall>a \<in> set as. h a = None"
  defines "ns \<equiv> take (length xs) as"
  shows "\<exists>h' nq. copy_nodes h dc (lq_head q) (the (queue_init True)) (map Some as)
      = Some (h', nq, length xs \<le> length as) \<and>
    dll ln_next ln_prev h' (lq_head nq) ns (lq_tail nq) \<and>
    entries h' ns = copied dc (entries h (take (length as) xs)) \<and>
    nq = (the (queue_init True))\<lparr>lq_head := lq_head nq, lq_tail := lq_tail nq\<rparr> \<and> h' |` (- set ns) = h"
proof -
  let ?q0 = "the (queue_init True)"
  have seg: "dseg ln_next ln_prev h None (lq_head q) xs None (lq_tail q)"
    using at by (simp add: queue_at_def queue_links_def dll_def)
  have e: "dll ln_next ln_prev h (lq_head ?q0) [] (lq_tail ?q0)" by (simp add: queue_init_def)
  obtain h' nq where r: "copy_nodes h dc (lq_head q) ?q0 (map Some as) = Some (h', nq, length xs \<le> length as)"
      "dll ln_next ln_prev h' (lq_head nq) ns (lq_tail nq)"
      "entries h' ns = copied dc (entries h (take (length as) xs))"
      "\<exists>hd tl. nq = ?q0\<lparr>lq_head := hd, lq_tail := tl\<rparr>" "h' |` (- set ns) = h |` (- set [])"
    using copy_nodes_spec [OF seg e _ fresh, of dc] by (auto simp: ns_def)
  then show ?thesis by (auto simp: restrict_map_def)
qed

theorem queue_copy_spec:
  assumes at: "queue_at h q xs" and fresh: "distinct as" "\<forall>a \<in> set as. h a = None"
    and enough: "length xs \<le> length as"
  defines "ns \<equiv> take (length xs) as"
  shows "\<exists>h' nq. queue_copy h (Some q) dc True (map Some as) = Some (h', Some q, Some nq) \<and>
    queue_at h' nq ns \<and> entries h' ns = copied dc (entries h xs) \<and>
    queue_at h' q xs \<and> h' |` (- set ns) = h"
proof -
  obtain h' nq where r: "copy_nodes h dc (lq_head q) (the (queue_init True)) (map Some as)
        = Some (h', nq, True)"
      "dll ln_next ln_prev h' (lq_head nq) ns (lq_tail nq)"
      "entries h' ns = copied dc (entries h xs)"
      "nq = (the (queue_init True))\<lparr>lq_head := lq_head nq, lq_tail := lq_tail nq\<rparr>" "h' |` (- set ns) = h"
    using queue_copy_loop [OF at fresh, of dc] enough by (auto simp: ns_def)
  let ?nq = "nq\<lparr>lq_size := lq_size q, lq_next_index := lq_next_index q\<rparr>"
  have run: "queue_copy h (Some q) dc True (map Some as) = Some (h', Some q, Some ?nq)"
    using r(1) at by (simp add: queue_copy_def queue_at_def queue_init_def)
  have nq: "\<not> lq_lock nq" "lq_rr_cursor nq = None" by (subst r(4), simp add: queue_init_def)+
  have "queue_at h' ?nq ns"
    using at r(2,3) nq enough by (simp add: queue_at_def queue_links_def ns_def min_absorb2)
  moreover have "h' a = h a" if "a \<in> set xs" for a
  proof -
    have "a \<in> dom h" using at that queue_links_dom by (fastforce simp: queue_at_def)
    then show ?thesis using r(5) by (metis domIff restrict_in restrict_out)
  qed
  then have "queue_at h' q xs"
    using at dseg_cong [of xs h' h] by (simp add: queue_at_def queue_links_def dll_def payloads_def cong: map_cong)
  ultimately show ?thesis using run r by auto
qed

theorem queue_copy_failure:
  assumes at: "queue_at h q xs" and fresh: "distinct as" "\<forall>a \<in> set as. h a = None"
    and short: "length as < length xs"
  shows "queue_copy h (Some q) dc True (map Some as) = Some (h, Some q, None)"
proof -
  obtain h' nq where r: "copy_nodes h dc (lq_head q) (the (queue_init True)) (map Some as)
        = Some (h', nq, False)"
      "dll ln_next ln_prev h' (lq_head nq) as (lq_tail nq)"
      "nq = (the (queue_init True))\<lparr>lq_head := lq_head nq, lq_tail := lq_tail nq\<rparr>" "h' |` (- set as) = h"
    using queue_copy_loop [OF at fresh, of dc] short by auto
  have "\<not> lq_lock nq" by (subst r(3)) (simp add: queue_init_def)
  moreover have "free_nodes h' (lq_head nq) = Some h"
    using free_nodes_spec [of h' None "lq_head nq" as] r(2,4) by (auto simp: dll_def)
  ultimately show ?thesis
    using r(1) at by (simp add: queue_copy_def queue_at_def queue_init_def queue_destroy_def)
qed

theorem queue_destroy_spec: "queue_at h q xs \<Longrightarrow> queue_destroy h (Some q) = Some (h |` (- set xs))"
  using free_nodes_spec [of h None "lq_head q" xs "lq_tail q"]
  by (simp add: queue_at_def queue_destroy_def queue_links_def dll_def)

theorem queue_iterate_spec:
  "queue_at h q xs \<Longrightarrow> queue_iterate h (Some q) cb s = Some (Some q, fold (\<lambda>e. cb (snd e)) (entries h xs) s)"
  using iterate_nodes_spec [of h None "lq_head q" xs "lq_tail q" cb s]
  by (simp add: queue_at_def queue_iterate_def queue_links_def dll_def)

section \<open>The remaining entry points\<close>

lemma queue_enqueue_ref_eq:
  "queue_enqueue_ref h qp d m = do {
     (h', qp', i) \<leftarrow> queue_enqueue h qp d m; Some (h', qp', i, if i = SIZE_MAX then None else m) }"
  by (auto simp: queue_enqueue_ref_def queue_enqueue_def Let_def split_def
      split: option.split Option.bind_split)

lemma queue_enqueue_preallocated_spec:
  assumes at: "queue_at h q xs" and a: "a \<notin> set xs" and n: "h a = Some n" and nx: "lq_next_index q \<noteq> SIZE_MAX"
  shows "\<exists>h' q'. queue_enqueue_preallocated h (Some q) d (Some a) =
      Some (h', Some q', lq_next_index q, Some a, Some (lq_next_index q)) \<and>
    queue_at h' q' (xs @ [a]) \<and> entries h' (xs @ [a]) = entries h xs @ [(lq_next_index q, d)] \<and>
    lq_next_index q' = lq_next_index q + 1 \<and> unchanged_off (set (xs @ [a])) h h'"
proof -
  let ?i = "lq_next_index q" and ?h0 = "h(a := None)"
  have at0: "queue_at ?h0 q xs" using at a by (simp add: queue_at_frame)
  have i: "?i \<notin> fst ` set (entries ?h0 xs)" using queue_at_unused_index [OF at0] .
  obtain h' q' where r: "queue_append_node (?h0(a \<mapsto> (n\<lparr>ln_data := d\<rparr>)\<lparr>ln_index := ?i\<rparr>))
        (q\<lparr>lq_lock := True, lq_next_index := ?i + 1\<rparr>) a = Some (h', q')" "lq_next_index q' = ?i + 1"
      "queue_links h' q' (xs @ [a])" "entries h' (xs @ [a]) = entries h xs @ [(?i, d)]"
      "unchanged_off (set (xs @ [a])) h h'"
    using publish_node [OF at0 _ i nx, of a "n\<lparr>ln_data := d\<rparr>" "?i + 1"] a by auto
  have "queue_enqueue_preallocated h (Some q) d (Some a) =
      Some (h', Some (unlock_q q'), ?i, Some a, Some ?i)"
    using r(1) n nx at by (simp add: queue_enqueue_preallocated_def queue_at_def Let_def)
  moreover have "queue_at h' (unlock_q q') (xs @ [a])"
    using r at nx i a indices_ok_snoc(1) [of "entries h xs" ?i ?i d] by (simp add: queue_at_def)
  ultimately show ?thesis using r by auto
qed

lemma queue_detach_preallocated_spec:
  assumes at: "queue_at h q (us @ a # vs)"
  shows "\<exists>h' q'. queue_detach_preallocated h (Some q) (Some a) = Some (h', Some q', True) \<and>
    queue_at h' q' (us @ vs) \<and> entries h' (us @ vs) = entries h (us @ vs) \<and>
    lq_next_index q' = lq_next_index q \<and>
    h' a = Some ((the (h a))\<lparr>ln_next := None, ln_prev := None\<rparr>) \<and> unchanged_off (set (us @ a # vs)) h h'"
proof -
  from at have d: "dll ln_next ln_prev h (lq_head q) (us @ a # vs) (lq_tail q)"
    and links: "queue_links h q (us @ a # vs)" and l: "\<not> lq_lock q"
    and sz: "lq_size q = of_nat (length (us @ a # vs))" and len: "length (us @ a # vs) < 2 ^ 64"
    and cur: "\<forall>c. lq_rr_cursor q = Some c \<longrightarrow> c \<in> set (us @ a # vs)"
    by (auto simp: queue_at_def queue_links_def)
  obtain n where n: "h a = Some n" using dll_dom [OF d, of a] by auto
  have a: "a \<notin> set (us @ vs)" using d by (auto simp: dll_def)
  let ?h = "lq.unlink h n" and ?n = "n\<lparr>ln_next := None, ln_prev := None\<rparr>"
  let ?q = "q\<lparr>lq_head := (if ln_prev n = None then ln_next n else lq_head q),
              lq_tail := (if ln_next n = None then ln_prev n else lq_tail q)\<rparr>"
  define q1 where "q1 = (if lq_rr_cursor ?q = Some a
      then ?q\<lparr>lq_rr_cursor := (if ln_next n \<noteq> None then ln_next n else lq_head ?q)\<rparr> else ?q)"
  have ha: "?h a = Some n" using lq.unlink_other [OF d n] a n by simp
  have "find (\<lambda>b. b = a) (us @ a # vs) \<noteq> None" by (simp add: find_None_iff)
  then have run: "queue_detach_preallocated h (Some q) (Some a) =
      Some (?h(a \<mapsto> ?n), Some (q1\<lparr>lq_size := lq_size q1 - 1, lq_lock := False\<rparr>), True)"
    using l unfolding queue_detach_preallocated_def q1_def
    by (auto simp add: queue_search_links [OF links] n Let_def unlink_node_spec [where q = "q\<lparr>lq_lock := True\<rparr>", OF d n] ha)
  have dl: "dll ln_next ln_prev (?h(a \<mapsto> ?n)) (lq_head ?q) (us @ vs) (lq_tail ?q)"
    using lq.dll_unlink [OF d n] a by (simp add: dll_frame)
  have hd: "lq_head ?q = Some f \<Longrightarrow> f \<in> set (us @ vs)" for f
    using dl by (cases "us @ vs") (auto simp: dll_def)
  have cur1: "lq_rr_cursor q1 = Some c \<Longrightarrow> c \<in> set (us @ vs)" for c
    using cur hd neighbours(2) [OF d n] by (auto simp: q1_def split: if_splits)
  have e: "entries (?h(a \<mapsto> ?n)) (us @ vs) = entries h (us @ vs)"
    using a lq.payloads_unlink [OF d n] by simp
  have "indices_ok (entries h (us @ vs)) (lq_next_index q)"
    using at by (auto simp: queue_at_def payloads_append payloads_Cons dest: indices_ok_sub)
  then have "queue_at (?h(a \<mapsto> ?n)) (q1\<lparr>lq_size := lq_size q1 - 1, lq_lock := False\<rparr>) (us @ vs)"
    using dl sz len cur1 e by (auto simp: queue_at_def queue_links_def q1_def)
  moreover have "unchanged_off (set (us @ a # vs)) h (?h(a \<mapsto> ?n))"
    using lq.unlink_other [OF d n] by (auto simp: unchanged_off_def)
  moreover have "lq_next_index q1 = lq_next_index q" by (simp add: q1_def)
  ultimately show ?thesis using run e n by auto
qed

section \<open>Properties\<close>

text \<open>A queue with the two entries (0, 70) and (3, 71), used by the examples below.\<close>

definition sample_heap :: node_heap where
  "sample_heap = [10 \<mapsto> \<lparr>ln_data = Some 70, ln_next = Some 11, ln_prev = None, ln_index = 0\<rparr>,
     11 \<mapsto> \<lparr>ln_data = Some 71, ln_next = None, ln_prev = Some 10, ln_index = 3\<rparr>]"

definition sample_queue :: lock_queue where
  "sample_queue = \<lparr>lq_head = Some 10, lq_tail = Some 11, lq_rr_cursor = None, lq_lock = False, lq_iter_lock = False,
     lq_size = 2, lq_next_index = 4\<rparr>"

lemma sample_queue_at: "queue_at sample_heap sample_queue [10, 11]"
  by (simp add: queue_at_def queue_links_def dll_def sample_heap_def sample_queue_def payloads_def indices_ok_def)

lemma sample_entries: "entries sample_heap [10, 11] = [(0, Some 70), (3, Some 71)]"
  by (simp add: sample_heap_def payloads_def)

text \<open>
  C1. Any sequence of queue operations on a well-formed queue returns, with the
  results the abstract queue gives: indices are handed out by the abstract rules, lookups and
  removals find exactly the entry with that index or that data, the order of the other entries is
  kept. Afterwards the queue is well formed and unlocked, every node that joined it was free,
  every node that left it has been freed, and no other node has changed.
\<close>

theorem queue_run_refines:
  assumes "queue_at h q xs" and "run_fresh h q ops"
  shows "\<exists>h' q' xs' rs. queue_run h q ops = Some (h', q', rs) \<and> queue_steps_to h xs h' q' xs' \<and>
    ((entries h' xs', lq_next_index q'), rs) = spec_run (entries h xs, lq_next_index q) ops"
  using assms by (rule queue_run_spec)

theorem queue_run_refines_witness:
  "\<exists>h' q' xs' rs. queue_run sample_heap sample_queue [Enqueue (Some 72) (Some 12), Dequeue] = Some (h', q', rs) \<and>
     queue_steps_to sample_heap [10, 11] h' q' xs' \<and>
     entries h' xs' = [(3, Some 71), (4, Some 72)] \<and> rs = [RIndex 4, RData (Some 70)]"
proof -
  have "run_fresh sample_heap sample_queue [Enqueue (Some 72) (Some 12), Dequeue]"
    by (simp add: sample_heap_def split: option.splits)
  from queue_run_refines [OF sample_queue_at this] show ?thesis
    by (auto simp: sample_entries spec_insert_def sample_queue_def)
qed

text \<open>
  When every allocation succeeds, copying a queue yields a well-formed
  queue on new nodes with the same indices in the same order, each data pointer passed through
  the copy function; the source queue is left as it was.
\<close>

lemma queue_copy_copies:
  assumes "queue_at h q xs" and "distinct as" "\<forall>a \<in> set as. h a = None" and "length xs \<le> length as"
  shows "\<exists>h' nq. queue_copy h (Some q) dc True (map Some as) = Some (h', Some q, Some nq) \<and>
    queue_at h' nq (take (length xs) as) \<and> entries h' (take (length xs) as) = copied dc (entries h xs) \<and>
    queue_at h' q xs \<and> h' |` (- set (take (length xs) as)) = h"
  using assms by (rule queue_copy_spec)

text \<open>
  When an allocation fails in the middle of a copy, the copy
  returns null, the half-built queue is freed node by node, and the heap and the source queue are
  exactly what they were.
\<close>

lemma queue_copy_failure_restores:
  assumes "queue_at h q xs" and "distinct as" "\<forall>a \<in> set as. h a = None" and "length as < length xs"
  shows "queue_copy h (Some q) dc True (map Some as) = Some (h, Some q, None)"
  using assms by (rule queue_copy_failure)

text \<open>
  Detaching a preallocated node of a queue takes exactly that node
  out, keeps the other entries in order, and leaves the node allocated and unlinked, as its owner
  expects.
\<close>

lemma queue_detach_keeps_node:
  assumes "queue_at h q (us @ a # vs)"
  shows "\<exists>h' q'. queue_detach_preallocated h (Some q) (Some a) = Some (h', Some q', True) \<and>
    queue_at h' q' (us @ vs) \<and> entries h' (us @ vs) = entries h (us @ vs) \<and>
    lq_next_index q' = lq_next_index q \<and>
    h' a = Some ((the (h a))\<lparr>ln_next := None, ln_prev := None\<rparr>) \<and> unchanged_off (set (us @ a # vs)) h h'"
  using assms by (rule queue_detach_preallocated_spec)

text \<open>
  \<open>lock_queue_enqueue\<close>, which the header documents as leaving the queue locked,
  does exactly what \<open>queue_enqueue\<close> does, unlocking included.
\<close>

lemma lock_queue_enqueue_same: "lock_queue_enqueue h q d m = queue_enqueue h q d m"
  by (simp add: lock_queue_enqueue_def queue_enqueue_def)

end
