(* ===== verification/Bitmap.thy ===== *)
theory Bitmap
  imports Prelude
begin

text \<open>
  The bitmap of \<^verbatim>\<open>kernel/memory/bitmap.cpp\<close> (\<^verbatim>\<open>include/mm/bitmap.h\<close>): a byte buffer and its length in
  bits. Indices are \<open>size_t\<close> values, here natural numbers: every sum the code forms is bounded by
  the length, which fits 64 bits, so nothing wraps; the one product that could, in \<open>bitmap_init\<close>,
  is written with its wrap-around. A read or write outside the buffer has no defined result
  (\<open>None\<close>).
\<close>

section \<open>Model\<close>

record bitmap =
  bm_buffer :: "u8 list"
  bm_length :: nat

definition NOT_FOUND :: nat where
  "NOT_FOUND = 2 ^ 64 - 1"

definition bitmap_init :: "nat \<Rightarrow> bitmap" where
  "bitmap_init sz = \<lparr>bm_buffer = replicate sz 0, bm_length = (sz * 8) mod 2 ^ 64\<rparr>"

definition load_byte :: "bitmap \<Rightarrow> nat \<Rightarrow> u8 option" where
  "load_byte bm i = (if i < length (bm_buffer bm) then Some (bm_buffer bm ! i) else None)"

definition store_byte :: "bitmap \<Rightarrow> nat \<Rightarrow> u8 \<Rightarrow> bitmap option" where
  "store_byte bm i b = (if i < length (bm_buffer bm) then Some (bm\<lparr>bm_buffer := (bm_buffer bm)[i := b]\<rparr>) else None)"

definition bitmap_get :: "bitmap \<Rightarrow> nat \<Rightarrow> bool option" where
  "bitmap_get bm i = (if i \<ge> bm_length bm then Some False
     else do {
       let word_index = i div 8;
       let bit_index = i mod 8;
       b \<leftarrow> load_byte bm word_index;
       Some (drop_bit bit_index b AND 1 \<noteq> 0)
     })"

definition bitmap_set :: "bitmap \<Rightarrow> nat \<Rightarrow> bool \<Rightarrow> bitmap option" where
  "bitmap_set bm i value = (if i \<ge> bm_length bm then Some bm
     else do {
       let word_index = i div 8;
       let bit_index = i mod 8;
       b \<leftarrow> load_byte bm word_index;
       if value then store_byte bm word_index (b OR push_bit bit_index 1)
       else store_byte bm word_index (b AND NOT (push_bit bit_index 1))
     })"

text \<open>The loop \<open>for (i = ...; i < hi; i++) bitmap_set(bitmap, i, value)\<close>.\<close>

function set_bits :: "bitmap \<Rightarrow> nat \<Rightarrow> nat \<Rightarrow> bool \<Rightarrow> bitmap option" where
  "set_bits bm i hi value =
     (if i < hi then do { bm \<leftarrow> bitmap_set bm i value; set_bits bm (i + 1) hi value } else Some bm)"
  by pat_completeness auto
termination by (relation "measure (\<lambda>(bm, i, hi, value). hi - i)") auto

function fill_bytes :: "bitmap \<Rightarrow> nat \<Rightarrow> nat \<Rightarrow> u8 \<Rightarrow> bitmap option" where
  "fill_bytes bm i hi b =
     (if i < hi then do { bm \<leftarrow> store_byte bm i b; fill_bytes bm (i + 1) hi b } else Some bm)"
  by pat_completeness auto
termination by (relation "measure (\<lambda>(bm, i, hi, b). hi - i)") auto

declare set_bits.simps [simp del] fill_bytes.simps [simp del]

definition bitmap_set_range :: "bitmap \<Rightarrow> nat \<Rightarrow> nat \<Rightarrow> bool \<Rightarrow> bitmap option" where
  "bitmap_set_range bm start fin value =
     (if start \<ge> fin \<or> start \<ge> bm_length bm then Some bm
      else do {
        let start_word = (start + 7) div 8;
        let end_word = fin div 8;
        bm \<leftarrow> set_bits bm start (min (start_word * 8) fin) value;
        if start_word > end_word then Some bm
        else do {
          bm \<leftarrow> fill_bytes bm start_word end_word (if value then - 1 else 0);
          set_bits bm (end_word * 8) fin value
        }
      })"

text \<open>
  The search. A byte is compared with \<open>!byte_match\<close>, which in C is the \<^emph>\<open>logical\<close> negation: 0 when
  searching for ones, but 1 when searching for zeros.
\<close>

function scan_bits ::
  "nat \<Rightarrow> bool \<Rightarrow> u8 \<Rightarrow> nat \<Rightarrow> nat \<Rightarrow> nat \<Rightarrow> nat \<Rightarrow> nat + nat \<times> nat" where
  "scan_bits len value byte byte_idx k count start_index =
     (if k < 8 then
        (if (drop_bit k byte AND 1 \<noteq> 0) = value then
           (let start_index = (if count = 0 then byte_idx * 8 + k else start_index);
                count = count + 1
            in if count = len then Inl start_index
               else scan_bits len value byte byte_idx (k + 1) count start_index)
         else scan_bits len value byte byte_idx (k + 1) 0 start_index)
      else Inr (count, start_index))"
  by pat_completeness auto
termination by (relation "measure (\<lambda>(len, value, byte, byte_idx, k, count, start_index). 8 - k)") auto

function scan_bytes :: "bitmap \<Rightarrow> nat \<Rightarrow> bool \<Rightarrow> nat \<Rightarrow> nat \<Rightarrow> nat \<Rightarrow> nat option" where
  "scan_bytes bm len value byte_idx count start_index =
     (if byte_idx < bm_length bm div 8 then
        (case load_byte bm byte_idx of None \<Rightarrow> None
         | Some byte \<Rightarrow>
           (let byte_match = (if value then - 1 else 0) :: u8;
                not_byte_match = (if byte_match = 0 then 1 else 0) :: u8
            in if byte = not_byte_match then scan_bytes bm len value (byte_idx + 1) 0 start_index
               else if byte = byte_match then
                 (if len < 8 then Some (byte_idx * 8)
                  else let start_index = (if count = 0 then byte_idx * 8 else start_index);
                           count = count + 8
                       in if count \<ge> len then Some start_index
                          else scan_bytes bm len value (byte_idx + 1) count start_index)
               else (case scan_bits len value byte byte_idx 0 count start_index of
                       Inl r \<Rightarrow> Some r
                     | Inr (count, start_index) \<Rightarrow>
                         scan_bytes bm len value (byte_idx + 1) count start_index)))
      else Some NOT_FOUND)"
  by pat_completeness auto
termination
  by (relation "measure (\<lambda>(bm, len, value, byte_idx, count, start_index). bm_length bm div 8 - byte_idx)") auto

declare scan_bits.simps [simp del] scan_bytes.simps [simp del]

definition bitmap_find_range :: "bitmap \<Rightarrow> nat \<Rightarrow> bool \<Rightarrow> nat option" where
  "bitmap_find_range bm len value = scan_bytes bm len value 0 0 0"

definition bitmap_find_range_from :: "bitmap \<Rightarrow> nat \<Rightarrow> bool \<Rightarrow> nat \<Rightarrow> nat option" where
  "bitmap_find_range_from bm len value start_from = scan_bytes bm len value (start_from div 8) 0 0"

section \<open>Bits and well-formedness\<close>

definition bitmap_ok :: "bitmap \<Rightarrow> bool" where
  "bitmap_ok bm \<longleftrightarrow> bm_length bm = 8 * length (bm_buffer bm) \<and> bm_length bm < 2 ^ 64"

definition bit_at :: "bitmap \<Rightarrow> nat \<Rightarrow> bool" where
  "bit_at bm n = bit (bm_buffer bm ! (n div 8)) (n mod 8)"

lemma and_one_neq_zero: "(drop_bit k b AND 1 \<noteq> 0) = bit (b :: u8) k"
  by (simp add: and_one_eq bit_iff_odd_drop_bit odd_iff_mod_2_eq_one)

text \<open>\<open>bm'\<close> is \<open>bm\<close> with exactly the bits of \<open>S\<close> set to \<open>v\<close>.\<close>

definition bits_written :: "bitmap \<Rightarrow> nat set \<Rightarrow> bool \<Rightarrow> bitmap \<Rightarrow> bool" where
  "bits_written bm S v bm' \<longleftrightarrow> bitmap_ok bm' \<and> bm_length bm' = bm_length bm \<and>
     (\<forall>n < bm_length bm. bit_at bm' n = (if n \<in> S then v else bit_at bm n))"

section \<open>Single bits\<close>

lemma bitmap_ok_init [simp]: "8 * sz < 2 ^ 64 \<Longrightarrow> bitmap_ok (bitmap_init sz)"
  by (simp add: bitmap_ok_def bitmap_init_def mult.commute)

lemma bit_at_init: "n < 8 * sz \<Longrightarrow> \<not> bit_at (bitmap_init sz) n"
  by (simp add: bit_at_def bitmap_init_def)

lemma load_byte_ok: "bitmap_ok bm \<Longrightarrow> i < bm_length bm \<Longrightarrow> load_byte bm (i div 8) = Some (bm_buffer bm ! (i div 8))"
  by (auto simp: bitmap_ok_def load_byte_def)

lemma bitmap_get_spec:
  "bitmap_ok bm \<Longrightarrow> bitmap_get bm i = Some (i < bm_length bm \<and> bit_at bm i)"
  by (simp add: bitmap_get_def Let_def load_byte_ok bit_at_def and_one_neq_zero)

lemma bits_written_refl [simp]: "bitmap_ok bm \<Longrightarrow> bits_written bm {} v bm"
  by (simp add: bits_written_def)

lemma bits_written_trans:
  "bits_written bm S v bm' \<Longrightarrow> bits_written bm' T v bm'' \<Longrightarrow> bits_written bm (S \<union> T) v bm''"
  by (simp add: bits_written_def)

lemma bits_written_ok: "bits_written bm S v bm' \<Longrightarrow> bitmap_ok bm'"
  by (simp add: bits_written_def)

lemma bits_written_length: "bits_written bm S v bm' \<Longrightarrow> bm_length bm' = bm_length bm"
  by (simp add: bits_written_def)

lemma store_bit:
  assumes ok: "bitmap_ok bm" and i: "i < bm_length bm"
    and b: "\<And>k. k < 8 \<Longrightarrow> bit b k = (if k = i mod 8 then v else bit (bm_buffer bm ! (i div 8)) k)"
  shows "bits_written bm {i} v (bm\<lparr>bm_buffer := (bm_buffer bm)[i div 8 := b]\<rparr>)"
proof -
  have "bit_at (bm\<lparr>bm_buffer := (bm_buffer bm)[i div 8 := b]\<rparr>) n = (if n = i then v else bit_at bm n)"
    if n: "n < bm_length bm" for n
  proof (cases "n div 8 = i div 8")
    case True
    have "i div 8 < length (bm_buffer bm)" using ok i by (auto simp: bitmap_ok_def)
    moreover have "n = i \<longleftrightarrow> n mod 8 = i mod 8" using True by (metis div_mult_mod_eq)
    ultimately show ?thesis using True b [of "n mod 8"] by (simp add: bit_at_def)
  next
    case False
    then show ?thesis by (auto simp: bit_at_def)
  qed
  with ok show ?thesis by (auto simp: bits_written_def bitmap_ok_def)
qed

lemma bitmap_set_spec:
  assumes ok: "bitmap_ok bm"
  shows "\<exists>bm'. bitmap_set bm i v = Some bm' \<and> bits_written bm {i} v bm'"
proof (cases "i < bm_length bm")
  case True
  let ?b = "bm_buffer bm ! (i div 8)"
  let ?b' = "if v then ?b OR push_bit (i mod 8) 1 else ?b AND NOT (push_bit (i mod 8) 1)"
  have b: "bit ?b' k = (if k = i mod 8 then v else bit ?b k)" if "k < 8" for k
    using that by (auto simp: bit_or_iff bit_and_iff bit_not_iff bit_exp_iff)
  have "i div 8 < length (bm_buffer bm)" using ok True by (auto simp: bitmap_ok_def)
  then have "bitmap_set bm i v = Some (bm\<lparr>bm_buffer := (bm_buffer bm)[i div 8 := ?b']\<rparr>)"
    using ok True by (simp add: bitmap_set_def load_byte_ok store_byte_def Let_def)
  with store_bit [OF ok True b] show ?thesis by blast
next
  case False
  with ok show ?thesis by (auto simp: bitmap_set_def bits_written_def)
qed

section \<open>Ranges\<close>

lemma set_bits_spec:
  assumes "bitmap_ok bm"
  shows "\<exists>bm'. set_bits bm i hi v = Some bm' \<and> bits_written bm {i..<hi} v bm'"
  using assms
proof (induction "hi - i" arbitrary: bm i)
  case 0
  then show ?case by (simp add: set_bits.simps)
next
  case (Suc m)
  then have lt: "i < hi" by simp
  obtain bm1 where b1: "bitmap_set bm i v = Some bm1" "bits_written bm {i} v bm1"
    using bitmap_set_spec [OF Suc.prems] by blast
  have "m = hi - (i + 1)" using Suc.hyps(2) by simp
  from Suc.hyps(1) [OF this bits_written_ok [OF b1(2)]]
  obtain bm2 where b2: "set_bits bm1 (i + 1) hi v = Some bm2" "bits_written bm1 {i + 1..<hi} v bm2"
    by blast
  have "{i} \<union> {i + 1..<hi} = {i..<hi}" using lt by auto
  with bits_written_trans [OF b1(2) b2(2)] b1(1) b2(1) lt show ?case
    by (subst set_bits.simps) simp
qed

lemma fill_bytes_spec:
  assumes "bitmap_ok bm" and "hi \<le> length (bm_buffer bm)"
  shows "\<exists>bm'. fill_bytes bm i hi (if v then - 1 else 0) = Some bm' \<and> bits_written bm {8 * i..<8 * hi} v bm'"
  using assms
proof (induction "hi - i" arbitrary: bm i)
  case 0
  then show ?case by (simp add: fill_bytes.simps)
next
  case (Suc m)
  let ?f = "if v then - 1 else 0 :: u8"
  let ?bm = "bm\<lparr>bm_buffer := (bm_buffer bm)[i := ?f]\<rparr>"
  from Suc.hyps(2) have lt: "i < hi" by simp
  have st: "store_byte bm i ?f = Some ?bm" using lt Suc.prems(2) by (simp add: store_byte_def)
  have w: "bits_written bm {8 * i..<8 * i + 8} v ?bm"
  proof -
    have "bit_at ?bm n = (if n \<in> {8 * i..<8 * i + 8} then v else bit_at bm n)" if "n < bm_length bm" for n
    proof -
      have "n \<in> {8 * i..<8 * i + 8} \<longleftrightarrow> n div 8 = i" by auto
      then show ?thesis using lt Suc.prems(2) by (auto simp: bit_at_def bit_minus_1_iff)
    qed
    with Suc.prems(1) show ?thesis by (simp add: bits_written_def bitmap_ok_def)
  qed
  have "m = hi - (i + 1)" "hi \<le> length (bm_buffer ?bm)" using Suc.hyps(2) Suc.prems(2) by simp_all
  from Suc.hyps(1) [OF this(1) bits_written_ok [OF w] this(2)]
  obtain bm2 where b2: "fill_bytes ?bm (i + 1) hi ?f = Some bm2"
      "bits_written ?bm {8 * (i + 1)..<8 * hi} v bm2" by blast
  have "{8 * i..<8 * i + 8} \<union> {8 * (i + 1)..<8 * hi} = {8 * i..<8 * hi}" using lt by auto
  with bits_written_trans [OF w b2(2)] b2(1) st lt show ?case
    by (subst fill_bytes.simps) simp
qed

lemma bitmap_set_range_written:
  assumes ok: "bitmap_ok bm" and fin: "fin \<le> bm_length bm"
  shows "\<exists>bm'. bitmap_set_range bm start fin v = Some bm' \<and> bits_written bm {start..<fin} v bm'"
proof (cases "start < fin")
  case False
  with ok show ?thesis by (auto simp: bitmap_set_range_def)
next
  case True
  let ?sw = "(start + 7) div 8" and ?ew = "fin div 8"
  obtain bm1 where b1: "set_bits bm start (min (?sw * 8) fin) v = Some bm1"
      "bits_written bm {start..<min (?sw * 8) fin} v bm1"
    using set_bits_spec [OF ok] by blast
  note ok1 = bits_written_ok [OF b1(2)]
  have run1: "start < bm_length bm" using True fin by simp
  show ?thesis
  proof (cases "?sw > ?ew")
    case far: True
    then have "min (?sw * 8) fin = fin" by auto
    with b1 True run1 far show ?thesis by (auto simp: bitmap_set_range_def Let_def)
  next
    case False
    have "?ew \<le> length (bm_buffer bm1)"
      using fin bits_written_length [OF b1(2)] ok1 by (auto simp: bitmap_ok_def)
    then obtain bm2 where b2: "fill_bytes bm1 ?sw ?ew (if v then - 1 else 0) = Some bm2"
        "bits_written bm1 {8 * ?sw..<8 * ?ew} v bm2"
      using fill_bytes_spec [OF ok1] by blast
    obtain bm3 where b3: "set_bits bm2 (?ew * 8) fin v = Some bm3" "bits_written bm2 {?ew * 8..<fin} v bm3"
      using set_bits_spec [OF bits_written_ok [OF b2(2)]] by blast
    have "({start..<min (?sw * 8) fin} \<union> {8 * ?sw..<8 * ?ew}) \<union> {?ew * 8..<fin} = {start..<fin}"
      using False True by auto
    with bits_written_trans [OF bits_written_trans [OF b1(2) b2(2)] b3(2)]
    have "bits_written bm {start..<fin} v bm3" by simp
    with b1(1) b2(1) b3(1) True run1 False show ?thesis
      by (auto simp: bitmap_set_range_def Let_def)
  qed
qed

section \<open>Searching\<close>

definition run_at :: "bitmap \<Rightarrow> bool \<Rightarrow> nat \<Rightarrow> nat \<Rightarrow> bool" where
  "run_at bm v s len \<longleftrightarrow> (\<forall>n. s \<le> n \<and> n < s + len \<longrightarrow> bit_at bm n = v)"

text \<open>
  The two loop invariants of the search. The current run is the one of length \<open>count\<close> that ends at
  the scan position; every earlier start is refuted by a bit of the other value already scanned.
\<close>

definition scan_inv :: "bitmap \<Rightarrow> nat \<Rightarrow> bool \<Rightarrow> nat \<Rightarrow> nat \<Rightarrow> nat \<Rightarrow> nat \<Rightarrow> bool" where
  "scan_inv bm len v base pos count start \<longleftrightarrow>
     count < len \<and> base + count \<le> pos \<and> (count > 0 \<longrightarrow> start + count = pos) \<and> run_at bm v (pos - count) count"

definition scan_all :: "bitmap \<Rightarrow> nat \<Rightarrow> bool \<Rightarrow> nat \<Rightarrow> nat \<Rightarrow> nat \<Rightarrow> bool" where
  "scan_all bm len v base pos count \<longleftrightarrow>
     (\<forall>s. base \<le> s \<and> s + count < pos \<longrightarrow> (\<exists>n < pos. s \<le> n \<and> n < s + len \<and> bit_at bm n \<noteq> v))"

lemma run_at_0 [simp]: "run_at bm v s 0"
  by (auto simp: run_at_def)

lemma run_at_shorter: "run_at bm v s len \<Longrightarrow> len' \<le> len \<Longrightarrow> run_at bm v s len'"
  by (auto simp: run_at_def)

lemma run_at_extend:
  "run_at bm v s a \<Longrightarrow> run_at bm v (s + a) b \<Longrightarrow> run_at bm v s (a + b)"
  unfolding run_at_def by (metis add.assoc not_le)

lemma scan_grown:
  assumes "scan_inv bm len v base pos count start" and "run_at bm v pos m" and "0 < m"
  defines "start' \<equiv> (if count = 0 then pos else start)"
  shows "start' + (count + m) = pos + m" "base \<le> start'" "run_at bm v start' (count + m)"
proof -
  show s: "start' + (count + m) = pos + m" and "base \<le> start'"
    using assms by (auto simp: scan_inv_def)
  have "start' = pos - count" using s by simp
  moreover have "pos - count + count = pos" using s by simp
  ultimately show "run_at bm v start' (count + m)"
    using run_at_extend [of bm v "pos - count" count m] assms by (simp add: scan_inv_def)
qed

lemma scan_match:
  assumes "scan_inv bm len v base pos count start" "run_at bm v pos m" "0 < m" "count + m < len"
  shows "scan_inv bm len v base (pos + m) (count + m) (if count = 0 then pos else start)"
  using scan_grown [OF assms(1-3)] assms(4) unfolding scan_inv_def
  by (metis add_diff_cancel_right' add_le_mono1 add.assoc add.commute nat_add_left_cancel_le)

lemma scan_found:
  assumes "scan_inv bm len v base pos count start" "run_at bm v pos m" "0 < m" "len \<le> count + m"
  shows "base \<le> (if count = 0 then pos else start) \<and> (if count = 0 then pos else start) + len \<le> pos + m \<and>
    run_at bm v (if count = 0 then pos else start) len"
  using scan_grown [OF assms(1-3)] assms(4) run_at_shorter by (metis nat_add_left_cancel_le)

lemma scan_all_match: "scan_all bm len v base pos count \<Longrightarrow> scan_all bm len v base (pos + m) (count + m)"
  unfolding scan_all_def by (metis add.assoc add_less_cancel_right trans_less_add1)

lemma scan_miss:
  "scan_inv bm len v base pos count start \<Longrightarrow> scan_inv bm len v base (pos + m) 0 start'"
  by (simp add: scan_inv_def)

lemma scan_all_miss:
  assumes "scan_inv bm len v base pos count start" "scan_all bm len v base pos count"
    and other: "\<And>n. pos \<le> n \<Longrightarrow> n < pos + m \<Longrightarrow> bit_at bm n \<noteq> v"
    and m: "0 < m"
  shows "scan_all bm len v base (pos + m) 0"
  unfolding scan_all_def
proof (intro allI impI)
  fix s assume s: "base \<le> s \<and> s + 0 < pos + m"
  show "\<exists>n < pos + m. s \<le> n \<and> n < s + len \<and> bit_at bm n \<noteq> v"
  proof (cases "s + count < pos")
    case True
    with s assms(2) show ?thesis unfolding scan_all_def by (meson trans_less_add1)
  next
    case False
    with s m assms(1) other [of "max s pos"] show ?thesis
      by (intro exI [of _ "max s pos"]) (auto simp: scan_inv_def)
  qed
qed

lemma scan_all_done:
  assumes "scan_inv bm len v base pos count start" "scan_all bm len v base pos count"
    "base \<le> s" "s + len \<le> pos"
  shows "\<not> run_at bm v s len"
proof -
  have "s + count < pos" using assms by (auto simp: scan_inv_def)
  then show ?thesis using assms(2,3) by (auto simp: scan_all_def run_at_def)
qed

lemma scan_bits_spec:
  assumes "scan_inv bm len v base (8 * i + k) count start" "k \<le> 8" "bm_buffer bm ! i = byte"
  shows "case scan_bits len v byte i k count start of
      Inl r \<Rightarrow> base \<le> r \<and> r + len \<le> 8 * i + 8 \<and> run_at bm v r len
    | Inr (count', start') \<Rightarrow> scan_inv bm len v base (8 * i + 8) count' start' \<and>
        (scan_all bm len v base (8 * i + k) count \<longrightarrow> scan_all bm len v base (8 * i + 8) count')"
  using assms
proof (induction len v byte i k count start rule: scan_bits.induct)
  case (1 len v byte i k count start)
  show ?case
  proof (cases "k < 8")
    case False
    with "1.prems" show ?thesis by (simp add: scan_bits.simps)
  next
    case k: True
    have b: "bit_at bm (8 * i + k) = bit byte k" using k "1.prems"(3) by (simp add: bit_at_def)
    show ?thesis
    proof (cases "bit byte k = v")
      case True
      then have r: "run_at bm v (8 * i + k) 1" using b by (auto simp: run_at_def less_Suc_eq_le)
      show ?thesis
      proof (cases "count + 1 = len")
        case True
        then show ?thesis using scan_found [OF "1.prems"(1) r] k \<open>bit byte k = v\<close>
          by (subst scan_bits.simps) (auto simp: and_one_neq_zero mult.commute)
      next
        case False
        with "1.prems"(1) have "count + 1 < len" by (simp add: scan_inv_def)
        from "1.IH"(1) [OF k _ refl refl] scan_match [OF "1.prems"(1) r _ this] False k "1.prems"(3)
          scan_all_match [of bm len v base "8 * i + k" count 1] \<open>bit byte k = v\<close>
        show ?thesis
          by (subst scan_bits.simps)
             (auto simp: and_one_neq_zero mult.commute add.assoc split: sum.splits prod.splits)
      qed
    next
      case False
      have "\<And>n. 8 * i + k \<le> n \<Longrightarrow> n < 8 * i + k + 1 \<Longrightarrow> bit_at bm n \<noteq> v"
        using False b by (metis add.commute le_antisym less_Suc_eq_le plus_1_eq_Suc)
      from "1.IH"(2) [OF k] scan_miss [OF "1.prems"(1), of 1]
        scan_all_miss [where m = 1, OF "1.prems"(1) _ this] False k "1.prems"(3)
      show ?thesis
        by (subst scan_bits.simps)
           (auto simp: and_one_neq_zero add.assoc split: sum.splits prod.splits)
    qed
  qed
qed

lemma byte_bits:
  assumes "bm_buffer bm ! i = byte" "8 * i \<le> n" "n < 8 * i + 8"
  shows "bit_at bm n = bit byte (n - 8 * i)"
proof -
  have "n div 8 = i" using assms(2,3) by auto
  moreover from this have "n mod 8 = n - 8 * i" by (metis minus_div_mult_eq_mod mult.commute)
  ultimately show ?thesis using assms(1) by (simp add: bit_at_def)
qed

lemma run_byte_match:
  assumes "bm_buffer bm ! i = (if v then - 1 else 0)"
  shows "run_at bm v (8 * i) 8"
  using byte_bits [OF assms] by (auto simp: run_at_def bit_minus_1_iff)

text \<open>What a search that looks at the starts from \<open>base\<close> on promises of its answer \<open>r\<close>.\<close>

definition found_run :: "bitmap \<Rightarrow> nat \<Rightarrow> bool \<Rightarrow> nat \<Rightarrow> nat \<Rightarrow> bool" where
  "found_run bm len v base r \<longleftrightarrow> base \<le> r \<and> r + len \<le> bm_length bm \<and> run_at bm v r len"

definition no_run :: "bitmap \<Rightarrow> nat \<Rightarrow> bool \<Rightarrow> nat \<Rightarrow> bool" where
  "no_run bm len v base \<longleftrightarrow> (\<forall>s. base \<le> s \<and> s + len \<le> bm_length bm \<longrightarrow> \<not> run_at bm v s len)"

lemma found_runI:
  "\<lbrakk>base \<le> r; r + len \<le> 8 * i + 8; i < bm_length bm div 8; run_at bm v r len\<rbrakk> \<Longrightarrow> found_run bm len v base r"
  by (auto simp: found_run_def)

abbreviation scan_post :: "bitmap \<Rightarrow> nat \<Rightarrow> bool \<Rightarrow> nat \<Rightarrow> bool \<Rightarrow> nat option \<Rightarrow> bool" where
  "scan_post bm len v base complete res \<equiv> \<exists>r. res = Some r \<and>
    (r = NOT_FOUND \<or> found_run bm len v base r) \<and> (r = NOT_FOUND \<longrightarrow> complete \<longrightarrow> no_run bm len v base)"

lemma found_not_NOT_FOUND:
  "\<lbrakk>bitmap_ok bm; 0 < len; found_run bm len v base r\<rbrakk> \<Longrightarrow> r \<noteq> NOT_FOUND"
  by (auto simp: found_run_def NOT_FOUND_def bitmap_ok_def)

lemma scan_bytes_spec:
  assumes "bitmap_ok bm" "scan_inv bm len v base (8 * i) count start"
  shows "scan_post bm len v base (v \<and> scan_all bm len v base (8 * i) count) (scan_bytes bm len v i count start)"
  using assms
proof (induction bm len v i count start rule: scan_bytes.induct)
  case (1 bm len v i count start)
  note inv = "1.prems"(2)
  have len: "0 < len" using inv by (simp add: scan_inv_def)
  show ?case
  proof (cases "i < bm_length bm div 8")
    case False
    then have "bm_length bm \<le> 8 * i" using "1.prems"(1) by (auto simp: bitmap_ok_def)
    then have "scan_all bm len v base (8 * i) count \<Longrightarrow> no_run bm len v base"
      using scan_all_done [OF inv] by (auto simp: no_run_def)
    with False show ?thesis by (cases v) (simp_all add: scan_bytes.simps)
  next
    case i: True
    let ?byte = "bm_buffer bm ! i" and ?m = "(if v then - 1 else 0) :: u8"
    let ?n = "(if ?m = 0 then 1 else 0) :: u8"
    have ld: "load_byte bm i = Some ?byte"
      using i "1.prems"(1) by (auto simp: load_byte_def bitmap_ok_def)
    note IH = "1.IH" [OF i ld refl refl]
    consider (miss) "?byte = ?n" | (hit) "?byte \<noteq> ?n" "?byte = ?m" | (mixed) "?byte \<noteq> ?n" "?byte \<noteq> ?m"
      by blast
    then show ?thesis
    proof cases
      case miss
      have "scan_all bm len v base (8 * (i + 1)) 0" if "v" "scan_all bm len v base (8 * i) count"
        using scan_all_miss [OF inv that(2), of 8] byte_bits [OF miss] that(1) by (simp add: add.commute)
      moreover have "scan_inv bm len v base (8 * (i + 1)) 0 start"
        using scan_miss [OF inv, of 8 start] by (simp add: add.commute)
      ultimately have "scan_post bm len v base (v \<and> scan_all bm len v base (8 * i) count) (scan_bytes bm len v (i + 1) 0 start)"
        using IH(1) [OF miss "1.prems"(1)] by blast
      with i ld miss show ?thesis by (subst scan_bytes.simps) simp
    next
      case hit
      note r = run_byte_match [OF hit(2)]
      consider (short) "len < 8" | (enough) "\<not> len < 8" "len \<le> count + 8" | (more) "\<not> len < 8" "\<not> len \<le> count + 8"
        by blast
      then show ?thesis
      proof cases
        case short
        then have "found_run bm len v base (8 * i)"
          using inv run_at_shorter [OF r] i by (intro found_runI) (auto simp: scan_inv_def)
        moreover have "scan_bytes bm len v i count start = Some (8 * i)"
          using i ld hit short by (subst scan_bytes.simps) (simp add: mult.commute)
        ultimately show ?thesis using found_not_NOT_FOUND [OF "1.prems"(1) len] by simp
      next
        case enough
        note f = scan_found [OF inv r _ enough(2), simplified]
        have "found_run bm len v base (if count = 0 then 8 * i else start)"
          by (rule found_runI [OF _ _ i]) (use f in auto)
        moreover have "scan_bytes bm len v i count start = Some (if count = 0 then 8 * i else start)"
          using i ld hit enough by (subst scan_bytes.simps) (simp add: mult.commute)
        ultimately show ?thesis using found_not_NOT_FOUND [OF "1.prems"(1) len] by simp
      next
        case more
        then have lt: "count + 8 < len" by simp
        have "scan_inv bm len v base (8 * (i + 1)) (count + 8) (if count = 0 then i * 8 else start)"
          using scan_match [OF inv r _ lt] by (cases "count = 0") (simp_all add: ac_simps)
        moreover have "scan_all bm len v base (8 * (i + 1)) (count + 8)" if "scan_all bm len v base (8 * i) count"
          using scan_all_match [OF that, of 8] by (simp add: ac_simps)
        ultimately have "scan_post bm len v base (v \<and> scan_all bm len v base (8 * i) count)
            (scan_bytes bm len v (i + 1) (count + 8) (if count = 0 then i * 8 else start))"
          using IH(2) [OF hit more(1) refl refl more(2) "1.prems"(1)] by blast
        with i ld hit more show ?thesis by (subst scan_bytes.simps) (simp add: Let_def)
      qed
    next
      case mixed
      have sb: "case scan_bits len v ?byte i 0 count start of
          Inl r \<Rightarrow> base \<le> r \<and> r + len \<le> 8 * i + 8 \<and> run_at bm v r len
        | Inr (c, st) \<Rightarrow> scan_inv bm len v base (8 * (i + 1)) c st \<and>
            (scan_all bm len v base (8 * i) count \<longrightarrow> scan_all bm len v base (8 * (i + 1)) c)"
        using scan_bits_spec [of bm len v base i 0 count start ?byte] inv by (simp add: add.commute split: sum.splits prod.splits)
      show ?thesis
      proof (cases "scan_bits len v ?byte i 0 count start")
        case (Inl r)
        with sb i have "found_run bm len v base r" by (auto intro: found_runI)
        moreover have "scan_bytes bm len v i count start = Some r"
          using i ld mixed Inl by (subst scan_bytes.simps) simp
        ultimately show ?thesis using found_not_NOT_FOUND [OF "1.prems"(1) len] by simp
      next
        case (Inr p)
        obtain c st where p: "p = (c, st)" by (cases p)
        with sb Inr have c: "scan_inv bm len v base (8 * (i + 1)) c st"
            "scan_all bm len v base (8 * i) count \<longrightarrow> scan_all bm len v base (8 * (i + 1)) c"
          by simp_all
        have "scan_post bm len v base (v \<and> scan_all bm len v base (8 * i) count) (scan_bytes bm len v (i + 1) c st)"
          using IH(3) [OF mixed Inr p [symmetric] "1.prems"(1) c(1)] c(2) by blast
        with i ld mixed Inr p show ?thesis by (subst scan_bytes.simps) simp
      qed
    qed
  qed
qed

lemma scan_start: "0 < len \<Longrightarrow> scan_inv bm len v pos pos 0 start" "scan_all bm len v pos pos 0"
  by (auto simp: scan_inv_def scan_all_def)

lemma find_range_from_spec:
  assumes "bitmap_ok bm" "0 < len"
  shows "scan_post bm len v (8 * (from div 8)) v (bitmap_find_range_from bm len v from)"
  using scan_bytes_spec [OF assms(1) scan_start(1) [OF assms(2)], of v "from div 8" 0]
  by (simp add: bitmap_find_range_from_def scan_start(2))

lemma find_range_eq: "bitmap_find_range bm len v = bitmap_find_range_from bm len v 0"
  by (simp add: bitmap_find_range_def bitmap_find_range_from_def)

text \<open>A range that ends past the buffer makes \<open>bitmap_set_range\<close> write outside it.\<close>

lemma fill_bytes_past_end:
  "i \<le> length (bm_buffer bm) \<Longrightarrow> length (bm_buffer bm) < hi \<Longrightarrow> fill_bytes bm i hi b = None"
proof (induction "length (bm_buffer bm) - i" arbitrary: bm i)
  case 0
  then show ?case by (subst fill_bytes.simps) (simp add: store_byte_def)
next
  case (Suc m)
  let ?bm = "bm\<lparr>bm_buffer := (bm_buffer bm)[i := b]\<rparr>"
  from Suc.hyps(2) Suc.prems have "m = length (bm_buffer ?bm) - (i + 1)" "i < hi" "i < length (bm_buffer bm)" by simp_all
  with Suc.hyps(1) [of ?bm "i + 1"] Suc.prems show ?case
    by (subst fill_bytes.simps) (simp add: store_byte_def)
qed

lemma set_range_past_end:
  assumes ok: "bitmap_ok bm" and st: "start < bm_length bm" and fin: "bm_length bm + 8 \<le> fin"
  shows "bitmap_set_range bm start fin v = None"
proof -
  let ?sw = "(start + 7) div 8"
  obtain bm1 where b1: "set_bits bm start (min (?sw * 8) fin) v = Some bm1"
      "bits_written bm {start..<min (?sw * 8) fin} v bm1"
    using set_bits_spec [OF ok] by blast
  then have l: "8 * length (bm_buffer bm1) = bm_length bm" by (auto simp: bits_written_def bitmap_ok_def)
  with st fin have "?sw \<le> length (bm_buffer bm1)" "length (bm_buffer bm1) < fin div 8" by auto
  with fill_bytes_past_end [OF this] b1(1) st fin show ?thesis
    by (simp add: bitmap_set_range_def Let_def)
qed

section \<open>Properties\<close>

text \<open>
  C35. On a range inside the bitmap, the byte-wise \<open>bitmap_set_range\<close> returns and writes
  exactly the bits of the range: each of them gets the value, every other bit keeps its own.
\<close>

theorem set_range_exact:
  assumes "bitmap_ok bm" and "fin \<le> bm_length bm"
  shows "\<exists>bm'. bitmap_set_range bm start fin v = Some bm' \<and> bits_written bm {start..<fin} v bm'"
  using assms by (rule bitmap_set_range_written)

theorem set_range_exact_witness:
  "\<exists>bm'. bitmap_set_range (bitmap_init 4) 3 21 True = Some bm' \<and> bits_written (bitmap_init 4) {3..<21} True bm'"
  by (rule set_range_exact) (simp_all add: bitmap_ok_def bitmap_init_def)

text \<open>
  C36. A search for set bits from a position on is exact: it returns, it answers
  \<open>(size_t)-1\<close> only when there is no run of that many set bits from the byte of that position
  on, and any other answer is the start of such a run inside the bitmap. A search for clear bits is
  sound: what it finds is a run.
\<close>

theorem find_range_correct:
  assumes "bitmap_ok bm" and "0 < len"
  shows "\<exists>r. bitmap_find_range_from bm len v from = Some r \<and>
    (r = NOT_FOUND \<or> found_run bm len v (8 * (from div 8)) r) \<and>
    (r = NOT_FOUND \<longrightarrow> v \<longrightarrow> no_run bm len v (8 * (from div 8)))"
  by (rule find_range_from_spec [OF assms])

theorem find_range_correct_witness:
  "\<exists>r. bitmap_find_range_from \<lparr>bm_buffer = [0, 0xf0, 1], bm_length = 24\<rparr> 5 True 8 = Some r \<and>
     (r = NOT_FOUND \<or> found_run \<lparr>bm_buffer = [0, 0xf0, 1], bm_length = 24\<rparr> 5 True 8 r) \<and>
     (r = NOT_FOUND \<longrightarrow> no_run \<lparr>bm_buffer = [0, 0xf0, 1], bm_length = 24\<rparr> 5 True 8)"
  using find_range_correct [of "\<lparr>bm_buffer = [0, 0xf0, 1], bm_length = 24\<rparr>" 5 True 8]
  by (simp add: bitmap_ok_def)

text \<open>
  A range that starts inside the bitmap and ends a byte or more past its end
  makes \<open>bitmap_set_range\<close> store outside the buffer: only the start is checked against the length.
\<close>

lemma set_range_overrun:
  assumes "bitmap_ok bm" and "start < bm_length bm" and "bm_length bm + 8 \<le> fin"
  shows "bitmap_set_range bm start fin v = None"
  using assms by (rule set_range_past_end)

text \<open>
  The search for clear bits is not complete: it passes over a byte whose only set bit is
  the lowest one, and misses the run of seven clear bits in it.
\<close>

lemma find_clear_incomplete:
  "bitmap_find_range \<lparr>bm_buffer = [1], bm_length = 8\<rparr> 7 False = Some NOT_FOUND \<and>
   run_at \<lparr>bm_buffer = [1], bm_length = 8\<rparr> False 1 7"
proof
  show "bitmap_find_range \<lparr>bm_buffer = [1], bm_length = 8\<rparr> 7 False = Some NOT_FOUND"
    unfolding bitmap_find_range_def
    by (subst scan_bytes.simps, simp add: load_byte_def, subst scan_bytes.simps, simp)
  show "run_at \<lparr>bm_buffer = [1], bm_length = 8\<rparr> False 1 7"
    by (auto simp: run_at_def bit_at_def bit_1_iff)
qed

end
