(* ===== verification/BootMemory.thy ===== *)
theory BootMemory
  imports Prelude
begin

text \<open>
  The firmware memory map of \<^verbatim>\<open>kernel/memory/boot_memory.cpp\<close> and \<^verbatim>\<open>include/mm/boot_memory.h\<close>. The
  mv is a byte buffer in memory (a partial function from addresses to bytes; a read outside it
  has no result), all quantities are 64-bit words with their wrap-around. An output argument is
  the cell it points to, \<open>None\<close> for the null pointer; a function returns its \<open>bool\<close> and the cell.
\<close>

section \<open>Model\<close>

type_synonym memory = "u64 \<rightharpoonup> u8"

definition page_bytes :: u64 where "page_bytes = 4096"

definition descriptor_prefix_bytes :: u64 where "descriptor_prefix_bytes = 40"

definition maximum_descriptors :: u64 where "maximum_descriptors = 16384"

definition conventional_memory :: u32 where "conventional_memory = 7"

definition minimum_allocatable :: u64 where "minimum_allocatable = 0x100000"

abbreviation UINT64_MAX :: u64 where "UINT64_MAX \<equiv> - 1"

record MapView =
  mv_bytes :: u64
  mv_buffer_bytes :: u64
  mv_map_bytes :: u64
  mv_descriptor_bytes :: u64

record Descriptor =
  d_type :: u32
  d_physical_start :: u64
  d_virtual_start :: u64
  d_pages :: u64
  d_attributes :: u64

record Summary =
  s_descriptor_count :: u64
  s_total_bytes :: u64
  s_conventional_top :: u64
  s_allocatable_pages :: u64

record PhysicalSpan =
  ps_start :: u64
  ps_end :: u64

datatype SpanPolicy = loader_data_only | loader_and_boot_services

record FrameBitmapLayout =
  fb_bitmap_bytes :: u64
  fb_storage_bytes :: u64
  fb_first :: u64
  fb_second :: u64
  fb_reserved_end :: u64

definition zero_Descriptor :: Descriptor where
  "zero_Descriptor =
  \<lparr>d_type = 0, d_physical_start = 0, d_virtual_start = 0, d_pages = 0, d_attributes = 0\<rparr>"

definition zero_Summary :: Summary where
  "zero_Summary =
  \<lparr>s_descriptor_count = 0, s_total_bytes = 0, s_conventional_top = 0, s_allocatable_pages = 0\<rparr>"

definition zero_PhysicalSpan :: PhysicalSpan where
  "zero_PhysicalSpan = \<lparr>ps_start = 0, ps_end = 0\<rparr>"

definition zero_FrameBitmapLayout :: FrameBitmapLayout where
  "zero_FrameBitmapLayout =
  \<lparr>fb_bitmap_bytes = 0, fb_storage_bytes = 0, fb_first = 0, fb_second = 0, fb_reserved_end = 0\<rparr>"

definition structural_bounds :: "MapView \<Rightarrow> bool" where
  "structural_bounds mv =
     (if mv_bytes mv = 0 \<or> mv_descriptor_bytes mv < descriptor_prefix_bytes \<or> mv_map_bytes mv = 0 \<or>
         mv_map_bytes mv > mv_buffer_bytes mv \<or> mv_map_bytes mv mod mv_descriptor_bytes mv \<noteq> 0 \<or>
         mv_map_bytes mv div mv_descriptor_bytes mv > maximum_descriptors then False
      else mv_buffer_bytes mv \<le> UINT64_MAX \<and> mv_bytes mv \<le> UINT64_MAX - mv_buffer_bytes mv)"

text \<open>The little-endian value of the \<open>n\<close> bytes at an address.\<close>

fun copy_field :: "memory \<Rightarrow> nat \<Rightarrow> u64 \<Rightarrow> u64 option" where
  "copy_field mem 0 source = Some 0"
| "copy_field mem (Suc n) source = do {
     b \<leftarrow> mem source;
     r \<leftarrow> copy_field mem n (source + 1);
     Some (ucast b OR push_bit 8 r)
   }"

definition read_descriptor :: "memory \<Rightarrow> MapView \<Rightarrow> u64 \<Rightarrow> Descriptor option option" where
  "read_descriptor mem mv index = do {
     let record = mv_bytes mv + index * mv_descriptor_bytes mv;
     type \<leftarrow> copy_field mem 4 record;
     physical_start \<leftarrow> copy_field mem 8 (record + 8);
     virtual_start \<leftarrow> copy_field mem 8 (record + 16);
     pages \<leftarrow> copy_field mem 8 (record + 24);
     attributes \<leftarrow> copy_field mem 8 (record + 32);
     if pages = 0 \<or> physical_start mod page_bytes \<noteq> 0 \<or> virtual_start mod page_bytes \<noteq> 0 \<or>
        pages > UINT64_MAX div page_bytes \<or> physical_start > UINT64_MAX - pages * page_bytes
     then Some None
     else Some (Some \<lparr>d_type = ucast type, d_physical_start = physical_start, d_virtual_start = virtual_start,
                      d_pages = pages, d_attributes = attributes\<rparr>)
   }"

definition region_end :: "Descriptor \<Rightarrow> u64" where
  "region_end descriptor = d_physical_start descriptor + d_pages descriptor * page_bytes"

fun permitted :: "u32 \<Rightarrow> SpanPolicy \<Rightarrow> bool" where
  "permitted type loader_data_only = (type = 2)"
| "permitted type loader_and_boot_services = (type \<ge> 1 \<and> type \<le> 4)"

definition descriptor_at ::
  "memory \<Rightarrow> MapView \<Rightarrow> u64 \<Rightarrow> Descriptor option \<Rightarrow> (bool \<times> Descriptor option) option" where
  "descriptor_at mem mv index output =
     (if output = None then Some (False, None)
      else if \<not> structural_bounds mv \<or> index \<ge> mv_map_bytes mv div mv_descriptor_bytes mv
      then Some (False, Some zero_Descriptor)
      else do {
        r \<leftarrow> read_descriptor mem mv index;
        case r of None \<Rightarrow> Some (False, Some zero_Descriptor)
        | Some d \<Rightarrow> Some (True, Some d)
      })"

text \<open>
  The inner loop of \<open>validate_map\<close>: does the descriptor overlap one of the records from \<open>previous\<close> up to
  \<open>index\<close>? \<open>Some False\<close> stands for the early \<open>return false\<close>.
\<close>

function clear_of_previous :: "memory \<Rightarrow> MapView \<Rightarrow> Descriptor \<Rightarrow> nat \<Rightarrow> nat \<Rightarrow> bool option" where
  "clear_of_previous mem mv descriptor previous index =
     (if previous < index then do {
        r \<leftarrow> read_descriptor mem mv (of_nat previous);
        case r of None \<Rightarrow> Some False
        | Some other \<Rightarrow>
            if d_physical_start descriptor < region_end other \<and> d_physical_start other < region_end descriptor
            then Some False
            else clear_of_previous mem mv descriptor (previous + 1) index
      } else Some True)"
  by pat_completeness auto
termination by (relation "measure (\<lambda>(mem, mv, d, previous, index). index - previous)") auto

definition count_conventional :: "Descriptor \<Rightarrow> Summary \<Rightarrow> Summary" where
  "count_conventional descriptor summary =
     (if d_type descriptor \<noteq> conventional_memory then summary
      else let fin = region_end descriptor;
               summary = (if fin > s_conventional_top summary then summary\<lparr>s_conventional_top := fin\<rparr> else summary)
           in if d_physical_start descriptor \<ge> minimum_allocatable
              then summary\<lparr>s_allocatable_pages := s_allocatable_pages summary + d_pages descriptor\<rparr>
              else summary)"

function validate_records :: "memory \<Rightarrow> MapView \<Rightarrow> nat \<Rightarrow> Summary \<Rightarrow> Summary option option" where
  "validate_records mem mv index summary =
     (if index < unat (s_descriptor_count summary) then do {
        r \<leftarrow> read_descriptor mem mv (of_nat index);
        case r of None \<Rightarrow> Some None
        | Some descriptor \<Rightarrow> do {
            let bytes = d_pages descriptor * page_bytes;
            if s_total_bytes summary > UINT64_MAX - bytes then Some None
            else do {
              let summary = summary\<lparr>s_total_bytes := s_total_bytes summary + bytes\<rparr>;
              ok \<leftarrow> clear_of_previous mem mv descriptor 0 index;
              if \<not> ok then Some None
              else validate_records mem mv (index + 1) (count_conventional descriptor summary)
            }
          }
      } else Some (Some summary))"
  by pat_completeness auto
termination
  by (relation "measure (\<lambda>(mem, mv, index, summary). unat (s_descriptor_count summary) - index)")
     (auto simp: count_conventional_def Let_def)

declare clear_of_previous.simps [simp del] validate_records.simps [simp del]

definition validate_map ::
  "memory \<Rightarrow> MapView \<Rightarrow> Summary option \<Rightarrow> (bool \<times> Summary option) option" where
  "validate_map mem mv output =
     (if output = None then Some (False, None)
      else if \<not> structural_bounds mv then Some (False, Some zero_Summary)
      else do {
        let summary = zero_Summary\<lparr>s_descriptor_count := mv_map_bytes mv div mv_descriptor_bytes mv\<rparr>;
        r \<leftarrow> validate_records mem mv 0 summary;
        case r of None \<Rightarrow> Some (False, Some zero_Summary)
        | Some summary \<Rightarrow> Some (True, Some summary)
      })"

text \<open>The callers below validate into a zeroed local summary.\<close>

definition validated :: "memory \<Rightarrow> MapView \<Rightarrow> Summary option option" where
  "validated mem mv = (case validate_map mem mv (Some zero_Summary) of
     None \<Rightarrow> None | Some (ok, summary) \<Rightarrow> Some (if ok then summary else None))"

function find_in_records :: "memory \<Rightarrow> MapView \<Rightarrow> u64 \<Rightarrow> nat \<Rightarrow> nat \<Rightarrow> Descriptor option option" where
  "find_in_records mem mv physical index count =
     (if index < count then do {
        r \<leftarrow> read_descriptor mem mv (of_nat index);
        case r of None \<Rightarrow> Some None
        | Some descriptor \<Rightarrow>
            if physical \<ge> d_physical_start descriptor \<and> physical < region_end descriptor
            then Some (Some descriptor)
            else find_in_records mem mv physical (index + 1) count
      } else Some None)"
  by pat_completeness auto
termination by (relation "measure (\<lambda>(mem, mv, physical, index, count). count - index)") auto

definition find_region ::
  "memory \<Rightarrow> MapView \<Rightarrow> u64 \<Rightarrow> Descriptor option \<Rightarrow> (bool \<times> Descriptor option) option" where
  "find_region mem mv physical output =
     (if output = None then Some (False, None)
      else do {
        v \<leftarrow> validated mem mv;
        case v of None \<Rightarrow> Some (False, Some zero_Descriptor)
        | Some summary \<Rightarrow> do {
            r \<leftarrow> find_in_records mem mv physical 0 (unat (s_descriptor_count summary));
            case r of None \<Rightarrow> Some (False, Some zero_Descriptor)
            | Some descriptor \<Rightarrow> Some (True, Some descriptor)
          }
      })"

text \<open>
  One round of the loop of \<open>covered_span\<close>: \<open>Some None\<close> is one of its two \<open>return false\<close>, otherwise the next
  value of \<open>current\<close>.
\<close>

function cover_step :: "memory \<Rightarrow> MapView \<Rightarrow> SpanPolicy \<Rightarrow> u64 \<Rightarrow> u64 \<Rightarrow> nat \<Rightarrow> nat \<Rightarrow> u64 option option" where
  "cover_step mem mv policy current fin index count =
     (if index < count then do {
        r \<leftarrow> read_descriptor mem mv (of_nat index);
        case r of None \<Rightarrow> Some None
        | Some descriptor \<Rightarrow> do {
            let descriptor_end = region_end descriptor;
            if current < d_physical_start descriptor \<or> current \<ge> descriptor_end
            then cover_step mem mv policy current fin (index + 1) count
            else if \<not> permitted (d_type descriptor) policy then Some None
            else Some (Some (if descriptor_end < fin then descriptor_end else fin))
          }
      } else Some None)"
  by pat_completeness auto
termination by (relation "measure (\<lambda>(mem, mv, policy, current, fin, index, count). count - index)") auto

declare find_in_records.simps [simp del] cover_step.simps [simp del]

lemma cover_step_progress:
  "cover_step mem mv policy current fin index count = Some (Some next') \<Longrightarrow> current < fin \<Longrightarrow>
   current < next' \<and> next' \<le> fin"
proof (induction mem mv policy current fin index count rule: cover_step.induct)
  case (1 mem mv policy current fin index count)
  then show ?case
    by (subst (asm) cover_step.simps)
       (auto simp: Let_def not_le split: if_splits option.splits bind_splits)
qed

function cover_loop :: "memory \<Rightarrow> MapView \<Rightarrow> SpanPolicy \<Rightarrow> u64 \<Rightarrow> u64 \<Rightarrow> nat \<Rightarrow> bool option" where
  "cover_loop mem mv policy current fin count =
     (if current < fin then
        (case cover_step mem mv policy current fin 0 count of
           None \<Rightarrow> None
         | Some None \<Rightarrow> Some False
         | Some (Some current') \<Rightarrow> cover_loop mem mv policy current' fin count)
      else Some True)"
  by pat_completeness auto
termination
  by (relation "measure (\<lambda>(mem, mv, policy, current, fin, count). unat fin - unat current)")
     (auto dest!: cover_step_progress simp: word_less_nat_alt word_le_nat_alt)

declare cover_loop.simps [simp del]

definition covered_span ::
  "memory \<Rightarrow> MapView \<Rightarrow> u64 \<Rightarrow> u64 \<Rightarrow> SpanPolicy \<Rightarrow> PhysicalSpan option \<Rightarrow> (bool \<times> PhysicalSpan option) option" where
  "covered_span mem mv physical bytes policy output =
     (if output = None then Some (False, None)
      else do {
        v \<leftarrow> validated mem mv;
        case v of None \<Rightarrow> Some (False, Some zero_PhysicalSpan)
        | Some summary \<Rightarrow>
            if bytes = 0 \<or> physical > UINT64_MAX - bytes then Some (False, Some zero_PhysicalSpan)
            else do {
              let fin = physical + bytes;
              if fin > UINT64_MAX - (page_bytes - 1) then Some (False, Some zero_PhysicalSpan)
              else do {
                let fin = (fin + page_bytes - 1) AND NOT (page_bytes - 1);
                let start = physical AND NOT (page_bytes - 1);
                ok \<leftarrow> cover_loop mem mv policy start fin (unat (s_descriptor_count summary));
                Some (if ok then (True, Some \<lparr>ps_start = start, ps_end = fin\<rparr>)
                      else (False, Some zero_PhysicalSpan))
              }
            }
      })"

function place_bitmaps ::
  "memory \<Rightarrow> MapView \<Rightarrow> FrameBitmapLayout \<Rightarrow> u64 \<Rightarrow> nat \<Rightarrow> nat \<Rightarrow> FrameBitmapLayout option option" where
  "place_bitmaps mem mv layout reserved_bytes index count =
     (if index < count then do {
        r \<leftarrow> read_descriptor mem mv (of_nat index);
        case r of None \<Rightarrow> Some None
        | Some descriptor \<Rightarrow>
            if d_type descriptor \<noteq> conventional_memory \<or> d_physical_start descriptor < minimum_allocatable \<or>
               d_pages descriptor * page_bytes < reserved_bytes
            then place_bitmaps mem mv layout reserved_bytes (index + 1) count
            else let layout = layout\<lparr>fb_first := d_physical_start descriptor\<rparr>;
                     layout = layout\<lparr>fb_second := fb_first layout + fb_storage_bytes layout\<rparr>;
                     layout = layout\<lparr>fb_reserved_end := fb_second layout + fb_storage_bytes layout\<rparr>
                 in Some (Some layout)
      } else Some None)"
  by pat_completeness auto
termination by (relation "measure (\<lambda>(mem, mv, layout, reserved_bytes, index, count). count - index)") auto

declare place_bitmaps.simps [simp del]

definition plan_frame_bitmaps ::
  "memory \<Rightarrow> MapView \<Rightarrow> FrameBitmapLayout option \<Rightarrow> (bool \<times> FrameBitmapLayout option) option" where
  "plan_frame_bitmaps mem mv output =
     (if output = None then Some (False, None)
      else do {
        v \<leftarrow> validated mem mv;
        case v of None \<Rightarrow> Some (False, Some zero_FrameBitmapLayout)
        | Some summary \<Rightarrow>
            if s_conventional_top summary = 0 then Some (False, Some zero_FrameBitmapLayout)
            else do {
              let frames = s_conventional_top summary div page_bytes;
              let bitmap_bytes = (frames + 7) div 8;
              if bitmap_bytes > UINT64_MAX - (page_bytes - 1) then Some (False, Some zero_FrameBitmapLayout)
              else do {
                let storage_bytes = (bitmap_bytes + page_bytes - 1) AND NOT (page_bytes - 1);
                if storage_bytes > UINT64_MAX div 2 then Some (False, Some zero_FrameBitmapLayout)
                else do {
                  let layout = zero_FrameBitmapLayout\<lparr>fb_bitmap_bytes := bitmap_bytes, fb_storage_bytes := storage_bytes\<rparr>;
                  r \<leftarrow> place_bitmaps mem mv layout (storage_bytes * 2) 0 (unat (s_descriptor_count summary));
                  case r of None \<Rightarrow> Some (False, Some zero_FrameBitmapLayout)
                  | Some layout \<Rightarrow> Some (True, Some layout)
                }
              }
            }
      })"

section \<open>Records and regions\<close>

abbreviation record_count :: "MapView \<Rightarrow> nat" where
  "record_count mv \<equiv> unat (mv_map_bytes mv div mv_descriptor_bytes mv)"

text \<open>The caller's promise: the bytes of the buffer are mapped.\<close>

definition readable :: "memory \<Rightarrow> MapView \<Rightarrow> bool" where
  "readable mem mv \<longleftrightarrow> (\<forall>k < unat (mv_buffer_bytes mv). mem (mv_bytes mv + of_nat k) \<noteq> None)"

definition bytes_of :: "Descriptor \<Rightarrow> nat" where
  "bytes_of d = unat (d_pages d) * 4096"

definition region :: "Descriptor \<Rightarrow> nat set" where
  "region d = {unat (d_physical_start d)..<unat (d_physical_start d) + bytes_of d}"

definition good :: "Descriptor \<Rightarrow> bool" where
  "good d \<longleftrightarrow> d_pages d \<noteq> 0 \<and> 4096 dvd unat (d_physical_start d) \<and> 4096 dvd unat (d_virtual_start d) \<and>
     unat (d_physical_start d) + bytes_of d < 2 ^ 64"

text \<open>The bytes of record \<open>i\<close> are the fields of \<open>d\<close>. The map holds exactly the descriptors \<open>ds\<close>, all of them well formed.\<close>

definition fields_at :: "memory \<Rightarrow> MapView \<Rightarrow> nat \<Rightarrow> Descriptor \<Rightarrow> bool" where
  "fields_at mem mv i d \<longleftrightarrow> (let r = mv_bytes mv + of_nat i * mv_descriptor_bytes mv in
     map_option ucast (copy_field mem 4 r) = Some (d_type d) \<and> copy_field mem 8 (r + 8) = Some (d_physical_start d) \<and>
     copy_field mem 8 (r + 16) = Some (d_virtual_start d) \<and> copy_field mem 8 (r + 24) = Some (d_pages d) \<and>
     copy_field mem 8 (r + 32) = Some (d_attributes d))"

definition records :: "memory \<Rightarrow> MapView \<Rightarrow> Descriptor list \<Rightarrow> bool" where
  "records mem mv ds \<longleftrightarrow> length ds = record_count mv \<and> (\<forall>i < length ds. fields_at mem mv i (ds ! i) \<and> good (ds ! i))"

lemma page_aligned: "x mod page_bytes = 0 \<longleftrightarrow> 4096 dvd unat x"
  by (simp add: unat_eq_0 [symmetric] unat_mod page_bytes_def dvd_eq_mod_eq_0)

lemma no_wrap_pages: "a \<le> UINT64_MAX div page_bytes \<longleftrightarrow> unat a * 4096 < 2 ^ 64"
proof -
  have "unat (UINT64_MAX div page_bytes) = (2 ^ 64 - 1) div 4096"
    by (simp add: unat_div page_bytes_def unsigned_minus_1_eq_mask mask_eq_exp_minus_1)
  then show ?thesis by (simp add: word_le_nat_alt) linarith
qed

lemma unat_pages: "unat a * 4096 < 2 ^ 64 \<Longrightarrow> unat (a * page_bytes) = unat a * 4096"
  using unat_mult_small [of a page_bytes] by (simp add: page_bytes_def)

lemma page_down: "unat (x AND NOT (page_bytes - 1)) = unat x div 4096 * 4096"
  using unat_align_down [of x 12] by (simp add: page_bytes_def mask_eq_exp_minus_1)

lemma good_sizes:
  assumes "good d"
  shows "unat (d_pages d * page_bytes) = bytes_of d" "unat (region_end d) = unat (d_physical_start d) + bytes_of d"
    "0 < bytes_of d"
proof -
  show 1: "unat (d_pages d * page_bytes) = bytes_of d"
    using assms unat_pages [of "d_pages d"] by (simp add: good_def bytes_of_def)
  show "unat (region_end d) = unat (d_physical_start d) + bytes_of d"
    using assms 1 by (simp add: good_def region_end_def unat_add_small)
  show "0 < bytes_of d" using assms by (simp add: good_def bytes_of_def unat_gt_0)
qed

lemma in_region: "good d \<Longrightarrow> d_physical_start d \<le> a \<and> a < region_end d \<longleftrightarrow> unat a \<in> region d"
  by (simp add: region_def good_sizes word_nat)

lemma overlap_region:
  assumes "good d" "good e"
  shows "d_physical_start d < region_end e \<and> d_physical_start e < region_end d \<longleftrightarrow> region d \<inter> region e \<noteq> {}"
  using assms good_sizes [OF assms(1)] good_sizes [OF assms(2)]
  by (simp add: region_def good_sizes word_less_nat_alt) linarith

section \<open>Reading a record\<close>

lemma copy_field_total:
  "(\<forall>k < n. mem (a + of_nat k) \<noteq> None) \<Longrightarrow> \<exists>v. copy_field mem n a = Some v"
proof (induction n arbitrary: a)
  case (Suc n)
  from Suc.prems [rule_format, of 0] obtain b where "mem a = Some b" by auto
  moreover have "\<forall>k < n. mem (a + 1 + of_nat k) \<noteq> None"
    using Suc.prems [rule_format, of "Suc k" for k] by (simp add: add.assoc)
  with Suc.IH obtain v where "copy_field mem n (a + 1) = Some v" by blast
  ultimately show ?case by simp
qed simp

text \<open>Little-endian bytes of a value are read back as that value.\<close>

lemma copy_field_bytes:
  "(\<forall>k < n. mem (a + of_nat k) = Some (ucast (drop_bit (8 * k) v))) \<Longrightarrow>
   copy_field mem n a = Some (take_bit (8 * n) v)"
proof (induction n arbitrary: a v)
  case (Suc n)
  have "mem a = Some (ucast v)" using Suc.prems [rule_format, of 0] by simp
  moreover have "\<forall>k < n. mem (a + 1 + of_nat k) = Some (ucast (drop_bit (8 * k) (drop_bit 8 v)))"
    using Suc.prems [rule_format, of "Suc k" for k] by (simp add: ac_simps)
  then have "copy_field mem n (a + 1) = Some (take_bit (8 * n) (drop_bit 8 v))" by (rule Suc.IH)
  moreover have "ucast (ucast v :: u8) OR push_bit 8 (take_bit (8 * n) (drop_bit 8 v)) = take_bit (8 * Suc n) v"
    by (rule bit_word_eqI) (auto simp: bit_simps)
  ultimately show ?case by simp
qed simp

lemma read_descriptor_good: "read_descriptor mem mv i = Some (Some d) \<Longrightarrow> good d"
  by (auto simp: read_descriptor_def Let_def good_def bytes_of_def page_aligned not_less no_wrap_pages
        no_wrap_add unat_pages split: bind_splits if_splits)

lemma read_descriptor_iff: "read_descriptor mem mv (of_nat i) = Some (Some d) \<longleftrightarrow> fields_at mem mv i d \<and> good d"
proof
  assume r: "read_descriptor mem mv (of_nat i) = Some (Some d)"
  then have "fields_at mem mv i d" by (auto simp: read_descriptor_def fields_at_def Let_def split: bind_splits if_splits)
  then show "fields_at mem mv i d \<and> good d" using read_descriptor_good [OF r] by blast
next
  assume f: "fields_at mem mv i d \<and> good d"
  then have "unat (d_pages d) * 4096 < 2 ^ 64" by (simp add: good_def bytes_of_def)
  then have "d_pages d \<noteq> 0" "d_physical_start d mod page_bytes = 0" "d_virtual_start d mod page_bytes = 0"
    "\<not> d_pages d > UINT64_MAX div page_bytes" "\<not> d_physical_start d > UINT64_MAX - d_pages d * page_bytes"
    using f by (simp_all add: good_def bytes_of_def page_aligned not_less no_wrap_pages no_wrap_add unat_pages)
  then show "read_descriptor mem mv (of_nat i) = Some (Some d)"
    using f by (cases d) (auto simp: read_descriptor_def fields_at_def Let_def)
qed

lemma records_read:
  "records mem mv ds \<longleftrightarrow> length ds = record_count mv \<and> (\<forall>i < length ds. read_descriptor mem mv (of_nat i) = Some (Some (ds ! i)))"
  by (simp add: records_def read_descriptor_iff)

lemma records_good: "records mem mv ds \<Longrightarrow> d \<in> set ds \<Longrightarrow> good d"
  by (auto simp: records_read in_set_conv_nth intro: read_descriptor_good)

lemma record_inside:
  assumes "structural_bounds mv" "i < record_count mv"
  shows "i * unat (mv_descriptor_bytes mv) + 40 \<le> unat (mv_buffer_bytes mv)"
proof -
  let ?d = "unat (mv_descriptor_bytes mv)" and ?m = "unat (mv_map_bytes mv)"
  from assms have d: "40 \<le> ?d" and m: "?m \<le> unat (mv_buffer_bytes mv)" and i: "i < ?m div ?d"
    by (auto simp: structural_bounds_def descriptor_prefix_bytes_def not_less word_le_nat_alt unat_div split: if_splits)
  from i have "(i + 1) * ?d \<le> ?m div ?d * ?d" by (intro mult_right_mono) simp_all
  also have "\<dots> \<le> ?m" by simp
  finally show ?thesis using d m by simp
qed

lemma read_descriptor_total:
  assumes sb: "structural_bounds mv" and rd: "readable mem mv" and i: "i < record_count mv"
  shows "\<exists>r. read_descriptor mem mv (of_nat i) = Some r"
proof -
  let ?r = "mv_bytes mv + of_nat i * mv_descriptor_bytes mv"
  have "\<exists>v. copy_field mem n (?r + of_nat off) = Some v" if "off + n \<le> 40" for off n
  proof (rule copy_field_total, intro allI impI)
    fix k assume "k < n"
    with that record_inside [OF sb i]
    have "i * unat (mv_descriptor_bytes mv) + off + k < unat (mv_buffer_bytes mv)" by simp
    with rd show "mem (?r + of_nat off + of_nat k) \<noteq> None"
      unfolding readable_def by (auto dest!: spec simp: ac_simps)
  qed
  from this [of 0 4] this [of 8 8] this [of 16 8] this [of 24 8] this [of 32 8]
  show ?thesis by (auto simp: read_descriptor_def Let_def)
qed

lemma records_or_bad:
  assumes "structural_bounds mv" "readable mem mv"
  shows "(\<exists>ds. records mem mv ds) \<or> (\<exists>k < record_count mv. read_descriptor mem mv (of_nat k) = Some None)"
proof (cases "\<exists>k < record_count mv. read_descriptor mem mv (of_nat k) = Some None")
  case False
  let ?ds = "map (\<lambda>i. the (the (read_descriptor mem mv (of_nat i)))) [0..<record_count mv]"
  have "records mem mv ?ds"
    using False read_descriptor_total [OF assms] by (fastforce simp: records_read)
  then show ?thesis by blast
qed simp

section \<open>Validation\<close>

text \<open>The validation loop over the descriptors as a list; \<open>seen\<close> are the ones before.\<close>

definition add_record :: "Descriptor \<Rightarrow> Summary \<Rightarrow> Summary" where
  "add_record d s = count_conventional d (s\<lparr>s_total_bytes := s_total_bytes s + d_pages d * page_bytes\<rparr>)"

fun pairwise_clear :: "Descriptor list \<Rightarrow> Descriptor list \<Rightarrow> bool" where
  "pairwise_clear seen [] = True"
| "pairwise_clear seen (d # ds) = ((\<forall>e \<in> set seen. region d \<inter> region e = {}) \<and> pairwise_clear (seen @ [d]) ds)"

lemma clear_of_previous_records:
  assumes rec: "records mem mv ds" and n: "n \<le> length ds" and d: "good d" and k: "k \<le> n"
  shows "clear_of_previous mem mv d k n = Some (\<forall>e \<in> set (drop k (take n ds)). region d \<inter> region e = {})"
  using k
proof (induction "n - k" arbitrary: k)
  case 0
  then show ?case by (simp add: clear_of_previous.simps)
next
  case (Suc m)
  then have kn: "k < n" by simp
  then have e: "drop k (take n ds) = ds ! k # drop (k + 1) (take n ds)"
    using n by (simp add: Cons_nth_drop_Suc [symmetric])
  have r: "read_descriptor mem mv (of_nat k) = Some (Some (ds ! k))"
    using rec kn n by (simp add: records_read)
  then have g: "good (ds ! k)" by (rule read_descriptor_good)
  have "clear_of_previous mem mv d (k + 1) n = Some (\<forall>e \<in> set (drop (k + 1) (take n ds)). region d \<inter> region e = {})"
    using Suc.hyps kn by simp
  then show ?case
    by (subst clear_of_previous.simps) (simp add: kn r e overlap_region [OF d g])
qed

lemma s_descriptor_count_add [simp]: "s_descriptor_count (add_record d s) = s_descriptor_count s"
  by (simp add: add_record_def count_conventional_def Let_def)

lemma s_total_add [simp]: "s_total_bytes (add_record d s) = s_total_bytes s + d_pages d * page_bytes"
  by (simp add: add_record_def count_conventional_def Let_def)

lemma validate_records_list:
  assumes rec: "records mem mv ds" and c: "unat (s_descriptor_count s) = length ds" and i: "i \<le> length ds"
  shows "validate_records mem mv i s = Some
    (if pairwise_clear (take i ds) (drop i ds) \<and> unat (s_total_bytes s) + sum_list (map bytes_of (drop i ds)) < 2 ^ 64
     then Some (fold add_record (drop i ds) s) else None)"
  using c i
proof (induction "length ds - i" arbitrary: i s)
  case 0
  then show ?case by (simp add: validate_records.simps)
next
  case (Suc m)
  then have il: "i < length ds" by simp
  then have e: "drop i ds = ds ! i # drop (i + 1) ds" by (simp add: Cons_nth_drop_Suc [symmetric])
  have r: "read_descriptor mem mv (of_nat i) = Some (Some (ds ! i))" using rec il by (simp add: records_read)
  note g = read_descriptor_good [OF r]
  let ?s = "add_record (ds ! i) s" and ?b = "d_pages (ds ! i) * page_bytes"
  have IH: "validate_records mem mv (i + 1) ?s = Some
    (if pairwise_clear (take (i + 1) ds) (drop (i + 1) ds) \<and> unat (s_total_bytes ?s) + sum_list (map bytes_of (drop (i + 1) ds)) < 2 ^ 64
     then Some (fold add_record (drop (i + 1) ds) ?s) else None)"
    using Suc.hyps(1) [of "i + 1" ?s] Suc.hyps(2) Suc.prems il by simp
  show ?case
  proof (cases "s_total_bytes s > UINT64_MAX - ?b")
    case True
    then have "\<not> unat (s_total_bytes s) + bytes_of (ds ! i) < 2 ^ 64"
      using no_wrap_add [of "s_total_bytes s" ?b] good_sizes(1) [OF g] by (simp add: not_le [symmetric])
    with True il r Suc.prems(1) e show ?thesis
      by (subst validate_records.simps) simp
  next
    case False
    then have u: "unat (s_total_bytes s + ?b) = unat (s_total_bytes s) + bytes_of (ds ! i)"
      using no_wrap_add [of "s_total_bytes s" ?b] good_sizes(1) [OF g] by (simp add: not_less unat_add_small)
    have cl: "clear_of_previous mem mv (ds ! i) 0 i = Some (\<forall>e \<in> set (take i ds). region (ds ! i) \<inter> region e = {})"
      using clear_of_previous_records [OF rec less_imp_le [OF il] g, of 0] by simp
    show ?thesis
      using False il r Suc.prems(1) IH [unfolded add_record_def]
      by (subst validate_records.simps)
         (simp add: e cl Let_def add_record_def [symmetric] u add.assoc take_Suc_conv_app_nth)
  qed
qed

lemma pairwise_clear_iff:
  "pairwise_clear seen ds \<longleftrightarrow> sorted_wrt (\<lambda>d e. region d \<inter> region e = {}) ds \<and>
     (\<forall>d \<in> set seen. \<forall>e \<in> set ds. region d \<inter> region e = {})"
  by (induction ds arbitrary: seen) (simp_all, blast)

lemma clear_of_previous_total:
  "(\<And>j. j < n \<Longrightarrow> \<exists>r. read_descriptor mem mv (of_nat j) = Some r) \<Longrightarrow> \<exists>b. clear_of_previous mem mv d k n = Some b"
proof (induction "n - k" arbitrary: k)
  case (Suc m)
  then have kn: "k < n" by simp
  then obtain r where "read_descriptor mem mv (of_nat k) = Some r" using Suc.prems by blast
  moreover obtain b where "clear_of_previous mem mv d (k + 1) n = Some b"
    using Suc.hyps(1) [of "k + 1"] Suc.hyps(2) Suc.prems by fastforce
  ultimately show ?case using kn by (subst clear_of_previous.simps) (auto split: option.splits)
qed (auto simp: clear_of_previous.simps)

lemma bad_record:
  assumes "\<And>j. j < unat (s_descriptor_count s) \<Longrightarrow> \<exists>r. read_descriptor mem mv (of_nat j) = Some r"
    and "k < unat (s_descriptor_count s)" "read_descriptor mem mv (of_nat k) = Some None" "i \<le> k"
  shows "validate_records mem mv i s = Some None"
  using assms
proof (induction "k - i" arbitrary: i s)
  case 0
  then show ?case by (subst validate_records.simps) simp
next
  case (Suc m)
  then have i: "i < unat (s_descriptor_count s)" by simp
  then obtain r where r: "read_descriptor mem mv (of_nat i) = Some r" using Suc.prems(1) by blast
  show ?case
  proof (cases r)
    case None
    with i r show ?thesis by (subst validate_records.simps) simp
  next
    case (Some d)
    obtain b where b: "clear_of_previous mem mv d 0 i = Some b"
      using clear_of_previous_total Suc.prems(1) i by (metis less_trans)
    have "validate_records mem mv (i + 1) (add_record d s) = Some None"
      using Suc.hyps(1) [of "i + 1" "add_record d s"] Suc.hyps(2) Suc.prems by simp
    with i r Some b show ?thesis
      by (subst validate_records.simps) (simp add: Let_def add_record_def)
  qed
qed

lemma disjoint_sum:
  assumes "sorted_wrt (\<lambda>d e. region d \<inter> region e = {}) ds"
  shows "card (\<Union>d \<in> set ds. region d) = sum_list (map bytes_of ds)"
  using assms
proof (induction ds)
  case (Cons d ds)
  then have "region d \<inter> (\<Union>d \<in> set ds. region d) = {}" by auto
  moreover have "finite (region d)" "finite (\<Union>d \<in> set ds. region d)" by (auto simp: region_def)
  ultimately show ?case using Cons by (simp add: card_Un_disjoint region_def)
qed simp

lemma disjoint_total:
  assumes "sorted_wrt (\<lambda>d e. region d \<inter> region e = {}) ds" "\<forall>d \<in> set ds. good d"
  shows "sum_list (map bytes_of ds) < 2 ^ 64"
proof -
  have "(\<Union>d \<in> set ds. region d) \<subseteq> {..<2 ^ 64 - 1}"
    using assms(2) by (auto simp: region_def good_def dest!: bspec)
  from card_mono [OF _ this] disjoint_sum [OF assms(1)] show ?thesis by simp
qed

text \<open>What a valid map is, and its summary.\<close>

definition disjoint_regions :: "Descriptor list \<Rightarrow> bool" where
  "disjoint_regions ds \<longleftrightarrow> (\<forall>i j. i < j \<longrightarrow> j < length ds \<longrightarrow> region (ds ! i) \<inter> region (ds ! j) = {})"

definition summary_of :: "MapView \<Rightarrow> Descriptor list \<Rightarrow> Summary" where
  "summary_of mv ds = fold add_record ds
     (zero_Summary\<lparr>s_descriptor_count := mv_map_bytes mv div mv_descriptor_bytes mv\<rparr>)"

definition valid_map :: "memory \<Rightarrow> MapView \<Rightarrow> Descriptor list \<Rightarrow> bool" where
  "valid_map mem mv ds \<longleftrightarrow> structural_bounds mv \<and> records mem mv ds \<and> disjoint_regions ds"

lemma disjoint_regions_sorted: "disjoint_regions ds = sorted_wrt (\<lambda>d e. region d \<inter> region e = {}) ds"
  by (simp add: disjoint_regions_def sorted_wrt_iff_nth_less)

lemma records_unique: "records mem mv ds \<Longrightarrow> records mem mv ds' \<Longrightarrow> ds = ds'"
  by (rule nth_equalityI) (auto simp: records_read)

lemma fold_add_record_count [simp]: "s_descriptor_count (fold add_record ds s) = s_descriptor_count s"
  by (induction ds arbitrary: s) simp_all

lemma summary_count: "records mem mv ds \<Longrightarrow> unat (s_descriptor_count (summary_of mv ds)) = length ds"
  by (simp add: summary_of_def records_read)

lemma validated_cases:
  assumes rd: "readable mem mv"
  shows "(\<exists>ds. valid_map mem mv ds \<and> validate_map mem mv (Some out) = Some (True, Some (summary_of mv ds))) \<or>
    (\<nexists>ds. valid_map mem mv ds) \<and> validate_map mem mv (Some out) = Some (False, Some zero_Summary)"
proof (cases "structural_bounds mv")
  case False
  then show ?thesis by (simp add: validate_map_def valid_map_def)
next
  case sb: True
  let ?s = "zero_Summary\<lparr>s_descriptor_count := mv_map_bytes mv div mv_descriptor_bytes mv\<rparr>"
  from records_or_bad [OF sb rd] show ?thesis
  proof (elim disjE exE conjE)
    fix ds assume rec: "records mem mv ds"
    have "validate_records mem mv 0 ?s = Some (if disjoint_regions ds then Some (summary_of mv ds) else None)"
    proof -
      have c: "unat (s_descriptor_count ?s) = length ds" "s_total_bytes ?s = 0"
        using rec by (simp_all add: records_read zero_Summary_def)
      have "\<forall>d \<in> set ds. good d" using records_good [OF rec] by blast
      then have "pairwise_clear [] ds \<and> sum_list (map bytes_of ds) < 2 ^ 64 \<longleftrightarrow> disjoint_regions ds"
        using disjoint_total by (auto simp: pairwise_clear_iff disjoint_regions_sorted)
      with validate_records_list [OF rec c(1), of 0] c(2) show ?thesis by (simp add: summary_of_def)
    qed
    with sb rec show ?thesis
      by (auto simp: validate_map_def valid_map_def Let_def dest: records_unique [OF rec])
  next
    fix k assume k: "k < record_count mv" "read_descriptor mem mv (of_nat k) = Some None"
    then have "\<not> records mem mv ds" for ds by (auto simp: records_read)
    moreover have "validate_records mem mv 0 ?s = Some None"
      using bad_record [of ?s mem mv k 0] k read_descriptor_total [OF sb rd] by simp
    ultimately show ?thesis using sb by (simp add: validate_map_def valid_map_def Let_def)
  qed
qed

lemma validated_spec:
  assumes "readable mem mv"
  shows "(\<exists>ds. valid_map mem mv ds \<and> validated mem mv = Some (Some (summary_of mv ds))) \<or>
    (\<nexists>ds. valid_map mem mv ds) \<and> validated mem mv = Some None"
  using validated_cases [OF assms, of zero_Summary] by (auto simp: validated_def)

text \<open>The summary's fields, as numbers.\<close>

abbreviation conventional :: "Descriptor \<Rightarrow> bool" where
  "conventional d \<equiv> d_type d = conventional_memory"

text \<open>As in the code, a conventional region counts as a whole when it starts at or above 1 MiB, and else not at all.\<close>

abbreviation allocatable :: "Descriptor \<Rightarrow> bool" where
  "allocatable d \<equiv> conventional d \<and> minimum_allocatable \<le> d_physical_start d"

lemma fold_add_record_fields:
  assumes "\<forall>d \<in> set ds. good d"
  shows "unat (s_total_bytes s) + sum_list (map bytes_of ds) < 2 ^ 64 \<Longrightarrow>
     unat (s_total_bytes (fold add_record ds s)) = unat (s_total_bytes s) + sum_list (map bytes_of ds)"
   "unat (s_allocatable_pages s) + sum_list (map (unat \<circ> d_pages) (filter allocatable ds)) < 2 ^ 64 \<Longrightarrow>
     unat (s_allocatable_pages (fold add_record ds s)) =
       unat (s_allocatable_pages s) + sum_list (map (unat \<circ> d_pages) (filter allocatable ds))"
   "unat (s_conventional_top (fold add_record ds s)) =
     fold max (map (unat \<circ> region_end) (filter conventional ds)) (unat (s_conventional_top s))"
  using assms
proof (induction ds arbitrary: s)
  case (Cons d ds)
  { case 1
    with good_sizes(1) [of d] have "unat (s_total_bytes (add_record d s)) = unat (s_total_bytes s) + bytes_of d"
      by (simp add: unat_add_small)
    with 1 Cons.IH(1) [of "add_record d s"] show ?case by simp
  next
    case 2
    then have "unat (s_allocatable_pages (add_record d s)) =
        unat (s_allocatable_pages s) + (if allocatable d then unat (d_pages d) else 0)"
      by (auto simp: add_record_def count_conventional_def Let_def unat_add_small split: if_splits)
    with 2 Cons.IH(2) [of "add_record d s"] show ?case by (auto split: if_splits)
  next
    case 3
    have "unat (s_conventional_top (add_record d s)) =
        (if conventional d then max (unat (region_end d)) (unat (s_conventional_top s)) else unat (s_conventional_top s))"
      by (simp add: add_record_def count_conventional_def Let_def word_less_nat_alt)
    with 3 Cons.IH(3) [of "add_record d s"] show ?case by simp
  }
qed simp_all

lemma summary_fields:
  assumes v: "valid_map mem mv ds"
  shows "unat (s_descriptor_count (summary_of mv ds)) = length ds"
    "unat (s_total_bytes (summary_of mv ds)) = sum_list (map bytes_of ds)"
    "unat (s_allocatable_pages (summary_of mv ds)) = sum_list (map (unat \<circ> d_pages) (filter allocatable ds))"
    "unat (s_conventional_top (summary_of mv ds)) =
       Max (insert 0 ((\<lambda>d. unat (d_physical_start d) + bytes_of d) ` set (filter conventional ds)))"
proof -
  let ?s = "zero_Summary\<lparr>s_descriptor_count := mv_map_bytes mv div mv_descriptor_bytes mv\<rparr>"
  from v have rec: "records mem mv ds" and g: "\<forall>d \<in> set ds. good d"
    by (auto simp: valid_map_def intro: records_good)
  have z: "s_total_bytes ?s = 0" "s_allocatable_pages ?s = 0" "s_conventional_top ?s = 0"
    by (simp_all add: zero_Summary_def)
  have t: "sum_list (map bytes_of ds) < 2 ^ 64"
    using v g disjoint_total by (simp add: valid_map_def disjoint_regions_sorted)
  have "sum_list (map (unat \<circ> d_pages) (filter P ds)) \<le> sum_list (map bytes_of ds)" for P
    by (induction ds) (auto simp: bytes_of_def)
  with t have a: "sum_list (map (unat \<circ> d_pages) (filter allocatable ds)) < 2 ^ 64" by (meson le_less_trans)
  show "unat (s_descriptor_count (summary_of mv ds)) = length ds" by (rule summary_count [OF rec])
  show "unat (s_total_bytes (summary_of mv ds)) = sum_list (map bytes_of ds)"
    using fold_add_record_fields(1) [OF g, of ?s] t z by (simp add: summary_of_def)
  show "unat (s_allocatable_pages (summary_of mv ds)) = sum_list (map (unat \<circ> d_pages) (filter allocatable ds))"
    using fold_add_record_fields(2) [OF g, of ?s] a z by (simp add: summary_of_def)
  have "map (unat \<circ> region_end) (filter conventional ds) = map (\<lambda>d. unat (d_physical_start d) + bytes_of d) (filter conventional ds)"
    using g by (auto simp: good_sizes)
  then show "unat (s_conventional_top (summary_of mv ds)) =
       Max (insert 0 ((\<lambda>d. unat (d_physical_start d) + bytes_of d) ` set (filter conventional ds)))"
    using fold_add_record_fields(3) [OF g, of ?s] z
    by (simp add: summary_of_def flip: Max.set_eq_fold)
qed

section \<open>Lookups\<close>

lemma drop_records:
  assumes "records mem mv ds" "i < length ds"
  shows "drop i ds = ds ! i # drop (i + 1) ds" "read_descriptor mem mv (of_nat i) = Some (Some (ds ! i))" "good (ds ! i)"
  using assms records_good [OF assms(1), of "ds ! i"]
  by (simp_all add: records_read Cons_nth_drop_Suc [symmetric])

lemma find_in_records_list:
  assumes rec: "records mem mv ds" and "i \<le> length ds"
  shows "find_in_records mem mv a i (length ds) = Some (find (\<lambda>d. unat a \<in> region d) (drop i ds))"
  using assms(2)
proof (induction "length ds - i" arbitrary: i)
  case (Suc m)
  then have il: "i < length ds" by simp
  from Suc.hyps(1) [of "i + 1"] Suc.hyps(2) il
  have "find_in_records mem mv a (i + 1) (length ds) = Some (find (\<lambda>d. unat a \<in> region d) (drop (i + 1) ds))" by simp
  with drop_records [OF rec il] in_region [of "ds ! i" a] il show ?case
    by (subst find_in_records.simps) simp
qed (simp add: find_in_records.simps)

lemma if_less_min: "(if x < y then x else y) = min x y" for x y :: u64
  by (auto simp: min_def not_less)

lemma cover_step_list:
  assumes rec: "records mem mv ds" and "i \<le> length ds"
  shows "cover_step mem mv policy cur fin i (length ds) = Some
    (case find (\<lambda>d. unat cur \<in> region d) (drop i ds) of None \<Rightarrow> None
     | Some d \<Rightarrow> if permitted (d_type d) policy then Some (min (region_end d) fin) else None)"
  using assms(2)
proof (induction "length ds - i" arbitrary: i)
  case (Suc m)
  then have il: "i < length ds" by simp
  note d = drop_records [OF rec il]
  have out: "cur < d_physical_start (ds ! i) \<or> region_end (ds ! i) \<le> cur \<longleftrightarrow> unat cur \<notin> region (ds ! i)"
    using in_region [OF d(3), of cur] by auto
  have IH: "cover_step mem mv policy cur fin (i + 1) (length ds) = Some
    (case find (\<lambda>d. unat cur \<in> region d) (drop (i + 1) ds) of None \<Rightarrow> None
     | Some d \<Rightarrow> if permitted (d_type d) policy then Some (min (region_end d) fin) else None)"
    using Suc.hyps(1) [of "i + 1"] Suc.hyps(2) il by simp
  show ?case
    by (subst cover_step.simps) (simp add: il d(1,2) out IH [simplified] Let_def if_less_min)
qed (simp add: cover_step.simps)

definition covered :: "Descriptor list \<Rightarrow> SpanPolicy \<Rightarrow> nat \<Rightarrow> bool" where
  "covered ds policy a \<longleftrightarrow> (\<exists>d \<in> set ds. a \<in> region d \<and> permitted (d_type d) policy)"

lemma disjoint_regions_eq:
  assumes "disjoint_regions ds" "d \<in> set ds" "e \<in> set ds" "a \<in> region d" "a \<in> region e"
  shows "d = e"
proof -
  obtain i j where "i < length ds" "j < length ds" "ds ! i = d" "ds ! j = e"
    using assms(2,3) by (auto simp: in_set_conv_nth)
  with assms(1,4,5) show ?thesis
    unfolding disjoint_regions_def by (metis disjoint_iff nat_neq_iff)
qed

lemma cover_loop_list:
  assumes v: "valid_map mem mv ds"
  shows "cover_loop mem mv policy cur fin (length ds) = Some (\<forall>a. unat cur \<le> a \<and> a < unat fin \<longrightarrow> covered ds policy a)"
proof (induction "unat fin - unat cur" arbitrary: cur rule: less_induct)
  case less
  have rec: "records mem mv ds" and dis: "disjoint_regions ds" using v by (simp_all add: valid_map_def)
  note step = cover_step_list [OF rec, of 0 policy cur fin, simplified]
  show ?case
  proof (cases "cur < fin")
    case False
    then show ?thesis by (subst cover_loop.simps) (auto simp: word_less_nat_alt)
  next
    case lt: True
    show ?thesis
    proof (cases "find (\<lambda>d. unat cur \<in> region d) ds")
      case None
      then have "\<not> covered ds policy (unat cur)" by (auto simp: covered_def find_None_iff)
      with lt None step show ?thesis by (subst cover_loop.simps) (auto simp: word_less_nat_alt)
    next
      case (Some d)
      then have d: "d \<in> set ds" "unat cur \<in> region d"
        by (auto simp: find_Some_iff)
      note g = records_good [OF rec d(1)]
      show ?thesis
      proof (cases "permitted (d_type d) policy")
        case False
        then have "\<not> covered ds policy (unat cur)"
          unfolding covered_def using disjoint_regions_eq [OF dis d(1) _ d(2)] by metis
        with lt Some False step show ?thesis by (subst cover_loop.simps) (auto simp: word_less_nat_alt)
      next
        case True
        let ?n = "min (region_end d) fin"
        have n: "unat ?n = min (unat (d_physical_start d) + bytes_of d) (unat fin)"
          using good_sizes(2) [OF g] by (simp add: min_def word_le_nat_alt)
        with d(2) lt have "unat cur < unat ?n" by (simp add: region_def word_less_nat_alt)
        then have "unat fin - unat ?n < unat fin - unat cur" using n by linarith
        from less [OF this] have "cover_loop mem mv policy cur fin (length ds) =
            Some (\<forall>a. unat ?n \<le> a \<and> a < unat fin \<longrightarrow> covered ds policy a)"
          using lt Some True step by (subst cover_loop.simps) simp
        moreover have "covered ds policy a" if "unat cur \<le> a" "a < unat ?n" for a
          using that d True n by (auto simp: covered_def region_def intro!: bexI [OF _ d(1)])
        then have "(\<forall>a. unat ?n \<le> a \<and> a < unat fin \<longrightarrow> covered ds policy a) \<longleftrightarrow>
            (\<forall>a. unat cur \<le> a \<and> a < unat fin \<longrightarrow> covered ds policy a)"
          using \<open>unat cur < unat ?n\<close> by (meson less_imp_le not_le order_trans)
        ultimately show ?thesis by simp
      qed
    qed
  qed
qed

lemma find_region_cases:
  assumes "readable mem mv"
  shows "\<exists>ok d. find_region mem mv a (Some out) = Some (ok, Some d) \<and>
    (ok \<longrightarrow> (\<exists>ds. valid_map mem mv ds \<and> d \<in> set ds \<and> unat a \<in> region d)) \<and>
    (\<not> ok \<longrightarrow> d = zero_Descriptor \<and> (\<forall>ds. valid_map mem mv ds \<longrightarrow> (\<forall>e \<in> set ds. unat a \<notin> region e)))"
  using validated_spec [OF assms]
proof (elim disjE exE conjE)
  fix ds assume v: "valid_map mem mv ds" "validated mem mv = Some (Some (summary_of mv ds))"
  then have rec: "records mem mv ds" by (simp add: valid_map_def)
  have u: "ds' = ds" if "valid_map mem mv ds'" for ds'
    using that rec records_unique by (auto simp: valid_map_def)
  show ?thesis
  proof (cases "find (\<lambda>d. unat a \<in> region d) ds")
    case None
    with v find_in_records_list [OF rec, of 0 a] summary_count [OF rec] show ?thesis
      by (auto simp: find_region_def find_None_iff dest: u)
  next
    case (Some d)
    then have "d \<in> set ds" "unat a \<in> region d" by (auto simp: find_Some_iff)
    with Some v find_in_records_list [OF rec, of 0 a] summary_count [OF rec] show ?thesis
      by (auto simp: find_region_def)
  qed
qed (auto simp: find_region_def)

abbreviation page_start :: "u64 \<Rightarrow> nat" where
  "page_start a \<equiv> unat a div 4096 * 4096"

abbreviation page_end :: "u64 \<Rightarrow> u64 \<Rightarrow> nat" where
  "page_end a n \<equiv> (unat a + unat n + 4095) div 4096 * 4096"

lemma span_bounds:
  assumes "\<not> physical > UINT64_MAX - bytes" "\<not> physical + bytes > UINT64_MAX - (page_bytes - 1)"
  shows "unat physical + unat bytes + 4095 < 2 ^ 64"
    "unat ((physical + bytes + page_bytes - 1) AND NOT (page_bytes - 1)) = page_end physical bytes"
proof -
  have u: "unat (physical + bytes) = unat physical + unat bytes"
    using assms(1) by (simp add: not_less no_wrap_add unat_add_small)
  have p: "unat (page_bytes - 1) = 4095" by (simp add: page_bytes_def)
  show 1: "unat physical + unat bytes + 4095 < 2 ^ 64"
    using assms(2) u p by (simp only: not_less no_wrap_add)
  then show "unat ((physical + bytes + page_bytes - 1) AND NOT (page_bytes - 1)) = page_end physical bytes"
    using u p by (simp add: page_down add_diff_eq [symmetric] unat_add_small)
qed

lemma span_rejected:
  assumes "physical > UINT64_MAX - bytes \<or> physical + bytes > UINT64_MAX - (page_bytes - 1)"
  shows "\<not> unat physical + unat bytes + 4095 < 2 ^ 64"
proof
  assume b: "unat physical + unat bytes + 4095 < 2 ^ 64"
  then have u: "physical \<le> UINT64_MAX - bytes" "unat (physical + bytes) = unat physical + unat bytes"
    by (simp_all add: no_wrap_add unat_add_small)
  have "unat (page_bytes - 1) = 4095" by (simp add: page_bytes_def)
  with b u(2) have "physical + bytes \<le> UINT64_MAX - (page_bytes - 1)" by (simp only: no_wrap_add)
  with u(1) assms show False by auto
qed

lemma covered_span_cases:
  assumes "readable mem mv"
  shows "\<exists>ok sp. covered_span mem mv physical bytes policy (Some out) = Some (ok, Some sp) \<and>
    (ok \<longleftrightarrow> (\<exists>ds. valid_map mem mv ds \<and> bytes \<noteq> 0 \<and> unat physical + unat bytes + 4095 < 2 ^ 64 \<and>
       (\<forall>a. page_start physical \<le> a \<and> a < page_end physical bytes \<longrightarrow> covered ds policy a))) \<and>
    (ok \<longrightarrow> unat (ps_start sp) = page_start physical \<and> unat (ps_end sp) = page_end physical bytes) \<and>
    (\<not> ok \<longrightarrow> sp = zero_PhysicalSpan)"
  using validated_spec [OF assms]
proof (elim disjE exE conjE)
  fix ds assume v: "valid_map mem mv ds" "validated mem mv = Some (Some (summary_of mv ds))"
  then have rec: "records mem mv ds" by (simp add: valid_map_def)
  have u: "valid_map mem mv ds' \<longleftrightarrow> ds' = ds" for ds'
    using v rec records_unique by (auto simp: valid_map_def)
  show ?thesis
  proof (cases "bytes = 0 \<or> physical > UINT64_MAX - bytes \<or> physical + bytes > UINT64_MAX - (page_bytes - 1)")
    case True
    then have "bytes = 0 \<or> \<not> unat physical + unat bytes + 4095 < 2 ^ 64" using span_rejected by blast
    with True v(2) show ?thesis by (auto simp: covered_span_def Let_def)
  next
    case False
    then have b: "unat physical + unat bytes + 4095 < 2 ^ 64"
      "unat ((physical + bytes + page_bytes - 1) AND NOT (page_bytes - 1)) = page_end physical bytes"
      using span_bounds by blast+
    let ?s = "physical AND NOT (page_bytes - 1)" and ?e = "(physical + bytes + page_bytes - 1) AND NOT (page_bytes - 1)"
    have "cover_loop mem mv policy ?s ?e (length ds) =
        Some (\<forall>a. page_start physical \<le> a \<and> a < page_end physical bytes \<longrightarrow> covered ds policy a)"
      using cover_loop_list [OF v(1), of policy ?s ?e] by (simp only: b(2) page_down [of physical])
    then have run: "covered_span mem mv physical bytes policy (Some out) = Some
        (if \<forall>a. page_start physical \<le> a \<and> a < page_end physical bytes \<longrightarrow> covered ds policy a
         then (True, Some \<lparr>ps_start = ?s, ps_end = ?e\<rparr>) else (False, Some zero_PhysicalSpan))"
      using False v(2) summary_count [OF rec] by (simp add: covered_span_def Let_def)
    show ?thesis
    proof (cases "\<forall>a. page_start physical \<le> a \<and> a < page_end physical bytes \<longrightarrow> covered ds policy a")
      case True
      then show ?thesis
        using run b False page_down [of physical] unfolding u
        by (intro exI [of _ True] exI [of _ "\<lparr>ps_start = ?s, ps_end = ?e\<rparr>"]) simp
    next
      case not: False
      then have "covered_span mem mv physical bytes policy (Some out) = Some (False, Some zero_PhysicalSpan)"
        using run by (simp only: if_False)
      with not show ?thesis unfolding u by blast
    qed
  qed
qed (auto simp: covered_span_def)

lemma place_bitmaps_list:
  assumes rec: "records mem mv ds" and "i \<le> length ds"
  shows "place_bitmaps mem mv l reserved i (length ds) = Some (map_option
    (\<lambda>d. l\<lparr>fb_first := d_physical_start d, fb_second := d_physical_start d + fb_storage_bytes l,
           fb_reserved_end := d_physical_start d + fb_storage_bytes l + fb_storage_bytes l\<rparr>)
    (find (\<lambda>d. allocatable d \<and> unat reserved \<le> bytes_of d) (drop i ds)))"
  using assms(2)
proof (induction "length ds - i" arbitrary: i)
  case (Suc m)
  then have il: "i < length ds" by simp
  note d = drop_records [OF rec il]
  have skip: "\<not> conventional (ds ! i) \<or> d_physical_start (ds ! i) < minimum_allocatable \<or>
      d_pages (ds ! i) * page_bytes < reserved \<longleftrightarrow> \<not> (allocatable (ds ! i) \<and> unat reserved \<le> bytes_of (ds ! i))"
    using good_sizes(1) [OF d(3)] by (auto simp: word_less_nat_alt word_le_nat_alt)
  have IH: "place_bitmaps mem mv l reserved (Suc i) (length ds) = Some (map_option
    (\<lambda>d. l\<lparr>fb_first := d_physical_start d, fb_second := d_physical_start d + fb_storage_bytes l,
           fb_reserved_end := d_physical_start d + fb_storage_bytes l + fb_storage_bytes l\<rparr>)
    (find (\<lambda>d. allocatable d \<and> unat reserved \<le> bytes_of d) (drop (Suc i) ds)))"
    using Suc.hyps(1) [of "i + 1"] Suc.hyps(2) il by simp
  show ?case
  proof (cases "allocatable (ds ! i) \<and> unat reserved \<le> bytes_of (ds ! i)")
    case True
    with skip il d(1,2) show ?thesis by (subst place_bitmaps.simps) (simp add: Let_def)
  next
    case False
    then have "place_bitmaps mem mv l reserved i (length ds) = place_bitmaps mem mv l reserved (Suc i) (length ds)"
      using skip il d(2) by (subst place_bitmaps.simps) simp
    with False IH d(1) show ?thesis by auto
  qed
qed (simp add: place_bitmaps.simps)

text \<open>The sizes the planner computes from the top of conventional memory.\<close>

definition bitmap_size :: "nat \<Rightarrow> nat" where
  "bitmap_size ctop = (ctop div 4096 + 7) div 8"

definition storage_size :: "nat \<Rightarrow> nat" where
  "storage_size ctop = (bitmap_size ctop + 4095) div 4096 * 4096"

lemma plan_sizes:
  fixes ctop :: u64
  defines "bitmap \<equiv> (ctop div page_bytes + 7) div 8"
  defines "storage \<equiv> (bitmap + page_bytes - 1) AND NOT (page_bytes - 1)"
  shows "unat bitmap = bitmap_size (unat ctop)" "unat storage = storage_size (unat ctop)"
    "\<not> bitmap > UINT64_MAX - (page_bytes - 1)" "\<not> storage > UINT64_MAX div 2" "unat (storage * 2) = 2 * storage_size (unat ctop)"
proof -
  have f: "unat (ctop div page_bytes) = unat ctop div 4096" by (simp add: unat_div page_bytes_def)
  have t: "unat ctop div 4096 < 2 ^ 52" by (rule less_mult_imp_div_less) simp
  then have "unat (ctop div page_bytes + 7) = unat ctop div 4096 + 7"
    using unat_add_small [of "ctop div page_bytes" 7] f by simp
  then show b: "unat bitmap = bitmap_size (unat ctop)"
    by (simp add: bitmap_def unat_div bitmap_size_def)
  have bs: "bitmap_size (unat ctop) \<le> 2 ^ 49" using t by (simp add: bitmap_size_def)
  have p: "unat (page_bytes - 1) = 4095" by (simp add: page_bytes_def)
  show "\<not> bitmap > UINT64_MAX - (page_bytes - 1)"
    unfolding not_less no_wrap_add using b bs p by simp
  have "unat (bitmap + (page_bytes - 1)) = bitmap_size (unat ctop) + 4095"
    using b bs p by (subst unat_add_small) simp_all
  then show s: "unat storage = storage_size (unat ctop)"
    by (simp add: storage_def page_down add_diff_eq [symmetric] storage_size_def)
  have ss: "storage_size (unat ctop) < 2 ^ 51" using bs by (simp add: storage_size_def)
  have "unat (UINT64_MAX div 2) = 2 ^ 63 - 1"
    by (simp add: unat_div unsigned_minus_1_eq_mask mask_eq_exp_minus_1)
  then show "\<not> storage > UINT64_MAX div 2" using s ss by (simp add: not_less word_le_nat_alt)
  show "unat (storage * 2) = 2 * storage_size (unat ctop)"
    using unat_mult_small [of storage 2] s ss by simp
qed

text \<open>A layout of the two frame bitmaps, for the highest conventional address \<open>ctop\<close>, inside one region.\<close>

definition layout_in :: "nat \<Rightarrow> Descriptor \<Rightarrow> FrameBitmapLayout \<Rightarrow> bool" where
  "layout_in ctop d l \<longleftrightarrow>
     allocatable d \<and> unat (fb_bitmap_bytes l) = bitmap_size ctop \<and> unat (fb_storage_bytes l) = storage_size ctop \<and>
     fb_first l = d_physical_start d \<and>
     unat (fb_second l) = unat (fb_first l) + unat (fb_storage_bytes l) \<and>
     unat (fb_reserved_end l) = unat (fb_second l) + unat (fb_storage_bytes l) \<and>
     {unat (fb_first l)..<unat (fb_reserved_end l)} \<subseteq> region d"

lemma layout_inI:
  assumes g: "good d" "allocatable d" "2 * storage_size ctop \<le> bytes_of d"
    and b: "unat b = bitmap_size ctop" and s: "unat s = storage_size ctop"
  shows "layout_in ctop d \<lparr>fb_bitmap_bytes = b, fb_storage_bytes = s, fb_first = d_physical_start d,
    fb_second = d_physical_start d + s, fb_reserved_end = d_physical_start d + s + s\<rparr>"
proof -
  have r: "unat (d_physical_start d) + 2 * storage_size ctop < 2 ^ 64" using g by (simp add: good_def)
  then have 1: "unat (d_physical_start d + s) = unat (d_physical_start d) + unat s"
    using s by (subst unat_add_small) simp_all
  with r s have "unat (d_physical_start d + s + s) = unat (d_physical_start d + s) + unat s"
    by (subst unat_add_small) simp_all
  with 1 g b s show ?thesis by (simp add: layout_in_def region_def)
qed

lemma plan_frame_bitmaps_cases:
  assumes "readable mem mv"
  shows "\<exists>ok l. plan_frame_bitmaps mem mv (Some out) = Some (ok, Some l) \<and>
    (ok \<longrightarrow> (\<exists>ds. valid_map mem mv ds \<and>
       (\<exists>d \<in> set ds. layout_in (unat (s_conventional_top (summary_of mv ds))) d l))) \<and>
    (\<not> ok \<longrightarrow> l = zero_FrameBitmapLayout \<and> (\<forall>ds. valid_map mem mv ds \<longrightarrow>
       s_conventional_top (summary_of mv ds) = 0 \<or>
       (\<forall>d \<in> set ds. \<not> (allocatable d \<and> 2 * storage_size (unat (s_conventional_top (summary_of mv ds))) \<le> bytes_of d))))"
  using validated_spec [OF assms]
proof (elim disjE exE conjE)
  fix ds assume v: "valid_map mem mv ds" "validated mem mv = Some (Some (summary_of mv ds))"
  then have rec: "records mem mv ds" by (simp add: valid_map_def)
  have u: "valid_map mem mv ds' \<longleftrightarrow> ds' = ds" for ds'
    using v rec records_unique by (auto simp: valid_map_def)
  let ?top = "s_conventional_top (summary_of mv ds)"
  define b where "b = (?top div page_bytes + 7) div 8"
  define st where "st = (b + page_bytes - 1) AND NOT (page_bytes - 1)"
  note sz = plan_sizes [of ?top, folded b_def, folded st_def]
  let ?l = "zero_FrameBitmapLayout\<lparr>fb_bitmap_bytes := b, fb_storage_bytes := st\<rparr>"
  let ?L = "\<lambda>d. ?l\<lparr>fb_first := d_physical_start d, fb_second := d_physical_start d + st,
    fb_reserved_end := d_physical_start d + st + st\<rparr>"
  let ?P = "\<lambda>d. allocatable d \<and> 2 * storage_size (unat ?top) \<le> bytes_of d"
  have "place_bitmaps mem mv ?l (st * 2) 0 (length ds) = Some (map_option ?L (find ?P ds))"
    using place_bitmaps_list [OF rec, of 0 ?l "st * 2"] sz(5) by simp
  then have run: "plan_frame_bitmaps mem mv (Some out) = Some (if ?top = 0 then (False, Some zero_FrameBitmapLayout)
      else case find ?P ds of None \<Rightarrow> (False, Some zero_FrameBitmapLayout) | Some d \<Rightarrow> (True, Some (?L d)))"
    using sz(3,4) v(2) summary_count [OF rec]
    by (simp add: plan_frame_bitmaps_def Let_def b_def [symmetric] st_def [symmetric] split: option.splits)
  show ?thesis
  proof (cases "?top = 0 \<or> find ?P ds = None")
    case True
    then have "?top = 0 \<or> (\<forall>d \<in> set ds. \<not> ?P d)" by (auto simp: find_None_iff)
    moreover have "plan_frame_bitmaps mem mv (Some out) = Some (False, Some zero_FrameBitmapLayout)"
      using True unfolding run by (elim disjE) simp_all
    ultimately show ?thesis unfolding u by blast
  next
    case False
    then obtain d where d: "find ?P ds = Some d" by blast
    then have P: "d \<in> set ds" "?P d" by (auto simp: find_Some_iff)
    then have "layout_in (unat ?top) d (?L d)"
      using layout_inI [OF records_good [OF rec] _ _ sz(1) sz(2)] by (simp add: zero_FrameBitmapLayout_def)
    moreover have "plan_frame_bitmaps mem mv (Some out) = Some (True, Some (?L d))"
      using False d unfolding run by simp
    ultimately show ?thesis using P(1) unfolding u by blast
  qed
qed (auto simp: plan_frame_bitmaps_def)

section \<open>Properties\<close>

text \<open>
  A map for the examples: 1 MiB of conventional memory at \<open>0x200000\<close> and two pages of loader data at
  \<open>0x100000\<close>, as 80 bytes at address \<open>0x1000\<close>.
\<close>

definition sample_view :: MapView where
  "sample_view = \<lparr>mv_bytes = 0x1000, mv_buffer_bytes = 80, mv_map_bytes = 80, mv_descriptor_bytes = 40\<rparr>"

definition sample_bytes :: "u8 list" where
  "sample_bytes =
     [7, 0, 0, 0, 0, 0, 0, 0,  0, 0, 0x20, 0, 0, 0, 0, 0,  0, 0, 0, 0, 0, 0, 0, 0,  0, 1, 0, 0, 0, 0, 0, 0,  0, 0, 0, 0, 0, 0, 0, 0,
      2, 0, 0, 0, 0, 0, 0, 0,  0, 0, 0x10, 0, 0, 0, 0, 0,  0, 0, 0, 0, 0, 0, 0, 0,  2, 0, 0, 0, 0, 0, 0, 0,  0, 0, 0, 0, 0, 0, 0, 0]"

definition sample_mem :: memory where
  "sample_mem a = (if 0x1000 \<le> a \<and> a < 0x1050 then Some (sample_bytes ! unat (a - 0x1000)) else None)"

definition sample_descriptors :: "Descriptor list" where
  "sample_descriptors =
     [\<lparr>d_type = 7, d_physical_start = 0x200000, d_virtual_start = 0, d_pages = 0x100, d_attributes = 0\<rparr>,
      \<lparr>d_type = 2, d_physical_start = 0x100000, d_virtual_start = 0, d_pages = 2, d_attributes = 0\<rparr>]"

lemma sample_readable: "readable sample_mem sample_view"
  unfolding readable_def
proof (intro allI impI)
  fix k assume "k < unat (mv_buffer_bytes sample_view)"
  then have k: "k < 80" by (simp add: sample_view_def)
  then have u: "unat (of_nat k :: u64) = k" by (simp add: unat_of_nat)
  have "unat (0x1000 + of_nat k :: u64) = 0x1000 + k" using k u by (subst unat_add_small) simp_all
  then show "sample_mem (mv_bytes sample_view + of_nat k) \<noteq> None"
    using k by (simp add: sample_mem_def sample_view_def word_less_nat_alt word_le_nat_alt)
qed

lemma sample_records: "records sample_mem sample_view sample_descriptors"
proof -
  have c: "record_count sample_view = 2" by (simp add: sample_view_def)
  have "read_descriptor sample_mem sample_view 0 = Some (Some (sample_descriptors ! 0))"
    "read_descriptor sample_mem sample_view 1 = Some (Some (sample_descriptors ! 1))"
    by code_simp+
  then show ?thesis unfolding records_read c by (auto simp: sample_descriptors_def less_Suc_eq)
qed

lemma sample_valid: "valid_map sample_mem sample_view sample_descriptors"
  using sample_records
  by (auto simp: valid_map_def structural_bounds_def sample_view_def descriptor_prefix_bytes_def maximum_descriptors_def
      disjoint_regions_def sample_descriptors_def region_def bytes_of_def less_Suc_eq)

lemma sample_filters:
  "filter conventional sample_descriptors = [hd sample_descriptors]"
  "filter allocatable sample_descriptors = [hd sample_descriptors]"
  by (simp_all add: sample_descriptors_def conventional_memory_def minimum_allocatable_def)

lemma sample_set [simp]: "{d \<in> set sample_descriptors. conventional d} = {hd sample_descriptors}"
  using arg_cong [OF sample_filters(1), of set] by simp

lemma sample_sizes:
  "bytes_of (hd sample_descriptors) = 0x100000" "unat (d_physical_start (hd sample_descriptors)) = 0x200000"
  "unat (d_pages (hd sample_descriptors)) = 0x100" "sum_list (map bytes_of sample_descriptors) = 0x102000"
  by (simp_all add: sample_descriptors_def bytes_of_def)

text \<open>
  C13. On a map whose buffer is mapped, \<open>validate_map\<close> never reads outside the
  buffer; it accepts the map exactly when every record is well formed (aligned, not empty, not
  wrapping) and no two regions overlap; the summary then holds the number of records, the total
  size, the top of conventional memory and the number of allocatable pages, none of which has
  wrapped, and on rejection the output is cleared.
\<close>

theorem validate_map_exact:
  assumes "readable mem mv"
  shows "\<exists>ok s. validate_map mem mv (Some out) = Some (ok, Some s) \<and> (ok \<longleftrightarrow> (\<exists>ds. valid_map mem mv ds)) \<and>
    (\<not> ok \<longrightarrow> s = zero_Summary) \<and>
    (\<forall>ds. valid_map mem mv ds \<longrightarrow>
       unat (s_descriptor_count s) = length ds \<and> unat (s_total_bytes s) = sum_list (map bytes_of ds) \<and>
       unat (s_allocatable_pages s) = sum_list (map (unat \<circ> d_pages) (filter allocatable ds)) \<and>
       unat (s_conventional_top s) =
         Max (insert 0 ((\<lambda>d. unat (d_physical_start d) + bytes_of d) ` set (filter conventional ds))))"
  using validated_cases [OF assms, of out]
proof (elim disjE exE conjE)
  fix ds assume v: "valid_map mem mv ds" "validate_map mem mv (Some out) = Some (True, Some (summary_of mv ds))"
  have "ds' = ds" if "valid_map mem mv ds'" for ds'
    using that v(1) records_unique unfolding valid_map_def by blast
  with v summary_fields [OF v(1)] show ?thesis by blast
qed blast

theorem validate_map_exact_witness:
  "\<exists>s. validate_map sample_mem sample_view (Some zero_Summary) = Some (True, Some s) \<and>
     unat (s_total_bytes s) = 0x102000 \<and> unat (s_conventional_top s) = 0x300000 \<and> unat (s_allocatable_pages s) = 0x100"
proof -
  obtain ok s where r: "validate_map sample_mem sample_view (Some zero_Summary) = Some (ok, Some s)"
    and ok: "ok \<longleftrightarrow> (\<exists>ds. valid_map sample_mem sample_view ds)"
    and f: "\<forall>ds. valid_map sample_mem sample_view ds \<longrightarrow>
       unat (s_descriptor_count s) = length ds \<and> unat (s_total_bytes s) = sum_list (map bytes_of ds) \<and>
       unat (s_allocatable_pages s) = sum_list (map (unat \<circ> d_pages) (filter allocatable ds)) \<and>
       unat (s_conventional_top s) =
         Max (insert 0 ((\<lambda>d. unat (d_physical_start d) + bytes_of d) ` set (filter conventional ds)))"
    using validate_map_exact [OF sample_readable, of zero_Summary] by (elim exE conjE)
  from ok have ok using sample_valid by blast
  with f [rule_format, OF sample_valid] r show ?thesis by (simp add: sample_filters sample_sizes)
qed

text \<open>
  \<open>find_region\<close> finds a region for an address exactly when the map is valid and one
  of its regions holds the address, and answers with that region's descriptor.
\<close>

lemma find_region_exact:
  assumes "readable mem mv"
  shows "\<exists>ok d. find_region mem mv a (Some out) = Some (ok, Some d) \<and>
    (ok \<longrightarrow> (\<exists>ds. valid_map mem mv ds \<and> d \<in> set ds \<and> unat a \<in> region d)) \<and>
    (\<not> ok \<longrightarrow> d = zero_Descriptor \<and> (\<forall>ds. valid_map mem mv ds \<longrightarrow> (\<forall>e \<in> set ds. unat a \<notin> region e)))"
  using assms by (rule find_region_cases)

text \<open>
  C12. \<open>covered_span\<close> accepts a span exactly when the map is valid, the span is not
  empty and does not wrap when rounded to pages, and every byte of the rounded span lies in a
  region of a permitted type; it then answers with the rounded span.
\<close>

theorem covered_span_exact:
  assumes "readable mem mv"
  shows "\<exists>ok sp. covered_span mem mv physical bytes policy (Some out) = Some (ok, Some sp) \<and>
    (ok \<longleftrightarrow> (\<exists>ds. valid_map mem mv ds \<and> bytes \<noteq> 0 \<and> unat physical + unat bytes + 4095 < 2 ^ 64 \<and>
       (\<forall>a. page_start physical \<le> a \<and> a < page_end physical bytes \<longrightarrow> covered ds policy a))) \<and>
    (ok \<longrightarrow> unat (ps_start sp) = page_start physical \<and> unat (ps_end sp) = page_end physical bytes) \<and>
    (\<not> ok \<longrightarrow> sp = zero_PhysicalSpan)"
  using assms by (rule covered_span_cases)

theorem covered_span_exact_witness:
  "\<exists>sp. covered_span sample_mem sample_view 0x100800 0x900 loader_data_only (Some zero_PhysicalSpan) = Some (True, Some sp) \<and>
     unat (ps_start sp) = 0x100000 \<and> unat (ps_end sp) = 0x102000"
proof -
  have "covered sample_descriptors loader_data_only a" if "0x100000 \<le> a" "a < 0x102000" for a
    using that by (simp add: covered_def sample_descriptors_def region_def bytes_of_def)
  then have "\<exists>ds. valid_map sample_mem sample_view ds \<and> (0x900 :: u64) \<noteq> 0 \<and> unat (0x100800 :: u64) + unat (0x900 :: u64) + 4095 < 2 ^ 64 \<and>
       (\<forall>a. page_start 0x100800 \<le> a \<and> a < page_end 0x100800 0x900 \<longrightarrow> covered ds loader_data_only a)"
    using sample_valid by (intro exI [of _ sample_descriptors]) simp
  with covered_span_exact [OF sample_readable, where physical = "0x100800" and bytes = "0x900" and policy = loader_data_only
      and out = zero_PhysicalSpan]
  show ?thesis by auto
qed

text \<open>
  C28. The planner places the two frame bitmaps one behind the other inside a
  single conventional region at or above 1 MiB, each of them large enough for one bit per frame below
  the top of conventional memory and a whole number of pages; it fails only when there is no
  conventional memory or no region is large enough for both.
\<close>

theorem plan_frame_bitmaps_placed:
  assumes "readable mem mv"
  shows "\<exists>ok l. plan_frame_bitmaps mem mv (Some out) = Some (ok, Some l) \<and>
    (ok \<longrightarrow> (\<exists>ds. valid_map mem mv ds \<and>
       (\<exists>d \<in> set ds. layout_in (unat (s_conventional_top (summary_of mv ds))) d l))) \<and>
    (\<not> ok \<longrightarrow> l = zero_FrameBitmapLayout \<and> (\<forall>ds. valid_map mem mv ds \<longrightarrow>
       s_conventional_top (summary_of mv ds) = 0 \<or>
       (\<forall>d \<in> set ds. \<not> (allocatable d \<and> 2 * storage_size (unat (s_conventional_top (summary_of mv ds))) \<le> bytes_of d))))"
  using assms by (rule plan_frame_bitmaps_cases)

lemma sample_top: "unat (s_conventional_top (summary_of sample_view sample_descriptors)) = 0x300000"
  by (simp add: summary_fields [OF sample_valid] sample_filters sample_sizes)

theorem plan_frame_bitmaps_placed_witness:
  "\<exists>l ds. plan_frame_bitmaps sample_mem sample_view (Some zero_FrameBitmapLayout) = Some (True, Some l) \<and>
     (\<exists>d \<in> set ds. layout_in (unat (s_conventional_top (summary_of sample_view ds))) d l)"
proof -
  have "\<exists>d \<in> set sample_descriptors. allocatable d \<and>
      2 * storage_size (unat (s_conventional_top (summary_of sample_view sample_descriptors))) \<le> bytes_of d"
    by (simp add: sample_top storage_size_def bitmap_size_def)
       (simp add: sample_descriptors_def conventional_memory_def minimum_allocatable_def bytes_of_def)
  moreover have "s_conventional_top (summary_of sample_view sample_descriptors) \<noteq> 0"
    using sample_top by auto
  ultimately show ?thesis
    using plan_frame_bitmaps_placed [OF sample_readable, of zero_FrameBitmapLayout] sample_valid by metis
qed

text \<open>
  Reading a field byte by byte gives back the value whose little-endian bytes
  are stored there, whatever the alignment of the field.
\<close>

lemma copy_field_roundtrip:
  assumes "\<forall>k < n. mem (a + of_nat k) = Some (ucast (drop_bit (8 * k) v))"
  shows "copy_field mem n a = Some (take_bit (8 * n) v)"
  using assms by (rule copy_field_bytes)

end
