(* ===== verification/Buddy.thy ===== *)
theory Buddy
  imports Prelude
begin

text \<open>
  The buddy allocator of \<^verbatim>\<open>kernel/memory/buddy.cpp\<close> and \<^verbatim>\<open>include/mm/buddy.h\<close>, one zone at a time.
  Addresses and counters are natural numbers below \<open>2 ^ 64\<close>; where the code's 64-bit arithmetic can
  wrap, the wrap-around is written out. The free list of an order is threaded through the first
  word of the free blocks themselves: \<open>link\<close> is the contents of those words in physical memory, read and
  written through \<open>phys_to_virt\<close>, which maps address 0 to the null pointer (so a link at 0 is
  \<open>None\<close>). The zone's lock is a bit; a list that never ends makes the walk diverge (\<open>None\<close>).
\<close>

section \<open>Model\<close>

type_synonym link = "nat \<Rightarrow> nat"

datatype zone_type = ZONE_DMA | ZONE_DMA32 | ZONE_NORMAL

record zone =
  z_free_area :: "nat list"
  z_lock :: bool
  z_start_pfn :: nat
  z_end_pfn :: nat
  z_managed_pages :: nat
  z_free_pages :: nat
  z_type :: zone_type
  z_name :: string

definition MAX_ORDER :: nat where "MAX_ORDER = 31"

definition MIN_ORDER :: nat where "MIN_ORDER = 12"

definition ORDER_COUNT :: nat where "ORDER_COUNT = MAX_ORDER - MIN_ORDER + 1"

definition PAGE_SIZE :: nat where "PAGE_SIZE = 4096"

definition ZONE_DMA_END :: nat where "ZONE_DMA_END = 16 * 2 ^ 20"

definition ZONE_DMA32_END :: nat where "ZONE_DMA32_END = 4 * 2 ^ 30"

abbreviation wrap64 :: "nat \<Rightarrow> nat" where
  "wrap64 n \<equiv> n mod 2 ^ 64"

definition order_valid :: "nat \<Rightarrow> bool" where
  "order_valid order \<longleftrightarrow> order \<ge> MIN_ORDER \<and> order \<le> MAX_ORDER"

text \<open>\<open>63 - clz(x)\<close>: the position of the highest set bit.\<close>

fun log2_floor_u64 :: "nat \<Rightarrow> nat" where
  "log2_floor_u64 x = (if x < 2 then 0 else log2_floor_u64 (x div 2) + 1)"

declare log2_floor_u64.simps [simp del]

text \<open>A shift by 64 is undefined.\<close>

definition next_power_of_2 :: "nat \<Rightarrow> nat option" where
  "next_power_of_2 x =
     (if x \<le> 1 then Some 1
      else if x AND (x - 1) = 0 then Some x
      else if log2_floor_u64 x + 1 < 64 then Some (2 ^ (log2_floor_u64 x + 1)) else None)"

definition order_to_block_size :: "nat \<Rightarrow> nat" where
  "order_to_block_size order = 2 ^ order"

definition order_to_pages :: "nat \<Rightarrow> nat" where
  "order_to_pages order = 2 ^ (order - MIN_ORDER)"

definition count_to_block_pages :: "nat \<Rightarrow> nat option" where
  "count_to_block_pages count = next_power_of_2 count"

definition count_to_order :: "nat \<Rightarrow> nat option" where
  "count_to_order count = map_option (\<lambda>p. log2_floor_u64 p + MIN_ORDER) (count_to_block_pages count)"

definition order_to_index :: "nat \<Rightarrow> nat" where
  "order_to_index order = order - MIN_ORDER"

definition block_list_next :: "link \<Rightarrow> nat \<Rightarrow> nat option" where
  "block_list_next lk base = (if base = 0 then None else Some (lk base))"

definition block_list_set_next :: "link \<Rightarrow> nat \<Rightarrow> nat \<Rightarrow> link option" where
  "block_list_set_next lk base nxt = (if base = 0 then None else Some (lk(base := nxt)))"

abbreviation zone_start :: "zone \<Rightarrow> nat" where
  "zone_start z \<equiv> wrap64 (z_start_pfn z * PAGE_SIZE)"

abbreviation zone_end :: "zone \<Rightarrow> nat" where
  "zone_end z \<equiv> wrap64 (z_end_pfn z * PAGE_SIZE)"

definition zone_contains_block :: "zone \<Rightarrow> nat \<Rightarrow> nat \<Rightarrow> bool" where
  "zone_contains_block z base order =
     (if \<not> order_valid order then False
      else if base < zone_start z then False
      else if base > zone_end z then False
      else if order_to_block_size order > zone_end z - base then False
      else True)"

text \<open>An index outside the array \<open>free_area\<close> has no defined result.\<close>

definition free_head :: "zone \<Rightarrow> nat \<Rightarrow> nat option" where
  "free_head z index = (if index < length (z_free_area z) then Some (z_free_area z ! index) else None)"

definition set_free_head :: "zone \<Rightarrow> nat \<Rightarrow> nat \<Rightarrow> zone option" where
  "set_free_head z index v =
     (if index < length (z_free_area z) then Some (z\<lparr>z_free_area := (z_free_area z)[index := v]\<rparr>) else None)"

definition push_block :: "link \<Rightarrow> zone \<Rightarrow> nat \<Rightarrow> nat \<Rightarrow> (link \<times> zone) option" where
  "push_block lk z order base = do {
     let index = order_to_index order;
     head \<leftarrow> free_head z index;
     lk \<leftarrow> block_list_set_next lk base head;
     z \<leftarrow> set_free_head z index base;
     Some (lk, z)
   }"

definition pop_block :: "link \<Rightarrow> zone \<Rightarrow> nat \<Rightarrow> (nat \<times> link \<times> zone) option" where
  "pop_block lk z order = do {
     let index = order_to_index order;
     head \<leftarrow> free_head z index;
     if head = 0 then Some (0, lk, z)
     else do {
       nxt \<leftarrow> block_list_next lk head;
       z \<leftarrow> set_free_head z index nxt;
       lk \<leftarrow> block_list_set_next lk head 0;
       Some (head, lk, z)
     }
   }"

partial_function (option) remove_walk ::
  "link \<Rightarrow> zone \<Rightarrow> nat \<Rightarrow> nat \<Rightarrow> nat \<Rightarrow> nat \<Rightarrow> (bool \<times> link \<times> zone) option" where
  "remove_walk lk z index base prev cur =
     (if cur \<noteq> 0 then do {
        nxt \<leftarrow> block_list_next lk cur;
        if cur = base then do {
          (lk, z) \<leftarrow> (if prev = 0 then do { z \<leftarrow> set_free_head z index nxt; Some (lk, z) }
                      else do { lk \<leftarrow> block_list_set_next lk prev nxt; Some (lk, z) });
          lk \<leftarrow> block_list_set_next lk cur 0;
          Some (True, lk, z)
        }
        else remove_walk lk z index base cur nxt
      } else Some (False, lk, z))"

definition remove_block :: "link \<Rightarrow> zone \<Rightarrow> nat \<Rightarrow> nat \<Rightarrow> (bool \<times> link \<times> zone) option" where
  "remove_block lk z order base = do {
     let index = order_to_index order;
     cur \<leftarrow> free_head z index;
     remove_walk lk z index base 0 cur
   }"

definition phys_to_zone_type :: "nat \<Rightarrow> zone_type" where
  "phys_to_zone_type phys =
     (if phys < ZONE_DMA_END then ZONE_DMA else if phys < ZONE_DMA32_END then ZONE_DMA32 else ZONE_NORMAL)"

definition zone_has_memory :: "zone option \<Rightarrow> bool" where
  "zone_has_memory z = (case z of None \<Rightarrow> False | Some z \<Rightarrow> z_managed_pages z > 0)"

text \<open>The two loops of \<open>buddy_alloc_zone\<close>.\<close>

function pop_first :: "link \<Rightarrow> zone \<Rightarrow> nat \<Rightarrow> (nat \<times> nat \<times> link \<times> zone) option" where
  "pop_first lk z current_order =
     (if current_order < MAX_ORDER then do {
        (addr, lk, z) \<leftarrow> pop_block lk z current_order;
        if addr \<noteq> 0 then Some (addr, current_order, lk, z) else pop_first lk z (current_order + 1)
      } else Some (0, current_order, lk, z))"
  by pat_completeness auto
termination by (relation "measure (\<lambda>(lk, z, current_order). MAX_ORDER - current_order)") auto

fun split_block :: "link \<Rightarrow> zone \<Rightarrow> nat \<Rightarrow> nat \<Rightarrow> nat \<Rightarrow> (link \<times> zone) option" where
  "split_block lk z addr order 0 = Some (lk, z)"
| "split_block lk z addr order (Suc current_order) =
     (if Suc current_order > order then do {
        (lk, z) \<leftarrow> push_block lk z current_order (wrap64 (addr + order_to_block_size current_order));
        split_block lk z addr order current_order
      } else Some (lk, z))"

definition buddy_alloc_zone :: "link \<Rightarrow> zone option \<Rightarrow> nat \<Rightarrow> (nat \<times> link \<times> zone option) option" where
  "buddy_alloc_zone lk zn count =
     (case zn of None \<Rightarrow> Some (0, lk, zn)
      | Some z \<Rightarrow>
        if count = 0 then Some (0, lk, zn)
        else do {
          order \<leftarrow> count_to_order count;
          if \<not> order_valid order then Some (0, lk, zn)
          else do {
            l \<leftarrow> spin_lock (z_lock z);
            let z = z\<lparr>z_lock := l\<rparr>;
            (addr, current_order, lk, z) \<leftarrow> pop_first lk z order;
            if addr = 0 then Some (0, lk, Some (z\<lparr>z_lock := spin_unlock (z_lock z)\<rparr>))
            else do {
              (lk, z) \<leftarrow> split_block lk z addr order current_order;
              let z = z\<lparr>z_free_pages := wrap64 (z_free_pages z + 2 ^ 64 - order_to_pages order)\<rparr>;
              Some (addr, lk, Some (z\<lparr>z_lock := spin_unlock (z_lock z)\<rparr>))
            }
          }
        })"

function merge_block :: "link \<Rightarrow> zone \<Rightarrow> nat \<Rightarrow> nat \<Rightarrow> (link \<times> zone \<times> nat \<times> nat) option" where
  "merge_block lk z base order =
     (if order + 1 < MAX_ORDER then
        (let buddy = base XOR order_to_block_size order
         in if \<not> zone_contains_block z buddy order then Some (lk, z, base, order)
            else case remove_block lk z order buddy of
                   None \<Rightarrow> None
                 | Some (found, lk, z) \<Rightarrow>
                     if \<not> found then Some (lk, z, base, order)
                     else merge_block lk z (min base buddy) (order + 1))
      else Some (lk, z, base, order))"
  by pat_completeness auto
termination by (relation "measure (\<lambda>(lk, z, base, order). MAX_ORDER - order)") auto

declare pop_first.simps [simp del] merge_block.simps [simp del]

definition buddy_free_zone :: "link \<Rightarrow> zone option \<Rightarrow> nat \<Rightarrow> nat \<Rightarrow> (link \<times> zone option) option" where
  "buddy_free_zone lk zn base order =
     (case zn of None \<Rightarrow> Some (lk, zn)
      | Some z \<Rightarrow>
        if base = 0 \<or> \<not> order_valid order then Some (lk, zn)
        else if base AND (order_to_block_size order - 1) \<noteq> 0 then Some (lk, zn)
        else if \<not> zone_contains_block z base order then Some (lk, zn)
        else do {
          let released_pages = order_to_pages order;
          (lk, z, base, order) \<leftarrow> merge_block lk z base order;
          (lk, z) \<leftarrow> push_block lk z order base;
          Some (lk, Some (z\<lparr>z_free_pages := wrap64 (z_free_pages z + released_pages)\<rparr>))
        })"

fun zone_names :: "zone_type \<Rightarrow> string" where
  "zone_names ZONE_DMA = ''DMA''"
| "zone_names ZONE_DMA32 = ''DMA32''"
| "zone_names ZONE_NORMAL = ''Normal''"

definition init_zone :: "zone_type \<Rightarrow> nat \<Rightarrow> nat \<Rightarrow> zone" where
  "init_zone type start_pfn end_pfn =
     \<lparr>z_free_area = replicate ORDER_COUNT 0, z_lock = False, z_start_pfn = start_pfn, z_end_pfn = end_pfn,
      z_managed_pages = 0, z_free_pages = 0, z_type = type, z_name = zone_names type\<rparr>"

text \<open>\<open>PADDING_UP\<close> and \<open>PADDING_DOWN\<close> of \<^verbatim>\<open>include/krlibc.h\<close>.\<close>

definition PADDING_DOWN :: "nat \<Rightarrow> nat \<Rightarrow> nat" where
  "PADDING_DOWN sz to = sz div to * to"

definition PADDING_UP :: "nat \<Rightarrow> nat \<Rightarrow> nat" where
  "PADDING_UP sz to = PADDING_DOWN (wrap64 (sz + to + 2 ^ 64 - 1)) to"

text \<open>The two loops of \<open>add_memory_region\<close>.\<close>

fun largest_order :: "nat \<Rightarrow> nat \<Rightarrow> nat \<Rightarrow> nat" where
  "largest_order start fin 0 = 0"
| "largest_order start fin (Suc order) =
     (if Suc order > MIN_ORDER then
        (let block_size = order_to_block_size (Suc order)
         in if start AND (block_size - 1) = 0 \<and> wrap64 (start + block_size) \<le> fin then Suc order
            else largest_order start fin order)
      else Suc order)"

partial_function (option) add_blocks ::
  "link \<Rightarrow> zone \<Rightarrow> nat \<Rightarrow> nat \<Rightarrow> (link \<times> zone) option" where
  "add_blocks lk z start fin =
     (if start < fin then do {
        let order = largest_order start fin (MAX_ORDER - 1);
        (lk, zn) \<leftarrow> buddy_free_zone lk (Some z) start order;
        z \<leftarrow> zn;
        let z = z\<lparr>z_managed_pages := wrap64 (z_managed_pages z + order_to_pages order)\<rparr>;
        add_blocks lk z (wrap64 (start + order_to_block_size order)) fin
      } else Some (lk, z))"

definition add_memory_region :: "link \<Rightarrow> zone option \<Rightarrow> nat \<Rightarrow> nat \<Rightarrow> (link \<times> zone option) option" where
  "add_memory_region lk zn start fin =
     (case zn of None \<Rightarrow> Some (lk, zn)
      | Some z \<Rightarrow>
        let start = PADDING_UP start PAGE_SIZE;
            fin = PADDING_DOWN fin PAGE_SIZE
        in if start \<ge> fin then Some (lk, zn)
           else let start = (if start < zone_start z then zone_start z else start);
                    fin = (if fin > zone_end z then zone_end z else fin)
                in if start \<ge> fin then Some (lk, zn)
                   else do {
                     l \<leftarrow> spin_lock (z_lock z);
                     (lk, z) \<leftarrow> add_blocks lk (z\<lparr>z_lock := l\<rparr>) start fin;
                     Some (lk, Some (z\<lparr>z_lock := spin_unlock (z_lock z)\<rparr>))
                   })"

section \<open>Orders and sizes\<close>

lemma xor_one_nat: "(q::nat) XOR 1 = (if even q then q + 1 else q - 1)"
  unfolding xor_one_eq by auto

lemma buddy_xor:
  assumes "2 ^ k dvd (b::nat)"
  shows "b XOR 2 ^ k = (if 2 ^ (k + 1) dvd b then b + 2 ^ k else b - 2 ^ k)"
proof -
  obtain q where q: "b = 2 ^ k * q" using assms by blast
  have "b XOR 2 ^ k = push_bit k q XOR push_bit k 1" by (simp add: q push_bit_eq_mult mult.commute)
  also have "\<dots> = 2 ^ k * (q XOR 1)" unfolding push_bit_xor [symmetric] by (simp only: push_bit_eq_mult mult.commute)
  also have "\<dots> = (if even q then b + 2 ^ k else b - 2 ^ k)" unfolding xor_one_nat by (simp add: q algebra_simps)
  finally show ?thesis by (simp add: q)
qed

lemma aligned_and: "(b::nat) AND (2 ^ k - 1) = 0 \<longleftrightarrow> 2 ^ k dvd b"
  unfolding mask_eq_exp_minus_1 [symmetric] take_bit_eq_mask [symmetric] take_bit_eq_0_iff ..

lemma log2_floor_bounds: "0 < x \<Longrightarrow> 2 ^ log2_floor_u64 x \<le> x \<and> x < 2 ^ (log2_floor_u64 x + 1)"
proof (induction x rule: log2_floor_u64.induct)
  case (1 x)
  show ?case
  proof (cases "x < 2")
    case True
    then show ?thesis using 1 by (simp add: log2_floor_u64.simps)
  next
    case False
    from "1.IH" [OF this] have "2 ^ log2_floor_u64 (x div 2) \<le> x div 2 \<and> x div 2 < 2 ^ (log2_floor_u64 (x div 2) + 1)" using False by simp
    with False show ?thesis by (subst (1 2) log2_floor_u64.simps) auto
  qed
qed

lemma log2_floor_unique:
  assumes "2 ^ k \<le> x" "x < 2 ^ (k + 1)"
  shows "log2_floor_u64 x = k"
proof -
  have "0 < x" using assms(1) by (metis le_zero_eq not_gr0 power_not_zero zero_neq_numeral)
  note b = log2_floor_bounds [OF this]
  have "k < log2_floor_u64 x + 1" "log2_floor_u64 x < k + 1"
    using b assms by (meson le_less_trans nat_power_less_imp_less zero_less_numeral)+
  then show ?thesis by simp
qed

lemma and_pred:
  assumes "0 < x"
  shows "(x::nat) AND (x - 1) = 0 \<longleftrightarrow> x = 2 ^ log2_floor_u64 x"
proof
  let ?l = "log2_floor_u64 x"
  assume a: "x AND (x - 1) = 0"
  show "x = 2 ^ ?l"
  proof (rule ccontr)
    assume "x \<noteq> 2 ^ ?l"
    with log2_floor_bounds [OF assms] have "2 ^ ?l \<le> x - 1" "x - 1 < 2 ^ (?l + 1)" "2 ^ ?l \<le> x" "x < 2 ^ (?l + 1)" by auto
    then have "bit x ?l" "bit (x - 1) ?l"
      by (blast intro: bit_top)+
    with a show False by (metis bit_and_iff bit_0_eq bot_apply bot_bool_def)
  qed
next
  assume "x = 2 ^ log2_floor_u64 x"
  then show "x AND (x - 1) = 0" by (metis aligned_and dvd_refl)
qed

lemma count_to_order_spec:
  assumes "0 < count" "count \<le> 2 ^ 63"
  shows "\<exists>k. count_to_block_pages count = Some (2 ^ k) \<and> count_to_order count = Some (k + MIN_ORDER) \<and>
    count \<le> 2 ^ k \<and> 2 ^ k < 2 * count"
proof -
  let ?l = "log2_floor_u64 count"
  note b = log2_floor_bounds [OF assms(1)]
  have log: "log2_floor_u64 (2 ^ k) = k" for k by (rule log2_floor_unique) simp_all
  show ?thesis
  proof (cases "count = 2 ^ ?l")
    case True
    then have "count AND (count - 1) = 0" using and_pred [OF assms(1)] by simp
    then have "next_power_of_2 count = Some count" using assms(1) by (auto simp: next_power_of_2_def)
    then show ?thesis using True log assms(1)
      by (intro exI [of _ ?l]) (auto simp: count_to_order_def count_to_block_pages_def)
  next
    case False
    then have "count AND (count - 1) \<noteq> 0" using and_pred [OF assms(1)] by simp
    moreover have "1 < count" using False assms(1) by (cases "count = 1") (auto simp: log2_floor_u64.simps)
    moreover have "?l < 63"
    proof -
      have "2 ^ ?l < (2::nat) ^ 63" using b False assms(2) by linarith
      then show ?thesis by (rule power_less_imp_less_exp [rotated]) simp
    qed
    ultimately have "next_power_of_2 count = Some (2 ^ (?l + 1))"
      by (simp add: next_power_of_2_def)
    moreover have "2 ^ (?l + 1) < 2 * count" using b False by simp
    ultimately show ?thesis using b log [of "?l + 1"]
      by (intro exI [of _ "?l + 1"]) (simp add: count_to_order_def count_to_block_pages_def)
  qed
qed

lemmas order_consts = MIN_ORDER_def MAX_ORDER_def ORDER_COUNT_def

section \<open>Blocks and free lists\<close>

definition span :: "nat \<Rightarrow> nat \<Rightarrow> nat set" where
  "span k b = {b..<b + 2 ^ k}"

lemma span_nonempty [simp]: "span k b \<noteq> {}" "b \<in> span k b"
  by (auto simp: span_def)

lemma span_split: "span (Suc k) b = span k b \<union> span k (b + 2 ^ k)"
  by (auto simp: span_def)

lemma span_halves: "span k b \<inter> span k (b + 2 ^ k) = {}"
  by (auto simp: span_def)

lemma card_span [simp]: "card (span k b) = 2 ^ k" "finite (span k b)"
  by (simp_all add: span_def)

lemma span_subset: "span k b \<subseteq> {lo..<hi} \<Longrightarrow> lo \<le> b \<and> b + 2 ^ k \<le> hi"
  by (simp add: span_def atLeastLessThan_subset_iff [of b "b + 2 ^ k" lo hi])

text \<open>A block and its buddy are the two halves of the block one order up.\<close>

lemma buddy_merge:
  assumes "2 ^ k dvd b"
  defines "c \<equiv> b XOR 2 ^ k"
  shows "2 ^ k dvd c" "2 ^ Suc k dvd min b c" "span (Suc k) (min b c) = span k b \<union> span k c"
    "span k b \<inter> span k c = {}"
proof -
  consider (low) "2 ^ (k + 1) dvd b" "c = b + 2 ^ k" | (high) "\<not> 2 ^ (k + 1) dvd b" "c = b - 2 ^ k"
    using buddy_xor [OF assms(1)] by (auto simp: c_def)
  then have "2 ^ k dvd c \<and> 2 ^ Suc k dvd min b c \<and> span (Suc k) (min b c) = span k b \<union> span k c \<and>
    span k b \<inter> span k c = {}"
  proof cases
    case low
    with assms(1) show ?thesis by (simp add: span_split span_halves)
  next
    case high
    obtain q where q: "b = 2 ^ k * q" using assms(1) by blast
    with high(1) have "odd q" by auto
    then obtain r where "q = 2 * r + 1" by (elim oddE)
    with q high(2) have c: "c = 2 ^ Suc k * r" "b = c + 2 ^ k" by (auto simp: algebra_simps)
    then show ?thesis using span_split [of k c] span_halves [of k c] by auto
  qed
  then show "2 ^ k dvd c" "2 ^ Suc k dvd min b c" "span (Suc k) (min b c) = span k b \<union> span k c"
    "span k b \<inter> span k c = {}" by blast+
qed

text \<open>The free lists by order, as lists of block addresses.\<close>

type_synonym lists = "nat \<Rightarrow> nat list"

abbreviation orders :: "nat set" where
  "orders \<equiv> {MIN_ORDER..MAX_ORDER}"

definition blocks :: "lists \<Rightarrow> (nat \<times> nat) set" where
  "blocks fl = Sigma orders (\<lambda>k. set (fl k))"

definition free_set :: "lists \<Rightarrow> nat set" where
  "free_set fl = (\<Union>(k, b) \<in> blocks fl. span k b)"

definition pages_of :: "lists \<Rightarrow> nat" where
  "pages_of fl = (\<Sum>k \<in> orders. length (fl k) * order_to_pages k)"

definition block_ok :: "nat \<Rightarrow> nat \<Rightarrow> nat \<Rightarrow> nat \<Rightarrow> bool" where
  "block_ok lo hi k b \<longleftrightarrow> b \<noteq> 0 \<and> 2 ^ k dvd b \<and> lo \<le> b \<and> b + 2 ^ k \<le> hi"

definition lists_ok :: "nat \<Rightarrow> nat \<Rightarrow> lists \<Rightarrow> bool" where
  "lists_ok lo hi fl \<longleftrightarrow> (\<forall>k \<in> orders. distinct (fl k)) \<and> (\<forall>(k, b) \<in> blocks fl. block_ok lo hi k b) \<and>
     pairwise (\<lambda>(k, b) (k', b'). span k b \<inter> span k' b' = {}) (blocks fl)"

lemma blocks_upd: "k \<in> orders \<Longrightarrow> blocks (fl(k := xs)) = {(k', b) \<in> blocks fl. k' \<noteq> k} \<union> {k} \<times> set xs"
  by (auto simp: blocks_def split: if_splits)

lemma blocks_insert: "k \<in> orders \<Longrightarrow> blocks (fl(k := b # fl k)) = insert (k, b) (blocks fl)"
  by (auto simp: blocks_def split: if_splits)

lemma blocks_remove:
  "k \<in> orders \<Longrightarrow> distinct (fl k) \<Longrightarrow> blocks (fl(k := remove1 b (fl k))) = blocks fl - {(k, b)}"
  by (auto simp: blocks_def split: if_splits)

lemma free_set_insert: "k \<in> orders \<Longrightarrow> free_set (fl(k := b # fl k)) = span k b \<union> free_set fl"
  by (simp add: free_set_def blocks_insert)

lemma lists_ok_insert:
  assumes "lists_ok lo hi fl" "k \<in> orders" "block_ok lo hi k b" "span k b \<inter> free_set fl = {}"
  shows "lists_ok lo hi (fl(k := b # fl k))"
proof -
  have "(k, b) \<notin> blocks fl" using assms(4) span_nonempty(2) [of b k] unfolding free_set_def by blast
  then have "b \<notin> set (fl k)" using assms(2) by (auto simp: blocks_def)
  with assms show ?thesis
    unfolding lists_ok_def blocks_insert [OF assms(2)]
    by (auto simp: pairwise_insert free_set_def)
qed

lemma lists_ok_remove:
  assumes "lists_ok lo hi fl" "k \<in> orders" "b \<in> set (fl k)"
  shows "lists_ok lo hi (fl(k := remove1 b (fl k)))"
    "free_set fl = span k b \<union> free_set (fl(k := remove1 b (fl k)))"
    "span k b \<inter> free_set (fl(k := remove1 b (fl k))) = {}" "block_ok lo hi k b"
proof -
  have d: "distinct (fl k)" and m: "(k, b) \<in> blocks fl" using assms by (auto simp: lists_ok_def blocks_def)
  note r = blocks_remove [where fl = fl and k = k and b = b, OF assms(2) d]
  show "lists_ok lo hi (fl(k := remove1 b (fl k)))"
    using assms(1) unfolding lists_ok_def r by (auto intro: pairwise_subset)
  show "free_set fl = span k b \<union> free_set (fl(k := remove1 b (fl k)))"
    using m unfolding free_set_def r by blast
  show "span k b \<inter> free_set (fl(k := remove1 b (fl k))) = {}"
    using assms(1) m unfolding lists_ok_def free_set_def r pairwise_def by fast
  show "block_ok lo hi k b" using assms(1) m by (auto simp: lists_ok_def)
qed

lemma pages_of_insert: "k \<in> orders \<Longrightarrow> pages_of (fl(k := b # fl k)) = pages_of fl + order_to_pages k"
  unfolding pages_of_def by (subst (1 2) sum.remove [of _ k]) (auto intro!: sum.cong)

lemma pages_of_remove:
  "k \<in> orders \<Longrightarrow> b \<in> set (fl k) \<Longrightarrow> pages_of fl = pages_of (fl(k := remove1 b (fl k))) + order_to_pages k"
  unfolding pages_of_def
  by (subst (1 2) sum.remove [of _ k]) (auto simp: length_remove1 mult_eq_if in_set_conv_nth intro!: sum.cong)

lemma finite_blocks [simp]: "finite (blocks fl)"
  by (simp add: blocks_def)

lemma free_set_card:
  assumes "lists_ok lo hi fl"
  shows "card (free_set fl) = PAGE_SIZE * pages_of fl"
proof -
  have "\<forall>i \<in> blocks fl. \<forall>j \<in> blocks fl. i \<noteq> j \<longrightarrow> (\<lambda>(k, b). span k b) i \<inter> (\<lambda>(k, b). span k b) j = {}"
    using assms by (simp add: lists_ok_def pairwise_def split_def)
  then have "card (free_set fl) = (\<Sum>(k, b) \<in> blocks fl. card (span k b))"
    unfolding free_set_def by (subst card_UN_disjoint) (auto simp: split_def)
  also have "\<dots> = (\<Sum>k \<in> orders. \<Sum>b \<in> set (fl k). 2 ^ k)"
    by (subst sum.Sigma) (auto simp: blocks_def)
  also have "\<dots> = (\<Sum>k \<in> orders. PAGE_SIZE * (length (fl k) * order_to_pages k))"
  proof (rule sum.cong [OF refl])
    fix k assume k: "k \<in> orders"
    then obtain d where "k = 12 + d" by (auto simp: order_consts dest: le_Suc_ex)
    then have "(2::nat) ^ k = PAGE_SIZE * order_to_pages k"
      by (simp add: PAGE_SIZE_def order_to_pages_def order_consts power_add)
    moreover have "card (set (fl k)) = length (fl k)" using assms k by (simp add: lists_ok_def distinct_card)
    ultimately show "(\<Sum>b \<in> set (fl k). 2 ^ k) = PAGE_SIZE * (length (fl k) * order_to_pages k)" by simp
  qed
  finally show ?thesis by (simp add: pages_of_def sum_distrib_left)
qed

lemma free_set_subset: "lists_ok lo hi fl \<Longrightarrow> free_set fl \<subseteq> {lo..<hi}"
  by (fastforce simp: lists_ok_def free_set_def block_ok_def span_def)

lemma pages_of_bound: "lists_ok lo hi fl \<Longrightarrow> PAGE_SIZE * pages_of fl \<le> hi"
  using card_mono [OF _ free_set_subset [of lo hi fl]] by (simp add: free_set_card)

section \<open>The linked representation\<close>

fun seg :: "link \<Rightarrow> nat \<Rightarrow> nat list \<Rightarrow> nat \<Rightarrow> bool" where
  "seg lk h [] e = (h = e)"
| "seg lk h (x # xs) e = (h = x \<and> x \<noteq> 0 \<and> seg lk (lk x) xs e)"

lemma seg_append [simp]: "seg lk h (xs @ ys) e \<longleftrightarrow> (\<exists>m. seg lk h xs m \<and> seg lk m ys e)"
  by (induction xs arbitrary: h) auto

lemma seg_frame [simp]: "a \<notin> set xs \<Longrightarrow> seg (lk(a := v)) h xs e = seg lk h xs e"
  by (induction xs arbitrary: h) auto

lemma seg_cong: "\<forall>a \<in> set xs. lk' a = lk a \<Longrightarrow> seg lk h xs e \<Longrightarrow> seg lk' h xs e"
  by (induction xs arbitrary: h) auto

lemma seg_unlink:
  assumes "seg lk h (ys @ p # b # xs) 0" "distinct (ys @ p # b # xs)"
  shows "seg (lk(p := lk b, b := 0)) h (ys @ p # xs) 0"
  using assms by auto

definition zone_lists :: "link \<Rightarrow> zone \<Rightarrow> lists \<Rightarrow> bool" where
  "zone_lists lk z fl \<longleftrightarrow> length (z_free_area z) = ORDER_COUNT \<and>
     (\<forall>k \<in> orders. seg lk (z_free_area z ! order_to_index k) (fl k) 0)"

text \<open>Only the list heads differ.\<close>

definition same_zone :: "zone \<Rightarrow> zone \<Rightarrow> bool" where
  "same_zone z z' \<longleftrightarrow> z' = z\<lparr>z_free_area := z_free_area z'\<rparr>"

lemma same_zone_refl [simp]: "same_zone z z"
  by (simp add: same_zone_def)

lemma same_zone_trans: "same_zone z z' \<Longrightarrow> same_zone z' z'' \<Longrightarrow> same_zone z z''"
  unfolding same_zone_def by (metis zone.surjective zone.update_convs(1))

lemma same_zone_fields:
  assumes "same_zone z z'"
  shows "z_lock z' = z_lock z" "z_start_pfn z' = z_start_pfn z" "z_end_pfn z' = z_end_pfn z"
    "z_managed_pages z' = z_managed_pages z" "z_free_pages z' = z_free_pages z"
    "z_type z' = z_type z" "z_name z' = z_name z"
  using assms unfolding same_zone_def by (metis zone.select_convs zone.surjective zone.update_convs(1))+

lemma index_orders: "k \<in> orders \<Longrightarrow> order_to_index k < ORDER_COUNT"
  by (auto simp: order_to_index_def order_consts)

lemma index_inj: "k \<in> orders \<Longrightarrow> k' \<in> orders \<Longrightarrow> order_to_index k = order_to_index k' \<longleftrightarrow> k = k'"
  by (auto simp: order_to_index_def order_consts)

lemma zone_lists_upd:
  assumes zl: "zone_lists lk z fl" and k: "k \<in> orders" and new: "seg lk' v xs 0"
    and off: "\<And>k'. k' \<in> orders \<Longrightarrow> k' \<noteq> k \<Longrightarrow> seg lk' (z_free_area z ! order_to_index k') (fl k') 0"
  shows "zone_lists lk' (z\<lparr>z_free_area := (z_free_area z)[order_to_index k := v]\<rparr>) (fl(k := xs))"
  unfolding zone_lists_def
proof (intro conjI ballI)
  show "length (z_free_area (z\<lparr>z_free_area := (z_free_area z)[order_to_index k := v]\<rparr>)) = ORDER_COUNT"
    using zl by (simp add: zone_lists_def)
  fix k' assume k': "k' \<in> orders"
  show "seg lk' (z_free_area (z\<lparr>z_free_area := (z_free_area z)[order_to_index k := v]\<rparr>) ! order_to_index k')
      ((fl(k := xs)) k') 0"
    using new off [OF k'] index_inj [OF k k'] index_orders [OF k] zl
    by (cases "k' = k") (auto simp: zone_lists_def nth_list_update)
qed

lemma push_block_lists:
  assumes zl: "zone_lists lk z fl" and k: "k \<in> orders" and b: "b \<noteq> 0"
    and new: "\<And>k. k \<in> orders \<Longrightarrow> b \<notin> set (fl k)"
  shows "\<exists>lk' z'. push_block lk z k b = Some (lk', z') \<and> zone_lists lk' z' (fl(k := b # fl k)) \<and> same_zone z z' \<and>
    (\<forall>a. a \<noteq> b \<longrightarrow> lk' a = lk a)"
proof -
  let ?i = "order_to_index k"
  let ?lk = "lk(b := z_free_area z ! ?i)" and ?z = "z\<lparr>z_free_area := (z_free_area z)[?i := b]\<rparr>"
  have "?i < length (z_free_area z)" using zl index_orders [OF k] by (simp add: zone_lists_def)
  then have "push_block lk z k b = Some (?lk, ?z)"
    using b by (simp add: push_block_def Let_def free_head_def block_list_set_next_def set_free_head_def)
  moreover have "zone_lists ?lk ?z (fl(k := b # fl k))"
    using zl k b new by (intro zone_lists_upd [OF zl k]) (auto simp: zone_lists_def)
  moreover have "same_zone z ?z" by (simp add: same_zone_def)
  ultimately show ?thesis by (metis fun_upd_other)
qed

lemma pop_block_lists:
  assumes zl: "zone_lists lk z fl" and k: "k \<in> orders" and d: "distinct (fl k)"
    and dis: "\<And>k' b. k' \<in> orders \<Longrightarrow> k' \<noteq> k \<Longrightarrow> b \<in> set (fl k) \<Longrightarrow> b \<notin> set (fl k')"
  shows "case fl k of [] \<Rightarrow> pop_block lk z k = Some (0, lk, z)
    | b # bs \<Rightarrow> \<exists>lk' z'. pop_block lk z k = Some (b, lk', z') \<and> zone_lists lk' z' (fl(k := bs)) \<and> same_zone z z' \<and>
        (\<forall>a. a \<noteq> b \<longrightarrow> lk' a = lk a)"
proof (cases "fl k")
  case Nil
  let ?i = "order_to_index k"
  have "seg lk (z_free_area z ! ?i) (fl k) 0" using zl k unfolding zone_lists_def by blast
  then have "?i < length (z_free_area z)" "z_free_area z ! ?i = 0"
    using zl index_orders [OF k] Nil by (simp_all add: zone_lists_def)
  with Nil show ?thesis by (simp add: pop_block_def Let_def free_head_def)
next
  case (Cons b bs)
  let ?i = "order_to_index k"
  let ?lk = "lk(b := 0)" and ?z = "z\<lparr>z_free_area := (z_free_area z)[?i := lk b]\<rparr>"
  have "seg lk (z_free_area z ! ?i) (fl k) 0" using zl k unfolding zone_lists_def by blast
  then have h: "?i < length (z_free_area z)" "z_free_area z ! ?i = b" "b \<noteq> 0" "seg lk (lk b) bs 0"
    using zl index_orders [OF k] Cons by (simp_all add: zone_lists_def)
  then have "pop_block lk z k = Some (b, ?lk, ?z)"
    by (simp add: pop_block_def Let_def free_head_def block_list_next_def block_list_set_next_def set_free_head_def)
  moreover have "zone_lists ?lk ?z (fl(k := bs))"
    using zl Cons d h dis by (intro zone_lists_upd [OF zl k]) (auto simp: zone_lists_def)
  moreover have "same_zone z ?z" by (simp add: same_zone_def)
  ultimately show ?thesis unfolding Cons by (auto intro!: exI)
qed

text \<open>The walk over the part \<open>xs\<close> of a list whose earlier nodes are \<open>ys\<close>.\<close>

lemma remove_walk_seg:
  assumes "seg lk h (ys @ xs) 0" "distinct (ys @ xs)" "index < length (z_free_area z)" "z_free_area z ! index = h"
    "prev = (if ys = [] then 0 else last ys)" "seg lk h ys cur" "seg lk cur xs 0"
  shows "if b \<in> set xs
    then \<exists>lk' v. remove_walk lk z index b prev cur = Some (True, lk', z\<lparr>z_free_area := (z_free_area z)[index := v]\<rparr>) \<and>
      seg lk' v (ys @ remove1 b xs) 0 \<and> (\<forall>a. a \<notin> set (ys @ xs) \<longrightarrow> lk' a = lk a)
    else remove_walk lk z index b prev cur = Some (False, lk, z)"
  using assms
proof (induction xs arbitrary: ys prev cur)
  case Nil
  then show ?case by (simp add: remove_walk.simps)
next
  case (Cons x xs)
  have x: "cur = x" "x \<noteq> 0" "seg lk (lk x) xs 0" using Cons.prems(7) by auto
  show ?case
  proof (cases "x = b")
    case False
    have "if b \<in> set xs
      then \<exists>lk' v. remove_walk lk z index b x (lk x) = Some (True, lk', z\<lparr>z_free_area := (z_free_area z)[index := v]\<rparr>) \<and>
        seg lk' v ((ys @ [x]) @ remove1 b xs) 0 \<and> (\<forall>a. a \<notin> set ((ys @ [x]) @ xs) \<longrightarrow> lk' a = lk a)
      else remove_walk lk z index b x (lk x) = Some (False, lk, z)"
      using Cons.prems x by (intro Cons.IH) auto
    moreover have "remove_walk lk z index b prev cur = remove_walk lk z index b x (lk x)"
      using False x by (subst remove_walk.simps) (simp add: block_list_next_def)
    ultimately show ?thesis using False by (cases "b \<in> set xs") simp_all
  next
    case b: True
    show ?thesis
    proof (cases ys rule: rev_cases)
      case Nil
      then have "remove_walk lk z index b prev cur =
          Some (True, lk(b := 0), z\<lparr>z_free_area := (z_free_area z)[index := lk b]\<rparr>)"
        using Cons.prems x b
        by (subst remove_walk.simps) (simp add: block_list_next_def set_free_head_def block_list_set_next_def)
      with Nil Cons.prems(2) x b show ?thesis by auto
    next
      case (snoc zs p)
      have p: "p \<noteq> 0" "p \<noteq> b" "prev = p" using Cons.prems snoc b by auto
      have "remove_walk lk z index b prev cur = Some (True, lk(p := lk b, b := 0), z)"
        using p x b by (subst remove_walk.simps) (simp add: block_list_next_def block_list_set_next_def)
      moreover have "z = z\<lparr>z_free_area := (z_free_area z)[index := h]\<rparr>" using Cons.prems(4) by auto
      moreover have "seg (lk(p := lk b, b := 0)) h (ys @ xs) 0"
        using seg_unlink [of lk h zs p b xs] Cons.prems(1,2) snoc b by simp
      ultimately show ?thesis using b snoc
        by (auto intro!: exI [of _ "lk(p := lk b, b := 0)"] exI [of _ h])
    qed
  qed
qed

lemma remove_block_lists:
  assumes zl: "zone_lists lk z fl" and k: "k \<in> orders" and d: "distinct (fl k)"
    and dis: "\<And>k' b. k' \<in> orders \<Longrightarrow> k' \<noteq> k \<Longrightarrow> b \<in> set (fl k) \<Longrightarrow> b \<notin> set (fl k')"
  shows "if b \<in> set (fl k)
    then \<exists>lk' z'. remove_block lk z k b = Some (True, lk', z') \<and> zone_lists lk' z' (fl(k := remove1 b (fl k))) \<and>
      same_zone z z' \<and> (\<forall>a. a \<notin> set (fl k) \<longrightarrow> lk' a = lk a)
    else remove_block lk z k b = Some (False, lk, z)"
proof -
  let ?i = "order_to_index k"
  have h: "seg lk (z_free_area z ! ?i) (fl k) 0" using zl k unfolding zone_lists_def by blast
  have i: "?i < length (z_free_area z)" using zl index_orders [OF k] by (simp add: zone_lists_def)
  have r: "remove_block lk z k b = remove_walk lk z ?i b 0 (z_free_area z ! ?i)"
    using i by (simp add: remove_block_def Let_def free_head_def)
  note w = remove_walk_seg [of lk "z_free_area z ! ?i" "[]" "fl k" ?i z 0 "z_free_area z ! ?i" b, folded r]
  show ?thesis
  proof (cases "b \<in> set (fl k)")
    case False
    then show ?thesis using w h d i by simp
  next
    case True
    then obtain lk' v where run: "remove_block lk z k b = Some (True, lk', z\<lparr>z_free_area := (z_free_area z)[?i := v]\<rparr>)"
      and s: "seg lk' v (remove1 b (fl k)) 0" and f: "\<forall>a. a \<notin> set (fl k) \<longrightarrow> lk' a = lk a"
      using w h d i by auto
    have "seg lk' (z_free_area z ! order_to_index k') (fl k') 0" if k': "k' \<in> orders" "k' \<noteq> k" for k'
    proof -
      have "seg lk (z_free_area z ! order_to_index k') (fl k') 0" using zl k' unfolding zone_lists_def by blast
      moreover have "\<forall>a \<in> set (fl k'). lk' a = lk a" using f dis k' by blast
      ultimately show ?thesis using seg_cong by blast
    qed
    with zone_lists_upd [OF zl k s] run f True show ?thesis by (auto simp: same_zone_def)
  qed
qed

section \<open>Allocating and freeing keep the zone\<close>

definition zone_inv :: "link \<Rightarrow> zone \<Rightarrow> lists \<Rightarrow> bool" where
  "zone_inv lk z fl \<longleftrightarrow> zone_lists lk z fl \<and> lists_ok (zone_start z) (zone_end z) fl"

text \<open>A zone at rest: unlocked, with its free-page counter exact.\<close>

definition zone_at :: "link \<Rightarrow> zone \<Rightarrow> lists \<Rightarrow> bool" where
  "zone_at lk z fl \<longleftrightarrow> zone_inv lk z fl \<and> \<not> z_lock z \<and> z_free_pages z = pages_of fl"

abbreviation zone_block :: "zone \<Rightarrow> nat \<Rightarrow> nat \<Rightarrow> bool" where
  "zone_block z \<equiv> block_ok (zone_start z) (zone_end z)"

text \<open>Memory outside \<open>S\<close> keeps its words.\<close>

definition links_off :: "nat set \<Rightarrow> link \<Rightarrow> link \<Rightarrow> bool" where
  "links_off S lk lk' \<longleftrightarrow> (\<forall>a. a \<notin> S \<longrightarrow> lk' a = lk a)"

lemma links_off_refl [simp]: "links_off S lk lk"
  by (simp add: links_off_def)

lemma links_off_trans: "links_off S lk lk' \<Longrightarrow> links_off T lk' lk'' \<Longrightarrow> S \<union> T \<subseteq> U \<Longrightarrow> links_off U lk lk''"
  unfolding links_off_def by (metis UnI1 UnI2 subsetD)

lemma links_off_sub: "\<forall>a. a \<notin> S \<longrightarrow> lk' a = lk a \<Longrightarrow> S \<subseteq> T \<Longrightarrow> links_off T lk lk'"
  unfolding links_off_def by blast

lemma lists_ok_unique:
  assumes "lists_ok lo hi fl" "k \<in> orders" "k' \<in> orders" "k' \<noteq> k" "b \<in> set (fl k)"
  shows "b \<notin> set (fl k')"
proof
  assume "b \<in> set (fl k')"
  with assms have "(k, b) \<in> blocks fl" "(k', b) \<in> blocks fl" by (auto simp: blocks_def)
  with assms(1,4) have "span k b \<inter> span k' b = {}"
    using pairwiseD [of _ "blocks fl" "(k, b)" "(k', b)"] by (fastforce simp: lists_ok_def)
  with span_nonempty(2) [of b k] span_nonempty(2) [of b k'] show False by blast
qed

lemma block_in_free_set: "k \<in> orders \<Longrightarrow> b \<in> set (fl k) \<Longrightarrow> span k b \<subseteq> free_set fl"
  unfolding free_set_def blocks_def by blast

lemma list_in_free_set: "k \<in> orders \<Longrightarrow> set (fl k) \<subseteq> free_set fl"
  using block_in_free_set span_nonempty(2) by blast

lemma same_zone_bounds: "same_zone z z' \<Longrightarrow> zone_start z' = zone_start z \<and> zone_end z' = zone_end z"
  by (simp add: same_zone_fields)

lemma push_inv:
  assumes inv: "zone_inv lk z fl" and k: "k \<in> orders" and b: "zone_block z k b" and fresh: "span k b \<inter> free_set fl = {}"
  shows "\<exists>lk' z'. push_block lk z k b = Some (lk', z') \<and> zone_inv lk' z' (fl(k := b # fl k)) \<and> same_zone z z' \<and>
    links_off (span k b) lk lk'"
proof -
  have "b \<notin> set (fl k')" if "k' \<in> orders" for k'
    using fresh list_in_free_set [OF that] span_nonempty(2) [of b k] by blast
  then obtain lk' z' where "push_block lk z k b = Some (lk', z')" "zone_lists lk' z' (fl(k := b # fl k))"
      "same_zone z z'" "\<forall>a. a \<noteq> b \<longrightarrow> lk' a = lk a"
    using push_block_lists [of lk z fl k b] inv k b by (auto simp: zone_inv_def block_ok_def)
  moreover have "lists_ok (zone_start z) (zone_end z) (fl(k := b # fl k))"
    using inv k b fresh by (intro lists_ok_insert) (auto simp: zone_inv_def)
  ultimately show ?thesis
    using same_zone_bounds [of z z'] links_off_sub [of "{b}" lk' lk "span k b"] by (auto simp: zone_inv_def)
qed

lemma pop_inv:
  assumes inv: "zone_inv lk z fl" and k: "k \<in> orders"
  shows "case fl k of [] \<Rightarrow> pop_block lk z k = Some (0, lk, z)
    | b # bs \<Rightarrow> \<exists>lk' z'. pop_block lk z k = Some (b, lk', z') \<and> zone_inv lk' z' (fl(k := remove1 b (fl k))) \<and>
        same_zone z z' \<and> links_off (span k b) lk lk'"
proof (cases "fl k")
  case Nil
  have "distinct (fl k)" using inv k by (auto simp: zone_inv_def lists_ok_def)
  with pop_block_lists [of lk z fl k] inv k Nil show ?thesis by (simp add: zone_inv_def)
next
  case (Cons b bs)
  have d: "distinct (fl k)" using inv k by (auto simp: zone_inv_def lists_ok_def)
  obtain lk' z' where r: "pop_block lk z k = Some (b, lk', z')" "zone_lists lk' z' (fl(k := bs))"
      "same_zone z z'" "\<forall>a. a \<noteq> b \<longrightarrow> lk' a = lk a"
    using pop_block_lists [of lk z fl k] inv k d lists_ok_unique [of _ _ fl k] Cons
    by (auto simp: zone_inv_def)
  moreover have "lists_ok (zone_start z) (zone_end z) (fl(k := remove1 b (fl k)))"
    using inv k Cons by (intro lists_ok_remove(1)) (auto simp: zone_inv_def)
  ultimately show ?thesis
    using Cons same_zone_bounds [of z z'] links_off_sub [of "{b}" lk' lk "span k b"] by (auto simp: zone_inv_def)
qed

lemma remove_inv:
  assumes inv: "zone_inv lk z fl" and k: "k \<in> orders"
  shows "if b \<in> set (fl k)
    then \<exists>lk' z'. remove_block lk z k b = Some (True, lk', z') \<and> zone_inv lk' z' (fl(k := remove1 b (fl k))) \<and>
      same_zone z z' \<and> links_off (free_set fl) lk lk'
    else remove_block lk z k b = Some (False, lk, z)"
proof -
  have d: "distinct (fl k)" using inv k by (auto simp: zone_inv_def lists_ok_def)
  have r: "if b \<in> set (fl k)
    then \<exists>lk' z'. remove_block lk z k b = Some (True, lk', z') \<and> zone_lists lk' z' (fl(k := remove1 b (fl k))) \<and>
      same_zone z z' \<and> (\<forall>a. a \<notin> set (fl k) \<longrightarrow> lk' a = lk a)
    else remove_block lk z k b = Some (False, lk, z)"
    using inv k d lists_ok_unique [of _ _ fl k] by (intro remove_block_lists) (auto simp: zone_inv_def)
  show ?thesis
  proof (cases "b \<in> set (fl k)")
    case True
    with r obtain lk' z' where "remove_block lk z k b = Some (True, lk', z')" "zone_lists lk' z' (fl(k := remove1 b (fl k)))"
      "same_zone z z'" "\<forall>a. a \<notin> set (fl k) \<longrightarrow> lk' a = lk a" by auto
    moreover have "lists_ok (zone_start z) (zone_end z) (fl(k := remove1 b (fl k)))"
      using inv k True by (intro lists_ok_remove(1)) (auto simp: zone_inv_def)
    ultimately show ?thesis using True same_zone_bounds [of z z'] links_off_sub [OF _ list_in_free_set [OF k]]
      by (auto simp: zone_inv_def)
  qed (use r in simp)
qed

lemma order_less_orders: "MIN_ORDER \<le> k \<Longrightarrow> k < MAX_ORDER \<Longrightarrow> k \<in> orders"
  by (simp add: order_consts)

lemma pop_first_inv:
  assumes "zone_inv lk z fl" "MIN_ORDER \<le> k"
  shows "if \<forall>j. k \<le> j \<and> j < MAX_ORDER \<longrightarrow> fl j = []
    then \<exists>j. pop_first lk z k = Some (0, j, lk, z)
    else \<exists>j b lk' z'. pop_first lk z k = Some (b, j, lk', z') \<and> k \<le> j \<and> j < MAX_ORDER \<and> b \<in> set (fl j) \<and>
      zone_inv lk' z' (fl(j := remove1 b (fl j))) \<and> same_zone z z' \<and> links_off (span j b) lk lk'"
  using assms(2)
proof (induction "MAX_ORDER - k" arbitrary: k)
  case 0
  then show ?case by (simp add: pop_first.simps)
next
  case (Suc m)
  then have lt: "k < MAX_ORDER" by simp
  note k = order_less_orders [OF Suc.prems lt]
  note p = pop_inv [OF assms(1) k]
  show ?case
  proof (cases "fl k")
    case Nil
    then have e: "pop_first lk z k = pop_first lk z (k + 1)" using p lt by (subst pop_first.simps) simp
    have all: "(\<forall>j. k \<le> j \<and> j < MAX_ORDER \<longrightarrow> fl j = []) \<longleftrightarrow> (\<forall>j. k + 1 \<le> j \<and> j < MAX_ORDER \<longrightarrow> fl j = [])"
      using Nil by (metis Suc_eq_plus1 le_eq_less_or_eq Suc_le_eq)
    have "m = MAX_ORDER - (k + 1)" "MIN_ORDER \<le> k + 1" using Suc.hyps(2) Suc.prems by simp_all
    note IH = Suc.hyps(1) [OF this, folded e]
    show ?thesis
    proof (cases "\<forall>j. k \<le> j \<and> j < MAX_ORDER \<longrightarrow> fl j = []")
      case True
      with IH all show ?thesis by simp
    next
      case False
      with IH all show ?thesis by (simp only: if_False) (meson add_leD1)
    qed
  next
    case (Cons b bs)
    have "b \<noteq> 0" using assms(1) k Cons by (force simp: zone_inv_def lists_ok_def blocks_def block_ok_def)
    moreover from p Cons obtain lk' z' where "pop_block lk z k = Some (b, lk', z')"
        "zone_inv lk' z' (fl(k := remove1 b (fl k)))" "same_zone z z'" "links_off (span k b) lk lk'"
      by auto
    ultimately have "pop_first lk z k = Some (b, k, lk', z')" using lt by (subst pop_first.simps) simp
    moreover have "\<not> (\<forall>j. k \<le> j \<and> j < MAX_ORDER \<longrightarrow> fl j = [])" using Cons lt by force
    ultimately show ?thesis
      using lt Cons \<open>zone_inv lk' z' (fl(k := remove1 b (fl k)))\<close> \<open>same_zone z z'\<close> \<open>links_off (span k b) lk lk'\<close>
      by auto
  qed
qed

lemma block_ok_halves:
  assumes "block_ok lo hi (Suc k) b"
  shows "block_ok lo hi k b" "block_ok lo hi k (b + 2 ^ k)"
  using assms by (auto simp: block_ok_def intro: dvd_trans [of "2 ^ k" "2 * 2 ^ k"])

lemma split_block_inv:
  assumes "zone_inv lk z fl" "MIN_ORDER \<le> k" "k \<le> j" "j < MAX_ORDER" "zone_block z j b" "span j b \<inter> free_set fl = {}"
  shows "\<exists>lk' z' fl'. split_block lk z b k j = Some (lk', z') \<and> zone_inv lk' z' fl' \<and> same_zone z z' \<and>
    links_off (span j b) lk lk' \<and> free_set fl' \<union> span k b = free_set fl \<union> span j b \<and> span k b \<inter> free_set fl' = {} \<and>
    pages_of fl' + order_to_pages k = pages_of fl + order_to_pages j"
  using assms
proof (induction j arbitrary: lk z fl)
  case 0
  then show ?case by (simp add: order_consts)
next
  case (Suc j)
  show ?case
  proof (cases "k = Suc j")
    case True
    with Suc.prems show ?thesis by auto
  next
    case False
    then have kj: "k \<le> j" "j < MAX_ORDER" "j \<in> orders" using Suc.prems by auto
    let ?r = "b + 2 ^ j"
    note half = block_ok_halves [OF Suc.prems(5)]
    have sp: "span (Suc j) b = span j b \<union> span j ?r" "span j b \<inter> span j ?r = {}"
      by (simp_all add: span_split span_halves)
    then have dis: "span j b \<inter> free_set fl = {}" "span j ?r \<inter> free_set fl = {}" using Suc.prems(6) by blast+
    obtain lk1 z1 where push: "push_block lk z j ?r = Some (lk1, z1)" "zone_inv lk1 z1 (fl(j := ?r # fl j))"
        "same_zone z z1" "links_off (span j ?r) lk lk1"
      using push_inv [OF Suc.prems(1) kj(3) half(2) dis(2)] by blast
    have fs: "free_set (fl(j := ?r # fl j)) = span j ?r \<union> free_set fl" by (rule free_set_insert [OF kj(3)])
    have bz: "zone_block z1 j b" using half(1) same_zone_bounds [OF push(3)] by simp
    have "span j b \<inter> free_set (fl(j := ?r # fl j)) = {}" using fs sp(2) dis by auto
    from Suc.IH [OF push(2) Suc.prems(2) kj(1,2) bz this]
    obtain lk2 z2 fl2 where r: "split_block lk1 z1 b k j = Some (lk2, z2)" "zone_inv lk2 z2 fl2" "same_zone z1 z2"
        "links_off (span j b) lk1 lk2" "free_set fl2 \<union> span k b = free_set (fl(j := ?r # fl j)) \<union> span j b"
        "span k b \<inter> free_set fl2 = {}"
        "pages_of fl2 + order_to_pages k = pages_of (fl(j := ?r # fl j)) + order_to_pages j" by blast
    have w: "wrap64 (b + order_to_block_size j) = ?r"
    proof -
      have "?r \<le> zone_end z" using half(2) by (simp add: block_ok_def)
      then have "?r < 2 ^ 64" by (meson le_less_trans mod_less_divisor zero_less_numeral zero_less_power)
      then show ?thesis by (simp add: order_to_block_size_def)
    qed
    have "split_block lk z b k (Suc j) = Some (lk2, z2)" using kj push(1) r(1) w by simp
    moreover have "links_off (span (Suc j) b) lk lk2" using links_off_trans [OF push(4) r(4)] sp(1) by blast
    moreover have "free_set fl2 \<union> span k b = free_set fl \<union> span (Suc j) b" using r(5) fs sp(1) by auto
    moreover have "order_to_pages (Suc j) = 2 * order_to_pages j"
      using kj(3) by (simp add: order_to_pages_def Suc_diff_le)
    ultimately show ?thesis
      using r(2,6,7) same_zone_trans [OF push(3) r(3)] pages_of_insert [OF kj(3), of fl ?r] by auto
  qed
qed

text \<open>The fields no allocation or release of blocks touches.\<close>

definition same_bounds :: "zone \<Rightarrow> zone \<Rightarrow> bool" where
  "same_bounds z z' \<longleftrightarrow> z_start_pfn z' = z_start_pfn z \<and> z_end_pfn z' = z_end_pfn z \<and>
     z_managed_pages z' = z_managed_pages z \<and> z_type z' = z_type z \<and> z_name z' = z_name z"

lemma same_zone_same_bounds: "same_zone z z' \<Longrightarrow> same_bounds z z'"
  by (simp add: same_bounds_def same_zone_fields)

lemma zone_inv_upd [simp]:
  "zone_inv lk (z\<lparr>z_lock := l\<rparr>) fl = zone_inv lk z fl" "zone_inv lk (z\<lparr>z_free_pages := n\<rparr>) fl = zone_inv lk z fl"
  "zone_inv lk (z\<lparr>z_managed_pages := n\<rparr>) fl = zone_inv lk z fl"
  by (simp_all add: zone_inv_def zone_lists_def)

lemma wrap64_small: "n \<le> zone_end z \<Longrightarrow> n < 2 ^ 64"
  by (meson le_less_trans mod_less_divisor zero_less_numeral zero_less_power)

lemma pages_of_small: "zone_inv lk z fl \<Longrightarrow> pages_of fl < 2 ^ 64"
  using pages_of_bound [of "zone_start z" "zone_end z" fl] wrap64_small [of "PAGE_SIZE * pages_of fl" z]
  by (simp add: zone_inv_def PAGE_SIZE_def)

lemma block_ok_lower:
  assumes "block_ok lo hi j b" "k \<le> j"
  shows "block_ok lo hi k b"
proof -
  have "b + 2 ^ k \<le> b + 2 ^ j" "b + 2 ^ j \<le> hi" using assms by (simp_all add: block_ok_def)
  from order_trans [OF this] have "b + 2 ^ k \<le> hi" .
  moreover have "2 ^ k dvd b" using assms by (auto simp: block_ok_def intro: dvd_trans [OF le_imp_power_dvd])
  ultimately show ?thesis using assms(1) by (simp add: block_ok_def)
qed

lemma alloc_zone_found:
  assumes zn: "zone_at lk z fl" and c: "0 < count" "count_to_order count = Some k" and k: "k \<in> orders"
    and some: "\<exists>j. k \<le> j \<and> j < MAX_ORDER \<and> fl j \<noteq> []"
  shows "\<exists>b lk' z' fl'. buddy_alloc_zone lk (Some z) count = Some (b, lk', Some z') \<and> zone_at lk' z' fl' \<and>
    zone_block z k b \<and> free_set fl = free_set fl' \<union> span k b \<and> span k b \<inter> free_set fl' = {} \<and>
    links_off (free_set fl) lk lk' \<and> same_bounds z z'"
proof -
  let ?z = "z\<lparr>z_lock := True\<rparr>"
  have inv: "zone_inv lk ?z fl" and ul: "\<not> z_lock z" and fp: "z_free_pages z = pages_of fl"
    using zn by (auto simp: zone_at_def)
  have mk: "MIN_ORDER \<le> k" using k by simp
  obtain j b lk1 z1 where p: "pop_first lk ?z k = Some (b, j, lk1, z1)" "k \<le> j" "j < MAX_ORDER" "b \<in> set (fl j)"
      "zone_inv lk1 z1 (fl(j := remove1 b (fl j)))" "same_zone ?z z1" "links_off (span j b) lk lk1"
    using pop_first_inv [OF inv mk] some by (auto split: if_splits)
  have j: "j \<in> orders" using mk p(2,3) by simp
  have lo: "lists_ok (zone_start z) (zone_end z) fl" using inv by (simp add: zone_inv_def)
  note rm = lists_ok_remove [OF lo j p(4)]
  have bz: "zone_block z1 j b" using rm(4) same_zone_bounds [OF p(6)] by simp
  obtain lk2 z2 fl2 where sp: "split_block lk1 z1 b k j = Some (lk2, z2)" "zone_inv lk2 z2 fl2" "same_zone z1 z2"
      "links_off (span j b) lk1 lk2" "free_set fl2 \<union> span k b = free_set (fl(j := remove1 b (fl j))) \<union> span j b"
      "span k b \<inter> free_set fl2 = {}"
      "pages_of fl2 + order_to_pages k = pages_of (fl(j := remove1 b (fl j))) + order_to_pages j"
    using split_block_inv [OF p(5) mk p(2,3) bz rm(3)] by blast
  have same: "same_zone ?z z2" by (rule same_zone_trans [OF p(6) sp(3)])
  have pg: "pages_of fl2 + order_to_pages k = pages_of fl" using sp(7) pages_of_remove [where fl = fl, OF j p(4)] by simp
  let ?z' = "z2\<lparr>z_free_pages := wrap64 (z_free_pages z2 + 2 ^ 64 - order_to_pages k), z_lock := False\<rparr>"
  have b0: "b \<noteq> 0" using rm(4) by (simp add: block_ok_def)
  have "order_valid k" using k by (simp add: order_valid_def)
  then have "buddy_alloc_zone lk (Some z) count = Some (b, lk2, Some ?z')"
    using c p(1) sp(1) ul b0 by (simp add: buddy_alloc_zone_def)
  moreover have "zone_at lk2 ?z' fl2"
  proof -
    have "z_free_pages z2 = pages_of fl2 + order_to_pages k"
      using same_zone_fields(5) [OF same] fp pg by simp
    then have "wrap64 (z_free_pages z2 + 2 ^ 64 - order_to_pages k) = pages_of fl2"
      using pages_of_small [OF sp(2)] by simp
    then show ?thesis using sp(2) by (simp add: zone_at_def)
  qed
  moreover have "zone_block z k b"
    using block_ok_lower [OF rm(4) p(2)] by simp
  moreover have "links_off (free_set fl) lk lk2"
    using links_off_trans [OF p(7) sp(4)] block_in_free_set [where fl = fl, OF j p(4)] by blast
  moreover have "same_bounds z ?z'" using same_zone_same_bounds [OF same] by (simp add: same_bounds_def)
  moreover have "free_set fl = free_set fl2 \<union> span k b" using sp(5) rm(2) by auto
  ultimately show ?thesis using sp(6) by blast
qed

lemma alloc_zone_empty:
  assumes zn: "zone_at lk z fl" and c: "0 < count" "count_to_order count = Some k"
    and none: "k \<notin> orders \<or> (\<forall>j. k \<le> j \<and> j < MAX_ORDER \<longrightarrow> fl j = [])"
  shows "buddy_alloc_zone lk (Some z) count = Some (0, lk, Some z)"
proof (cases "k \<in> orders")
  case False
  then show ?thesis using c by (auto simp: buddy_alloc_zone_def order_valid_def)
next
  case True
  then have "\<exists>j. pop_first lk (z\<lparr>z_lock := True\<rparr>) k = Some (0, j, lk, z\<lparr>z_lock := True\<rparr>)"
    using pop_first_inv [of lk "z\<lparr>z_lock := True\<rparr>" fl k] zn none by (auto simp: zone_at_def split: if_splits)
  then show ?thesis using True c zn by (auto simp: buddy_alloc_zone_def order_valid_def zone_at_def)
qed

lemma zone_contains_block_iff:
  "k \<in> orders \<Longrightarrow> zone_contains_block z b k \<longleftrightarrow> zone_start z \<le> b \<and> b + 2 ^ k \<le> zone_end z"
  by (auto simp: zone_contains_block_def order_valid_def order_to_block_size_def)

lemma block_ok_merge:
  assumes "block_ok lo hi k b" "block_ok lo hi k (b XOR 2 ^ k)"
  shows "block_ok lo hi (Suc k) (min b (b XOR 2 ^ k))"
proof -
  let ?c = "b XOR 2 ^ k"
  have d: "2 ^ k dvd b" using assms(1) by (simp add: block_ok_def)
  have "span (Suc k) (min b ?c) \<subseteq> {lo..<hi}"
    unfolding buddy_merge(3) [OF d] using assms by (auto simp: block_ok_def span_def)
  then have "lo \<le> min b ?c \<and> min b ?c + 2 ^ Suc k \<le> hi" by (rule span_subset)
  with buddy_merge(2) [OF d] assms show ?thesis by (auto simp: block_ok_def min_def)
qed

text \<open>
  A block whose buddy is free at the same order, below the order at which merging ends, could still be
  merged; in coalesced lists there is none.
\<close>

definition mergeable :: "lists \<Rightarrow> nat \<Rightarrow> nat \<Rightarrow> bool" where
  "mergeable fl k b \<longleftrightarrow> k + 1 < MAX_ORDER \<and> b XOR 2 ^ k \<in> set (fl k)"

definition coalesced :: "lists \<Rightarrow> bool" where
  "coalesced fl \<longleftrightarrow> (\<forall>(k, b) \<in> blocks fl. \<not> mergeable fl k b)"

lemma merge_block_inv:
  assumes "zone_inv lk z fl" "k \<in> orders" "zone_block z k b" "span k b \<inter> free_set fl = {}"
  shows "\<exists>lk' z' b' k' fl'. merge_block lk z b k = Some (lk', z', b', k') \<and> zone_inv lk' z' fl' \<and> same_zone z z' \<and>
    k' \<in> orders \<and> zone_block z k' b' \<and> span k' b' \<inter> free_set fl' = {} \<and>
    free_set fl' \<union> span k' b' = free_set fl \<union> span k b \<and>
    pages_of fl' + order_to_pages k' = pages_of fl + order_to_pages k \<and> links_off (free_set fl) lk lk' \<and>
    \<not> mergeable fl' k' b' \<and> (\<forall>j. set (fl' j) \<subseteq> set (fl j)) \<and> span k b \<subseteq> span k' b'"
  using assms
proof (induction "MAX_ORDER - k" arbitrary: lk z fl b k)
  case 0
  then have "merge_block lk z b k = Some (lk, z, b, k)" by (subst merge_block.simps) simp
  moreover have "\<not> mergeable fl k b" using 0 by (simp add: mergeable_def)
  ultimately show ?case using 0 by fastforce
next
  case (Suc m)
  let ?c = "b XOR 2 ^ k"
  have d: "2 ^ k dvd b" using Suc.prems(3) by (simp add: block_ok_def)
  show ?case
  proof (cases "k + 1 < MAX_ORDER \<and> zone_contains_block z ?c k \<and> ?c \<in> set (fl k)")
    case False
    then have "merge_block lk z b k = Some (lk, z, b, k)"
      using remove_inv [OF Suc.prems(1,2), of ?c]
      by (subst merge_block.simps) (auto simp: order_to_block_size_def Let_def split: if_splits)
    moreover have "\<not> mergeable fl k b"
    proof
      assume "mergeable fl k b"
      then have m: "k + 1 < MAX_ORDER" "?c \<in> set (fl k)" by (simp_all add: mergeable_def)
      have "zone_block z k ?c" using Suc.prems(1,2) m(2) by (auto simp: zone_inv_def lists_ok_def blocks_def)
      with m False show False using zone_contains_block_iff [OF Suc.prems(2)] by (simp add: block_ok_def)
    qed
    ultimately show ?thesis using Suc.prems by fastforce
  next
    case True
    let ?fl = "fl(k := remove1 ?c (fl k))"
    from True obtain lk1 z1 where rm: "remove_block lk z k ?c = Some (True, lk1, z1)" "zone_inv lk1 z1 ?fl"
        "same_zone z z1" "links_off (free_set fl) lk lk1"
      using remove_inv [OF Suc.prems(1,2), of ?c] by auto
    have lo: "lists_ok (zone_start z) (zone_end z) fl" using Suc.prems(1) by (simp add: zone_inv_def)
    note lr = lists_ok_remove [OF lo Suc.prems(2) conjunct2 [OF conjunct2 [OF True]]]
    note bm = buddy_merge [OF d]
    have ok1: "zone_block z1 (k + 1) (min b ?c)"
      using block_ok_merge [OF Suc.prems(3) lr(4)] same_zone_bounds [OF rm(3)] by simp
    have dis1: "span (k + 1) (min b ?c) \<inter> free_set ?fl = {}"
      using bm(3) lr(2,3) Suc.prems(4) by auto
    have k1: "k + 1 \<in> orders" "m = MAX_ORDER - (k + 1)" using True Suc.hyps(2) Suc.prems(2) by auto
    from Suc.hyps(1) [OF k1(2) rm(2) k1(1) ok1 dis1]
    obtain lk2 z2 b2 k2 fl2 where r: "merge_block lk1 z1 (min b ?c) (k + 1) = Some (lk2, z2, b2, k2)"
        "zone_inv lk2 z2 fl2" "same_zone z1 z2" "k2 \<in> orders" "zone_block z1 k2 b2" "span k2 b2 \<inter> free_set fl2 = {}"
        "free_set fl2 \<union> span k2 b2 = free_set ?fl \<union> span (k + 1) (min b ?c)"
        "pages_of fl2 + order_to_pages k2 = pages_of ?fl + order_to_pages (k + 1)" "links_off (free_set ?fl) lk1 lk2"
        "\<not> mergeable fl2 k2 b2" "\<forall>j. set (fl2 j) \<subseteq> set (?fl j)" "span (k + 1) (min b ?c) \<subseteq> span k2 b2"
      by blast
    have "set (fl2 j) \<subseteq> set (fl j)" for j
      using r(11) set_remove1_subset [of ?c "fl k"] by (cases "j = k") fastforce+
    moreover have "span k b \<subseteq> span k2 b2" using r(12) bm(3) by auto
    moreover
    have "merge_block lk z b k = Some (lk2, z2, b2, k2)"
      using True rm(1) r(1) by (subst merge_block.simps) (simp add: order_to_block_size_def)
    moreover have "free_set fl2 \<union> span k2 b2 = free_set fl \<union> span k b" using r(7) bm(3) lr(2) by auto
    moreover have "pages_of fl2 + order_to_pages k2 = pages_of fl + order_to_pages k"
    proof -
      have "order_to_pages (k + 1) = 2 * order_to_pages k"
        using Suc.prems(2) by (simp add: order_to_pages_def Suc_diff_le)
      with r(8) pages_of_remove [where fl = fl and b = ?c, OF Suc.prems(2)] True show ?thesis by simp
    qed
    moreover have "links_off (free_set fl) lk lk2" using links_off_trans [OF rm(4) r(9)] lr(2) by blast
    moreover have "zone_block z k2 b2" using r(5) same_zone_bounds [OF rm(3)] by simp
    ultimately show ?thesis using r(2,4,6,10) same_zone_trans [OF rm(3) r(3)] by blast
  qed
qed

text \<open>What the lists are after a release: the merged block took in exactly the free blocks inside it.\<close>

definition merged :: "nat \<Rightarrow> nat \<Rightarrow> lists \<Rightarrow> lists \<Rightarrow> bool" where
  "merged k b fl fl' \<longleftrightarrow> (\<exists>k' \<in> orders. \<exists>b'. span k b \<subseteq> span k' b' \<and> \<not> mergeable fl' k' b' \<and>
     (\<forall>j \<in> orders. set (fl' j) = {c \<in> set (fl j). \<not> span j c \<subseteq> span k' b'} \<union> (if j = k' then {b'} else {})))"

lemma buddy_differs: "b XOR 2 ^ k \<noteq> (b :: nat)"
proof
  assume "b XOR 2 ^ k = b"
  then have "b XOR (b XOR 2 ^ k) = b XOR b" by simp
  then show False by (simp add: xor.assoc [symmetric])
qed

lemma merged_lists:
  assumes lo: "lists_ok lo hi fl" and sub: "\<forall>j. set (fl1 j) \<subseteq> set (fl j)" and k: "k' \<in> orders"
    and m: "\<not> mergeable fl1 k' b'" "span k b \<subseteq> span k' b'" "span k' b' \<inter> free_set fl1 = {}"
    "free_set fl1 \<union> span k' b' = free_set fl \<union> span k b"
  shows "merged k b fl (fl1(k' := b' # fl1 k'))"
proof -
  have in1: "\<not> span j c \<subseteq> span k' b'" if "j \<in> orders" "c \<in> set (fl1 j)" for j c
    using block_in_free_set [where fl = fl1, OF that] m(3) span_nonempty(2) [of c j] by blast
  have out: "span j c \<subseteq> span k' b'" if j: "j \<in> orders" and c: "c \<in> set (fl j)" "c \<notin> set (fl1 j)" for j c
  proof -
    have "span j c \<inter> span i d = {}" if "i \<in> orders" "d \<in> set (fl1 i)" for i d
    proof -
      have "(i, d) \<in> blocks fl" "(j, c) \<in> blocks fl" "(j, c) \<noteq> (i, d)" using that j c sub by (auto simp: blocks_def)
      then show ?thesis using lo unfolding lists_ok_def pairwise_def by fast
    qed
    then have "span j c \<inter> free_set fl1 = {}" unfolding free_set_def blocks_def by blast
    moreover have "span j c \<subseteq> free_set fl" by (rule block_in_free_set [where fl = fl, OF j c(1)])
    ultimately show ?thesis using m(4) by blast
  qed
  have "set ((fl1(k' := b' # fl1 k')) j) = {c \<in> set (fl j). \<not> span j c \<subseteq> span k' b'} \<union> (if j = k' then {b'} else {})" if "j \<in> orders" for j
    using in1 [OF that] out [OF that] sub by (auto split: if_splits)
  moreover have "\<not> mergeable (fl1(k' := b' # fl1 k')) k' b'" using m(1) buddy_differs by (simp add: mergeable_def)
  ultimately show ?thesis unfolding merged_def using k m(2) by blast
qed

lemma merged_coalesced:
  assumes "merged k b fl fl'" "coalesced fl"
  shows "coalesced fl'"
proof -
  obtain k' b' where m: "\<not> mergeable fl' k' b'"
    "\<forall>j \<in> orders. set (fl' j) = {c \<in> set (fl j). \<not> span j c \<subseteq> span k' b'} \<union> (if j = k' then {b'} else {})"
    using assms(1) by (auto simp: merged_def)
  have "\<not> mergeable fl' j c" if j: "j \<in> orders" "c \<in> set (fl' j)" for j c
  proof
    assume g: "mergeable fl' j c"
    show False
    proof (cases "j = k' \<and> (c = b' \<or> c XOR 2 ^ j = b')")
      case True
      then have "c = b' \<or> c = b' XOR 2 ^ k'" by (auto simp: xor.assoc)
      then show False using g m(1) j(2) True by (auto simp: mergeable_def)
    next
      case False
      then have "c \<in> set (fl j)" "c XOR 2 ^ j \<in> set (fl j)"
        using g j m(2) by (auto simp: mergeable_def split: if_splits)
      then show False using assms(2) g j(1) by (auto simp: coalesced_def mergeable_def blocks_def)
    qed
  qed
  then show ?thesis by (auto simp: coalesced_def blocks_def)
qed

lemma free_zone_block:
  assumes inv: "zone_inv lk z fl" "z_free_pages z = pages_of fl" and k: "k \<in> orders" and b: "zone_block z k b"
    and used: "span k b \<inter> free_set fl = {}"
  shows "\<exists>lk' z' fl'. buddy_free_zone lk (Some z) b k = Some (lk', Some z') \<and> zone_inv lk' z' fl' \<and>
    z_free_pages z' = pages_of fl' \<and> pages_of fl' = pages_of fl + order_to_pages k \<and> z_lock z' = z_lock z \<and>
    free_set fl' = free_set fl \<union> span k b \<and> links_off (free_set fl \<union> span k b) lk lk' \<and> same_bounds z z' \<and> merged k b fl fl'"
proof -
  obtain lk1 z1 b1 k1 fl1 where m: "merge_block lk z b k = Some (lk1, z1, b1, k1)" "zone_inv lk1 z1 fl1"
      "same_zone z z1" "k1 \<in> orders" "zone_block z k1 b1" "span k1 b1 \<inter> free_set fl1 = {}"
      "free_set fl1 \<union> span k1 b1 = free_set fl \<union> span k b"
      "pages_of fl1 + order_to_pages k1 = pages_of fl + order_to_pages k" "links_off (free_set fl) lk lk1"
      "\<not> mergeable fl1 k1 b1" "\<forall>j. set (fl1 j) \<subseteq> set (fl j)" "span k b \<subseteq> span k1 b1"
    using merge_block_inv [OF inv(1) k b used] by blast
  have "zone_block z1 k1 b1" using m(5) same_zone_bounds [OF m(3)] by simp
  from push_inv [OF m(2,4) this m(6)]
  obtain lk2 z2 where p: "push_block lk1 z1 k1 b1 = Some (lk2, z2)" "zone_inv lk2 z2 (fl1(k1 := b1 # fl1 k1))"
      "same_zone z1 z2" "links_off (span k1 b1) lk1 lk2" by blast
  let ?fl = "fl1(k1 := b1 # fl1 k1)" and ?z = "z2\<lparr>z_free_pages := wrap64 (z_free_pages z2 + order_to_pages k)\<rparr>"
  have same: "same_zone z z2" by (rule same_zone_trans [OF m(3) p(3)])
  have pg: "pages_of ?fl = pages_of fl + order_to_pages k" using pages_of_insert [OF m(4)] m(8) by simp
  have "buddy_free_zone lk (Some z) b k = Some (lk2, Some ?z)"
    using m(1) p(1) k b zone_contains_block_iff [OF k, of z b] aligned_and [of b k]
    by (auto simp: buddy_free_zone_def order_valid_def block_ok_def order_to_block_size_def)
  moreover have "z_free_pages ?z = pages_of ?fl"
    using pages_of_small [OF p(2)] pg same_zone_fields(5) [OF same] inv(2) by simp
  moreover have "free_set ?fl = free_set fl \<union> span k b" using free_set_insert [OF m(4)] m(7) by auto
  moreover have "links_off (free_set fl \<union> span k b) lk lk2"
    using links_off_trans [OF m(9) p(4)] m(7) by blast
  moreover have "same_bounds z ?z" using same_zone_same_bounds [OF same] by (simp add: same_bounds_def)
  moreover have "zone_inv lk2 ?z ?fl" "z_lock ?z = z_lock z" using p(2) same_zone_fields(1) [OF same] by simp_all
  moreover have "merged k b fl ?fl"
    using merged_lists [of _ _ fl fl1 k1 b1 k b] inv(1) m(4,6,7,10-12) by (auto simp: zone_inv_def)
  ultimately show ?thesis using pg by blast
qed

lemma free_zone_refused:
  assumes "b = 0 \<or> k \<notin> orders \<or> \<not> 2 ^ k dvd b \<or> \<not> (zone_start z \<le> b \<and> b + 2 ^ k \<le> zone_end z)"
  shows "buddy_free_zone lk (Some z) b k = Some (lk, Some z)"
  using assms zone_contains_block_iff [of k z b] aligned_and [of b k]
  by (auto simp: buddy_free_zone_def order_valid_def order_to_block_size_def)

section \<open>Adding a memory region\<close>

lemma largest_order_spec:
  assumes "MIN_ORDER \<le> n" "n < MAX_ORDER" "PAGE_SIZE dvd start" "PAGE_SIZE dvd fin" "start < fin" "fin + 2 ^ MAX_ORDER \<le> 2 ^ 64"
  shows "largest_order start fin n \<in> orders \<and> largest_order start fin n \<le> n \<and>
    2 ^ largest_order start fin n dvd start \<and> start + 2 ^ largest_order start fin n \<le> fin"
  using assms
proof (induction n)
  case (Suc n)
  show ?case
  proof (cases "Suc n > MIN_ORDER")
    case False
    then have n: "Suc n = MIN_ORDER" using Suc.prems by simp
    have "start + PAGE_SIZE \<le> fin" using Suc.prems(3-5) by (auto simp: PAGE_SIZE_def elim!: dvdE)
    moreover have "largest_order start fin (Suc n) = Suc n" using False by simp
    ultimately show ?thesis using n Suc.prems by (simp add: PAGE_SIZE_def order_consts)
  next
    case True
    have "(2::nat) ^ Suc n \<le> 2 ^ MAX_ORDER" using Suc.prems(2) by (intro power_increasing) simp_all
    then have "start + 2 ^ Suc n < 2 ^ 64" using Suc.prems(5,6) by linarith
    then have w: "wrap64 (start + order_to_block_size (Suc n)) = start + 2 ^ Suc n"
      by (simp only: order_to_block_size_def mod_less)
    show ?thesis
    proof (cases "2 ^ Suc n dvd start \<and> start + 2 ^ Suc n \<le> fin")
      case fit: True
      then have "largest_order start fin (Suc n) = Suc n"
        using True w aligned_and [of start "Suc n"] by (simp add: order_to_block_size_def Let_def del: power_Suc)
      with fit Suc.prems show ?thesis by simp
    next
      case False
      then have "largest_order start fin (Suc n) = largest_order start fin n"
        using True w aligned_and [of start "Suc n"] by (auto simp: order_to_block_size_def Let_def simp del: power_Suc)
      with Suc.IH True Suc.prems show ?thesis by simp
    qed
  qed
qed (simp add: order_consts)

lemma add_blocks_inv:
  assumes "zone_inv lk z fl" "z_free_pages z = pages_of fl" "PAGE_SIZE dvd start" "PAGE_SIZE dvd fin" "0 < start"
    "start \<le> fin" "zone_start z \<le> start" "fin \<le> zone_end z" "zone_end z + 2 ^ MAX_ORDER \<le> 2 ^ 64"
    "{start..<fin} \<inter> free_set fl = {}"
  shows "\<exists>lk' z' fl'. add_blocks lk z start fin = Some (lk', z') \<and> zone_inv lk' z' fl' \<and> z_free_pages z' = pages_of fl' \<and>
    free_set fl' = free_set fl \<union> {start..<fin} \<and> links_off (free_set fl \<union> {start..<fin}) lk lk' \<and>
    z_lock z' = z_lock z \<and> z_start_pfn z' = z_start_pfn z \<and> z_end_pfn z' = z_end_pfn z \<and>
    wrap64 (z_managed_pages z') = wrap64 (z_managed_pages z + (fin - start) div PAGE_SIZE)"
  using assms
proof (induction "fin - start" arbitrary: lk z fl start rule: less_induct)
  case less
  show ?case
  proof (cases "start = fin")
    case True
    with less.prems show ?thesis by (subst add_blocks.simps) auto
  next
    case False
    then have lt: "start < fin" using less.prems(6) by simp
    define k where "k = largest_order start fin (MAX_ORDER - 1)"
    have k: "k \<in> orders" "2 ^ k dvd start" "start + 2 ^ k \<le> fin"
      using largest_order_spec [of "MAX_ORDER - 1" start fin] less.prems lt by (auto simp: k_def order_consts)
    have kb: "zone_block z k start" using k less.prems by (simp add: block_ok_def)
    have sub: "{start..<fin} = span k start \<union> {start + 2 ^ k..<fin}" "span k start \<inter> {start + 2 ^ k..<fin} = {}"
      using k(3) by (auto simp: span_def)
    then have "span k start \<inter> free_set fl = {}" using less.prems(10) by blast
    from free_zone_block [OF less.prems(1,2) k(1) kb this]
    obtain lk1 z1 fl1 where f: "buddy_free_zone lk (Some z) start k = Some (lk1, Some z1)" "zone_inv lk1 z1 fl1"
        "z_free_pages z1 = pages_of fl1" "free_set fl1 = free_set fl \<union> span k start"
        "links_off (free_set fl \<union> span k start) lk lk1" "same_bounds z z1" "z_lock z1 = z_lock z"
      by blast
    let ?z = "z1\<lparr>z_managed_pages := wrap64 (z_managed_pages z1 + order_to_pages k)\<rparr>" and ?s = "start + 2 ^ k"
    have b: "zone_start ?z = zone_start z" "zone_end ?z = zone_end z" using f(6) by (simp_all add: same_bounds_def)
    have "(0::nat) < 2 ^ k" by simp
    then have lt2: "fin - ?s < fin - start" using lt by linarith
    have al: "PAGE_SIZE dvd 2 ^ k" "2 ^ k div PAGE_SIZE = order_to_pages k"
    proof -
      obtain d where "k = 12 + d" using k(1) by (auto simp: order_consts dest: le_Suc_ex)
      then show "PAGE_SIZE dvd 2 ^ k" "2 ^ k div PAGE_SIZE = order_to_pages k"
        by (simp_all add: PAGE_SIZE_def order_to_pages_def order_consts power_add)
    qed
    have "\<exists>lk' z' fl'. add_blocks lk1 ?z ?s fin = Some (lk', z') \<and> zone_inv lk' z' fl' \<and> z_free_pages z' = pages_of fl' \<and>
      free_set fl' = free_set fl1 \<union> {?s..<fin} \<and> links_off (free_set fl1 \<union> {?s..<fin}) lk1 lk' \<and>
      z_lock z' = z_lock ?z \<and> z_start_pfn z' = z_start_pfn ?z \<and> z_end_pfn z' = z_end_pfn ?z \<and>
      wrap64 (z_managed_pages z') = wrap64 (z_managed_pages ?z + (fin - ?s) div PAGE_SIZE)"
    proof (rule less.hyps [OF lt2])
      show "{?s..<fin} \<inter> free_set fl1 = {}" using f(4) sub less.prems(10) by blast
    qed (use f(2,3) less.prems k al b in auto)
    then obtain lk2 z2 fl2 where r: "add_blocks lk1 ?z ?s fin = Some (lk2, z2)" "zone_inv lk2 z2 fl2"
      "z_free_pages z2 = pages_of fl2" "free_set fl2 = free_set fl1 \<union> {?s..<fin}"
      "links_off (free_set fl1 \<union> {?s..<fin}) lk1 lk2" "z_lock z2 = z_lock ?z" "z_start_pfn z2 = z_start_pfn ?z"
      "z_end_pfn z2 = z_end_pfn ?z" "wrap64 (z_managed_pages z2) = wrap64 (z_managed_pages ?z + (fin - ?s) div PAGE_SIZE)"
      by blast
    have "?s < 2 ^ 64" using k(3) less.prems(8) wrap64_small [of ?s z] by simp
    then have "add_blocks lk z start fin = Some (lk2, z2)"
      using lt f(1) r(1) by (subst add_blocks.simps) (simp add: k_def [symmetric, simplified] order_to_block_size_def)
    moreover have "free_set fl2 = free_set fl \<union> {start..<fin}" using r(4) f(4) sub(1) by blast
    moreover have "links_off (free_set fl \<union> {start..<fin}) lk lk2"
      by (rule links_off_trans [OF f(5) r(5)]) (use f(4) sub(1) in auto)
    moreover have "wrap64 (z_managed_pages z2) = wrap64 (z_managed_pages z + (fin - start) div PAGE_SIZE)"
    proof -
      have "(fin - start) div PAGE_SIZE = order_to_pages k + (fin - ?s) div PAGE_SIZE"
      proof -
        have "fin - start = 2 ^ k + (fin - ?s)" using k(3) by simp
        then show ?thesis using al by (simp add: div_plus_div_distrib_dvd_left)
      qed
      then show ?thesis using r(9) f(6) by (simp add: same_bounds_def mod_simps add.assoc)
    qed
    ultimately show ?thesis using r(2,3,6,7,8) f(6,7) by (auto simp: same_bounds_def)
  qed
qed

lemma add_memory_region_inv:
  fixes start fin :: nat and z :: zone
  defines "s \<equiv> max (PADDING_UP start PAGE_SIZE) (zone_start z)" and "e \<equiv> min (PADDING_DOWN fin PAGE_SIZE) (zone_end z)"
  assumes zn: "zone_at lk z fl" and s: "0 < s" "start + PAGE_SIZE \<le> 2 ^ 64"
    and hi: "zone_end z + 2 ^ MAX_ORDER \<le> 2 ^ 64" "z_start_pfn z * PAGE_SIZE < 2 ^ 64" "z_end_pfn z * PAGE_SIZE < 2 ^ 64"
    and new: "{s..<e} \<inter> free_set fl = {}"
  shows "\<exists>lk' z' fl'. add_memory_region lk (Some z) start fin = Some (lk', Some z') \<and> zone_at lk' z' fl' \<and>
    free_set fl' = free_set fl \<union> {s..<e} \<and> links_off (free_set fl \<union> {s..<e}) lk lk' \<and>
    z_start_pfn z' = z_start_pfn z \<and> z_end_pfn z' = z_end_pfn z \<and>
    wrap64 (z_managed_pages z') = wrap64 (z_managed_pages z + (e - s) div PAGE_SIZE)"
proof (cases "s < e")
  case False
  then have "add_memory_region lk (Some z) start fin = Some (lk, Some z)"
    by (auto simp: add_memory_region_def Let_def s_def e_def max_def min_def split: if_splits)
  with False zn show ?thesis by auto
next
  case True
  let ?z = "z\<lparr>z_lock := True\<rparr>"
  have dvd: "PAGE_SIZE dvd PADDING_DOWN n PAGE_SIZE" for n by (simp add: PADDING_DOWN_def)
  have "PAGE_SIZE dvd s" "PAGE_SIZE dvd e"
    using dvd hi(2,3) by (auto simp: s_def e_def PADDING_UP_def max_def min_def)
  note al = this
  have b: "s \<le> e" "zone_start ?z \<le> s" "e \<le> zone_end ?z" "zone_end ?z + 2 ^ MAX_ORDER \<le> 2 ^ 64"
    using True hi(1) by (simp_all add: s_def e_def)
  have i: "zone_inv lk ?z fl" "z_free_pages ?z = pages_of fl" using zn by (simp_all add: zone_at_def)
  from add_blocks_inv [OF i al s(1) b new]
  obtain lk' z' fl' where r: "add_blocks lk ?z s e = Some (lk', z')" "zone_inv lk' z' fl'"
      "z_free_pages z' = pages_of fl'" "free_set fl' = free_set fl \<union> {s..<e}" "links_off (free_set fl \<union> {s..<e}) lk lk'"
      "z_start_pfn z' = z_start_pfn z" "z_end_pfn z' = z_end_pfn z"
      "wrap64 (z_managed_pages z') = wrap64 (z_managed_pages z + (e - s) div PAGE_SIZE)"
    by auto
  have "add_memory_region lk (Some z) start fin = Some (lk', Some (z'\<lparr>z_lock := False\<rparr>))"
  proof -
    have c: "(if PADDING_UP start PAGE_SIZE < zone_start z then zone_start z else PADDING_UP start PAGE_SIZE) = s"
      "(if PADDING_DOWN fin PAGE_SIZE > zone_end z then zone_end z else PADDING_DOWN fin PAGE_SIZE) = e"
      "\<not> PADDING_UP start PAGE_SIZE \<ge> PADDING_DOWN fin PAGE_SIZE"
      using True by (simp_all add: s_def e_def)
    have "\<not> s \<ge> e" using True by simp
    then show ?thesis unfolding add_memory_region_def Let_def option.case c(1,2)
      using c(3) r(1) zn by (simp add: zone_at_def)
  qed
  moreover have "zone_at lk' (z'\<lparr>z_lock := False\<rparr>) fl'" using r(2,3) by (simp add: zone_at_def)
  ultimately show ?thesis using r(4-8) by (intro exI [of _ lk'] exI [of _ "z'\<lparr>z_lock := False\<rparr>"] exI [of _ fl']) simp
qed

section \<open>Runs of the allocator\<close>

text \<open>
  The clients of a zone. \<open>own\<close> are the blocks handed out and not yet returned; a client may write
  any word of a block it owns, and returns a block with the order it was allocated with.
\<close>

inductive zone_step :: "link \<times> zone \<times> (nat \<times> nat) list \<Rightarrow> link \<times> zone \<times> (nat \<times> nat) list \<Rightarrow> bool" where
  alloc: "\<lbrakk>0 < count; count_to_order count = Some k; buddy_alloc_zone lk (Some z) count = Some (b, lk', Some z')\<rbrakk> \<Longrightarrow>
    zone_step (lk, z, own) (lk', z', if b = 0 then own else (k, b) # own)"
| free: "\<lbrakk>(k, b) \<in> set own; buddy_free_zone lk (Some z) b k = Some (lk', Some z')\<rbrakk> \<Longrightarrow>
    zone_step (lk, z, own) (lk', z', remove1 (k, b) own)"
| client: "\<lbrakk>(k, b) \<in> set own; a \<in> span k b\<rbrakk> \<Longrightarrow> zone_step (lk, z, own) (lk(a := v), z, own)"

definition owned :: "(nat \<times> nat) list \<Rightarrow> nat set" where
  "owned own = (\<Union>(k, b) \<in> set own. span k b)"

definition own_ok :: "zone \<Rightarrow> (nat \<times> nat) list \<Rightarrow> bool" where
  "own_ok z own \<longleftrightarrow> distinct own \<and> (\<forall>(k, b) \<in> set own. k \<in> orders \<and> zone_block z k b) \<and>
     pairwise (\<lambda>(k, b) (k', b'). span k b \<inter> span k' b' = {}) (set own)"

text \<open>The memory a zone manages is split, without overlap, into free blocks and owned blocks.\<close>

definition run_inv :: "nat set \<Rightarrow> link \<times> zone \<times> (nat \<times> nat) list \<Rightarrow> bool" where
  "run_inv M = (\<lambda>(lk, z, own). \<exists>fl. zone_at lk z fl \<and> own_ok z own \<and> free_set fl \<inter> owned own = {} \<and>
     free_set fl \<union> owned own = M)"

lemma own_ok_bounds: "same_bounds z z' \<Longrightarrow> own_ok z' own = own_ok z own"
  by (simp add: own_ok_def same_bounds_def)

lemma owned_Cons [simp]: "owned ((k, b) # own) = span k b \<union> owned own"
  by (simp add: owned_def)

lemma owned_mem: "(k, b) \<in> set own \<Longrightarrow> span k b \<subseteq> owned own"
  by (auto simp: owned_def)

lemma own_ok_Cons:
  assumes "own_ok z own" "k \<in> orders" "zone_block z k b" "span k b \<inter> owned own = {}"
  shows "own_ok z ((k, b) # own)"
proof -
  have "(k, b) \<notin> set own" using assms(4) owned_mem [of k b own] span_nonempty(2) [of b k] by blast
  with assms show ?thesis by (auto simp: own_ok_def pairwise_insert owned_def)
qed

lemma own_ok_remove1:
  assumes "own_ok z own" "(k, b) \<in> set own"
  shows "own_ok z (remove1 (k, b) own)" "owned own = span k b \<union> owned (remove1 (k, b) own)"
    "span k b \<inter> owned (remove1 (k, b) own) = {}"
proof -
  have s: "set (remove1 (k, b) own) = set own - {(k, b)}" using assms by (simp add: own_ok_def)
  show "own_ok z (remove1 (k, b) own)"
    using assms unfolding own_ok_def s by (auto intro: pairwise_subset)
  show "owned own = span k b \<union> owned (remove1 (k, b) own)" using assms(2) unfolding owned_def s by blast
  show "span k b \<inter> owned (remove1 (k, b) own) = {}"
    using assms unfolding own_ok_def owned_def s pairwise_def by fast
qed

lemma zone_at_links:
  assumes "zone_at lk z fl" "links_off S lk lk'" "S \<inter> free_set fl = {}"
  shows "zone_at lk' z fl"
proof -
  have "seg lk' h (fl k) 0" if "k \<in> orders" "seg lk h (fl k) 0" for k h
    using that list_in_free_set [OF that(1), of fl] assms(2,3) seg_cong [of "fl k" lk' lk h 0]
    by (auto simp: links_off_def)
  with assms(1) show ?thesis by (simp add: zone_at_def zone_inv_def zone_lists_def)
qed

lemma zone_alloc_total:
  assumes "zone_at lk z fl" "0 < count" "count_to_order count = Some k"
  shows "\<exists>b lk' z' fl'. buddy_alloc_zone lk (Some z) count = Some (b, lk', Some z') \<and> zone_at lk' z' fl' \<and> same_bounds z z' \<and>
    links_off (free_set fl) lk lk' \<and>
    (if k \<in> orders \<and> (\<exists>j. k \<le> j \<and> j < MAX_ORDER \<and> fl j \<noteq> [])
     then b \<noteq> 0 \<and> zone_block z k b \<and> free_set fl = free_set fl' \<union> span k b \<and> span k b \<inter> free_set fl' = {}
     else b = 0 \<and> fl' = fl)"
proof (cases "k \<in> orders \<and> (\<exists>j. k \<le> j \<and> j < MAX_ORDER \<and> fl j \<noteq> [])")
  case True
  then have k: "k \<in> orders" and s: "\<exists>j. k \<le> j \<and> j < MAX_ORDER \<and> fl j \<noteq> []" by blast+
  from alloc_zone_found [OF assms k s] obtain b lk' z' fl' where
    r: "buddy_alloc_zone lk (Some z) count = Some (b, lk', Some z')" "zone_at lk' z' fl'" "zone_block z k b"
      "free_set fl = free_set fl' \<union> span k b" "span k b \<inter> free_set fl' = {}" "links_off (free_set fl) lk lk'" "same_bounds z z'"
    by blast
  have "b \<noteq> 0" using r(3) by (simp add: block_ok_def)
  then show ?thesis using True r by (intro exI conjI) auto
next
  case False
  then have n: "k \<notin> orders \<or> (\<forall>j. k \<le> j \<and> j < MAX_ORDER \<longrightarrow> fl j = [])" by blast
  have "same_bounds z z" by (simp add: same_bounds_def)
  with alloc_zone_empty [OF assms n] assms(1) False show ?thesis
    by (intro exI [of _ 0] exI [of _ lk] exI [of _ z] exI [of _ fl]) simp
qed

lemma run_inv_step:
  assumes "zone_step st st'" "run_inv M st"
  shows "run_inv M st'"
  using assms
proof (induction rule: zone_step.induct)
  case (alloc count k lk z b lk' z' own)
  then obtain fl where fl: "zone_at lk z fl" "own_ok z own" "free_set fl \<inter> owned own = {}" "free_set fl \<union> owned own = M"
    by (auto simp: run_inv_def)
  from zone_alloc_total [OF fl(1) alloc.hyps(1,2)] alloc.hyps(3) obtain fl' where
    r: "zone_at lk' z' fl'" "same_bounds z z'"
      "if k \<in> orders \<and> (\<exists>j. k \<le> j \<and> j < MAX_ORDER \<and> fl j \<noteq> [])
       then b \<noteq> 0 \<and> zone_block z k b \<and> free_set fl = free_set fl' \<union> span k b \<and> span k b \<inter> free_set fl' = {}
       else b = 0 \<and> fl' = fl" by auto
  show ?case
  proof (cases "b = 0")
    case True
    with r fl show ?thesis by (auto simp: run_inv_def own_ok_bounds split: if_splits)
  next
    case False
    with r(3) have b: "k \<in> orders" "zone_block z k b" "free_set fl = free_set fl' \<union> span k b" "span k b \<inter> free_set fl' = {}"
      by (auto split: if_splits)
    with fl(3) have "span k b \<inter> owned own = {}" by blast
    then have "own_ok z' ((k, b) # own)" using own_ok_Cons [OF fl(2) b(1,2)] own_ok_bounds [OF r(2)] by simp
    moreover have "free_set fl' \<inter> owned ((k, b) # own) = {}" "free_set fl' \<union> owned ((k, b) # own) = M"
      using b(3,4) fl(3,4) by auto
    ultimately show ?thesis using r(1) False unfolding run_inv_def by auto
  qed
next
  case (free k b own lk z lk' z')
  then obtain fl where fl: "zone_at lk z fl" "own_ok z own" "free_set fl \<inter> owned own = {}" "free_set fl \<union> owned own = M"
    by (auto simp: run_inv_def)
  note o = own_ok_remove1 [OF fl(2) free.hyps(1)]
  have k: "k \<in> orders" "zone_block z k b" using fl(2) free.hyps(1) by (auto simp: own_ok_def)
  have "span k b \<inter> free_set fl = {}" using fl(3) owned_mem [OF free.hyps(1)] by blast
  have i: "zone_inv lk z fl" "z_free_pages z = pages_of fl" using fl(1) by (simp_all add: zone_at_def)
  from free_zone_block [OF i k \<open>span k b \<inter> free_set fl = {}\<close>] free.hyps(2) obtain fl' where
    r: "zone_inv lk' z' fl'" "z_free_pages z' = pages_of fl'" "z_lock z' = z_lock z"
      "free_set fl' = free_set fl \<union> span k b" "same_bounds z z'"
    by auto
  then have "zone_at lk' z' fl'" using fl(1) by (simp add: zone_at_def)
  moreover have "own_ok z' (remove1 (k, b) own)" using o(1) own_ok_bounds [OF r(5)] by simp
  moreover have "free_set fl' \<inter> owned (remove1 (k, b) own) = {}" "free_set fl' \<union> owned (remove1 (k, b) own) = M"
    using r(4) o(2,3) fl(3,4) by auto
  ultimately show ?case unfolding run_inv_def by auto
next
  case (client k b own a lk z v)
  then obtain fl where fl: "zone_at lk z fl" "own_ok z own" "free_set fl \<inter> owned own = {}" "free_set fl \<union> owned own = M"
    by (auto simp: run_inv_def)
  have "a \<notin> free_set fl" using fl(3) owned_mem [OF client.hyps(1)] client.hyps(2) by blast
  then have "zone_at (lk(a := v)) z fl"
    using zone_at_links [OF fl(1), of "{a}" "lk(a := v)"] by (simp add: links_off_def)
  with fl(2-4) show ?case by (auto simp: run_inv_def)
qed

text \<open>No operation of a client is stuck in a state of a run.\<close>

lemma run_progress:
  assumes "run_inv M (lk, z, own)"
  shows "0 < count \<Longrightarrow> count \<le> 2 ^ 63 \<Longrightarrow> \<exists>st'. buddy_alloc_zone lk (Some z) count \<noteq> None \<and> zone_step (lk, z, own) st'"
    "(k, b) \<in> set own \<Longrightarrow> \<exists>lk' z'. buddy_free_zone lk (Some z) b k = Some (lk', Some z')"
proof -
  obtain fl where fl: "zone_at lk z fl" "own_ok z own" "free_set fl \<inter> owned own = {}"
    using assms by (auto simp: run_inv_def)
  { assume c: "0 < count" "count \<le> 2 ^ 63"
    from count_to_order_spec [OF this] obtain k where k: "count_to_order count = Some k" by blast
    from zone_alloc_total [OF fl(1) c(1) k] obtain b lk' z' where
      r: "buddy_alloc_zone lk (Some z) count = Some (b, lk', Some z')" by blast
    with zone_step.alloc [OF c(1) k r] show "\<exists>st'. buddy_alloc_zone lk (Some z) count \<noteq> None \<and> zone_step (lk, z, own) st'"
      by blast }
  { assume m: "(k, b) \<in> set own"
    have "k \<in> orders" "zone_block z k b" using fl(2) m by (auto simp: own_ok_def)
    moreover have "span k b \<inter> free_set fl = {}" using fl(3) owned_mem [OF m] by blast
    ultimately show "\<exists>lk' z'. buddy_free_zone lk (Some z) b k = Some (lk', Some z')"
      using free_zone_block [of lk z fl k b] fl(1) by (auto simp: zone_at_def) }
qed

lemma run_inv_reachable: "zone_step\<^sup>*\<^sup>* st st' \<Longrightarrow> run_inv M st \<Longrightarrow> run_inv M st'"
  by (induction rule: rtranclp_induct) (auto intro: run_inv_step)

lemma zone_at_init: "zone_at lk (init_zone type s e) (\<lambda>_. [])"
  by (auto simp: zone_at_def zone_inv_def zone_lists_def lists_ok_def blocks_def init_zone_def pages_of_def
        pairwise_def index_orders)

lemma free_set_empty [simp]: "free_set (\<lambda>_. []) = {}"
  by (simp add: free_set_def blocks_def)

section \<open>Properties\<close>

text \<open>A zone of 16 pages whose only free block is the one of order 13 at \<open>0x4000\<close>.\<close>

definition sample_zone :: zone where
  "sample_zone = (init_zone ZONE_DMA 0 16)\<lparr>z_free_area := (replicate ORDER_COUNT 0)[1 := 0x4000], z_free_pages := 2\<rparr>"

definition sample_lists :: lists where
  "sample_lists = (\<lambda>_. [])(13 := [0x4000])"

lemma sample_zone_at: "zone_at (\<lambda>_. 0) sample_zone sample_lists"
proof -
  have b: "blocks sample_lists = {(13, 0x4000)}"
    by (auto simp: blocks_def sample_lists_def order_consts split: if_splits)
  have z: "zone_start sample_zone = 0" "zone_end sample_zone = 0x10000" "z_free_area sample_zone = (replicate 20 0)[1 := 0x4000]"
    by (simp_all add: sample_zone_def init_zone_def PAGE_SIZE_def order_consts)
  have "zone_lists (\<lambda>_. 0) sample_zone sample_lists"
    unfolding zone_lists_def z(3)
    by (auto simp: sample_lists_def order_consts order_to_index_def nth_list_update)
  moreover have "lists_ok (zone_start sample_zone) (zone_end sample_zone) sample_lists"
    unfolding lists_ok_def b z(1,2) by (auto simp: sample_lists_def block_ok_def pairwise_def)
  moreover have "pages_of sample_lists = 2"
  proof -
    have "pages_of sample_lists = (\<Sum>k \<in> orders. if k = 13 then 2 else 0)"
      unfolding pages_of_def by (rule sum.cong) (auto simp: sample_lists_def order_to_pages_def order_consts)
    then show ?thesis by (simp add: order_consts)
  qed
  ultimately show ?thesis by (simp add: zone_at_def zone_inv_def sample_zone_def init_zone_def)
qed

lemma sample_free_set: "free_set sample_lists = {0x4000..<0x6000}"
proof -
  have "blocks sample_lists = {(13, 0x4000)}"
    by (auto simp: blocks_def sample_lists_def order_consts split: if_splits)
  then show ?thesis by (simp add: free_set_def span_def)
qed

text \<open>
  C2. In every run of clients that allocate, write into and return blocks of a zone,
  the memory of the zone stays split, without overlap, into the free blocks and the blocks the clients
  own: no block is handed out twice, none is lost, every block is aligned to its size and inside the
  zone, the free-page counter is exact and the zone is unlocked between operations. Clients writing
  to their blocks never damage the free lists, which are stored inside the free blocks.
\<close>

theorem buddy_runs_partition:
  assumes "zone_step\<^sup>*\<^sup>* st st'" and "run_inv M st"
  shows "run_inv M st'"
  using assms by (rule run_inv_reachable)

lemma sample_run_inv: "run_inv {0x4000..<0x6000} ((\<lambda>_. 0), sample_zone, [])"
  using sample_zone_at sample_free_set by (auto simp: run_inv_def own_ok_def owned_def)

lemma count_to_order_1: "count_to_order 1 = Some 12"
  by (simp add: count_to_order_def count_to_block_pages_def next_power_of_2_def log2_floor_u64.simps order_consts)

theorem buddy_runs_partition_witness:
  "\<exists>lk z own. zone_step\<^sup>*\<^sup>* ((\<lambda>_. 0), sample_zone, []) (lk, z, own) \<and> length own = 1 \<and>
     run_inv {0x4000..<0x6000} (lk, z, own)"
proof -
  obtain b lk z fl where r: "buddy_alloc_zone (\<lambda>_. 0) (Some sample_zone) 1 = Some (b, lk, Some z)"
    "if 12 \<in> orders \<and> (\<exists>j. 12 \<le> j \<and> j < MAX_ORDER \<and> sample_lists j \<noteq> []) then b \<noteq> 0 \<and> zone_block sample_zone 12 b \<and>
       free_set sample_lists = free_set fl \<union> span 12 b \<and> span 12 b \<inter> free_set fl = {} else b = 0 \<and> fl = sample_lists"
    using zone_alloc_total [OF sample_zone_at _ count_to_order_1] by auto
  have "\<exists>j. 12 \<le> j \<and> j < MAX_ORDER \<and> sample_lists j \<noteq> []"
    by (intro exI [of _ 13]) (simp add: sample_lists_def order_consts)
  then have b: "b \<noteq> 0" using r(2) by (simp add: order_consts)
  have "zone_step\<^sup>*\<^sup>* ((\<lambda>_. 0), sample_zone, []) (lk, z, [(12, b)])"
    using zone_step.alloc [OF _ count_to_order_1 r(1), of "[]"] b by auto
  from this buddy_runs_partition [OF this sample_run_inv] show ?thesis
    by (intro exI [of _ lk] exI [of _ z] exI [of _ "[(12, b)]"]) simp
qed

text \<open>
  C11. An allocation of \<open>count\<close> pages returns. It fails exactly when the rounded-up order
  is out of range or no free list from that order up to \<open>MAX_ORDER - 1\<close> has a block; otherwise it
  returns an aligned block of that order that was free, and exactly that block leaves the free memory.
  It writes only to memory that was free.
\<close>

theorem buddy_alloc_exact:
  assumes "zone_at lk z fl" and "0 < count" and "count_to_order count = Some k"
  shows "\<exists>b lk' z' fl'. buddy_alloc_zone lk (Some z) count = Some (b, lk', Some z') \<and> zone_at lk' z' fl' \<and> same_bounds z z' \<and>
    links_off (free_set fl) lk lk' \<and>
    (if k \<in> orders \<and> (\<exists>j. k \<le> j \<and> j < MAX_ORDER \<and> fl j \<noteq> [])
     then b \<noteq> 0 \<and> zone_block z k b \<and> free_set fl = free_set fl' \<union> span k b \<and> span k b \<inter> free_set fl' = {}
     else b = 0 \<and> fl' = fl)"
  using assms by (rule zone_alloc_total)

theorem buddy_alloc_exact_witness:
  "\<exists>b lk' z' fl'. buddy_alloc_zone (\<lambda>_. 0) (Some sample_zone) 1 = Some (b, lk', Some z') \<and> zone_at lk' z' fl' \<and>
     2 ^ 12 dvd b \<and> span 12 b \<subseteq> {0x4000..<0x6000} \<and> span 12 b \<inter> free_set fl' = {}"
proof -
  have "12 \<in> orders \<and> (\<exists>j. 12 \<le> j \<and> j < MAX_ORDER \<and> sample_lists j \<noteq> [])"
    by (auto simp: sample_lists_def order_consts intro!: exI [of _ 13])
  with buddy_alloc_exact [OF sample_zone_at _ count_to_order_1] obtain b lk' z' fl' where
    "buddy_alloc_zone (\<lambda>_. 0) (Some sample_zone) 1 = Some (b, lk', Some z')" "zone_at lk' z' fl'"
    "zone_block sample_zone 12 b" "{0x4000..<0x6000} = free_set fl' \<union> span 12 b" "span 12 b \<inter> free_set fl' = {}"
    unfolding sample_free_set by auto
  then show ?thesis unfolding block_ok_def by blast
qed

text \<open>
  C10. Returning an aligned block of the zone that is not free returns, adds exactly the block to the free memory
  and its pages to the counter, and merges it as far as the code merges: one free block then holds it,
  and either the buddy of that block is not free at its order or the order is at least \<open>MAX_ORDER - 1\<close>, where
  merging ends. The free blocks inside that block left the lists, and all others stayed. So when no two
  free blocks of one order below \<open>MAX_ORDER - 1\<close> were buddies before, none are after.
\<close>

theorem buddy_free_merges:
  assumes "zone_inv lk z fl" and "z_free_pages z = pages_of fl" and "k \<in> orders" and "zone_block z k b"
    and "span k b \<inter> free_set fl = {}"
  shows "\<exists>lk' z' fl'. buddy_free_zone lk (Some z) b k = Some (lk', Some z') \<and> zone_inv lk' z' fl' \<and>
    z_free_pages z' = pages_of fl' \<and> pages_of fl' = pages_of fl + order_to_pages k \<and> z_lock z' = z_lock z \<and>
    free_set fl' = free_set fl \<union> span k b \<and> links_off (free_set fl \<union> span k b) lk lk' \<and> same_bounds z z' \<and>
    merged k b fl fl' \<and> (coalesced fl \<longrightarrow> coalesced fl')"
  using free_zone_block [OF assms] merged_coalesced by blast

theorem buddy_free_merges_witness:
  "\<exists>lk' z' fl'. buddy_free_zone (\<lambda>_. 0) (Some sample_zone) 0x6000 13 = Some (lk', Some z') \<and> zone_inv lk' z' fl' \<and>
     free_set fl' = {0x4000..<0x8000} \<and> merged 13 0x6000 sample_lists fl' \<and> coalesced fl'"
proof -
  have i: "zone_inv (\<lambda>_. 0) sample_zone sample_lists" "z_free_pages sample_zone = pages_of sample_lists"
    using sample_zone_at by (simp_all add: zone_at_def)
  have o: "13 \<in> orders" by (simp add: order_consts)
  have b: "zone_block sample_zone 13 0x6000"
    by (simp add: block_ok_def sample_zone_def init_zone_def PAGE_SIZE_def)
  have d: "span 13 0x6000 \<inter> free_set sample_lists = {}" by (auto simp: sample_free_set span_def)
  have "coalesced sample_lists"
    by (auto simp: coalesced_def mergeable_def blocks_def sample_lists_def order_consts split: if_splits)
  moreover have "free_set sample_lists \<union> span 13 0x6000 = {0x4000..<0x8000}" by (auto simp: sample_free_set span_def)
  ultimately show ?thesis using buddy_free_merges [OF i o b d] by metis
qed

text \<open>
  Adding a memory region to a zone ends, and adds to the free memory exactly the
  whole pages of the region that lie in the zone, as aligned blocks.
\<close>

lemma add_region_adds:
  assumes "zone_at lk z fl" and "0 < max (PADDING_UP start PAGE_SIZE) (zone_start z)" "start + PAGE_SIZE \<le> 2 ^ 64"
    and "zone_end z + 2 ^ MAX_ORDER \<le> 2 ^ 64" "z_start_pfn z * PAGE_SIZE < 2 ^ 64" "z_end_pfn z * PAGE_SIZE < 2 ^ 64"
    and "{max (PADDING_UP start PAGE_SIZE) (zone_start z)..<min (PADDING_DOWN fin PAGE_SIZE) (zone_end z)} \<inter> free_set fl = {}"
  shows "\<exists>lk' z' fl'. add_memory_region lk (Some z) start fin = Some (lk', Some z') \<and> zone_at lk' z' fl' \<and>
    free_set fl' = free_set fl \<union>
      {max (PADDING_UP start PAGE_SIZE) (zone_start z)..<min (PADDING_DOWN fin PAGE_SIZE) (zone_end z)}"
  using add_memory_region_inv [OF assms] by blast

text \<open>
  The order of a request of up to \<open>2 ^ 63\<close> pages is the least one whose block holds
  them: the number of pages is rounded up to the next power of two.
\<close>

lemma order_rounding:
  assumes "0 < count" and "count \<le> 2 ^ 63"
  shows "\<exists>k. count_to_block_pages count = Some (2 ^ k) \<and> count_to_order count = Some (k + MIN_ORDER) \<and>
    count \<le> 2 ^ k \<and> 2 ^ k < 2 * count"
  using assms by (rule count_to_order_spec)

end
