(* ===== verification/Frame.thy ===== *)
theory Frame
  imports Bitmap BootMemory Buddy
begin

text \<open>
  Physical frames: \<^verbatim>\<open>kernel/memory/frame.cpp\<close> (the early bitmap allocator and the boot sequence),
  the page reference counts of \<^verbatim>\<open>kernel/memory/page.cpp\<close> and the front end of \<^verbatim>\<open>kernel/memory/buddy.cpp\<close>.
  The globals of the three files are one record. A failed boot halts the machine, and \<open>memset\<close> on the
  null pointer faults: both are \<open>None\<close>.
\<close>

section \<open>State\<close>

record frames =
  fr_bitmap :: bitmap
  fr_origin_frames :: nat
  fr_usable_frames :: nat
  fr_usable_regions :: bitmap
  fr_memory_size :: nat
  fr_memory_total_size :: nat
  fr_op_lock :: bool
  fr_page_maps :: "int list option"
  fr_zones :: "zone_type \<Rightarrow> zone option"
  fr_nr_zones :: nat
  fr_using_regions :: bitmap
  fr_link :: link

section \<open>The early allocator\<close>

definition alloc_frames_l :: "frames \<Rightarrow> nat \<Rightarrow> (nat \<times> frames) option" where
  "alloc_frames_l fr count = do {
     l \<leftarrow> spin_lock (fr_op_lock fr);
     let fr = fr\<lparr>fr_op_lock := l\<rparr>;
     frame_index \<leftarrow> bitmap_find_range (fr_bitmap fr) count True;
     if frame_index = NOT_FOUND then Some (0, fr\<lparr>fr_op_lock := spin_unlock (fr_op_lock fr)\<rparr>)
     else do {
       bm \<leftarrow> bitmap_set_range (fr_bitmap fr) frame_index (wrap64 (frame_index + count)) False;
       let fr = fr\<lparr>fr_bitmap := bm, fr_usable_frames := wrap64 (fr_usable_frames fr + 2 ^ 64 - count)\<rparr>;
       Some (wrap64 (frame_index * PAGE_SIZE), fr\<lparr>fr_op_lock := spin_unlock (fr_op_lock fr)\<rparr>)
     }
   }"

text \<open>The result is the physical address; \<open>phys_to_virt\<close> of 0 is null and the \<open>memset\<close> faults.\<close>

definition early_alloc :: "frames \<Rightarrow> nat \<Rightarrow> (nat \<times> frames) option" where
  "early_alloc fr sz = do {
     (p, fr) \<leftarrow> alloc_frames_l fr (wrap64 (sz + PAGE_SIZE - 1) div PAGE_SIZE);
     if p = 0 then None
     else Some (p, fr\<lparr>fr_link := (\<lambda>a. if p \<le> a \<and> a < p + PADDING_UP sz PAGE_SIZE then 0 else fr_link fr a)\<rparr>)
   }"

section \<open>Page reference counts\<close>

definition sizeof_page_t :: nat where "sizeof_page_t = 4"

definition page_init :: "frames \<Rightarrow> frames option" where
  "page_init fr = do {
     let page_maps_size = wrap64 (fr_memory_size fr div PAGE_SIZE * sizeof_page_t);
     (p, fr) \<leftarrow> early_alloc fr page_maps_size;
     Some (fr\<lparr>fr_page_maps := Some (replicate (page_maps_size div sizeof_page_t) 0)\<rparr>)
   }"

text \<open>The page's index in \<open>page_maps\<close>, \<open>None\<close> for the null pointer.\<close>

definition get_page :: "frames \<Rightarrow> nat \<Rightarrow> nat option" where
  "get_page fr addr = (if fr_page_maps fr = None then None
     else if addr \<ge> fr_memory_size fr then None else Some (addr div PAGE_SIZE))"

definition load_ref :: "frames \<Rightarrow> nat \<Rightarrow> int option" where
  "load_ref fr i = (case fr_page_maps fr of None \<Rightarrow> None | Some ps \<Rightarrow> if i < length ps then Some (ps ! i) else None)"

definition store_ref :: "frames \<Rightarrow> nat \<Rightarrow> int \<Rightarrow> frames option" where
  "store_ref fr i n = (case fr_page_maps fr of None \<Rightarrow> None
     | Some ps \<Rightarrow> if i < length ps \<and> - (2 ^ 31) \<le> n \<and> n < 2 ^ 31 then Some (fr\<lparr>fr_page_maps := Some (ps[i := n])\<rparr>) else None)"

definition page_ref :: "frames \<Rightarrow> nat option \<Rightarrow> frames option" where
  "page_ref fr page = (case page of None \<Rightarrow> Some fr
     | Some i \<Rightarrow> do { n \<leftarrow> load_ref fr i; store_ref fr i (n + 1) })"

definition page_unref :: "frames \<Rightarrow> nat option \<Rightarrow> frames option" where
  "page_unref fr page = (case page of None \<Rightarrow> Some fr
     | Some i \<Rightarrow> do { n \<leftarrow> load_ref fr i; store_ref fr i (n - 1) })"

definition page_can_free :: "frames \<Rightarrow> nat option \<Rightarrow> bool option" where
  "page_can_free fr page = (case page of None \<Rightarrow> Some True
     | Some i \<Rightarrow> do { n \<leftarrow> load_ref fr i; Some (n \<le> 0) })"

definition address_ref :: "frames \<Rightarrow> nat \<Rightarrow> frames option" where
  "address_ref fr addr = page_ref fr (get_page fr addr)"

definition address_unref :: "frames \<Rightarrow> nat \<Rightarrow> frames option" where
  "address_unref fr addr = page_unref fr (get_page fr addr)"

definition address_can_free :: "frames \<Rightarrow> nat \<Rightarrow> bool option" where
  "address_can_free fr addr = page_can_free fr (get_page fr addr)"

text \<open>The loops \<open>for (a = addr; a < end; a += PAGE_SIZE)\<close> over a block, \<open>n\<close> pages long.\<close>

fun ref_pages :: "frames \<Rightarrow> nat \<Rightarrow> nat \<Rightarrow> frames option" where
  "ref_pages fr a 0 = Some fr"
| "ref_pages fr a (Suc n) = do { fr \<leftarrow> page_ref fr (get_page fr a); ref_pages fr (a + PAGE_SIZE) n }"

fun unref_pages :: "frames \<Rightarrow> nat \<Rightarrow> nat \<Rightarrow> frames option" where
  "unref_pages fr a 0 = Some fr"
| "unref_pages fr a (Suc n) = do { fr \<leftarrow> address_unref fr a; unref_pages fr (a + PAGE_SIZE) n }"

fun can_free_pages :: "frames \<Rightarrow> nat \<Rightarrow> nat \<Rightarrow> bool option" where
  "can_free_pages fr a 0 = Some True"
| "can_free_pages fr a (Suc n) = do {
     ok \<leftarrow> address_can_free fr a;
     if \<not> ok then Some False else can_free_pages fr (a + PAGE_SIZE) n
   }"

section \<open>The buddy front end\<close>

definition sizeof_zone_t :: nat where "sizeof_zone_t = 224"

definition get_zone :: "frames \<Rightarrow> zone_type \<Rightarrow> zone option" where
  "get_zone fr type = fr_zones fr type"

definition set_zone :: "frames \<Rightarrow> zone_type \<Rightarrow> link \<times> zone option \<Rightarrow> frames" where
  "set_zone fr type r = fr\<lparr>fr_link := fst r, fr_zones := (fr_zones fr)(type := snd r)\<rparr>"

definition init_zone_at :: "frames \<Rightarrow> zone_type \<Rightarrow> nat \<Rightarrow> nat \<Rightarrow> frames option" where
  "init_zone_at fr type start_pfn end_pfn = do {
     (p, fr) \<leftarrow> early_alloc fr sizeof_zone_t;
     Some (fr\<lparr>fr_zones := (fr_zones fr)(type := Some (init_zone type start_pfn end_pfn)),
              fr_nr_zones := fr_nr_zones fr + 1\<rparr>)
   }"

definition buddy_init :: "frames \<Rightarrow> frames option" where
  "buddy_init fr = do {
     let max_pfn = fr_memory_size fr div PAGE_SIZE;
     let dma_end_pfn = min max_pfn (ZONE_DMA_END div PAGE_SIZE);
     let dma32_end_pfn = min max_pfn (ZONE_DMA32_END div PAGE_SIZE);
     fr \<leftarrow> init_zone_at fr ZONE_DMA 0 dma_end_pfn;
     fr \<leftarrow> (if dma_end_pfn < dma32_end_pfn then init_zone_at fr ZONE_DMA32 dma_end_pfn dma32_end_pfn else Some fr);
     fr \<leftarrow> (if dma32_end_pfn < max_pfn then init_zone_at fr ZONE_NORMAL dma32_end_pfn max_pfn else Some fr);
     (p, fr) \<leftarrow> early_alloc fr ((max_pfn + 7) div 8);
     Some (fr\<lparr>fr_using_regions := bitmap_init ((max_pfn + 7) div 8)\<rparr>)
   }"

definition add_region :: "frames \<Rightarrow> nat \<Rightarrow> nat \<Rightarrow> zone_type \<Rightarrow> frames option" where
  "add_region fr start fin type = map_option (set_zone fr type) (add_memory_region (fr_link fr) (fr_zones fr type) start fin)"

text \<open>One zone of the fallback chain of \<open>alloc_frames\<close>.\<close>

definition try_zone :: "frames \<Rightarrow> zone_type \<Rightarrow> nat \<Rightarrow> (nat \<times> frames) option" where
  "try_zone fr type count =
     (if zone_has_memory (fr_zones fr type) then do {
        (addr, r) \<leftarrow> buddy_alloc_zone (fr_link fr) (fr_zones fr type) count;
        Some (addr, set_zone fr type r)
      } else Some (0, fr))"

fun try_zones :: "frames \<Rightarrow> zone_type list \<Rightarrow> nat \<Rightarrow> (nat \<times> frames) option" where
  "try_zones fr [] count = Some (0, fr)"
| "try_zones fr (t # ts) count = do {
     (addr, fr) \<leftarrow> try_zone fr t count;
     if addr \<noteq> 0 then Some (addr, fr) else try_zones fr ts count
   }"

definition claim_frames :: "frames \<Rightarrow> nat \<Rightarrow> nat \<Rightarrow> frames option" where
  "claim_frames fr addr required_pages = do {
     bm \<leftarrow> bitmap_set_range (fr_using_regions fr) (addr div PAGE_SIZE) (addr div PAGE_SIZE + required_pages) True;
     ref_pages (fr\<lparr>fr_using_regions := bm\<rparr>) addr required_pages
   }"

definition alloc_from :: "zone_type list \<Rightarrow> frames \<Rightarrow> nat \<Rightarrow> (nat \<times> frames) option" where
  "alloc_from ts fr count =
     (if count = 0 then Some (0, fr)
      else do {
        required_pages \<leftarrow> count_to_block_pages count;
        (addr, fr) \<leftarrow> try_zones fr ts count;
        if addr \<noteq> 0 then do { fr \<leftarrow> claim_frames fr addr required_pages; Some (addr, fr) }
        else Some (0, fr)
      })"

definition alloc_frames :: "frames \<Rightarrow> nat \<Rightarrow> (nat \<times> frames) option" where
  "alloc_frames = alloc_from [ZONE_NORMAL, ZONE_DMA32, ZONE_DMA]"

definition alloc_frames_dma32 :: "frames \<Rightarrow> nat \<Rightarrow> (nat \<times> frames) option" where
  "alloc_frames_dma32 = alloc_from [ZONE_DMA32, ZONE_DMA]"

text \<open>The check that every page of the block is in use and known to the frame bitmap.\<close>

fun all_in_use :: "frames \<Rightarrow> nat \<Rightarrow> nat \<Rightarrow> bool option" where
  "all_in_use fr i 0 = Some True"
| "all_in_use fr i (Suc n) = do {
     u \<leftarrow> bitmap_get (fr_using_regions fr) i;
     if \<not> u then Some False
     else do {
       f \<leftarrow> bitmap_get (fr_bitmap fr) i;
       if \<not> f then Some False else all_in_use fr (i + 1) n
     }
   }"

definition free_frames :: "frames \<Rightarrow> nat \<Rightarrow> nat \<Rightarrow> frames option" where
  "free_frames fr addr count =
     (if addr = 0 \<or> count = 0 then Some fr
      else do {
        required_pages \<leftarrow> count_to_block_pages count;
        order \<leftarrow> count_to_order count;
        if \<not> order_valid order then Some fr
        else do {
          let idx = addr div PAGE_SIZE;
          ok \<leftarrow> all_in_use fr idx required_pages;
          if \<not> ok then Some fr
          else do {
            let type = phys_to_zone_type addr;
            case fr_zones fr type of None \<Rightarrow> Some fr
            | Some z \<Rightarrow> do {
                fr \<leftarrow> unref_pages fr addr required_pages;
                free \<leftarrow> can_free_pages fr addr required_pages;
                if \<not> free then Some fr
                else do {
                  l \<leftarrow> spin_lock (z_lock z);
                  (lk, zn) \<leftarrow> buddy_free_zone (fr_link fr) (Some (z\<lparr>z_lock := l\<rparr>)) addr order;
                  bm \<leftarrow> bitmap_set_range (fr_using_regions fr) idx (idx + required_pages) False;
                  Some (set_zone (fr\<lparr>fr_using_regions := bm\<rparr>) type
                    (lk, map_option (\<lambda>z. z\<lparr>z_lock := spin_unlock (z_lock z)\<rparr>) zn))
                }
              }
          }
        }
      })"

definition free_frames_dma32 :: "frames \<Rightarrow> nat \<Rightarrow> nat \<Rightarrow> frames option" where
  "free_frames_dma32 = free_frames"

section \<open>Boot\<close>

fun get_zone_boundary :: "zone_type \<Rightarrow> nat" where
  "get_zone_boundary ZONE_DMA = ZONE_DMA_END"
| "get_zone_boundary ZONE_DMA32 = ZONE_DMA32_END"
| "get_zone_boundary ZONE_NORMAL = 2 ^ 64 - 1"

text \<open>The inner loops of \<open>process_memory_region\<close>: advance while the frame's bit has the given value.\<close>

partial_function (option) skip_frames :: "bitmap \<Rightarrow> bool \<Rightarrow> nat \<Rightarrow> nat \<Rightarrow> nat option" where
  "skip_frames bm v region_current zend =
     (if region_current < zend then do {
        b \<leftarrow> bitmap_get bm (region_current div PAGE_SIZE);
        if b = v then skip_frames bm v (wrap64 (region_current + PAGE_SIZE)) zend else Some region_current
      } else Some region_current)"

partial_function (option) process_zone :: "frames \<Rightarrow> zone_type \<Rightarrow> nat \<Rightarrow> nat \<Rightarrow> frames option" where
  "process_zone fr type region_current zend =
     (if region_current < zend then do {
        usable_start \<leftarrow> skip_frames (fr_bitmap fr) False region_current zend;
        if usable_start \<ge> zend then Some fr
        else do {
          usable_end \<leftarrow> skip_frames (fr_bitmap fr) True usable_start zend;
          fr \<leftarrow> (if usable_end > usable_start then add_region fr usable_start usable_end type else Some fr);
          process_zone fr type usable_end zend
        }
      } else Some fr)"

partial_function (option) process_zones :: "frames \<Rightarrow> nat \<Rightarrow> nat \<Rightarrow> frames option" where
  "process_zones fr current fin =
     (if current < fin then do {
        let type = phys_to_zone_type current;
        let zend = min (get_zone_boundary type) fin;
        fr \<leftarrow> process_zone fr type current zend;
        process_zones fr zend fin
      } else Some fr)"

definition process_memory_region :: "frames \<Rightarrow> nat \<Rightarrow> nat \<Rightarrow> frames option" where
  "process_memory_region fr start fin =
     (let start = PADDING_UP start PAGE_SIZE;
          fin = PADDING_DOWN fin PAGE_SIZE
      in if start \<ge> fin then Some fr else process_zones fr start fin)"

text \<open>
  The boot handoff: the firmware map lies at a physical address and is read through the fixed
  window \<open>physical_memory_offset\<close> of \<^verbatim>\<open>kernel/memory/hhdm.cpp\<close>.
\<close>

record MEMORY_MAP =
  mm_MapSize :: u64
  mm_Buffer :: u64
  mm_MapKey :: u64
  mm_DescriptorSize :: u64
  mm_DescriptorVersion :: u32

definition physical_memory_offset :: u64 where
  "physical_memory_offset = 0xffff800000000000"

definition phys_to_virt :: "u64 \<Rightarrow> u64" where
  "phys_to_virt phys_addr = (if phys_addr = 0 then 0 else phys_addr + physical_memory_offset)"

definition virt_to_phys :: "u64 \<Rightarrow> u64" where
  "virt_to_phys virt_addr = (if virt_addr = 0 then 0 else virt_addr - physical_memory_offset)"

definition frame_map_view :: "MEMORY_MAP \<Rightarrow> MapView option" where
  "frame_map_view mm =
     (let physical = mm_Buffer mm; offset = physical_memory_offset
      in if physical = 0 \<or> mm_MapSize mm = 0 \<or> physical > UINT64_MAX - mm_MapSize mm \<or>
            physical > UINT64_MAX - offset \<or> physical + offset > UINT64_MAX - mm_MapSize mm
         then None
         else Some \<lparr>mv_bytes = phys_to_virt physical, mv_buffer_bytes = mm_MapSize mm, mv_map_bytes = mm_MapSize mm,
                    mv_descriptor_bytes = mm_DescriptorSize mm\<rparr>)"

definition checked_memory_map :: "memory \<Rightarrow> MapView \<Rightarrow> MEMORY_MAP \<Rightarrow> Summary option" where
  "checked_memory_map mem view mm = do {
     v \<leftarrow> validated mem view;
     summary \<leftarrow> v;
     (ok, sp) \<leftarrow> covered_span mem view (mm_Buffer mm) (mm_MapSize mm) loader_and_boot_services (Some zero_PhysicalSpan);
     if ok then Some summary else None
   }"

definition get_memory_all_size :: "memory \<Rightarrow> MEMORY_MAP \<Rightarrow> u64 option" where
  "get_memory_all_size mem mm = do {
     view \<leftarrow> frame_map_view mm;
     summary \<leftarrow> checked_memory_map mem view mm;
     Some (s_total_bytes summary)
   }"

text \<open>A descriptor the two loops of \<open>init_frame\<close> work on; the others are skipped.\<close>

definition boot_descriptor :: "memory \<Rightarrow> MapView \<Rightarrow> nat \<Rightarrow> Descriptor option" where
  "boot_descriptor mem view index = do {
     (ok, d) \<leftarrow> descriptor_at mem view (of_nat index) (Some zero_Descriptor);
     if ok then d else None
   }"

abbreviation skipped :: "Descriptor \<Rightarrow> bool" where
  "skipped d \<equiv> d_physical_start d < 0x100000 \<or> d_type d \<noteq> conventional_memory"

definition mark_descriptor :: "frames \<Rightarrow> Descriptor \<Rightarrow> frames option" where
  "mark_descriptor fr d = do {
     let first = unat (d_physical_start d) div PAGE_SIZE;
     let fin = wrap64 (first + unat (d_pages d));
     let fr = fr\<lparr>fr_origin_frames := wrap64 (fr_origin_frames fr + unat (d_pages d))\<rparr>;
     bm \<leftarrow> bitmap_set_range (fr_bitmap fr) first fin True;
     ur \<leftarrow> bitmap_set_range (fr_usable_regions fr) first fin True;
     Some (fr\<lparr>fr_bitmap := bm, fr_usable_regions := ur\<rparr>)
   }"

fun boot_loop :: "(frames \<Rightarrow> Descriptor \<Rightarrow> frames option) \<Rightarrow> memory \<Rightarrow> MapView \<Rightarrow> nat list \<Rightarrow> frames \<Rightarrow> frames option" where
  "boot_loop f mem view [] fr = Some fr"
| "boot_loop f mem view (i # is) fr = do {
     d \<leftarrow> boot_descriptor mem view i;
     if skipped d then boot_loop f mem view is fr
     else do { fr \<leftarrow> f fr d; boot_loop f mem view is fr }
   }"

definition add_descriptor :: "frames \<Rightarrow> Descriptor \<Rightarrow> frames option" where
  "add_descriptor fr d = process_memory_region fr (unat (d_physical_start d))
     (wrap64 (unat (d_physical_start d) + unat (d_pages d) * PAGE_SIZE))"

text \<open>The bitmaps of \<open>init_frame\<close>, up to the hand-over to the buddy allocator.\<close>

definition init_frame_bitmaps :: "memory \<Rightarrow> MEMORY_MAP \<Rightarrow> frames \<Rightarrow> (MapView \<times> Summary \<times> frames) option" where
  "init_frame_bitmaps mem mm fr = do {
     view \<leftarrow> frame_map_view mm;
     summary \<leftarrow> checked_memory_map mem view mm;
     (ok, l) \<leftarrow> plan_frame_bitmaps mem view (Some zero_FrameBitmapLayout);
     layout \<leftarrow> (if ok then l else None);
     if fb_reserved_end layout > UINT64_MAX - physical_memory_offset then None
     else do {
       let fr = fr\<lparr>fr_memory_size := unat (s_conventional_top summary), fr_memory_total_size := unat (s_total_bytes summary),
         fr_bitmap := bitmap_init (unat (fb_bitmap_bytes layout)), fr_usable_regions := bitmap_init (unat (fb_bitmap_bytes layout)),
         fr_origin_frames := 0\<rparr>;
       fr \<leftarrow> boot_loop mark_descriptor mem view [0..<unat (s_descriptor_count summary)] fr;
       let bitmap_frame_start = unat (fb_first layout) div PAGE_SIZE;
       let bitmap_frame_end = unat (fb_reserved_end layout) div PAGE_SIZE;
       let bitmap_frame_count = bitmap_frame_end - bitmap_frame_start;
       bm \<leftarrow> bitmap_set_range (fr_bitmap fr) bitmap_frame_start bitmap_frame_end False;
       ur \<leftarrow> bitmap_set_range (fr_usable_regions fr) bitmap_frame_start bitmap_frame_end False;
       Some (view, summary, fr\<lparr>fr_bitmap := bm, fr_usable_regions := ur,
         fr_usable_frames := wrap64 (fr_origin_frames fr + 2 ^ 64 - bitmap_frame_count)\<rparr>)
     }
   }"

definition hand_over :: "memory \<Rightarrow> MapView \<Rightarrow> Summary \<Rightarrow> frames \<Rightarrow> frames option" where
  "hand_over mem view summary fr = boot_loop add_descriptor mem view [0..<unat (s_descriptor_count summary)] fr"

text \<open>\<open>page_setup\<close>, between the two loops, only sets the globals of the kernel page directory, which no frame code reads.\<close>

definition init_frame :: "memory \<Rightarrow> MEMORY_MAP \<Rightarrow> frames \<Rightarrow> frames option" where
  "init_frame mem mm fr = do {
     (view, summary, fr) \<leftarrow> init_frame_bitmaps mem mm fr;
     fr \<leftarrow> page_init fr;
     fr \<leftarrow> buddy_init fr;
     hand_over mem view summary fr
   }"

section \<open>The early allocator is exact\<close>

lemma alloc_frames_l_spec:
  assumes ok: "bitmap_ok (fr_bitmap fr)" "bm_length (fr_bitmap fr) * PAGE_SIZE < 2 ^ 64" and l: "\<not> fr_op_lock fr" and c: "0 < count"
  shows "(no_run (fr_bitmap fr) count True 0 \<and> alloc_frames_l fr count = Some (0, fr)) \<or>
    (\<exists>r bm. found_run (fr_bitmap fr) count True 0 r \<and> bits_written (fr_bitmap fr) {r..<r + count} False bm \<and>
       alloc_frames_l fr count = Some (r * PAGE_SIZE,
         fr\<lparr>fr_bitmap := bm, fr_usable_frames := wrap64 (fr_usable_frames fr + 2 ^ 64 - count)\<rparr>))"
proof -
  let ?bm = "fr_bitmap fr"
  obtain r where r: "bitmap_find_range ?bm count True = Some r" "r = NOT_FOUND \<or> found_run ?bm count True 0 r"
      "r = NOT_FOUND \<longrightarrow> no_run ?bm count True 0"
    using find_range_from_spec [OF ok(1) c, of True 0] by (auto simp: find_range_eq)
  show ?thesis
  proof (cases "r = NOT_FOUND")
    case True
    then have "alloc_frames_l fr count = Some (0, fr)"
      using r(1) l by (cases fr) (simp add: alloc_frames_l_def)
    with True r(3) show ?thesis by blast
  next
    case False
    with r(2) have f: "found_run ?bm count True 0 r" by blast
    then have le: "r + count \<le> bm_length ?bm" by (simp add: found_run_def)
    obtain bm where bm: "bitmap_set_range ?bm r (r + count) False = Some bm" "bits_written ?bm {r..<r + count} False bm"
      using bitmap_set_range_written [OF ok(1) le] by blast
    have "(r + count) * PAGE_SIZE < 2 ^ 64" using le ok(2) by (meson le_less_trans mult_le_mono1)
    then have "r + count < 2 ^ 64" "r * PAGE_SIZE < 2 ^ 64" by (simp_all add: PAGE_SIZE_def)
    then have "alloc_frames_l fr count = Some (r * PAGE_SIZE,
        fr\<lparr>fr_bitmap := bm, fr_usable_frames := wrap64 (fr_usable_frames fr + 2 ^ 64 - count)\<rparr>)"
      using r(1) False bm(1) l by (cases fr) (simp add: alloc_frames_l_def)
    with f bm(2) show ?thesis by blast
  qed
qed

section \<open>Reference counts over a block\<close>

text \<open>The counts of the \<open>n\<close> pages from \<open>s\<close> on, changed by \<open>d\<close>.\<close>

definition bump :: "int \<Rightarrow> int list \<Rightarrow> nat \<Rightarrow> nat \<Rightarrow> int list" where
  "bump d ps s n = map (\<lambda>i. if s \<le> i \<and> i < s + n then ps ! i + d else ps ! i) [0..<length ps]"

lemma length_bump [simp]: "length (bump d ps s n) = length ps"
  by (simp add: bump_def)

lemma nth_bump: "i < length ps \<Longrightarrow> bump d ps s n ! i = (if s \<le> i \<and> i < s + n then ps ! i + d else ps ! i)"
  by (simp add: bump_def)

lemma bump_0 [simp]: "bump d ps s 0 = ps"
  by (rule nth_equalityI) (auto simp: nth_bump)

lemma bump_Suc: "s < length ps \<Longrightarrow> bump d (ps[s := ps ! s + d]) (Suc s) n = bump d ps s (Suc n)"
  by (rule nth_equalityI) (auto simp: nth_bump nth_list_update)

definition maps_ok :: "frames \<Rightarrow> int list \<Rightarrow> bool" where
  "maps_ok fr ps \<longleftrightarrow> fr_page_maps fr = Some ps \<and> length ps * PAGE_SIZE = fr_memory_size fr"

definition counts_fit :: "int \<Rightarrow> int list \<Rightarrow> nat \<Rightarrow> nat \<Rightarrow> bool" where
  "counts_fit d ps s n \<longleftrightarrow> (\<forall>i. s \<le> i \<and> i < s + n \<longrightarrow> - (2 ^ 31) \<le> ps ! i + d \<and> ps ! i + d < 2 ^ 31)"

lemma get_page_in:
  assumes "maps_ok fr ps" "i < length ps"
  shows "get_page fr (i * PAGE_SIZE) = Some i"
  using assms by (auto simp: maps_ok_def get_page_def PAGE_SIZE_def)

lemma page_adjust:
  assumes "maps_ok fr ps" "i < length ps" "- (2 ^ 31) \<le> ps ! i + d" "ps ! i + d < 2 ^ 31"
  shows "load_ref fr i = Some (ps ! i)" "store_ref fr i (ps ! i + d) = Some (fr\<lparr>fr_page_maps := Some (ps[i := ps ! i + d])\<rparr>)"
  using assms by (simp_all add: maps_ok_def load_ref_def store_ref_def)

lemma maps_ok_upd: "maps_ok fr ps \<Longrightarrow> length qs = length ps \<Longrightarrow> maps_ok (fr\<lparr>fr_page_maps := Some qs\<rparr>) qs"
  by (simp add: maps_ok_def)

lemma ref_pages_spec:
  assumes "maps_ok fr ps" "s + n \<le> length ps" "counts_fit 1 ps s n"
  shows "ref_pages fr (s * PAGE_SIZE) n = Some (fr\<lparr>fr_page_maps := Some (bump 1 ps s n)\<rparr>)"
  using assms
proof (induction n arbitrary: fr ps s)
  case 0
  then show ?case by (cases fr) (simp add: maps_ok_def)
next
  case (Suc n)
  let ?ps = "ps[s := ps ! s + 1]"
  have s: "s < length ps" using Suc.prems by simp
  have fit: "- (2 ^ 31) \<le> ps ! s + 1" "ps ! s + 1 < 2 ^ 31" using Suc.prems(3) by (simp_all add: counts_fit_def)
  have "ref_pages (fr\<lparr>fr_page_maps := Some ?ps\<rparr>) (Suc s * PAGE_SIZE) n =
      Some (fr\<lparr>fr_page_maps := Some ?ps\<rparr>\<lparr>fr_page_maps := Some (bump 1 ?ps (Suc s) n)\<rparr>)"
    using Suc.prems s by (intro Suc.IH maps_ok_upd) (auto simp: counts_fit_def nth_list_update)
  then show ?case
    using get_page_in [OF Suc.prems(1) s] page_adjust [OF Suc.prems(1) s fit] bump_Suc [OF s, of 1 n]
    by (simp add: page_ref_def add.commute)
qed

lemma unref_pages_spec:
  assumes "maps_ok fr ps" "s + n \<le> length ps" "counts_fit (- 1) ps s n"
  shows "unref_pages fr (s * PAGE_SIZE) n = Some (fr\<lparr>fr_page_maps := Some (bump (- 1) ps s n)\<rparr>)"
  using assms
proof (induction n arbitrary: fr ps s)
  case 0
  then show ?case by (cases fr) (simp add: maps_ok_def)
next
  case (Suc n)
  let ?ps = "ps[s := ps ! s + - 1]"
  have s: "s < length ps" using Suc.prems by simp
  have fit: "- (2 ^ 31) \<le> ps ! s + - 1" "ps ! s + - 1 < 2 ^ 31" using Suc.prems(3) by (simp_all add: counts_fit_def)
  have "unref_pages (fr\<lparr>fr_page_maps := Some ?ps\<rparr>) (Suc s * PAGE_SIZE) n =
      Some (fr\<lparr>fr_page_maps := Some ?ps\<rparr>\<lparr>fr_page_maps := Some (bump (- 1) ?ps (Suc s) n)\<rparr>)"
    using Suc.prems s by (intro Suc.IH maps_ok_upd) (auto simp: counts_fit_def nth_list_update)
  then show ?case
    using get_page_in [OF Suc.prems(1) s] page_adjust [OF Suc.prems(1) s fit] bump_Suc [OF s, of "- 1" n]
    by (simp add: address_unref_def page_unref_def add.commute)
qed

lemma can_free_pages_spec:
  assumes "maps_ok fr ps" "s + n \<le> length ps"
  shows "can_free_pages fr (s * PAGE_SIZE) n = Some (\<forall>i. s \<le> i \<and> i < s + n \<longrightarrow> ps ! i \<le> 0)"
  using assms
proof (induction n arbitrary: s)
  case (Suc n)
  then have s: "s < length ps" by simp
  have "address_can_free fr (s * PAGE_SIZE) = Some (ps ! s \<le> 0)"
    using get_page_in [OF Suc.prems(1) s] Suc.prems(1) s
    by (simp add: address_can_free_def page_can_free_def maps_ok_def load_ref_def)
  moreover have "can_free_pages fr (Suc s * PAGE_SIZE) n = Some (\<forall>i. Suc s \<le> i \<and> i < Suc s + n \<longrightarrow> ps ! i \<le> 0)"
    using Suc.prems by (intro Suc.IH) simp_all
  moreover have "(\<forall>i. s \<le> i \<and> i < s + Suc n \<longrightarrow> ps ! i \<le> 0) \<longleftrightarrow>
      ps ! s \<le> 0 \<and> (\<forall>i. Suc s \<le> i \<and> i < Suc s + n \<longrightarrow> ps ! i \<le> 0)"
    by (metis Suc_le_eq add_Suc add_Suc_right le_eq_less_or_eq less_add_Suc1)
  ultimately show ?case by (simp add: add.commute)
qed simp

lemma range_all_Suc:
  "(\<forall>i. s \<le> i \<and> i < s + Suc n \<longrightarrow> P i) \<longleftrightarrow> P s \<and> (\<forall>i. Suc s \<le> i \<and> i < Suc s + n \<longrightarrow> P i)" for s :: nat
  by (metis Suc_le_eq add_Suc add_Suc_right le_eq_less_or_eq less_add_Suc1)

lemma all_in_use_spec:
  assumes "bitmap_ok (fr_using_regions fr)" "bitmap_ok (fr_bitmap fr)"
  shows "all_in_use fr s n = Some (\<forall>i. s \<le> i \<and> i < s + n \<longrightarrow>
    (i < bm_length (fr_using_regions fr) \<and> bit_at (fr_using_regions fr) i) \<and> i < bm_length (fr_bitmap fr) \<and> bit_at (fr_bitmap fr) i)"
  (is "_ = Some (\<forall>i. s \<le> i \<and> i < s + n \<longrightarrow> ?P i)")
proof (induction n arbitrary: s)
  case (Suc n)
  have "(\<forall>i. s \<le> i \<and> i < s + Suc n \<longrightarrow> ?P i) \<longleftrightarrow> ?P s \<and> (\<forall>i. Suc s \<le> i \<and> i < Suc s + n \<longrightarrow> ?P i)"
    by (rule range_all_Suc)
  with Suc [of "Suc s"] show ?case
    by (simp add: bitmap_get_spec [OF assms(1)] bitmap_get_spec [OF assms(2)]) blast
qed auto

section \<open>The zones together\<close>

text \<open>
  Every zone is well formed, covers only addresses of its type below the end of memory, and a zone
  that does not exist has no free blocks.
\<close>

definition zones_ok :: "frames \<Rightarrow> (zone_type \<Rightarrow> lists) \<Rightarrow> bool" where
  "zones_ok fr FL \<longleftrightarrow> (\<forall>t. case fr_zones fr t of None \<Rightarrow> FL t = (\<lambda>_. [])
     | Some z \<Rightarrow> zone_at (fr_link fr) z (FL t) \<and> zone_end z \<le> fr_memory_size fr \<and>
         (\<forall>a. zone_start z \<le> a \<and> a < zone_end z \<longrightarrow> phys_to_zone_type a = t))"

definition free_memory :: "(zone_type \<Rightarrow> lists) \<Rightarrow> nat set" where
  "free_memory FL = (\<Union>t. free_set (FL t))"

lemma zones_ok_upd [simp]:
  "zones_ok (fr\<lparr>fr_using_regions := bm\<rparr>) FL = zones_ok fr FL" "zones_ok (fr\<lparr>fr_page_maps := pm\<rparr>) FL = zones_ok fr FL"
  "zones_ok (fr\<lparr>fr_bitmap := bm\<rparr>) FL = zones_ok fr FL" "zones_ok (fr\<lparr>fr_usable_frames := n\<rparr>) FL = zones_ok fr FL"
  by (simp_all add: zones_ok_def cong: option.case_cong)

lemma zones_okD:
  assumes "zones_ok fr FL" "fr_zones fr t = Some z"
  shows "zone_at (fr_link fr) z (FL t)" "zone_end z \<le> fr_memory_size fr"
    "zone_start z \<le> a \<Longrightarrow> a < zone_end z \<Longrightarrow> phys_to_zone_type a = t"
  using assms by (force simp: zones_ok_def split: option.splits)+

lemma zone_free_type:
  assumes "zones_ok fr FL" "a \<in> free_set (FL t)"
  shows "phys_to_zone_type a = t" "a < fr_memory_size fr"
proof -
  obtain z where z: "fr_zones fr t = Some z"
    using assms by (cases "fr_zones fr t") (auto simp: zones_ok_def split: option.splits dest!: spec [of _ t])
  have "lists_ok (zone_start z) (zone_end z) (FL t)"
    using zones_okD(1) [OF assms(1) z] by (simp add: zone_at_def zone_inv_def)
  then have "zone_start z \<le> a \<and> a < zone_end z" using free_set_subset assms(2) by fastforce
  then show "phys_to_zone_type a = t" "a < fr_memory_size fr"
    using zones_okD [OF assms(1) z] by (auto intro: less_le_trans)
qed

lemma free_memory_upd:
  assumes "zones_ok fr FL"
  shows "free_memory (FL(t := fl)) = (free_memory FL - free_set (FL t)) \<union> free_set fl"
proof -
  have "a \<notin> free_set (FL t)" if "a \<in> free_set (FL u)" "u \<noteq> t" for a u
    using zone_free_type(1) [OF assms] that by metis
  then show ?thesis by (auto simp: free_memory_def split: if_splits)
qed

lemma set_zone_fields [simp]:
  "fr_bitmap (set_zone fr t r) = fr_bitmap fr" "fr_using_regions (set_zone fr t r) = fr_using_regions fr"
  "fr_page_maps (set_zone fr t r) = fr_page_maps fr" "fr_memory_size (set_zone fr t r) = fr_memory_size fr"
  "fr_link (set_zone fr t r) = fst r" "fr_zones (set_zone fr t r) = (fr_zones fr)(t := snd r)"
  by (simp_all add: set_zone_def)

text \<open>An operation on one zone that writes only inside that zone keeps the others.\<close>

lemma zones_ok_set_zone:
  assumes ok: "zones_ok fr FL" and z: "fr_zones fr t = Some z" and new: "zone_at lk z' fl"
    and b: "z_start_pfn z' = z_start_pfn z" "z_end_pfn z' = z_end_pfn z"
    and off: "links_off S (fr_link fr) lk" and S: "\<forall>a \<in> S. phys_to_zone_type a = t"
  shows "zones_ok (set_zone fr t (lk, Some z')) (FL(t := fl))"
  unfolding zones_ok_def
proof
  fix u
  show "case fr_zones (set_zone fr t (lk, Some z')) u of None \<Rightarrow> (FL(t := fl)) u = (\<lambda>_. [])
     | Some z \<Rightarrow> zone_at (fr_link (set_zone fr t (lk, Some z'))) z ((FL(t := fl)) u) \<and>
         zone_end z \<le> fr_memory_size (set_zone fr t (lk, Some z')) \<and>
         (\<forall>a. zone_start z \<le> a \<and> a < zone_end z \<longrightarrow> phys_to_zone_type a = u)"
  proof (cases "u = t")
    case True
    with new zones_okD(2,3) [OF ok z] b show ?thesis by simp
  next
    case False
    have "zone_at lk y (FL u)" if y: "fr_zones fr u = Some y" for y
    proof (rule zone_at_links [OF zones_okD(1) [OF ok y] off])
      show "S \<inter> free_set (FL u) = {}" using S zone_free_type(1) [OF ok] False by force
    qed
    with False ok show ?thesis by (auto simp: zones_ok_def split: option.splits dest!: spec [of _ u])
  qed
qed

lemma try_zone_spec:
  assumes ok: "zones_ok fr FL" and c: "0 < count" "count_to_order count = Some k"
  shows "\<exists>b fr' FL'. try_zone fr t count = Some (b, fr') \<and> zones_ok fr' FL' \<and>
    (\<exists>lk zs. fr' = fr\<lparr>fr_link := lk, fr_zones := zs\<rparr>) \<and>
    (if b = 0 then free_memory FL' = free_memory FL
     else k \<in> orders \<and> b \<noteq> 0 \<and> 2 ^ k dvd b \<and> b + 2 ^ k \<le> fr_memory_size fr \<and> phys_to_zone_type b = t \<and>
       free_memory FL = free_memory FL' \<union> span k b \<and> span k b \<inter> free_memory FL' = {})"
proof (cases "zone_has_memory (fr_zones fr t)")
  case False
  then have "try_zone fr t count = Some (0, fr)" by (simp add: try_zone_def)
  moreover have "\<exists>lk zs. fr = fr\<lparr>fr_link := lk, fr_zones := zs\<rparr>"
    by (intro exI [of _ "fr_link fr"] exI [of _ "fr_zones fr"]) simp
  ultimately show ?thesis using ok by (intro exI [of _ 0] exI [of _ fr] exI [of _ FL]) simp
next
  case True
  then obtain z where z: "fr_zones fr t = Some z" by (auto simp: zone_has_memory_def split: option.splits)
  note zo = zones_okD [OF ok z]
  from zone_alloc_total [OF zo(1) c] obtain b lk' z' fl' where
    r: "buddy_alloc_zone (fr_link fr) (Some z) count = Some (b, lk', Some z')" "zone_at lk' z' fl'" "same_bounds z z'"
      "links_off (free_set (FL t)) (fr_link fr) lk'"
      "if k \<in> orders \<and> (\<exists>j. k \<le> j \<and> j < MAX_ORDER \<and> FL t j \<noteq> [])
       then b \<noteq> 0 \<and> zone_block z k b \<and> free_set (FL t) = free_set fl' \<union> span k b \<and> span k b \<inter> free_set fl' = {}
       else b = 0 \<and> fl' = FL t" by blast
  let ?fr = "set_zone fr t (lk', Some z')" and ?FL = "FL(t := fl')"
  have run: "try_zone fr t count = Some (b, ?fr)" using True z r(1) by (simp add: try_zone_def)
  have zs: "zones_ok ?fr ?FL"
    using zones_ok_set_zone [OF ok z r(2) _ _ r(4)] r(3) zone_free_type(1) [OF ok] by (auto simp: same_bounds_def)
  have upd: "\<exists>lk zs. ?fr = fr\<lparr>fr_link := lk, fr_zones := zs\<rparr>" by (auto simp: set_zone_def)
  note fm = free_memory_upd [OF ok, of t fl']
  show ?thesis
  proof (cases "b = 0")
    case True
    then have "?FL = FL" using r(5) by (auto split: if_splits)
    with True run zs upd show ?thesis by metis
  next
    case False
    then have k: "k \<in> orders" "zone_block z k b" "free_set (FL t) = free_set fl' \<union> span k b" "span k b \<inter> free_set fl' = {}"
      using r(5) by (auto split: if_splits)
    have "b < zone_end z" using k(2) less_le_trans [of b "b + 2 ^ k" "zone_end z"] by (simp add: block_ok_def)
    then have "phys_to_zone_type b = t" using zo(3) [of b] k(2) by (simp add: block_ok_def)
    moreover have "b + 2 ^ k \<le> fr_memory_size fr" using zo(2) k(2) by (auto simp: block_ok_def)
    moreover have "free_memory FL = free_memory ?FL \<union> span k b"
      using fm k(3) by (auto simp: free_memory_def)
    moreover have "span k b \<inter> free_memory ?FL = {}" using fm k(3,4) by auto
    ultimately show ?thesis using False run zs upd k(1,2) by (auto simp: block_ok_def)
  qed
qed

lemma try_zones_spec:
  assumes "zones_ok fr FL" and c: "0 < count" "count_to_order count = Some k"
  shows "\<exists>b fr' FL'. try_zones fr ts count = Some (b, fr') \<and> zones_ok fr' FL' \<and>
    (\<exists>lk zs. fr' = fr\<lparr>fr_link := lk, fr_zones := zs\<rparr>) \<and>
    (if b = 0 then free_memory FL' = free_memory FL
     else k \<in> orders \<and> b \<noteq> 0 \<and> 2 ^ k dvd b \<and> b + 2 ^ k \<le> fr_memory_size fr \<and> phys_to_zone_type b \<in> set ts \<and>
       free_memory FL = free_memory FL' \<union> span k b \<and> span k b \<inter> free_memory FL' = {})"
  using assms(1)
proof (induction ts arbitrary: fr FL)
  case Nil
  have "\<exists>lk zs. fr = fr\<lparr>fr_link := lk, fr_zones := zs\<rparr>"
    by (intro exI [of _ "fr_link fr"] exI [of _ "fr_zones fr"]) simp
  with Nil show ?case by (intro exI [of _ 0] exI [of _ fr] exI [of _ FL]) simp
next
  case (Cons t ts)
  obtain b fr1 FL1 lk zs where t: "try_zone fr t count = Some (b, fr1)" "zones_ok fr1 FL1" "fr1 = fr\<lparr>fr_link := lk, fr_zones := zs\<rparr>"
    "if b = 0 then free_memory FL1 = free_memory FL
     else k \<in> orders \<and> b \<noteq> 0 \<and> 2 ^ k dvd b \<and> b + 2 ^ k \<le> fr_memory_size fr \<and> phys_to_zone_type b = t \<and>
       free_memory FL = free_memory FL1 \<union> span k b \<and> span k b \<inter> free_memory FL1 = {}"
    using try_zone_spec [OF Cons.prems c, of t] by blast
  show ?case
  proof (cases "b = 0")
    case False
    with t show ?thesis by (intro exI [of _ b] exI [of _ fr1] exI [of _ FL1]) auto
  next
    case True
    then have fm: "free_memory FL1 = free_memory FL" and run: "try_zones fr (t # ts) count = try_zones fr1 ts count"
      using t by simp_all
    obtain b' fr2 FL2 lk' zs' where r: "try_zones fr1 ts count = Some (b', fr2)" "zones_ok fr2 FL2" "fr2 = fr1\<lparr>fr_link := lk', fr_zones := zs'\<rparr>"
      "if b' = 0 then free_memory FL2 = free_memory FL1
       else k \<in> orders \<and> b' \<noteq> 0 \<and> 2 ^ k dvd b' \<and> b' + 2 ^ k \<le> fr_memory_size fr1 \<and> phys_to_zone_type b' \<in> set ts \<and>
         free_memory FL1 = free_memory FL2 \<union> span k b' \<and> span k b' \<inter> free_memory FL2 = {}"
      using Cons.IH [OF t(2)] by blast
    have f: "fr2 = fr\<lparr>fr_link := lk', fr_zones := zs'\<rparr>" "fr_memory_size fr1 = fr_memory_size fr" using r(3) t(3) by simp_all
    have "if b' = 0 then free_memory FL2 = free_memory FL
       else k \<in> orders \<and> b' \<noteq> 0 \<and> 2 ^ k dvd b' \<and> b' + 2 ^ k \<le> fr_memory_size fr \<and> phys_to_zone_type b' \<in> set (t # ts) \<and>
         free_memory FL = free_memory FL2 \<union> span k b' \<and> span k b' \<inter> free_memory FL2 = {}"
      using r(4) unfolding f(2) fm by (cases "b' = 0") simp_all
    moreover have "\<exists>lk zs. fr2 = fr\<lparr>fr_link := lk, fr_zones := zs\<rparr>" using f(1) by blast
    ultimately show ?thesis using r(1,2) unfolding run by blast
  qed
qed

section \<open>Allocating and freeing frames\<close>

text \<open>Free pages are not marked in use and have no references.\<close>

definition frames_ok :: "frames \<Rightarrow> (zone_type \<Rightarrow> lists) \<Rightarrow> int list \<Rightarrow> bool" where
  "frames_ok fr FL ps \<longleftrightarrow> zones_ok fr FL \<and> maps_ok fr ps \<and> bitmap_ok (fr_using_regions fr) \<and>
     length ps \<le> bm_length (fr_using_regions fr) \<and>
     (\<forall>i. i * PAGE_SIZE \<in> free_memory FL \<longrightarrow> \<not> bit_at (fr_using_regions fr) i \<and> ps ! i = 0)"

abbreviation page_range :: "nat \<Rightarrow> nat \<Rightarrow> nat set" where
  "page_range k b \<equiv> {b div PAGE_SIZE..<b div PAGE_SIZE + order_to_pages k}"

lemma block_pages:
  assumes "k \<in> orders" "2 ^ k dvd b"
  shows "b div PAGE_SIZE * PAGE_SIZE = b" "2 ^ k = order_to_pages k * PAGE_SIZE"
    "i * PAGE_SIZE \<in> span k b \<longleftrightarrow> i \<in> page_range k b"
proof -
  obtain d where d: "k = 12 + d" using assms(1) by (auto simp: order_consts dest: le_Suc_ex)
  then show p: "2 ^ k = order_to_pages k * PAGE_SIZE"
    by (simp add: PAGE_SIZE_def order_to_pages_def order_consts power_add)
  obtain q where q: "b = 2 ^ k * q" using assms(2) by blast
  then have b: "b = order_to_pages k * q * PAGE_SIZE" using p by simp
  then show "b div PAGE_SIZE * PAGE_SIZE = b" by (simp add: PAGE_SIZE_def)
  have "b div PAGE_SIZE = order_to_pages k * q" using b by (simp add: PAGE_SIZE_def)
  then show "i * PAGE_SIZE \<in> span k b \<longleftrightarrow> i \<in> page_range k b"
    unfolding span_def p using b by (auto simp: PAGE_SIZE_def)
qed

lemma claim_frames_spec:
  assumes maps: "maps_ok fr ps" and bm: "bitmap_ok (fr_using_regions fr)" "length ps \<le> bm_length (fr_using_regions fr)"
    and k: "k \<in> orders" "2 ^ k dvd b" and hi: "b + 2 ^ k \<le> fr_memory_size fr"
    and zero: "\<forall>i \<in> page_range k b. ps ! i = 0"
  shows "\<exists>bm. claim_frames fr b (order_to_pages k) =
      Some (fr\<lparr>fr_using_regions := bm, fr_page_maps := Some (bump 1 ps (b div PAGE_SIZE) (order_to_pages k))\<rparr>) \<and>
    bits_written (fr_using_regions fr) (page_range k b) True bm"
proof -
  let ?s = "b div PAGE_SIZE" and ?n = "order_to_pages k"
  note bp = block_pages [OF k]
  have "(?s + ?n) * PAGE_SIZE \<le> length ps * PAGE_SIZE"
    using hi maps bp(1,2) by (simp add: maps_ok_def add_mult_distrib)
  then have le: "?s + ?n \<le> length ps" by (simp add: PAGE_SIZE_def)
  then obtain bm where w: "bitmap_set_range (fr_using_regions fr) ?s (?s + ?n) True = Some bm"
      "bits_written (fr_using_regions fr) (page_range k b) True bm"
    using bitmap_set_range_written [OF bm(1)] bm(2) by (meson order_trans)
  have "maps_ok (fr\<lparr>fr_using_regions := bm\<rparr>) ps" using maps by (simp add: maps_ok_def)
  moreover have "counts_fit 1 ps ?s ?n" using zero by (simp add: counts_fit_def)
  ultimately have "ref_pages (fr\<lparr>fr_using_regions := bm\<rparr>) b ?n =
      Some (fr\<lparr>fr_using_regions := bm, fr_page_maps := Some (bump 1 ps ?s ?n)\<rparr>)"
    using ref_pages_spec [of "fr\<lparr>fr_using_regions := bm\<rparr>" ps ?s ?n] le bp(1) by simp
  with w show ?thesis by (intro exI [of _ bm]) (simp add: claim_frames_def)
qed

lemma alloc_from_spec:
  assumes ok: "frames_ok fr FL ps" and c: "0 < count" "count \<le> 2 ^ 63" "count_to_order count = Some k"
  shows "\<exists>b fr' FL' ps'. alloc_from ts fr count = Some (b, fr') \<and> frames_ok fr' FL' ps' \<and>
    (if b = 0 then free_memory FL' = free_memory FL \<and> ps' = ps \<and> fr_using_regions fr' = fr_using_regions fr
     else k \<in> orders \<and> 2 ^ k dvd b \<and> count \<le> order_to_pages k \<and> phys_to_zone_type b \<in> set ts \<and>
       free_memory FL = free_memory FL' \<union> span k b \<and> span k b \<inter> free_memory FL' = {} \<and>
       bits_written (fr_using_regions fr) (page_range k b) True (fr_using_regions fr') \<and>
       ps' = bump 1 ps (b div PAGE_SIZE) (order_to_pages k) \<and> (\<forall>i \<in> page_range k b. ps' ! i = 1))"
proof -
  have zs: "zones_ok fr FL" and maps: "maps_ok fr ps" and bm: "bitmap_ok (fr_using_regions fr)"
      "length ps \<le> bm_length (fr_using_regions fr)"
    and free: "\<And>i. i * PAGE_SIZE \<in> free_memory FL \<Longrightarrow> \<not> bit_at (fr_using_regions fr) i \<and> ps ! i = 0"
    using ok by (auto simp: frames_ok_def)
  obtain j where j: "count_to_block_pages count = Some (2 ^ j)" "k = j + MIN_ORDER" "count \<le> 2 ^ j"
    using count_to_order_spec [OF c(1,2)] c(3) by auto
  have pg: "2 ^ j = order_to_pages k" using j(2) by (simp add: order_to_pages_def)
  obtain b fr1 FL1 lk z where t: "try_zones fr ts count = Some (b, fr1)" "zones_ok fr1 FL1" "fr1 = fr\<lparr>fr_link := lk, fr_zones := z\<rparr>"
    "if b = 0 then free_memory FL1 = free_memory FL
     else k \<in> orders \<and> b \<noteq> 0 \<and> 2 ^ k dvd b \<and> b + 2 ^ k \<le> fr_memory_size fr \<and> phys_to_zone_type b \<in> set ts \<and>
       free_memory FL = free_memory FL1 \<union> span k b \<and> span k b \<inter> free_memory FL1 = {}"
    using try_zones_spec [OF zs c(1,3), of ts] by blast
  have f1: "fr_using_regions fr1 = fr_using_regions fr" "maps_ok fr1 ps" "fr_memory_size fr1 = fr_memory_size fr"
    using t(3) maps by (simp_all add: maps_ok_def)
  show ?thesis
  proof (cases "b = 0")
    case True
    then have "alloc_from ts fr count = Some (0, fr1)" using c(1) j(1) t(1) by (simp add: alloc_from_def)
    moreover have "frames_ok fr1 FL1 ps" using True t(2,4) f1 bm free by (simp add: frames_ok_def)
    ultimately show ?thesis using True t(4) f1(1) by (intro exI [of _ 0] exI [of _ fr1] exI [of _ FL1] exI [of _ ps]) simp
  next
    case False
    then have b: "k \<in> orders" "2 ^ k dvd b" "b + 2 ^ k \<le> fr_memory_size fr" "phys_to_zone_type b \<in> set ts"
        "free_memory FL = free_memory FL1 \<union> span k b" "span k b \<inter> free_memory FL1 = {}"
      using t(4) by auto
    let ?s = "b div PAGE_SIZE" and ?n = "order_to_pages k"
    let ?ps = "bump 1 ps ?s ?n"
    note bp = block_pages [OF b(1,2)]
    have zero: "\<forall>i \<in> page_range k b. ps ! i = 0" using free b(5) bp(3) by blast
    obtain bm' where cl: "claim_frames fr1 b ?n = Some (fr1\<lparr>fr_using_regions := bm', fr_page_maps := Some ?ps\<rparr>)"
        "bits_written (fr_using_regions fr) (page_range k b) True bm'"
      using claim_frames_spec [OF f1(2) _ _ b(1,2) _ zero] f1 bm b(3) by auto
    let ?fr = "fr1\<lparr>fr_using_regions := bm', fr_page_maps := Some ?ps\<rparr>"
    have run: "alloc_from ts fr count = Some (b, ?fr)"
      using c(1) j(1) t(1) False cl(1) pg by (simp add: alloc_from_def)
    have le: "?s + ?n \<le> length ps"
    proof -
      have "(?s + ?n) * PAGE_SIZE \<le> length ps * PAGE_SIZE"
        using b(3) maps bp(1,2) by (simp add: maps_ok_def add_mult_distrib)
      then show ?thesis by (simp add: PAGE_SIZE_def)
    qed
    have "frames_ok ?fr FL1 ?ps"
      unfolding frames_ok_def
    proof (intro conjI allI impI)
      show "zones_ok ?fr FL1" using t(2) by simp
      show "maps_ok ?fr ?ps" using f1(2) by (simp add: maps_ok_def)
      show "bitmap_ok (fr_using_regions ?fr)" "length ?ps \<le> bm_length (fr_using_regions ?fr)"
        using cl(2) bm(2) by (simp_all add: bits_written_def)
      fix i assume i: "i * PAGE_SIZE \<in> free_memory FL1"
      then have n: "i \<notin> page_range k b" and old: "\<not> bit_at (fr_using_regions fr) i" "ps ! i = 0"
        using b(5,6) bp(3) free by blast+
      have "i * PAGE_SIZE < length ps * PAGE_SIZE"
        using i zone_free_type(2) [OF t(2)] f1(3) maps by (auto simp: free_memory_def maps_ok_def)
      then have il: "i < length ps" by simp
      then show "\<not> bit_at (fr_using_regions ?fr) i"
        using n old cl(2) bm(2) by (auto simp: bits_written_def)
      show "?ps ! i = 0" using il n old(2) by (auto simp: nth_bump)
    qed
    moreover have "\<forall>i \<in> page_range k b. ?ps ! i = 1" using zero le by (auto simp: nth_bump)
    ultimately show ?thesis using run False b cl(2) j(3) pg
      by (intro exI [of _ b] exI [of _ ?fr] exI [of _ FL1] exI [of _ ?ps]) simp
  qed
qed

text \<open>A request to free frames of which some page is not in use, or not a usable frame, changes nothing.\<close>

lemma free_frames_not_in_use:
  assumes ok: "bitmap_ok (fr_using_regions fr)" "bitmap_ok (fr_bitmap fr)" and c: "0 < count" "count \<le> 2 ^ 63" "count_to_order count = Some k"
    and i: "addr div PAGE_SIZE \<le> i" "i < addr div PAGE_SIZE + order_to_pages k"
    and free: "\<not> (i < bm_length (fr_using_regions fr) \<and> bit_at (fr_using_regions fr) i) \<or>
      \<not> (i < bm_length (fr_bitmap fr) \<and> bit_at (fr_bitmap fr) i)"
  shows "free_frames fr addr count = Some fr"
proof -
  obtain j where j: "count_to_block_pages count = Some (2 ^ j)" "k = j + MIN_ORDER"
    using count_to_order_spec [OF c(1,2)] c(3) by auto
  have "2 ^ j = order_to_pages k" using j(2) by (simp add: order_to_pages_def)
  then have "all_in_use fr (addr div PAGE_SIZE) (2 ^ j) = Some False"
    using all_in_use_spec [OF ok, of "addr div PAGE_SIZE" "2 ^ j"] i free by auto
  with j(1) c(3) show ?thesis by (simp add: free_frames_def Let_def)
qed

definition used_block :: "frames \<Rightarrow> (zone_type \<Rightarrow> lists) \<Rightarrow> nat \<Rightarrow> nat \<Rightarrow> bool" where
  "used_block fr FL k b \<longleftrightarrow> k \<in> orders \<and> (\<exists>z. fr_zones fr (phys_to_zone_type b) = Some z \<and> zone_block z k b) \<and>
     span k b \<inter> free_memory FL = {} \<and> bitmap_ok (fr_bitmap fr) \<and>
     (\<forall>i \<in> page_range k b. bit_at (fr_using_regions fr) i \<and> i < bm_length (fr_bitmap fr) \<and> bit_at (fr_bitmap fr) i)"

lemma block_below:
  assumes "zones_ok fr FL" "maps_ok fr ps" "fr_zones fr t = Some z" "zone_block z k b" "k \<in> orders"
  shows "b div PAGE_SIZE + order_to_pages k \<le> length ps"
proof -
  have d: "2 ^ k dvd b" using assms(4) by (simp add: block_ok_def)
  note bp = block_pages [OF assms(5) d]
  have "b + 2 ^ k \<le> fr_memory_size fr" using assms(4) zones_okD(2) [OF assms(1,3)] by (simp add: block_ok_def)
  then have "(b div PAGE_SIZE + order_to_pages k) * PAGE_SIZE \<le> length ps * PAGE_SIZE"
    using assms(2) bp(1,2) by (simp add: maps_ok_def add_mult_distrib)
  then show ?thesis by (simp add: PAGE_SIZE_def)
qed

lemma free_frames_until_zone:
  assumes ok: "frames_ok fr FL ps" and c: "0 < count" "count \<le> 2 ^ 63" "count_to_order count = Some k"
    and used: "used_block fr FL k b" and fit: "counts_fit (- 1) ps (b div PAGE_SIZE) (order_to_pages k)"
    and z: "fr_zones fr (phys_to_zone_type b) = Some z"
  shows "free_frames fr b count = do {
     let fr' = fr\<lparr>fr_page_maps := Some (bump (- 1) ps (b div PAGE_SIZE) (order_to_pages k))\<rparr>;
     if \<not> (\<forall>i \<in> page_range k b. ps ! i \<le> 1) then Some fr'
     else do {
       (lk, zn) \<leftarrow> buddy_free_zone (fr_link fr) (Some (z\<lparr>z_lock := True\<rparr>)) b k;
       bm \<leftarrow> bitmap_set_range (fr_using_regions fr) (b div PAGE_SIZE) (b div PAGE_SIZE + order_to_pages k) False;
       Some (set_zone (fr'\<lparr>fr_using_regions := bm\<rparr>) (phys_to_zone_type b)
         (lk, map_option (\<lambda>z. z\<lparr>z_lock := False\<rparr>) zn))
     }
   }"
proof -
  let ?s = "b div PAGE_SIZE" and ?n = "order_to_pages k"
  let ?ps = "bump (- 1) ps ?s ?n"
  have zs: "zones_ok fr FL" and maps: "maps_ok fr ps" and bm: "bitmap_ok (fr_using_regions fr)"
      "length ps \<le> bm_length (fr_using_regions fr)" using ok by (auto simp: frames_ok_def)
  have k: "k \<in> orders" and zb: "zone_block z k b" and fb: "bitmap_ok (fr_bitmap fr)"
    and bits: "\<forall>i \<in> page_range k b. bit_at (fr_using_regions fr) i \<and> i < bm_length (fr_bitmap fr) \<and> bit_at (fr_bitmap fr) i"
    using used z by (auto simp: used_block_def)
  note le = block_below [OF zs maps z zb k]
  have d: "2 ^ k dvd b" and b0: "b \<noteq> 0" using zb by (simp_all add: block_ok_def)
  have bs: "?s * PAGE_SIZE = b" by (rule block_pages(1) [OF k d])
  obtain j where j: "count_to_block_pages count = Some (2 ^ j)" "k = j + MIN_ORDER"
    using count_to_order_spec [OF c(1,2)] c(3) by auto
  have n: "2 ^ j = ?n" using j(2) by (simp add: order_to_pages_def)
  have use: "all_in_use fr ?s ?n = Some True"
    using all_in_use_spec [OF bm(1) fb, of ?s ?n] bits le bm(2) by auto
  have un: "unref_pages fr b ?n = Some (fr\<lparr>fr_page_maps := Some ?ps\<rparr>)"
    using unref_pages_spec [OF maps le fit] bs by simp
  have "can_free_pages (fr\<lparr>fr_page_maps := Some ?ps\<rparr>) b ?n = Some (\<forall>i. ?s \<le> i \<and> i < ?s + ?n \<longrightarrow> ?ps ! i \<le> 0)"
    using can_free_pages_spec [of "fr\<lparr>fr_page_maps := Some ?ps\<rparr>" ?ps ?s ?n] maps_ok_upd [OF maps, of ?ps] le bs by simp
  also have "(\<forall>i. ?s \<le> i \<and> i < ?s + ?n \<longrightarrow> ?ps ! i \<le> 0) \<longleftrightarrow> (\<forall>i \<in> page_range k b. ps ! i \<le> 1)"
    using le by (auto simp: nth_bump)
  finally have cf: "can_free_pages (fr\<lparr>fr_page_maps := Some ?ps\<rparr>) b ?n = Some (\<forall>i \<in> page_range k b. ps ! i \<le> 1)" .
  have "order_valid k" "\<not> z_lock z" using k zones_okD(1) [OF zs z] by (simp_all add: order_valid_def zone_at_def)
  then show ?thesis
    using c b0 j(1) z use un cf unfolding n
    by (simp add: free_frames_def Let_def split_def)
qed

lemma free_frames_shared:
  assumes ok: "frames_ok fr FL ps" and c: "0 < count" "count \<le> 2 ^ 63" "count_to_order count = Some k"
    and used: "used_block fr FL k b" and fit: "counts_fit (- 1) ps (b div PAGE_SIZE) (order_to_pages k)"
    and shared: "i \<in> page_range k b" "1 < ps ! i"
  shows "free_frames fr b count = Some (fr\<lparr>fr_page_maps := Some (bump (- 1) ps (b div PAGE_SIZE) (order_to_pages k))\<rparr>)"
proof -
  obtain z where z: "fr_zones fr (phys_to_zone_type b) = Some z" using used by (auto simp: used_block_def)
  have "\<not> (\<forall>i \<in> page_range k b. ps ! i \<le> 1)" using shared by force
  then show ?thesis unfolding free_frames_until_zone [OF ok c used fit z] by simp
qed

lemma free_frames_owned:
  assumes ok: "frames_ok fr FL ps" and c: "0 < count" "count \<le> 2 ^ 63" "count_to_order count = Some k"
    and used: "used_block fr FL k b" and one: "\<forall>i \<in> page_range k b. ps ! i = 1"
  shows "\<exists>fr' FL' ps'. free_frames fr b count = Some fr' \<and> frames_ok fr' FL' ps' \<and>
    free_memory FL' = free_memory FL \<union> span k b \<and>
    bits_written (fr_using_regions fr) (page_range k b) False (fr_using_regions fr') \<and>
    ps' = bump (- 1) ps (b div PAGE_SIZE) (order_to_pages k)"
proof -
  let ?s = "b div PAGE_SIZE" and ?n = "order_to_pages k" and ?t = "phys_to_zone_type b"
  let ?ps = "bump (- 1) ps ?s ?n"
  have zs: "zones_ok fr FL" and maps: "maps_ok fr ps" and bm: "bitmap_ok (fr_using_regions fr)"
      "length ps \<le> bm_length (fr_using_regions fr)" using ok by (auto simp: frames_ok_def)
  obtain z where z: "fr_zones fr ?t = Some z" and zb: "zone_block z k b" and k: "k \<in> orders"
    and dis: "span k b \<inter> free_memory FL = {}" using used by (auto simp: used_block_def)
  have fit: "counts_fit (- 1) ps ?s ?n" using one by (simp add: counts_fit_def)
  have le1: "\<forall>i \<in> page_range k b. ps ! i \<le> 1" using one by simp
  note le = block_below [OF zs maps z zb k]
  note zo = zones_okD [OF zs z]
  let ?z = "z\<lparr>z_lock := True\<rparr>"
  have inv: "zone_inv (fr_link fr) ?z (FL ?t)" "z_free_pages ?z = pages_of (FL ?t)" "zone_block ?z k b"
    using zo(1) zb by (simp_all add: zone_at_def)
  have "span k b \<inter> free_set (FL ?t) = {}" using dis by (auto simp: free_memory_def)
  from free_zone_block [OF inv(1,2) k inv(3) this] obtain lk z' fl' where
    r: "buddy_free_zone (fr_link fr) (Some ?z) b k = Some (lk, Some z')" "zone_inv lk z' fl'" "z_free_pages z' = pages_of fl'"
      "free_set fl' = free_set (FL ?t) \<union> span k b" "links_off (free_set (FL ?t) \<union> span k b) (fr_link fr) lk" "same_bounds ?z z'"
    by blast
  obtain bm' where w: "bitmap_set_range (fr_using_regions fr) ?s (?s + ?n) False = Some bm'"
      "bits_written (fr_using_regions fr) (page_range k b) False bm'"
    using bitmap_set_range_written [OF bm(1)] le bm(2) by (meson order_trans)
  let ?z' = "z'\<lparr>z_lock := False\<rparr>"
  let ?fr = "fr\<lparr>fr_page_maps := Some ?ps, fr_using_regions := bm'\<rparr>"
  let ?fr' = "set_zone ?fr ?t (lk, Some ?z')" and ?FL = "FL(?t := fl')"
  have run: "free_frames fr b count = Some ?fr'"
    unfolding free_frames_until_zone [OF ok c used fit z] using le1 r(1) w(1) by simp
  have ty: "\<forall>a \<in> free_set (FL ?t) \<union> span k b. phys_to_zone_type a = ?t"
  proof -
    have "\<forall>a \<in> span k b. zone_start z \<le> a \<and> a < zone_end z" using zb by (auto simp: span_def block_ok_def)
    then show ?thesis using zone_free_type(1) [OF zs] zo(3) by blast
  qed
  have zs': "zones_ok ?fr' ?FL"
  proof (rule zones_ok_set_zone [of ?fr FL])
    show "zones_ok ?fr FL" "fr_zones ?fr ?t = Some z" using zs z by simp_all
    show "zone_at lk ?z' fl'" using r(2,3) by (simp add: zone_at_def)
    show "z_start_pfn ?z' = z_start_pfn z" "z_end_pfn ?z' = z_end_pfn z" using r(6) by (simp_all add: same_bounds_def)
    show "links_off (free_set (FL ?t) \<union> span k b) (fr_link ?fr) lk" using r(5) by simp
    show "\<forall>a \<in> free_set (FL ?t) \<union> span k b. phys_to_zone_type a = ?t" by (rule ty)
  qed
  have fm: "free_memory ?FL = free_memory FL \<union> span k b"
    using free_memory_upd [OF zs, of ?t fl'] r(4) by (auto simp: free_memory_def)
  have d: "2 ^ k dvd b" using zb by (simp add: block_ok_def)
  have "frames_ok ?fr' ?FL ?ps"
    unfolding frames_ok_def
  proof (intro conjI allI impI)
    show "zones_ok ?fr' ?FL" by (rule zs')
    show "maps_ok ?fr' ?ps" using maps by (simp add: maps_ok_def set_zone_def)
    show "bitmap_ok (fr_using_regions ?fr')" "length ?ps \<le> bm_length (fr_using_regions ?fr')"
      using w(2) bm(2) by (simp_all add: bits_written_def)
    fix i assume i: "i * PAGE_SIZE \<in> free_memory ?FL"
    have "i * PAGE_SIZE < length ps * PAGE_SIZE"
      using i zone_free_type(2) [OF zs'] maps by (auto simp: free_memory_def maps_ok_def)
    then have il: "i < length ps" by simp
    from i consider "i * PAGE_SIZE \<in> free_memory FL" "i \<notin> page_range k b" | "i \<in> page_range k b"
      using fm block_pages(3) [OF k d] by blast
    then have "\<not> bit_at bm' i \<and> ?ps ! i = 0"
    proof cases
      case 1
      then show ?thesis using ok il w(2) bm(2) by (auto simp: frames_ok_def nth_bump bits_written_def)
    next
      case 2
      then show ?thesis using one il w(2) bm(2) by (auto simp: nth_bump bits_written_def)
    qed
    then show "\<not> bit_at (fr_using_regions ?fr') i" "?ps ! i = 0" by simp_all
  qed
  with run fm w(2) show ?thesis by (intro exI [of _ ?fr'] exI [of _ ?FL] exI [of _ ?ps]) simp
qed

section \<open>Building the frame bitmaps\<close>

definition frames_of :: "Descriptor \<Rightarrow> nat set" where
  "frames_of d = {unat (d_physical_start d) div PAGE_SIZE..<unat (d_physical_start d) div PAGE_SIZE + unat (d_pages d)}"

lemma boot_descriptor_spec:
  assumes "valid_map mem view ds" "i < length ds"
  shows "boot_descriptor mem view i = Some (ds ! i)"
proof -
  have sb: "structural_bounds view" and rec: "records mem view ds" using assms(1) by (simp_all add: valid_map_def)
  have "i < record_count view" using assms(2) rec by (simp add: records_read)
  then have "of_nat i < mv_map_bytes view div mv_descriptor_bytes view"
    using less_trans [OF _ unat_less_64] by (simp add: word_less_nat_alt unat_of_nat)
  moreover have "read_descriptor mem view (of_nat i) = Some (Some (ds ! i))" using rec assms(2) by (simp add: records_read)
  ultimately show ?thesis using sb by (simp add: boot_descriptor_def descriptor_at_def not_le [symmetric])
qed

lemma skipped_iff: "skipped d \<longleftrightarrow> \<not> allocatable d"
  by (auto simp: minimum_allocatable_def not_le)

definition bitmaps_ok :: "nat \<Rightarrow> frames \<Rightarrow> bool" where
  "bitmaps_ok n fr \<longleftrightarrow> bitmap_ok (fr_bitmap fr) \<and> bitmap_ok (fr_usable_regions fr) \<and> bm_length (fr_bitmap fr) = n \<and>
     bm_length (fr_usable_regions fr) = n"

text \<open>Both bitmaps have \<open>v\<close> in the frames of \<open>S\<close> and are as before elsewhere.\<close>

definition both_written :: "frames \<Rightarrow> nat set \<Rightarrow> bool \<Rightarrow> frames \<Rightarrow> bool" where
  "both_written fr S v fr' \<longleftrightarrow> bits_written (fr_bitmap fr) S v (fr_bitmap fr') \<and>
     bits_written (fr_usable_regions fr) S v (fr_usable_regions fr')"

lemma both_written_trans:
  "both_written fr S v fr' \<Longrightarrow> both_written fr' T v fr'' \<Longrightarrow> both_written fr (S \<union> T) v fr''"
  by (auto simp: both_written_def intro: bits_written_trans)

lemma both_written_ok: "both_written fr S v fr' \<Longrightarrow> bitmaps_ok n fr \<Longrightarrow> bitmaps_ok n fr'"
  by (simp add: both_written_def bitmaps_ok_def bits_written_def)

lemma mark_descriptor_spec:
  assumes ok: "bitmaps_ok n fr" and g: "good d" and le: "unat (d_physical_start d) + bytes_of d \<le> n * PAGE_SIZE"
  shows "\<exists>bm ur. mark_descriptor fr d = Some (fr\<lparr>fr_origin_frames := wrap64 (fr_origin_frames fr + unat (d_pages d)),
      fr_bitmap := bm, fr_usable_regions := ur\<rparr>) \<and>
    both_written fr (frames_of d) True (fr\<lparr>fr_bitmap := bm, fr_usable_regions := ur\<rparr>)"
proof -
  let ?f = "unat (d_physical_start d) div PAGE_SIZE" and ?p = "unat (d_pages d)"
  have "PAGE_SIZE dvd unat (d_physical_start d)" using g by (simp add: good_def PAGE_SIZE_def)
  then have "(?f + ?p) * PAGE_SIZE = unat (d_physical_start d) + bytes_of d"
    by (simp add: bytes_of_def PAGE_SIZE_def add_mult_distrib)
  with le g have fp: "?f + ?p \<le> n" "?f + ?p < 2 ^ 64" by (auto simp: PAGE_SIZE_def good_def)
  have b: "bitmap_ok (fr_bitmap fr)" "?f + ?p \<le> bm_length (fr_bitmap fr)"
    "bitmap_ok (fr_usable_regions fr)" "?f + ?p \<le> bm_length (fr_usable_regions fr)"
    using ok fp(1) by (simp_all add: bitmaps_ok_def)
  obtain bm where bm: "bitmap_set_range (fr_bitmap fr) ?f (?f + ?p) True = Some bm"
      "bits_written (fr_bitmap fr) {?f..<?f + ?p} True bm"
    using bitmap_set_range_written [OF b(1,2)] by blast
  obtain ur where ur: "bitmap_set_range (fr_usable_regions fr) ?f (?f + ?p) True = Some ur"
      "bits_written (fr_usable_regions fr) {?f..<?f + ?p} True ur"
    using bitmap_set_range_written [OF b(3,4)] by blast
  have "mark_descriptor fr d = Some (fr\<lparr>fr_origin_frames := wrap64 (fr_origin_frames fr + ?p), fr_bitmap := bm, fr_usable_regions := ur\<rparr>)"
    using bm(1) ur(1) fp(2) by (simp add: mark_descriptor_def)
  with bm(2) ur(2) show ?thesis
    by (intro exI [of _ bm] exI [of _ ur]) (simp add: both_written_def frames_of_def)
qed

lemma mark_loop_spec:
  assumes v: "valid_map mem view ds" and le: "\<forall>d \<in> set ds. allocatable d \<longrightarrow> unat (d_physical_start d) + bytes_of d \<le> n * PAGE_SIZE"
    and ok: "bitmaps_ok n fr" and i: "\<forall>i \<in> set is. i < length ds"
  shows "\<exists>fr'. boot_loop mark_descriptor mem view is fr = Some fr' \<and>
    both_written fr (\<Union>i \<in> set is. if allocatable (ds ! i) then frames_of (ds ! i) else {}) True fr' \<and>
    (\<exists>bm ur og. fr' = fr\<lparr>fr_origin_frames := og, fr_bitmap := bm, fr_usable_regions := ur\<rparr>)"
  using ok i
proof (induction "is" arbitrary: fr)
  case Nil
  have "\<exists>bm ur og. fr = fr\<lparr>fr_origin_frames := og, fr_bitmap := bm, fr_usable_regions := ur\<rparr>"
    by (intro exI [of _ "fr_bitmap fr"] exI [of _ "fr_usable_regions fr"] exI [of _ "fr_origin_frames fr"]) simp
  with Nil show ?case by (simp add: both_written_def bitmaps_ok_def)
next
  case (Cons i "is")
  have il: "i < length ds" using Cons.prems by simp
  note bd = boot_descriptor_spec [OF v il]
  show ?case
  proof (cases "allocatable (ds ! i)")
    case False
    then show ?thesis using Cons bd skipped_iff [of "ds ! i"] by simp
  next
    case True
    have g: "good (ds ! i)" using v il by (auto simp: valid_map_def intro: records_good)
    obtain bm ur where m: "mark_descriptor fr (ds ! i) = Some (fr\<lparr>fr_origin_frames := wrap64 (fr_origin_frames fr + unat (d_pages (ds ! i))),
        fr_bitmap := bm, fr_usable_regions := ur\<rparr>)"
      "both_written fr (frames_of (ds ! i)) True (fr\<lparr>fr_bitmap := bm, fr_usable_regions := ur\<rparr>)"
      using mark_descriptor_spec [OF Cons.prems(1) g] le il True by auto
    let ?fr = "fr\<lparr>fr_origin_frames := wrap64 (fr_origin_frames fr + unat (d_pages (ds ! i))), fr_bitmap := bm, fr_usable_regions := ur\<rparr>"
    have w: "both_written fr (frames_of (ds ! i)) True ?fr" using m(2) by (simp add: both_written_def)
    have "\<exists>fr'. boot_loop mark_descriptor mem view is ?fr = Some fr' \<and>
      both_written ?fr (\<Union>i \<in> set is. if allocatable (ds ! i) then frames_of (ds ! i) else {}) True fr' \<and>
      (\<exists>bm ur og. fr' = ?fr\<lparr>fr_origin_frames := og, fr_bitmap := bm, fr_usable_regions := ur\<rparr>)"
      using Cons.prems both_written_ok [OF w] by (intro Cons.IH) simp_all
    then obtain fr' bm' ur' og' where r: "boot_loop mark_descriptor mem view is ?fr = Some fr'"
      "both_written ?fr (\<Union>i \<in> set is. if allocatable (ds ! i) then frames_of (ds ! i) else {}) True fr'"
      "fr' = ?fr\<lparr>fr_origin_frames := og', fr_bitmap := bm', fr_usable_regions := ur'\<rparr>" by blast
    have "boot_loop mark_descriptor mem view (i # is) fr = Some fr'"
      using bd m(1) r(1) True skipped_iff [of "ds ! i"] by simp
    moreover have "both_written fr (\<Union>i \<in> set (i # is). if allocatable (ds ! i) then frames_of (ds ! i) else {}) True fr'"
      using both_written_trans [OF w r(2)] True by simp
    moreover have "\<exists>bm ur og. fr' = fr\<lparr>fr_origin_frames := og, fr_bitmap := bm, fr_usable_regions := ur\<rparr>"
      by (intro exI [of _ bm'] exI [of _ ur'] exI [of _ og']) (simp add: r(3))
    ultimately show ?thesis by blast
  qed
qed

text \<open>What the boot sequence needs before it touches the bitmaps; otherwise it halts the machine.\<close>

definition boot_ready :: "memory \<Rightarrow> MEMORY_MAP \<Rightarrow> MapView \<Rightarrow> Descriptor list \<Rightarrow> Descriptor \<Rightarrow> FrameBitmapLayout \<Rightarrow> bool" where
  "boot_ready mem mm view ds d l \<longleftrightarrow> frame_map_view mm = Some view \<and> valid_map mem view ds \<and>
     checked_memory_map mem view mm = Some (summary_of view ds) \<and>
     plan_frame_bitmaps mem view (Some zero_FrameBitmapLayout) = Some (True, Some l) \<and>
     d \<in> set ds \<and> layout_in (unat (s_conventional_top (summary_of view ds))) d l \<and>
     fb_reserved_end l \<le> UINT64_MAX - physical_memory_offset"

lemma top_bound:
  assumes "valid_map mem view ds" "d \<in> set ds" "conventional d"
  shows "unat (d_physical_start d) + bytes_of d \<le> unat (s_conventional_top (summary_of view ds))"
  unfolding summary_fields(4) [OF assms(1)] using assms(2,3) by (intro Max_ge) auto

lemma bitmap_covers_top:
  assumes "4096 dvd n"
  shows "n \<le> 8 * bitmap_size n * PAGE_SIZE"
proof -
  obtain q where "n = 4096 * q" using assms by blast
  then show ?thesis by (simp add: bitmap_size_def PAGE_SIZE_def)
qed

lemma top_aligned: "valid_map mem view ds \<Longrightarrow> 4096 dvd unat (s_conventional_top (summary_of view ds))"
proof -
  assume v: "valid_map mem view ds"
  let ?A = "insert 0 ((\<lambda>d. unat (d_physical_start d) + bytes_of d) ` set (filter conventional ds))"
  have "Max ?A \<in> ?A" by (rule Max_in) simp_all
  moreover have "4096 dvd a" if "a \<in> ?A" for a
    using that v records_good by (auto simp: valid_map_def good_def bytes_of_def)
  ultimately show ?thesis unfolding summary_fields(4) [OF v] by blast
qed

definition reserved_frames :: "FrameBitmapLayout \<Rightarrow> nat set" where
  "reserved_frames l = {unat (fb_first l) div PAGE_SIZE..<unat (fb_reserved_end l) div PAGE_SIZE}"

lemma init_frame_bitmaps_spec:
  assumes rdy: "boot_ready mem mm view ds d l"
  shows "\<exists>fr'. init_frame_bitmaps mem mm fr = Some (view, summary_of view ds, fr') \<and>
    bitmaps_ok (8 * unat (fb_bitmap_bytes l)) fr' \<and> fr_memory_size fr' = unat (s_conventional_top (summary_of view ds)) \<and>
    (\<forall>i < 8 * unat (fb_bitmap_bytes l). bit_at (fr_bitmap fr') i = bit_at (fr_usable_regions fr') i \<and>
      bit_at (fr_bitmap fr') i = ((\<exists>e \<in> set ds. allocatable e \<and> i \<in> frames_of e) \<and> i \<notin> reserved_frames l))"
proof -
  let ?top = "unat (s_conventional_top (summary_of view ds))" and ?n = "8 * unat (fb_bitmap_bytes l)"
  let ?f0 = "fr\<lparr>fr_memory_size := ?top, fr_memory_total_size := unat (s_total_bytes (summary_of view ds)),
    fr_bitmap := bitmap_init (unat (fb_bitmap_bytes l)), fr_usable_regions := bitmap_init (unat (fb_bitmap_bytes l)),
    fr_origin_frames := 0\<rparr>"
  have v: "valid_map mem view ds" and lay: "layout_in ?top d l" and d: "d \<in> set ds"
    and res: "fb_reserved_end l \<le> UINT64_MAX - physical_memory_offset" using rdy by (auto simp: boot_ready_def)
  have bs: "unat (fb_bitmap_bytes l) = bitmap_size ?top" using lay by (simp add: layout_in_def)
  have "bitmap_size ?top \<le> 2 ^ 60"
    using less_mult_imp_div_less [of ?top "2 ^ 52" 4096] by (simp add: bitmap_size_def)
  then have n64: "?n < 2 ^ 64" using bs by simp
  have ok0: "bitmaps_ok ?n ?f0" using n64 by (simp add: bitmaps_ok_def bitmap_ok_def bitmap_init_def mult.commute)
  have topn: "?top \<le> ?n * PAGE_SIZE" using bitmap_covers_top [OF top_aligned [OF v]] bs by simp
  then have le: "\<forall>e \<in> set ds. allocatable e \<longrightarrow> unat (d_physical_start e) + bytes_of e \<le> ?n * PAGE_SIZE"
    using top_bound [OF v] by (meson order_trans)
  let ?is = "[0..<unat (s_descriptor_count (summary_of view ds))]"
  have len: "unat (s_descriptor_count (summary_of view ds)) = length ds" by (rule summary_fields(1) [OF v])
  obtain f1 bm ur og where r: "boot_loop mark_descriptor mem view ?is ?f0 = Some f1"
    "both_written ?f0 (\<Union>i \<in> set ?is. if allocatable (ds ! i) then frames_of (ds ! i) else {}) True f1"
    "f1 = ?f0\<lparr>fr_origin_frames := og, fr_bitmap := bm, fr_usable_regions := ur\<rparr>"
    using mark_loop_spec [OF v le ok0, of ?is] len by auto
  note ok1 = both_written_ok [OF r(2) ok0]
  have S: "(\<Union>i \<in> set ?is. if allocatable (ds ! i) then frames_of (ds ! i) else {}) = {i. \<exists>e \<in> set ds. allocatable e \<and> i \<in> frames_of e}"
    unfolding len by (force simp: in_set_conv_nth split: if_splits)
  let ?a = "unat (fb_first l) div PAGE_SIZE" and ?e = "unat (fb_reserved_end l) div PAGE_SIZE"
  have "unat (fb_reserved_end l) \<le> ?n * PAGE_SIZE"
  proof -
    have "{unat (fb_first l)..<unat (fb_reserved_end l)} \<subseteq> region d" "allocatable d"
      using lay unfolding layout_in_def by blast+
    then have "unat (fb_first l) \<ge> unat (fb_reserved_end l) \<or> unat (fb_reserved_end l) \<le> unat (d_physical_start d) + bytes_of d"
      by (auto simp: region_def)
    moreover have "fb_first l = d_physical_start d" using lay by (simp add: layout_in_def)
    ultimately have "unat (fb_reserved_end l) \<le> unat (d_physical_start d) + bytes_of d" by auto
    then show ?thesis using le d \<open>allocatable d\<close> by (meson order_trans)
  qed
  then have en: "?e \<le> ?n" by (simp add: PAGE_SIZE_def)
  have b: "bitmap_ok bm" "?e \<le> bm_length bm" "bitmap_ok ur" "?e \<le> bm_length ur"
    using ok1 en r(3) by (simp_all add: bitmaps_ok_def)
  obtain bm2 where bm2: "bitmap_set_range bm ?a ?e False = Some bm2" "bits_written bm {?a..<?e} False bm2"
    using bitmap_set_range_written [OF b(1,2)] by blast
  obtain ur2 where ur2: "bitmap_set_range ur ?a ?e False = Some ur2" "bits_written ur {?a..<?e} False ur2"
    using bitmap_set_range_written [OF b(3,4)] by blast
  let ?f2 = "f1\<lparr>fr_bitmap := bm2, fr_usable_regions := ur2, fr_usable_frames := wrap64 (fr_origin_frames f1 + 2 ^ 64 - (?e - ?a))\<rparr>"
  have "init_frame_bitmaps mem mm fr = Some (view, summary_of view ds, ?f2)"
    using rdy r(1,3) bm2(1) ur2(1) res unfolding init_frame_bitmaps_def boot_ready_def Let_def by (simp add: not_less)
  moreover have "bitmaps_ok ?n ?f2"
    using bm2(2) ur2(2) ok1 r(3) by (simp add: bitmaps_ok_def bits_written_def)
  moreover have "fr_memory_size ?f2 = ?top" using r(3) by simp
  moreover have "bit_at (fr_bitmap ?f2) i = bit_at (fr_usable_regions ?f2) i \<and>
      bit_at (fr_bitmap ?f2) i = ((\<exists>e \<in> set ds. allocatable e \<and> i \<in> frames_of e) \<and> i \<notin> reserved_frames l)" if i: "i < ?n" for i
  proof -
    have z: "bm_length (bitmap_init (unat (fb_bitmap_bytes l))) = ?n" using n64 by (simp add: bitmap_init_def mult.commute)
    have "\<not> bit_at (bitmap_init (unat (fb_bitmap_bytes l))) i" using i by (simp add: bit_at_init)
    then have "bit_at bm i = (\<exists>e \<in> set ds. allocatable e \<and> i \<in> frames_of e)" "bit_at ur i = bit_at bm i"
      using r(2,3) i z unfolding S by (auto simp: both_written_def bits_written_def)
    moreover have "bm_length bm = ?n" "bm_length ur = ?n" using ok1 r(3) by (simp_all add: bitmaps_ok_def)
    ultimately show ?thesis using bm2(2) ur2(2) i by (auto simp: bits_written_def reserved_frames_def)
  qed
  ultimately show ?thesis by blast
qed

section \<open>Handing usable frames to the buddy allocator\<close>

definition usable :: "bitmap \<Rightarrow> nat \<Rightarrow> nat \<Rightarrow> nat set" where
  "usable bm lo hi = {a. lo \<le> a \<and> a < hi \<and> a div PAGE_SIZE < bm_length bm \<and> bit_at bm (a div PAGE_SIZE)}"

abbreviation frame_bit :: "bitmap \<Rightarrow> nat \<Rightarrow> bool" where
  "frame_bit bm a \<equiv> a div PAGE_SIZE < bm_length bm \<and> bit_at bm (a div PAGE_SIZE)"

lemma skip_frames_spec:
  assumes "bitmap_ok bm" "PAGE_SIZE dvd cur" "PAGE_SIZE dvd zend" "cur \<le> zend" "zend < 2 ^ 64"
  shows "\<exists>r. skip_frames bm v cur zend = Some r \<and> cur \<le> r \<and> r \<le> zend \<and> PAGE_SIZE dvd r \<and>
    (\<forall>a. cur \<le> a \<and> a < r \<longrightarrow> frame_bit bm a = v) \<and> (r < zend \<longrightarrow> frame_bit bm r \<noteq> v)"
  using assms
proof (induction "zend - cur" arbitrary: cur rule: less_induct)
  case less
  show ?case
  proof (cases "cur < zend \<and> frame_bit bm cur = v")
    case False
    then have "skip_frames bm v cur zend = Some cur"
      by (subst skip_frames.simps) (auto simp: bitmap_get_spec [OF less.prems(1)])
    with False less.prems show ?thesis by auto
  next
    case True
    let ?n = "cur + PAGE_SIZE"
    have n: "?n \<le> zend" "PAGE_SIZE dvd ?n" using less.prems True by (auto simp: PAGE_SIZE_def elim!: dvdE)
    then have "skip_frames bm v cur zend = skip_frames bm v ?n zend"
      using True less.prems(5) by (subst skip_frames.simps) (simp add: bitmap_get_spec [OF less.prems(1)])
    moreover have "zend - ?n < zend - cur" using True unfolding PAGE_SIZE_def by linarith
    ultimately obtain r where r: "skip_frames bm v cur zend = Some r" "?n \<le> r" "r \<le> zend" "PAGE_SIZE dvd r"
        "\<forall>a. ?n \<le> a \<and> a < r \<longrightarrow> frame_bit bm a = v" "r < zend \<longrightarrow> frame_bit bm r \<noteq> v"
      using less.hyps [of ?n] less.prems n by auto
    have "a div PAGE_SIZE = cur div PAGE_SIZE" if "cur \<le> a" "a < ?n" for a
    proof -
      obtain q where "cur = PAGE_SIZE * q" using less.prems(2) by blast
      with that show ?thesis by (auto simp: PAGE_SIZE_def intro: div_nat_eqI)
    qed
    then have "\<forall>a. cur \<le> a \<and> a < r \<longrightarrow> frame_bit bm a = v" using r(5) True by (metis not_le)
    with r show ?thesis by (intro exI [of _ r]) auto
  qed
qed

text \<open>The zones that cover memory, with bounds that leave room for the largest block.\<close>

definition zones_cover :: "frames \<Rightarrow> bool" where
  "zones_cover fr \<longleftrightarrow> (\<forall>t z. fr_zones fr t = Some z \<longrightarrow> z_start_pfn z * PAGE_SIZE < 2 ^ 64 \<and>
       z_end_pfn z * PAGE_SIZE + 2 ^ MAX_ORDER \<le> 2 ^ 64) \<and>
     (\<forall>lo hi t. lo < hi \<and> hi \<le> fr_memory_size fr \<and> phys_to_zone_type lo = t \<and> hi \<le> get_zone_boundary t \<longrightarrow>
        (\<exists>z. fr_zones fr t = Some z \<and> zone_start z \<le> lo \<and> hi \<le> zone_end z))"

lemma add_region_spec:
  assumes zs: "zones_ok fr FL" and cov: "zones_cover fr" and al: "PAGE_SIZE dvd s" "PAGE_SIZE dvd e"
    and b: "0 < s" "s < e" "e \<le> fr_memory_size fr" "e \<le> get_zone_boundary (phys_to_zone_type s)"
    and new: "{s..<e} \<inter> free_memory FL = {}"
  shows "\<exists>fr' FL'. add_region fr s e (phys_to_zone_type s) = Some fr' \<and> zones_ok fr' FL' \<and> zones_cover fr' \<and>
    free_memory FL' = free_memory FL \<union> {s..<e} \<and> (\<exists>lk zs. fr' = fr\<lparr>fr_link := lk, fr_zones := zs\<rparr>)"
proof -
  let ?t = "phys_to_zone_type s"
  obtain z where z: "fr_zones fr ?t = Some z" "zone_start z \<le> s" "e \<le> zone_end z"
    using cov b unfolding zones_cover_def by blast
  have pf: "z_start_pfn z * PAGE_SIZE < 2 ^ 64" "z_end_pfn z * PAGE_SIZE + 2 ^ MAX_ORDER \<le> 2 ^ 64"
    using cov z(1) unfolding zones_cover_def by blast+
  have pe: "z_end_pfn z * PAGE_SIZE < 2 ^ 64" using pf(2) by (simp add: order_consts)
  then have hi: "zone_end z + 2 ^ MAX_ORDER \<le> 2 ^ 64" using pf(2) by simp
  have e64: "e < 2 ^ 64" using z(3) wrap64_small by blast
  obtain q where q: "s = PAGE_SIZE * q" using al(1) by blast
  have up: "PADDING_UP s PAGE_SIZE = s"
  proof -
    have "s + PAGE_SIZE + 2 ^ 64 - 1 = (s + 4095) + 2 ^ 64" by (simp add: PAGE_SIZE_def)
    moreover have "s + 4095 < 2 ^ 64"
    proof -
      have "s + PAGE_SIZE \<le> e" using q al(2) b(2) by (auto simp: PAGE_SIZE_def elim!: dvdE)
      then show ?thesis using e64 by (simp add: PAGE_SIZE_def)
    qed
    ultimately have "wrap64 (s + PAGE_SIZE + 2 ^ 64 - 1) = s + 4095" by (simp only: mod_add_self2 mod_less)
    moreover have "(s + 4095) div PAGE_SIZE * PAGE_SIZE = s" using q by (simp add: PAGE_SIZE_def)
    ultimately show ?thesis by (simp only: PADDING_UP_def PADDING_DOWN_def)
  qed
  have dn: "PADDING_DOWN e PAGE_SIZE = e" using al(2) by (simp add: PADDING_DOWN_def)
  have mm: "max (PADDING_UP s PAGE_SIZE) (zone_start z) = s" "min (PADDING_DOWN e PAGE_SIZE) (zone_end z) = e"
    using up dn z(2,3) by simp_all
  have "s + PAGE_SIZE \<le> 2 ^ 64"
  proof -
    have "s + PAGE_SIZE \<le> e" using q al(2) b(2) by (auto simp: PAGE_SIZE_def elim!: dvdE)
    then show ?thesis using e64 by simp
  qed
  moreover have "{s..<e} \<inter> free_set (FL ?t) = {}" using new by (auto simp: free_memory_def)
  ultimately have "\<exists>lk z' fl'. add_memory_region (fr_link fr) (Some z) s e = Some (lk, Some z') \<and> zone_at lk z' fl' \<and>
      free_set fl' = free_set (FL ?t) \<union> {s..<e} \<and> links_off (free_set (FL ?t) \<union> {s..<e}) (fr_link fr) lk \<and>
      z_start_pfn z' = z_start_pfn z \<and> z_end_pfn z' = z_end_pfn z \<and>
      wrap64 (z_managed_pages z') = wrap64 (z_managed_pages z + (e - s) div PAGE_SIZE)"
    by (intro add_memory_region_inv [OF zones_okD(1) [OF zs z(1)], of s e, unfolded mm, OF b(1) _ hi pf(1) pe])
  then obtain lk z' fl' where r: "add_memory_region (fr_link fr) (Some z) s e = Some (lk, Some z')" "zone_at lk z' fl'"
      "free_set fl' = free_set (FL ?t) \<union> {s..<e}" "links_off (free_set (FL ?t) \<union> {s..<e}) (fr_link fr) lk"
      "z_start_pfn z' = z_start_pfn z" "z_end_pfn z' = z_end_pfn z"
    by (elim exE conjE)
  let ?fr = "set_zone fr ?t (lk, Some z')" and ?FL = "FL(?t := fl')"
  have "add_region fr s e ?t = Some ?fr" using r(1) z(1) by (simp add: add_region_def)
  moreover have "zones_ok ?fr ?FL"
  proof (rule zones_ok_set_zone [OF zs z(1) r(2,5,6,4)])
    show "\<forall>a \<in> free_set (FL ?t) \<union> {s..<e}. phys_to_zone_type a = ?t"
    proof (intro ballI, elim UnE)
      fix a assume "a \<in> {s..<e}"
      then have "zone_start z \<le> a" "a < zone_end z" using z(2,3) by simp_all
      then show "phys_to_zone_type a = ?t" by (rule zones_okD(3) [OF zs z(1)])
    qed (rule zone_free_type(1) [OF zs])
  qed
  moreover have "zones_cover ?fr"
  proof -
    have zq: "fr_zones ?fr = (fr_zones fr)(?t := Some z')" "fr_memory_size ?fr = fr_memory_size fr" by (simp_all add: set_zone_def)
    have "z_start_pfn y * PAGE_SIZE < 2 ^ 64 \<and> z_end_pfn y * PAGE_SIZE + 2 ^ MAX_ORDER \<le> 2 ^ 64"
      if "fr_zones ?fr q = Some y" for q y
    proof (cases "q = ?t")
      case True
      then show ?thesis using that pf unfolding zq by (simp add: r(5,6) [symmetric])
    next
      case False
      then have "fr_zones fr q = Some y" using that by (simp add: zq)
      then show ?thesis using cov unfolding zones_cover_def by blast
    qed
    moreover have "\<exists>y. fr_zones ?fr q = Some y \<and> zone_start y \<le> lo \<and> hi \<le> zone_end y"
      if h: "lo < hi \<and> hi \<le> fr_memory_size ?fr \<and> phys_to_zone_type lo = q \<and> hi \<le> get_zone_boundary q" for lo hi q
    proof -
      obtain y where "fr_zones fr q = Some y" "zone_start y \<le> lo" "hi \<le> zone_end y"
        using conjunct2 [OF cov [unfolded zones_cover_def], rule_format, of lo hi q] h unfolding zq by blast
      then show ?thesis using z(1) r(5,6) unfolding zq by (cases "q = ?t") simp_all
    qed
    ultimately show ?thesis unfolding zones_cover_def by blast
  qed
  moreover have "free_memory ?FL = free_memory FL \<union> {s..<e}"
    using free_memory_upd [OF zs, of ?t fl'] r(3) by (auto simp: free_memory_def)
  moreover have "\<exists>lk zs. ?fr = fr\<lparr>fr_link := lk, fr_zones := zs\<rparr>" by (auto simp: set_zone_def)
  ultimately show ?thesis by blast
qed

lemma process_zone_spec:
  assumes "zones_ok fr FL" "zones_cover fr" "bitmap_ok (fr_bitmap fr)"
    "PAGE_SIZE dvd cur" "PAGE_SIZE dvd zend" "0 < cur" "cur \<le> zend" "zend < 2 ^ 64" "zend \<le> fr_memory_size fr"
    "zend \<le> get_zone_boundary t" "\<forall>a. cur \<le> a \<and> a < zend \<longrightarrow> phys_to_zone_type a = t"
    "{cur..<zend} \<inter> free_memory FL = {}"
  shows "\<exists>fr' FL'. process_zone fr t cur zend = Some fr' \<and> zones_ok fr' FL' \<and> zones_cover fr' \<and>
    free_memory FL' = free_memory FL \<union> usable (fr_bitmap fr) cur zend \<and> (\<exists>lk zs. fr' = fr\<lparr>fr_link := lk, fr_zones := zs\<rparr>)"
  using assms
proof (induction "zend - cur" arbitrary: cur fr FL rule: less_induct)
  case less
  note P = less.prems
  let ?bm = "fr_bitmap fr"
  obtain u where u: "skip_frames ?bm False cur zend = Some u" "cur \<le> u" "u \<le> zend" "PAGE_SIZE dvd u"
      "\<forall>a. cur \<le> a \<and> a < u \<longrightarrow> frame_bit ?bm a = False" "u < zend \<longrightarrow> frame_bit ?bm u \<noteq> False"
    using skip_frames_spec [OF P(3-5,7,8), of False] by blast
  show ?case
  proof (cases "u < zend")
    case False
    then have "process_zone fr t cur zend = Some fr" using u(1) by (subst process_zone.simps) simp
    moreover have "usable ?bm cur zend = {}" using u(3,5) False by (auto simp: usable_def)
    ultimately show ?thesis using P(1,2) by (intro exI [of _ fr] exI [of _ FL]) (auto intro!: exI [of _ "fr_link fr"] exI [of _ "fr_zones fr"])
  next
    case True
    obtain e where e: "skip_frames ?bm True u zend = Some e" "u \<le> e" "e \<le> zend" "PAGE_SIZE dvd e"
        "\<forall>a. u \<le> a \<and> a < e \<longrightarrow> frame_bit ?bm a = True" "e < zend \<longrightarrow> frame_bit ?bm e \<noteq> True"
      using skip_frames_spec [OF P(3) u(4) P(5) u(3) P(8), of True] by blast
    have ue: "u < e"
    proof (rule ccontr)
      assume "\<not> u < e"
      then have "e = u" using e(2) by simp
      with e(6) u(6) True show False by simp
    qed
    have tu: "phys_to_zone_type u = t" using P(11) [rule_format, of u] u(2) True by simp
    have "{u..<e} \<subseteq> {cur..<zend}" using u(2) e(3) by auto
    then have "{u..<e} \<inter> free_memory FL = {}" using P(12) by blast
    then obtain fr1 FL1 lk zs where f1: "add_region fr u e t = Some fr1" "zones_ok fr1 FL1" "zones_cover fr1"
        "free_memory FL1 = free_memory FL \<union> {u..<e}" "fr1 = fr\<lparr>fr_link := lk, fr_zones := zs\<rparr>"
      using add_region_spec [OF P(1,2) u(4) e(4), unfolded tu] P(6,9,10) u(2) ue e(3) by auto
    have "\<exists>fr' FL'. process_zone fr1 t e zend = Some fr' \<and> zones_ok fr' FL' \<and> zones_cover fr' \<and>
        free_memory FL' = free_memory FL1 \<union> usable (fr_bitmap fr1) e zend \<and> (\<exists>lk zs. fr' = fr1\<lparr>fr_link := lk, fr_zones := zs\<rparr>)"
    proof (rule less.hyps [OF _ f1(2,3)])
      show "\<forall>a. e \<le> a \<and> a < zend \<longrightarrow> phys_to_zone_type a = t" using P(11) u(2) ue by auto
      have "{e..<zend} \<subseteq> {cur..<zend} - {u..<e}" using u(2) ue by auto
      then show "{e..<zend} \<inter> free_memory FL1 = {}" using P(12) f1(4) by auto
    qed (use P(3,5,6,8-10) e(3,4) f1(5) ue u(2) True in auto)
    then obtain fr2 FL2 lk2 zs2 where f2: "process_zone fr1 t e zend = Some fr2" "zones_ok fr2 FL2" "zones_cover fr2"
        "free_memory FL2 = free_memory FL1 \<union> usable ?bm e zend" "fr2 = fr\<lparr>fr_link := lk2, fr_zones := zs2\<rparr>"
      using f1(5) by auto
    have run: "process_zone fr t cur zend = Some fr2"
      using u(1,2) True e(1) ue f1(1) f2(1) by (subst process_zone.simps) simp
    have "usable ?bm cur zend = {u..<e} \<union> usable ?bm e zend"
    proof (intro set_eqI iffI)
      fix a assume a: "a \<in> usable ?bm cur zend"
      then have "\<not> a < u" using u(5) by (auto simp: usable_def)
      then show "a \<in> {u..<e} \<union> usable ?bm e zend" using a by (auto simp: usable_def)
    next
      fix a assume "a \<in> {u..<e} \<union> usable ?bm e zend"
      then show "a \<in> usable ?bm cur zend" using e(2,3,5) u(2) ue by (auto simp: usable_def)
    qed
    then show ?thesis using run f1(4) f2 by (intro exI [of _ fr2] exI [of _ FL2]) auto
  qed
qed

lemma zone_boundary:
  assumes "phys_to_zone_type lo = t" "lo \<le> a" "a < get_zone_boundary t"
  shows "phys_to_zone_type a = t"
  using assms by (auto simp: phys_to_zone_type_def ZONE_DMA_END_def ZONE_DMA32_END_def split: if_splits)

lemma zone_boundary_above: "a < 2 ^ 64 - 1 \<Longrightarrow> a < get_zone_boundary (phys_to_zone_type a)"
  by (auto simp: phys_to_zone_type_def)

lemma zone_boundary_aligned:
  assumes "PAGE_SIZE dvd hi" "hi < 2 ^ 64"
  shows "PAGE_SIZE dvd min (get_zone_boundary t) hi"
proof (cases t)
  case ZONE_NORMAL
  obtain q where "hi = 4096 * q" using assms(1) by (auto simp: PAGE_SIZE_def)
  then have "hi \<le> 2 ^ 64 - 1" using assms(2) by simp
  then show ?thesis using ZONE_NORMAL assms(1) by (simp add: min_def)
qed (use assms in \<open>auto simp: min_def ZONE_DMA_END_def ZONE_DMA32_END_def PAGE_SIZE_def\<close>)

lemma process_zones_spec:
  assumes "zones_ok fr FL" "zones_cover fr" "bitmap_ok (fr_bitmap fr)"
    "PAGE_SIZE dvd cur" "PAGE_SIZE dvd fin" "0 < cur" "cur \<le> fin" "fin < 2 ^ 64" "fin \<le> fr_memory_size fr"
    "{cur..<fin} \<inter> free_memory FL = {}"
  shows "\<exists>fr' FL'. process_zones fr cur fin = Some fr' \<and> zones_ok fr' FL' \<and> zones_cover fr' \<and>
    free_memory FL' = free_memory FL \<union> usable (fr_bitmap fr) cur fin \<and> (\<exists>lk zs. fr' = fr\<lparr>fr_link := lk, fr_zones := zs\<rparr>)"
  using assms
proof (induction "fin - cur" arbitrary: cur fr FL rule: less_induct)
  case less
  note P = less.prems
  show ?case
  proof (cases "cur < fin")
    case False
    then have "process_zones fr cur fin = Some fr" by (subst process_zones.simps) simp
    moreover have "usable (fr_bitmap fr) cur fin = {}" using False by (auto simp: usable_def)
    ultimately show ?thesis using P(1,2) by (intro exI [of _ fr] exI [of _ FL]) (auto intro!: exI [of _ "fr_link fr"] exI [of _ "fr_zones fr"])
  next
    case True
    define t where "t = phys_to_zone_type cur"
    define ze where "ze = min (get_zone_boundary t) fin"
    have cz: "cur < ze" using True P(8) zone_boundary_above [of cur] by (simp add: ze_def t_def)
    have zt: "\<forall>a. cur \<le> a \<and> a < ze \<longrightarrow> phys_to_zone_type a = t"
    proof (intro allI impI)
      fix a assume "cur \<le> a \<and> a < ze"
      then have "cur \<le> a" "a < get_zone_boundary t" by (simp_all add: ze_def)
      then show "phys_to_zone_type a = t" by (rule zone_boundary [OF t_def [symmetric]])
    qed
    have zl: "ze \<le> fin" "ze \<le> get_zone_boundary t" by (simp_all add: ze_def)
    have za: "PAGE_SIZE dvd ze" unfolding ze_def by (rule zone_boundary_aligned [OF P(5,8)])
    have sub: "{cur..<ze} \<inter> free_memory FL = {}" using P(10) zl(1) by fastforce
    obtain fr1 FL1 lk zs where f1: "process_zone fr t cur ze = Some fr1" "zones_ok fr1 FL1" "zones_cover fr1"
        "free_memory FL1 = free_memory FL \<union> usable (fr_bitmap fr) cur ze" "fr1 = fr\<lparr>fr_link := lk, fr_zones := zs\<rparr>"
      using process_zone_spec [OF P(1-4) za P(6) _ _ _ zl(2) zt sub] cz zl(1) P(8,9) by auto
    have "\<exists>fr' FL'. process_zones fr1 ze fin = Some fr' \<and> zones_ok fr' FL' \<and> zones_cover fr' \<and>
        free_memory FL' = free_memory FL1 \<union> usable (fr_bitmap fr1) ze fin \<and> (\<exists>lk zs. fr' = fr1\<lparr>fr_link := lk, fr_zones := zs\<rparr>)"
    proof (rule less.hyps [OF _ f1(2,3)])
      have "{ze..<fin} \<subseteq> {cur..<fin}" "{ze..<fin} \<inter> usable (fr_bitmap fr) cur ze = {}" using cz by (auto simp: usable_def)
      then show "{ze..<fin} \<inter> free_memory FL1 = {}" using P(10) unfolding f1(4) by blast
    qed (use P(3,5-9) za zl cz f1(5) True in auto)
    then obtain fr2 FL2 lk2 zs2 where f2: "process_zones fr1 ze fin = Some fr2" "zones_ok fr2 FL2" "zones_cover fr2"
        "free_memory FL2 = free_memory FL1 \<union> usable (fr_bitmap fr) ze fin" "fr2 = fr\<lparr>fr_link := lk2, fr_zones := zs2\<rparr>"
      using f1(5) by auto
    have "process_zones fr cur fin = Some fr2"
      using True f1(1) f2(1) unfolding t_def ze_def by (subst process_zones.simps) (simp add: Let_def)
    moreover have "usable (fr_bitmap fr) cur fin = usable (fr_bitmap fr) cur ze \<union> usable (fr_bitmap fr) ze fin"
      using cz zl(1) by (auto simp: usable_def)
    ultimately show ?thesis using f1(4) f2 by (intro exI [of _ fr2] exI [of _ FL2]) auto
  qed
qed

lemma padding_up_small:
  assumes "a + PAGE_SIZE \<le> 2 ^ 64"
  shows "PADDING_UP a PAGE_SIZE = (a + 4095) div PAGE_SIZE * PAGE_SIZE"
proof -
  have "a + PAGE_SIZE + 2 ^ 64 - 1 = (a + 4095) + 2 ^ 64" by (simp add: PAGE_SIZE_def)
  moreover have "a + 4095 < 2 ^ 64" using assms by (simp add: PAGE_SIZE_def)
  ultimately have "wrap64 (a + PAGE_SIZE + 2 ^ 64 - 1) = a + 4095" by (simp only: mod_add_self2 mod_less)
  then show ?thesis by (simp only: PADDING_UP_def PADDING_DOWN_def)
qed

lemma process_memory_region_spec:
  assumes "zones_ok fr FL" "zones_cover fr" "bitmap_ok (fr_bitmap fr)" "0 < start" "start + PAGE_SIZE \<le> 2 ^ 64"
    "fin < 2 ^ 64" "fin \<le> fr_memory_size fr" "{start..<fin} \<inter> free_memory FL = {}"
  shows "\<exists>fr' FL'. process_memory_region fr start fin = Some fr' \<and> zones_ok fr' FL' \<and> zones_cover fr' \<and>
    free_memory FL' = free_memory FL \<union> usable (fr_bitmap fr) (PADDING_UP start PAGE_SIZE) (PADDING_DOWN fin PAGE_SIZE) \<and>
    (\<exists>lk zs. fr' = fr\<lparr>fr_link := lk, fr_zones := zs\<rparr>)"
proof -
  let ?s = "PADDING_UP start PAGE_SIZE" and ?e = "PADDING_DOWN fin PAGE_SIZE"
  have s: "start \<le> ?s" "PAGE_SIZE dvd ?s"
    unfolding padding_up_small [OF assms(5)] by (simp_all add: PAGE_SIZE_def)
  have e: "?e \<le> fin" "PAGE_SIZE dvd ?e" by (simp_all add: PADDING_DOWN_def)
  show ?thesis
  proof (cases "?s < ?e")
    case False
    then have "process_memory_region fr start fin = Some fr" by (simp add: process_memory_region_def)
    moreover have "usable (fr_bitmap fr) ?s ?e = {}" using False by (auto simp: usable_def)
    ultimately show ?thesis using assms(1,2) by (intro exI [of _ fr] exI [of _ FL]) (auto intro!: exI [of _ "fr_link fr"] exI [of _ "fr_zones fr"])
  next
    case True
    then have "process_memory_region fr start fin = process_zones fr ?s ?e" by (simp add: process_memory_region_def)
    moreover have "{?s..<?e} \<inter> free_memory FL = {}"
    proof -
      have "{?s..<?e} \<subseteq> {start..<fin}" using s(1) e(1) by auto
      then show ?thesis using assms(8) by blast
    qed
    ultimately show ?thesis using process_zones_spec [OF assms(1-3) s(2) e(2)] True s(1) e(1) assms(4,6,7) by simp
  qed
qed

section \<open>Properties\<close>

lemma boot_readyI:
  assumes view: "frame_map_view mm = Some view" and rd: "readable mem view" and v: "valid_map mem view ds"
    and own: "unat (mm_Buffer mm) + unat (mm_MapSize mm) + 4095 < 2 ^ 64"
      "\<forall>a. page_start (mm_Buffer mm) \<le> a \<and> a < page_end (mm_Buffer mm) (mm_MapSize mm) \<longrightarrow> covered ds loader_and_boot_services a"
    and t: "t = unat (s_conventional_top (summary_of view ds))" "0 < t" "t < 2 ^ 47"
    and room: "e \<in> set ds" "allocatable e" "2 * storage_size t \<le> bytes_of e"
  shows "\<exists>d l. boot_ready mem mm view ds d l"
proof -
  have uniq: "ds' = ds" if "valid_map mem view ds'" for ds'
    using that v records_unique by (auto simp: valid_map_def)
  have "validated mem view = Some (Some (summary_of view ds))" using validated_spec [OF rd] uniq v by blast
  moreover obtain sp where "covered_span mem view (mm_Buffer mm) (mm_MapSize mm) loader_and_boot_services (Some zero_PhysicalSpan) = Some (True, sp)"
  proof -
    have "mm_MapSize mm \<noteq> 0" using view by (auto simp: frame_map_view_def Let_def split: if_splits)
    with v own have acc: "\<exists>ds. valid_map mem view ds \<and> mm_MapSize mm \<noteq> 0 \<and> unat (mm_Buffer mm) + unat (mm_MapSize mm) + 4095 < 2 ^ 64 \<and>
        (\<forall>a. page_start (mm_Buffer mm) \<le> a \<and> a < page_end (mm_Buffer mm) (mm_MapSize mm) \<longrightarrow> covered ds loader_and_boot_services a)"
      by (intro exI [of _ ds] conjI)
    obtain ok sp where r: "covered_span mem view (mm_Buffer mm) (mm_MapSize mm) loader_and_boot_services (Some zero_PhysicalSpan) = Some (ok, Some sp)"
      "ok \<longleftrightarrow> (\<exists>ds. valid_map mem view ds \<and> mm_MapSize mm \<noteq> 0 \<and> unat (mm_Buffer mm) + unat (mm_MapSize mm) + 4095 < 2 ^ 64 \<and>
        (\<forall>a. page_start (mm_Buffer mm) \<le> a \<and> a < page_end (mm_Buffer mm) (mm_MapSize mm) \<longrightarrow> covered ds loader_and_boot_services a))"
      using covered_span_cases [OF rd, of "mm_Buffer mm" "mm_MapSize mm" loader_and_boot_services zero_PhysicalSpan]
      by (elim exE conjE)
    from r(2) acc have ok by (rule iffD2)
    with r(1) show ?thesis using that by simp
  qed
  ultimately have chk: "checked_memory_map mem view mm = Some (summary_of view ds)" by (simp add: checked_memory_map_def)
  obtain ok l where pl: "plan_frame_bitmaps mem view (Some zero_FrameBitmapLayout) = Some (ok, Some l)"
    "ok \<longrightarrow> (\<exists>ds. valid_map mem view ds \<and> (\<exists>d \<in> set ds. layout_in (unat (s_conventional_top (summary_of view ds))) d l))"
    "\<not> ok \<longrightarrow> l = zero_FrameBitmapLayout \<and> (\<forall>ds. valid_map mem view ds \<longrightarrow> s_conventional_top (summary_of view ds) = 0 \<or>
       (\<forall>d \<in> set ds. \<not> (allocatable d \<and> 2 * storage_size (unat (s_conventional_top (summary_of view ds))) \<le> bytes_of d)))"
    using plan_frame_bitmaps_cases [OF rd, of zero_FrameBitmapLayout] by (elim exE conjE)
  have "s_conventional_top (summary_of view ds) \<noteq> 0" using t(1,2) by auto
  then have ok using pl(3) v room unfolding t(1) by blast
  with pl(2) uniq obtain d where d: "d \<in> set ds" "layout_in t d l" unfolding t(1) by metis
  have "unat (fb_reserved_end l) \<le> t"
  proof -
    have "{unat (fb_first l)..<unat (fb_reserved_end l)} \<subseteq> region d" "allocatable d" "fb_first l = d_physical_start d"
      using d(2) unfolding layout_in_def by blast+
    then have "unat (fb_reserved_end l) \<le> unat (d_physical_start d) + bytes_of d" by (auto simp: region_def)
    then show ?thesis using top_bound [OF v d(1)] \<open>allocatable d\<close> unfolding t(1) by simp
  qed
  then have "fb_reserved_end l \<le> UINT64_MAX - physical_memory_offset"
    using t(3) by (simp add: word_le_nat_alt physical_memory_offset_def)
  then show ?thesis using view v chk pl(1) \<open>ok\<close> d unfolding boot_ready_def t(1)
    by (intro exI [of _ d] exI [of _ l]) simp
qed

text \<open>
  C37. For every valid firmware map that is readable through the window, lies in
  loader or boot-services memory itself and has a conventional region for the two bitmaps, the first
  part of \<open>init_frame\<close> (\<open>init_frame_bitmaps\<close>) builds two equal bitmaps. Just behind it, before \<open>early_alloc\<close> takes
  frames for the page tables and the zones, a frame's bit is set exactly when the frame belongs to a
  conventional descriptor that starts at or above 1 MiB and not to the storage of the bitmaps. A region that
  starts below 1 MiB is left out as a whole, also where it reaches above.
\<close>

theorem init_bitmaps_exact:
  assumes "frame_map_view mm = Some view" "readable mem view" "valid_map mem view ds"
    "unat (mm_Buffer mm) + unat (mm_MapSize mm) + 4095 < 2 ^ 64"
    "\<forall>a. page_start (mm_Buffer mm) \<le> a \<and> a < page_end (mm_Buffer mm) (mm_MapSize mm) \<longrightarrow> covered ds loader_and_boot_services a"
    "t = unat (s_conventional_top (summary_of view ds))" "0 < t" "t < 2 ^ 47"
    "e \<in> set ds" "allocatable e" "2 * storage_size t \<le> bytes_of e"
  shows "\<exists>d l fr'. d \<in> set ds \<and> layout_in t d l \<and> init_frame_bitmaps mem mm fr = Some (view, summary_of view ds, fr') \<and>
    t \<le> 8 * unat (fb_bitmap_bytes l) * PAGE_SIZE \<and> fr_memory_size fr' = t \<and>
    (\<forall>i < 8 * unat (fb_bitmap_bytes l). bit_at (fr_bitmap fr') i = bit_at (fr_usable_regions fr') i \<and>
      bit_at (fr_bitmap fr') i = ((\<exists>e \<in> set ds. allocatable e \<and> i \<in> frames_of e) \<and> i \<notin> reserved_frames l))"
proof -
  obtain d l where r: "boot_ready mem mm view ds d l" using boot_readyI [OF assms] by blast
  then have d: "d \<in> set ds" "layout_in t d l" using assms(6) by (simp_all add: boot_ready_def)
  then have "t \<le> 8 * unat (fb_bitmap_bytes l) * PAGE_SIZE"
    using bitmap_covers_top [OF top_aligned [OF assms(3)]] assms(6) by (simp add: layout_in_def)
  then show ?thesis using init_frame_bitmaps_spec [OF r, of fr] d unfolding assms(6) [symmetric] by blast
qed

text \<open>Sixteen pages of memory with a free block of two pages at \<open>0x4000\<close>.\<close>

definition sample_frames :: frames where
  "sample_frames = \<lparr>fr_bitmap = \<lparr>bm_buffer = [0xff, 0xff], bm_length = 16\<rparr>, fr_origin_frames = 16, fr_usable_frames = 16,
     fr_usable_regions = \<lparr>bm_buffer = [0xff, 0xff], bm_length = 16\<rparr>, fr_memory_size = 0x10000, fr_memory_total_size = 0x10000,
     fr_op_lock = False, fr_page_maps = Some (replicate 16 0), fr_zones = (\<lambda>_. None)(ZONE_DMA := Some (sample_zone\<lparr>z_managed_pages := 16\<rparr>)), fr_nr_zones = 1,
     fr_using_regions = \<lparr>bm_buffer = [0, 0], bm_length = 16\<rparr>, fr_link = (\<lambda>_. 0)\<rparr>"

text \<open>The firmware map of the samples, stored at 1 MiB.\<close>

definition sample_boot_map :: MEMORY_MAP where
  "sample_boot_map = \<lparr>mm_MapSize = 80, mm_Buffer = 0x100000, mm_MapKey = 0, mm_DescriptorSize = 40, mm_DescriptorVersion = 1\<rparr>"

definition sample_boot_view :: MapView where
  "sample_boot_view = \<lparr>mv_bytes = 0xffff800000100000, mv_buffer_bytes = 80, mv_map_bytes = 80, mv_descriptor_bytes = 40\<rparr>"

definition sample_boot_mem :: memory where
  "sample_boot_mem a = sample_mem (a - 0xffff8000000ff000)"

lemma copy_field_shift: "copy_field (\<lambda>a. mem (a - d)) n a = copy_field mem n (a - d)"
proof (induction n arbitrary: a)
  case (Suc n)
  show ?case using Suc.IH [of "a + 1"] by (simp add: algebra_simps)
qed simp

lemma sample_boot_records: "read_descriptor sample_boot_mem sample_boot_view i = read_descriptor sample_mem sample_view i"
proof -
  have m: "sample_boot_mem = (\<lambda>a. sample_mem (a - 0xffff8000000ff000))" by (simp add: sample_boot_mem_def fun_eq_iff)
  have v: "mv_descriptor_bytes sample_boot_view = mv_descriptor_bytes sample_view"
    "mv_bytes sample_boot_view + x - 0xffff8000000ff000 = mv_bytes sample_view + x" for x
    by (simp_all add: sample_boot_view_def sample_view_def algebra_simps)
  show ?thesis unfolding read_descriptor_def Let_def m copy_field_shift v add.assoc by simp
qed

lemma sample_boot_readable: "readable sample_boot_mem sample_boot_view"
proof -
  have "mv_bytes sample_boot_view + x - 0xffff8000000ff000 = mv_bytes sample_view + x" for x
    by (simp add: sample_boot_view_def sample_view_def algebra_simps)
  then show ?thesis using sample_readable
    by (simp add: readable_def sample_boot_mem_def) (simp add: sample_boot_view_def sample_view_def)
qed

lemma sample_boot_valid: "valid_map sample_boot_mem sample_boot_view sample_descriptors"
proof -
  have "record_count sample_boot_view = record_count sample_view" by (simp add: sample_boot_view_def sample_view_def)
  then have "records sample_boot_mem sample_boot_view sample_descriptors"
    using sample_records by (simp add: records_read sample_boot_records)
  moreover have "structural_bounds sample_boot_view"
    by (simp add: structural_bounds_def sample_boot_view_def descriptor_prefix_bytes_def maximum_descriptors_def)
  ultimately show ?thesis using sample_valid by (simp add: valid_map_def)
qed

lemma sample_boot_top: "unat (s_conventional_top (summary_of sample_boot_view sample_descriptors)) = 0x300000"
  by (simp add: summary_fields [OF sample_boot_valid] sample_filters sample_sizes)

theorem init_bitmaps_exact_witness:
  "\<exists>fr'. init_frame_bitmaps sample_boot_mem sample_boot_map sample_frames = Some (sample_boot_view, summary_of sample_boot_view sample_descriptors, fr') \<and>
     fr_memory_size fr' = 0x300000"
proof -
  have v: "frame_map_view sample_boot_map = Some sample_boot_view"
    by (simp add: frame_map_view_def sample_boot_map_def sample_boot_view_def phys_to_virt_def physical_memory_offset_def)
  have "\<forall>a. page_start 0x100000 \<le> a \<and> a < page_end 0x100000 80 \<longrightarrow> covered sample_descriptors loader_and_boot_services a"
    by (simp add: covered_def sample_descriptors_def region_def bytes_of_def)
  moreover have "hd sample_descriptors \<in> set sample_descriptors" "allocatable (hd sample_descriptors)"
    by (simp_all add: sample_descriptors_def conventional_memory_def minimum_allocatable_def)
  moreover have "2 * storage_size 0x300000 \<le> bytes_of (hd sample_descriptors)"
    by (simp add: storage_size_def bitmap_size_def sample_sizes)
  moreover have "unat (mm_Buffer sample_boot_map) + unat (mm_MapSize sample_boot_map) + 4095 < 2 ^ 64" by (simp add: sample_boot_map_def)
  ultimately have "\<exists>d l fr'. d \<in> set sample_descriptors \<and> layout_in 0x300000 d l \<and>
      init_frame_bitmaps sample_boot_mem sample_boot_map sample_frames = Some (sample_boot_view, summary_of sample_boot_view sample_descriptors, fr') \<and>
      0x300000 \<le> 8 * unat (fb_bitmap_bytes l) * PAGE_SIZE \<and> fr_memory_size fr' = 0x300000 \<and>
      (\<forall>i < 8 * unat (fb_bitmap_bytes l). bit_at (fr_bitmap fr') i = bit_at (fr_usable_regions fr') i \<and>
        bit_at (fr_bitmap fr') i = ((\<exists>e \<in> set sample_descriptors. allocatable e \<and> i \<in> frames_of e) \<and> i \<notin> reserved_frames l))"
    by (intro init_bitmaps_exact [OF v sample_boot_readable sample_boot_valid _ _ sample_boot_top [symmetric]])
       (simp_all add: sample_boot_map_def)
  then show ?thesis by (elim exE conjE) (intro exI conjI)
qed

definition sample_free :: "zone_type \<Rightarrow> lists" where
  "sample_free = (\<lambda>_ _. [])(ZONE_DMA := sample_lists)"

lemma sample_free_memory: "free_memory sample_free = {0x4000..<0x6000}"
proof -
  have "free_set (sample_free t) = (if t = ZONE_DMA then {0x4000..<0x6000} else {})" for t
    using sample_free_set by (simp add: sample_free_def free_set_def blocks_def)
  then show ?thesis by (auto simp: free_memory_def split: if_splits)
qed

lemma sample_frames_ok: "frames_ok sample_frames sample_free (replicate 16 0)"
proof -
  have z: "zone_start sample_zone = 0" "zone_end sample_zone = 0x10000"
    by (simp_all add: sample_zone_def init_zone_def PAGE_SIZE_def)
  have zm: "zone_at lk (y\<lparr>z_managed_pages := n\<rparr>) fl = zone_at lk y fl" for lk y n fl
    by (simp add: zone_at_def zone_inv_def zone_lists_def)
  have "zones_ok sample_frames sample_free"
    unfolding zones_ok_def
  proof
    fix t
    show "case fr_zones sample_frames t of None \<Rightarrow> sample_free t = (\<lambda>_. [])
      | Some z \<Rightarrow> zone_at (fr_link sample_frames) z (sample_free t) \<and> zone_end z \<le> fr_memory_size sample_frames \<and>
          (\<forall>a. zone_start z \<le> a \<and> a < zone_end z \<longrightarrow> phys_to_zone_type a = t)"
      using sample_zone_at z by (simp add: zm sample_frames_def sample_free_def phys_to_zone_type_def ZONE_DMA_END_def)
  qed
  moreover have "maps_ok sample_frames (replicate 16 0)" by (simp add: maps_ok_def sample_frames_def PAGE_SIZE_def)
  moreover have "\<not> bit_at (fr_using_regions sample_frames) i \<and> replicate 16 (0 :: int) ! i = 0" if "i * PAGE_SIZE \<in> free_memory sample_free" for i
  proof -
    have "i = 4 \<or> i = 5" using that unfolding sample_free_memory PAGE_SIZE_def by auto
    then show ?thesis by (auto simp: bit_at_def sample_frames_def)
  qed
  ultimately show ?thesis by (simp add: frames_ok_def bitmap_ok_def) (simp add: sample_frames_def)
qed

text \<open>A zone of the fallback chain that has a block of the order or larger.\<close>

definition can_serve :: "frames \<Rightarrow> (zone_type \<Rightarrow> lists) \<Rightarrow> nat \<Rightarrow> zone_type \<Rightarrow> bool" where
  "can_serve fr FL k t \<longleftrightarrow> zone_has_memory (fr_zones fr t) \<and> k \<in> orders \<and> (\<exists>j. k \<le> j \<and> j < MAX_ORDER \<and> FL t j \<noteq> [])"

lemma try_zone_served:
  assumes ok: "zones_ok fr FL" and c: "0 < count" "count_to_order count = Some k"
  shows "\<exists>b fr'. try_zone fr t count = Some (b, fr') \<and> (b \<noteq> 0 \<longleftrightarrow> can_serve fr FL k t) \<and>
    (b = 0 \<longrightarrow> zones_ok fr' FL \<and> can_serve fr' FL k = can_serve fr FL k)"
proof (cases "zone_has_memory (fr_zones fr t)")
  case False
  then show ?thesis using ok by (simp add: try_zone_def can_serve_def)
next
  case True
  then obtain z where z: "fr_zones fr t = Some z" by (auto simp: zone_has_memory_def split: option.splits)
  from zone_alloc_total [OF zones_okD(1) [OF ok z] c] obtain b lk' z' fl' where
    r: "buddy_alloc_zone (fr_link fr) (Some z) count = Some (b, lk', Some z')" "zone_at lk' z' fl'" "same_bounds z z'"
      "links_off (free_set (FL t)) (fr_link fr) lk'"
      "if k \<in> orders \<and> (\<exists>j. k \<le> j \<and> j < MAX_ORDER \<and> FL t j \<noteq> [])
       then b \<noteq> 0 \<and> zone_block z k b \<and> free_set (FL t) = free_set fl' \<union> span k b \<and> span k b \<inter> free_set fl' = {}
       else b = 0 \<and> fl' = FL t" by blast
  let ?fr = "set_zone fr t (lk', Some z')"
  have run: "try_zone fr t count = Some (b, ?fr)" using True z r(1) by (simp add: try_zone_def)
  have "b \<noteq> 0 \<longleftrightarrow> can_serve fr FL k t" using r(5) True unfolding can_serve_def by (cases "b = 0") (auto split: if_splits)
  moreover have "zones_ok ?fr FL" if "b = 0"
  proof -
    have "FL(t := fl') = FL" using r(5) that by (auto split: if_splits)
    then show ?thesis
      using zones_ok_set_zone [OF ok z r(2) _ _ r(4)] r(3) zone_free_type(1) [OF ok] by (auto simp: same_bounds_def)
  qed
  moreover have "can_serve ?fr FL k = can_serve fr FL k"
    using r(3) z by (auto simp: can_serve_def zone_has_memory_def same_bounds_def fun_eq_iff)
  ultimately show ?thesis using run by (intro exI conjI) auto
qed

lemma try_zones_served:
  assumes "zones_ok fr FL" and c: "0 < count" "count_to_order count = Some k"
  shows "\<exists>b fr'. try_zones fr ts count = Some (b, fr') \<and> (b \<noteq> 0 \<longleftrightarrow> (\<exists>t \<in> set ts. can_serve fr FL k t))"
  using assms(1)
proof (induction ts arbitrary: fr)
  case (Cons t ts)
  obtain b fr' where r: "try_zone fr t count = Some (b, fr')" "b \<noteq> 0 \<longleftrightarrow> can_serve fr FL k t"
      "b = 0 \<longrightarrow> zones_ok fr' FL \<and> can_serve fr' FL k = can_serve fr FL k"
    using try_zone_served [OF Cons.prems c, of t] by blast
  then show ?case using Cons.IH [of fr'] by (cases "b = 0") auto
qed simp

lemma alloc_from_served:
  assumes "frames_ok fr FL ps" "0 < count" "count_to_order count = Some k" "alloc_from ts fr count = Some (b, fr')"
  shows "b \<noteq> 0 \<longleftrightarrow> (\<exists>t \<in> set ts. can_serve fr FL k t)"
proof -
  have "zones_ok fr FL" using assms(1) by (simp add: frames_ok_def)
  from try_zones_served [OF this assms(2,3), of ts] obtain c fr1 where
    r: "try_zones fr ts count = Some (c, fr1)" "c \<noteq> 0 \<longleftrightarrow> (\<exists>t \<in> set ts. can_serve fr FL k t)" by blast
  with assms(2,4) have "c = b" by (auto simp: alloc_from_def bind_eq_Some_conv split: if_splits)
  with r(2) show ?thesis by simp
qed

text \<open>
  C19. \<open>alloc_frames\<close> returns the null address exactly when no zone has a block of the
  order or larger, and then changes no free memory, mark or count. Otherwise it takes one aligned
  block of at least \<open>count\<close> pages out of the free memory, marks exactly its pages as in use and gives
  each of them its first reference.
\<close>

theorem alloc_frames_claims:
  assumes "frames_ok fr FL ps" "0 < count" "count \<le> 2 ^ 63" "count_to_order count = Some k"
  shows "\<exists>b fr' FL' ps'. alloc_frames fr count = Some (b, fr') \<and> frames_ok fr' FL' ps' \<and>
    (b \<noteq> 0 \<longleftrightarrow> (\<exists>t. can_serve fr FL k t)) \<and>
    (if b = 0 then free_memory FL' = free_memory FL \<and> ps' = ps \<and> fr_using_regions fr' = fr_using_regions fr
     else 2 ^ k dvd b \<and> count \<le> order_to_pages k \<and>
       free_memory FL = free_memory FL' \<union> span k b \<and> span k b \<inter> free_memory FL' = {} \<and>
       bits_written (fr_using_regions fr) (page_range k b) True (fr_using_regions fr') \<and>
       ps' = bump 1 ps (b div PAGE_SIZE) (order_to_pages k) \<and> (\<forall>i \<in> page_range k b. ps' ! i = 1))"
proof -
  let ?ts = "[ZONE_NORMAL, ZONE_DMA32, ZONE_DMA]"
  obtain b fr' FL' ps' where r: "alloc_frames fr count = Some (b, fr')" "frames_ok fr' FL' ps'"
    "if b = 0 then free_memory FL' = free_memory FL \<and> ps' = ps \<and> fr_using_regions fr' = fr_using_regions fr
     else k \<in> orders \<and> 2 ^ k dvd b \<and> count \<le> order_to_pages k \<and> phys_to_zone_type b \<in> set ?ts \<and>
       free_memory FL = free_memory FL' \<union> span k b \<and> span k b \<inter> free_memory FL' = {} \<and>
       bits_written (fr_using_regions fr) (page_range k b) True (fr_using_regions fr') \<and>
       ps' = bump 1 ps (b div PAGE_SIZE) (order_to_pages k) \<and> (\<forall>i \<in> page_range k b. ps' ! i = 1)"
    using alloc_from_spec [OF assms, of ?ts] unfolding alloc_frames_def by (elim exE conjE)
  have "(\<exists>t. can_serve fr FL k t) = (\<exists>t \<in> set ?ts. can_serve fr FL k t)" by (metis (full_types) list.set_intros zone_type.exhaust)
  then have "b \<noteq> 0 \<longleftrightarrow> (\<exists>t. can_serve fr FL k t)"
    using alloc_from_served [OF assms(1,2,4) r(1) [unfolded alloc_frames_def]] by simp
  with r show ?thesis by (intro exI [of _ b] exI [of _ fr'] exI [of _ FL'] exI [of _ ps']) (cases "b = 0"; auto)
qed

theorem alloc_frames_claims_witness:
  "\<exists>b fr' FL' ps'. alloc_frames sample_frames 1 = Some (b, fr') \<and> frames_ok fr' FL' ps' \<and> b \<noteq> 0 \<and>
     {0x4000..<0x6000} = free_memory FL' \<union> span 12 b"
proof -
  obtain b fr' FL' ps' where r: "alloc_frames sample_frames 1 = Some (b, fr')" "frames_ok fr' FL' ps'"
    "b \<noteq> 0 \<longleftrightarrow> (\<exists>t. can_serve sample_frames sample_free 12 t)" "b \<noteq> 0 \<longrightarrow> {0x4000..<0x6000} = free_memory FL' \<union> span 12 b"
    using alloc_frames_claims [OF sample_frames_ok _ _ count_to_order_1] unfolding sample_free_memory
    by (auto split: if_splits)
  have "can_serve sample_frames sample_free 12 ZONE_DMA"
    unfolding can_serve_def
    by (auto simp: sample_frames_def zone_has_memory_def sample_zone_def init_zone_def sample_free_def sample_lists_def
        order_consts intro!: exI [of _ 13])
  with r show ?thesis by blast
qed

text \<open>
  C20. Freeing a block in use whose pages all have one reference returns, gives exactly
  the block back to the free memory, clears its marks and takes the references away.
\<close>

theorem free_frames_returns:
  assumes "frames_ok fr FL ps" "0 < count" "count \<le> 2 ^ 63" "count_to_order count = Some k"
    "used_block fr FL k b" "\<forall>i \<in> page_range k b. ps ! i = 1"
  shows "\<exists>fr' FL' ps'. free_frames fr b count = Some fr' \<and> frames_ok fr' FL' ps' \<and>
    free_memory FL' = free_memory FL \<union> span k b \<and>
    bits_written (fr_using_regions fr) (page_range k b) False (fr_using_regions fr') \<and>
    ps' = bump (- 1) ps (b div PAGE_SIZE) (order_to_pages k)"
  using assms by (rule free_frames_owned)

text \<open>The sample state with pages 6 and 7 handed out, referenced \<open>n\<close> and \<open>m\<close> times.\<close>

definition sample_used :: "int \<Rightarrow> int \<Rightarrow> frames" where
  "sample_used n m = sample_frames\<lparr>fr_using_regions := \<lparr>bm_buffer = [0xc0, 0], bm_length = 16\<rparr>,
     fr_page_maps := Some ((replicate 16 0)[6 := n, 7 := m])\<rparr>"

lemma sample_used_ok: "frames_ok (sample_used n m) sample_free ((replicate 16 0)[6 := n, 7 := m])"
proof -
  have "zones_ok (sample_used n m) sample_free" "maps_ok (sample_used n m) ((replicate 16 0)[6 := n, 7 := m])"
    using sample_frames_ok by (simp_all add: frames_ok_def sample_used_def maps_ok_def)
  moreover have "\<not> bit_at (fr_using_regions (sample_used n m)) i \<and> (replicate 16 0)[6 := n, 7 := m] ! i = 0"
    if "i * PAGE_SIZE \<in> free_memory sample_free" for i
  proof -
    have "i = 4 \<or> i = 5" using that unfolding sample_free_memory PAGE_SIZE_def by auto
    then show ?thesis by (auto simp: bit_at_def sample_used_def)
  qed
  ultimately show ?thesis by (simp add: frames_ok_def bitmap_ok_def) (simp add: sample_used_def)
qed

lemma sample_pages: "page_range 13 0x6000 = {6, 7}"
  by (auto simp: PAGE_SIZE_def order_to_pages_def order_consts)

lemma sample_span: "span 13 0x6000 = {0x6000..<0x8000}"
  by (auto simp: span_def)

lemma sample_used_block: "used_block (sample_used n m) sample_free 13 0x6000"
proof -
  have "zone_block (sample_zone\<lparr>z_managed_pages := 16\<rparr>) 13 0x6000"
    by (simp add: block_ok_def sample_zone_def init_zone_def PAGE_SIZE_def)
  moreover have "fr_zones (sample_used n m) (phys_to_zone_type 0x6000) = Some (sample_zone\<lparr>z_managed_pages := 16\<rparr>)"
    by (simp add: sample_used_def sample_frames_def phys_to_zone_type_def ZONE_DMA_END_def)
  ultimately show ?thesis
    unfolding used_block_def sample_pages sample_free_memory sample_span
    by (simp add: order_consts) (simp add: sample_used_def sample_frames_def bitmap_ok_def bit_at_def bit_numeral_rec)
qed

lemma count_to_order_2: "count_to_order 2 = Some 13"
  by (simp add: count_to_order_def count_to_block_pages_def next_power_of_2_def log2_floor_u64.simps order_consts)

theorem free_frames_returns_witness:
  "\<exists>fr' FL' ps'. free_frames (sample_used 1 1) 0x6000 2 = Some fr' \<and> frames_ok fr' FL' ps' \<and>
     free_memory FL' = {0x4000..<0x6000} \<union> {0x6000..<0x8000}"
proof -
  have "\<forall>i \<in> page_range 13 0x6000. (replicate 16 (0 :: int))[6 := 1, 7 := 1] ! i = 1" unfolding sample_pages by simp
  from free_frames_returns [OF sample_used_ok _ _ count_to_order_2 sample_used_block this] show ?thesis
    unfolding sample_free_memory sample_span by auto
qed

text \<open>
  A block with a page that still has another reference is not given back:
  the call only takes one reference from every page of the block.
\<close>

lemma free_frames_last_reference:
  assumes "frames_ok fr FL ps" "0 < count" "count \<le> 2 ^ 63" "count_to_order count = Some k"
    "used_block fr FL k b" "counts_fit (- 1) ps (b div PAGE_SIZE) (order_to_pages k)" "i \<in> page_range k b" "1 < ps ! i"
  shows "free_frames fr b count = Some (fr\<lparr>fr_page_maps := Some (bump (- 1) ps (b div PAGE_SIZE) (order_to_pages k))\<rparr>)"
  using assms by (rule free_frames_shared)

text \<open>
  The pages lose their references one by one before the check, so the page of a block that had one
  reference ends with none while the block stays marked, and the next call drives it below zero.
\<close>

text \<open>
  Freeing a block with a page that is not marked in use, or unknown to the
  frame bitmap, changes nothing: a second free of the same block is harmless.
\<close>

lemma free_frames_idempotent:
  assumes "bitmap_ok (fr_using_regions fr)" "bitmap_ok (fr_bitmap fr)" "0 < count" "count \<le> 2 ^ 63" "count_to_order count = Some k"
    "i \<in> page_range k addr"
    "\<not> (i < bm_length (fr_using_regions fr) \<and> bit_at (fr_using_regions fr) i) \<or> \<not> (i < bm_length (fr_bitmap fr) \<and> bit_at (fr_bitmap fr) i)"
  shows "free_frames fr addr count = Some fr"
  using assms(6) by (intro free_frames_not_in_use [OF assms(1-5) _ _ assms(7)]) simp_all

text \<open>
  C34. The boot code hands the buddy allocator exactly the frames of the region
  whose bit is set in the frame bitmap, each run clipped to its zone, and keeps the zones well formed.
\<close>

theorem process_region_hands_over:
  assumes "zones_ok fr FL" "zones_cover fr" "bitmap_ok (fr_bitmap fr)" "0 < start" "start + PAGE_SIZE \<le> 2 ^ 64"
    "fin < 2 ^ 64" "fin \<le> fr_memory_size fr" "{start..<fin} \<inter> free_memory FL = {}"
  shows "\<exists>fr' FL'. process_memory_region fr start fin = Some fr' \<and> zones_ok fr' FL' \<and>
    free_memory FL' = free_memory FL \<union> usable (fr_bitmap fr) (PADDING_UP start PAGE_SIZE) (PADDING_DOWN fin PAGE_SIZE)"
  using process_memory_region_spec [OF assms] by blast

theorem process_region_hands_over_witness:
  "\<exists>fr' FL'. process_memory_region (sample_frames\<lparr>fr_bitmap := \<lparr>bm_buffer = [0xff, 0x01], bm_length = 16\<rparr>\<rparr>) 0x6001 0xf000 = Some fr' \<and>
     zones_ok fr' FL' \<and> free_memory FL' = {0x4000..<0x6000} \<union> {0x7000..<0x9000}"
proof -
  let ?bm = "\<lparr>bm_buffer = [0xff, 0x01], bm_length = 16\<rparr>"
  let ?fr = "sample_frames\<lparr>fr_bitmap := ?bm\<rparr>"
  have zs: "zones_ok ?fr sample_free" using sample_frames_ok by (simp add: frames_ok_def)
  have cov: "zones_cover ?fr"
    unfolding zones_cover_def
    by (auto simp: sample_frames_def sample_zone_def init_zone_def PAGE_SIZE_def order_consts phys_to_zone_type_def ZONE_DMA_END_def
        split: if_splits)
  have ok: "bitmap_ok (fr_bitmap ?fr)" by (simp add: bitmap_ok_def)
  have p: "PADDING_UP 0x6001 PAGE_SIZE = 0x7000" "PADDING_DOWN 0xf000 PAGE_SIZE = 0xf000"
    by (simp_all add: PADDING_UP_def PADDING_DOWN_def PAGE_SIZE_def)
  have u: "usable (fr_bitmap ?fr) 0x7000 0xf000 = {0x7000..<0x9000}"
  proof (intro set_eqI iffI)
    fix a assume a: "a \<in> usable (fr_bitmap ?fr) 0x7000 0xf000"
    have "\<not> 9 \<le> a div 4096"
    proof
      assume "9 \<le> a div 4096"
      moreover have "a div 4096 < 15" using a by (simp add: usable_def less_mult_imp_div_less)
      ultimately have "a div 4096 \<in> {9, 10, 11, 12, 13, 14}" by auto
      then show False using a by (auto simp: usable_def bit_at_def PAGE_SIZE_def bit_1_iff)
    qed
    then show "a \<in> {0x7000..<0x9000}" using a by (simp add: usable_def)
  next
    fix a :: nat assume a: "a \<in> {0x7000..<0x9000}"
    then have "a div 4096 = 7 \<or> a div 4096 = 8" by auto
    then show "a \<in> usable (fr_bitmap ?fr) 0x7000 0xf000" using a by (auto simp: usable_def bit_at_def PAGE_SIZE_def bit_numeral_rec)
  qed
  have d: "{0x6001..<0xf000} \<inter> free_memory sample_free = {}" unfolding sample_free_memory by auto
  show ?thesis
    using process_region_hands_over [OF zs cov ok, of "0x6001" "0xf000"] d unfolding p u sample_free_memory
    by (simp add: PAGE_SIZE_def sample_frames_def)
qed

text \<open>
  The early allocator fails, changing nothing, exactly when the frame bitmap has no
  run of \<open>count\<close> usable frames; otherwise it returns the address of the first such run and clears
  exactly its bits.
\<close>

lemma early_frames_exact:
  assumes "bitmap_ok (fr_bitmap fr)" "bm_length (fr_bitmap fr) * PAGE_SIZE < 2 ^ 64" "\<not> fr_op_lock fr" "0 < count"
  shows "(no_run (fr_bitmap fr) count True 0 \<and> alloc_frames_l fr count = Some (0, fr)) \<or>
    (\<exists>r bm. found_run (fr_bitmap fr) count True 0 r \<and> bits_written (fr_bitmap fr) {r..<r + count} False bm \<and>
       alloc_frames_l fr count = Some (r * PAGE_SIZE,
         fr\<lparr>fr_bitmap := bm, fr_usable_frames := wrap64 (fr_usable_frames fr + 2 ^ 64 - count)\<rparr>))"
  using assms by (rule alloc_frames_l_spec)

end
