(* ===== verification/Krlibc.thy ===== *)
theory Krlibc
  imports Prelude
begin

text \<open>
  The kernel's C library, \<^verbatim>\<open>kernel/krlibc.cpp\<close>, on a byte-addressed memory: the block operations
  with their aligned word loops, and the string operations. A byte that is not mapped has no value,
  so a read or write outside the objects of the caller gives \<open>None\<close>; so does a walk that never meets a
  terminating zero. \<open>char\<close> is signed on this target: a byte read as a \<open>char\<close> is its \<open>sint\<close>.
\<close>

section \<open>Memory\<close>

type_synonym bytes = "nat \<rightharpoonup> u8"

definition poke :: "bytes \<Rightarrow> nat \<Rightarrow> u8 \<Rightarrow> bytes option" where
  "poke m a b = (if m a = None then None else Some (m(a \<mapsto> b)))"

text \<open>A \<open>size_t\<close> in memory is its eight bytes, the least significant first.\<close>

fun peek_bytes :: "bytes \<Rightarrow> nat \<Rightarrow> nat \<Rightarrow> u8 list option" where
  "peek_bytes m a 0 = Some []"
| "peek_bytes m a (Suc n) = do { b \<leftarrow> m a; bs \<leftarrow> peek_bytes m (a + 1) n; Some (b # bs) }"

fun poke_bytes :: "bytes \<Rightarrow> nat \<Rightarrow> u8 list \<Rightarrow> bytes option" where
  "poke_bytes m a [] = Some m"
| "poke_bytes m a (b # bs) = do { m \<leftarrow> poke m a b; poke_bytes m (a + 1) bs }"

definition word_bytes :: "u64 \<Rightarrow> u8 list" where
  "word_bytes w = map (\<lambda>i. ucast (drop_bit (8 * i) w)) [0..<8]"

definition sizeof_size_t :: nat where "sizeof_size_t = 8"

section \<open>Block operations\<close>

fun memcmp :: "bytes \<Rightarrow> nat \<Rightarrow> nat \<Rightarrow> nat \<Rightarrow> int option" where
  "memcmp m a b 0 = Some 0"
| "memcmp m a b (Suc sz) = do {
     x \<leftarrow> m a;
     y \<leftarrow> m b;
     if x \<noteq> y then Some (if sint x > sint y then 1 else - 1) else memcmp m (a + 1) (b + 1) sz
   }"

fun memchr_loop :: "bytes \<Rightarrow> nat \<Rightarrow> u8 \<Rightarrow> nat \<Rightarrow> ptr option" where
  "memchr_loop m p needle 0 = Some None"
| "memchr_loop m p needle (Suc n) = do {
     b \<leftarrow> m p;
     if b = needle then Some (Some p) else memchr_loop m (p + 1) needle n
   }"

definition memchr :: "bytes \<Rightarrow> nat \<Rightarrow> int \<Rightarrow> nat \<Rightarrow> ptr option" where
  "memchr m buffer value sz = memchr_loop m buffer (word_of_int value) sz"

fun copy_bytes :: "bytes \<Rightarrow> nat \<Rightarrow> nat \<Rightarrow> nat \<Rightarrow> bytes option" where
  "copy_bytes m d s 0 = Some m"
| "copy_bytes m d s (Suc n) = do { b \<leftarrow> m s; m \<leftarrow> poke m d b; copy_bytes m (d + 1) (s + 1) n }"

fun copy_words :: "bytes \<Rightarrow> nat \<Rightarrow> nat \<Rightarrow> nat \<Rightarrow> bytes option" where
  "copy_words m dw sw 0 = Some m"
| "copy_words m dw sw (Suc n) = do {
     w \<leftarrow> peek_bytes m sw sizeof_size_t;
     m \<leftarrow> poke_bytes m dw w;
     copy_words m (dw + sizeof_size_t) (sw + sizeof_size_t) n
   }"

definition memcpy :: "bytes \<Rightarrow> nat \<Rightarrow> nat \<Rightarrow> nat \<Rightarrow> (nat \<times> bytes) option" where
  "memcpy m dest src n =
     (if n < 8 then do { m \<leftarrow> copy_bytes m dest src n; Some (dest, m) }
      else do {
        let align = dest mod sizeof_size_t;
        let align = (if align \<noteq> 0 then sizeof_size_t - align else 0);
        let n = n - align;
        m \<leftarrow> copy_bytes m dest src align;
        let d = dest + align;
        let s = src + align;
        m \<leftarrow> copy_words m d s (n div sizeof_size_t);
        let d = d + n div sizeof_size_t * sizeof_size_t;
        let s = s + n div sizeof_size_t * sizeof_size_t;
        m \<leftarrow> copy_bytes m d s (n mod sizeof_size_t);
        Some (dest, m)
      })"

text \<open>The three loops of \<open>memset\<close>: up to an aligned address, whole words, the rest.\<close>

fun set_unaligned :: "bytes \<Rightarrow> nat \<Rightarrow> u8 \<Rightarrow> nat \<Rightarrow> (bytes \<times> nat \<times> nat) option" where
  "set_unaligned m d v 0 = Some (m, d, 0)"
| "set_unaligned m d v (Suc n) =
     (if d mod 8 \<noteq> 0 then do { m \<leftarrow> poke m d v; set_unaligned m (d + 1) v n } else Some (m, d, Suc n))"

function set_words :: "bytes \<Rightarrow> nat \<Rightarrow> u64 \<Rightarrow> nat \<Rightarrow> (bytes \<times> nat \<times> nat) option" where
  "set_words m d v8 sz =
     (if sz \<ge> 8 then do { m \<leftarrow> poke_bytes m d (word_bytes v8); set_words m (d + 8) v8 (sz - 8) } else Some (m, d, sz))"
  by auto
termination by (relation "measure (\<lambda>(m, d, v8, sz). sz)") auto

fun set_bytes :: "bytes \<Rightarrow> nat \<Rightarrow> u8 \<Rightarrow> nat \<Rightarrow> bytes option" where
  "set_bytes m d v 0 = Some m"
| "set_bytes m d v (Suc n) = do { m \<leftarrow> poke m d v; set_bytes m (d + 1) v n }"

definition memset :: "bytes \<Rightarrow> nat \<Rightarrow> int \<Rightarrow> nat \<Rightarrow> (nat \<times> bytes) option" where
  "memset m dst val sz = do {
     let v = (word_of_int val :: u8);
     (m, d, sz) \<leftarrow> set_unaligned m dst v sz;
     let v8 = (ucast v :: u64) * 0x0101010101010101;
     (m, d, sz) \<leftarrow> set_words m d v8 sz;
     m \<leftarrow> set_bytes m d v sz;
     Some (dst, m)
   }"

section \<open>Strings\<close>

partial_function (option) strcpy_loop :: "bytes \<Rightarrow> nat \<Rightarrow> nat \<Rightarrow> (bytes \<times> nat) option" where
  "strcpy_loop m dest src = do {
     c \<leftarrow> m src;
     m \<leftarrow> poke m dest c;
     n \<leftarrow> m (src + 1);
     if n \<noteq> 0 then strcpy_loop m (dest + 1) (src + 1) else Some (m, dest + 1)
   }"

definition strcpy :: "bytes \<Rightarrow> nat \<Rightarrow> nat \<Rightarrow> (nat \<times> bytes) option" where
  "strcpy m dest src = do {
     (m, d) \<leftarrow> strcpy_loop m dest src;
     m \<leftarrow> poke m d 0;
     Some (dest, m)
   }"

partial_function (option) strend :: "bytes \<Rightarrow> nat \<Rightarrow> nat option" where
  "strend m s = do { c \<leftarrow> m s; if c \<noteq> 0 then strend m (s + 1) else Some s }"

definition strlen :: "bytes \<Rightarrow> nat \<Rightarrow> nat option" where
  "strlen m str = do { s \<leftarrow> strend m str; Some (s - str) }"

fun strnlen_loop :: "bytes \<Rightarrow> nat \<Rightarrow> nat \<Rightarrow> nat \<Rightarrow> nat option" where
  "strnlen_loop m str len 0 = Some len"
| "strnlen_loop m str len (Suc n) = do {
     c \<leftarrow> m (str + len);
     if c \<noteq> 0 then strnlen_loop m str (len + 1) n else Some len
   }"

definition strnlen :: "bytes \<Rightarrow> ptr \<Rightarrow> nat \<Rightarrow> nat option" where
  "strnlen m str maxlen = (case str of None \<Rightarrow> Some 0 | Some s \<Rightarrow> strnlen_loop m s 0 maxlen)"

partial_function (option) strcat_loop :: "bytes \<Rightarrow> nat \<Rightarrow> nat \<Rightarrow> bytes option" where
  "strcat_loop m dest src = do {
     c \<leftarrow> m src;
     m \<leftarrow> poke m dest c;
     if c \<noteq> 0 then strcat_loop m (dest + 1) (src + 1) else Some m
   }"

definition strcat :: "bytes \<Rightarrow> nat \<Rightarrow> nat \<Rightarrow> (nat \<times> bytes) option" where
  "strcat m dest src = do {
     d \<leftarrow> strend m dest;
     m \<leftarrow> strcat_loop m d src;
     Some (dest, m)
   }"

partial_function (option) strchrnul :: "bytes \<Rightarrow> nat \<Rightarrow> int \<Rightarrow> nat option" where
  "strchrnul m s c = do {
     x \<leftarrow> m s;
     if x \<noteq> 0 then (if sint x = c then Some (s + 1) else strchrnul m (s + 1) c) else Some s
   }"

fun strncmp :: "bytes \<Rightarrow> nat \<Rightarrow> nat \<Rightarrow> nat \<Rightarrow> int option" where
  "strncmp m p1 p2 0 = Some 0"
| "strncmp m p1 p2 (Suc n) = do {
     x \<leftarrow> m p1;
     y \<leftarrow> m p2;
     if x \<noteq> y then Some (uint x - uint y)
     else if x = 0 then Some 0
     else strncmp m (p1 + 1) (p2 + 1) n
   }"

partial_function (option) strchr :: "bytes \<Rightarrow> nat \<Rightarrow> int \<Rightarrow> ptr option" where
  "strchr m s c = do {
     x \<leftarrow> m s;
     if x \<noteq> 0 then (if x = word_of_int c then Some (Some s) else strchr m (s + 1) c)
     else Some (if x = word_of_int c then Some s else None)
   }"

text \<open>The inner loop of \<open>strstr\<close>; the result is where \<open>s2\<close> stops.\<close>

partial_function (option) match_at :: "bytes \<Rightarrow> nat \<Rightarrow> nat \<Rightarrow> nat option" where
  "match_at m s1 s2 = do {
     x \<leftarrow> m s1;
     if x = 0 then Some s2
     else do {
       y \<leftarrow> m s2;
       if y \<noteq> 0 \<and> x = y then match_at m (s1 + 1) (s2 + 1) else Some s2
     }
   }"

partial_function (option) strstr :: "bytes \<Rightarrow> nat \<Rightarrow> nat \<Rightarrow> ptr option" where
  "strstr m p str2 = do {
     c \<leftarrow> m p;
     if c \<noteq> 0 then do {
       s2 \<leftarrow> match_at m p str2;
       y \<leftarrow> m s2;
       if y = 0 then Some (Some p) else strstr m (p + 1) str2
     } else Some None
   }"

partial_function (option) strcmp :: "bytes \<Rightarrow> nat \<Rightarrow> nat \<Rightarrow> int option" where
  "strcmp m s1 s2 = do {
     x \<leftarrow> m s1;
     y \<leftarrow> m s2;
     if x \<noteq> 0 \<and> y \<noteq> 0 then (if x \<noteq> y then Some (sint x - sint y) else strcmp m (s1 + 1) (s2 + 1))
     else Some (if x \<noteq> 0 then 1 else if y \<noteq> 0 then - 1 else 0)
   }"

definition isspace :: "int \<Rightarrow> bool" where
  "isspace c = (c = 32 \<or> c = 9 \<or> c = 10 \<or> c = 13 \<or> c = 12 \<or> c = 11)"

definition isdigit :: "int \<Rightarrow> bool" where
  "isdigit c = (c \<ge> 48 \<and> c \<le> 57)"

text \<open>The two scans of \<open>strtok\<close>: while the byte is, or is not, one of the delimiters.\<close>

partial_function (option) skip_delims :: "bool \<Rightarrow> bytes \<Rightarrow> nat \<Rightarrow> nat \<Rightarrow> nat option" where
  "skip_delims v m delim start = do {
     c \<leftarrow> m start;
     if c \<noteq> 0 then do {
       r \<leftarrow> strchr m delim (sint c);
       if (r \<noteq> None) = v then skip_delims v m delim (start + 1) else Some start
     } else Some start
   }"

text \<open>The static \<open>last\<close> is a parameter and a result: (token, memory, last).\<close>

definition strtok :: "bytes \<Rightarrow> ptr \<Rightarrow> ptr \<Rightarrow> nat \<Rightarrow> (ptr \<times> bytes \<times> ptr) option" where
  "strtok m lst str delim =
     (case (if str \<noteq> None then str else lst) of None \<Rightarrow> Some (None, m, None)
      | Some start \<Rightarrow> do {
          start \<leftarrow> skip_delims True m delim start;
          c \<leftarrow> m start;
          if c = 0 then Some (None, m, None)
          else do {
            e \<leftarrow> skip_delims False m delim start;
            c \<leftarrow> m e;
            if c \<noteq> 0 then do { m \<leftarrow> poke m e 0; Some (Some start, m, Some (e + 1)) }
            else Some (Some start, m, None)
          }
        })"

text \<open>\<open>p\<close> is what \<open>malloc(len + 1)\<close> returns; it is used without a check.\<close>

definition strdup :: "bytes \<Rightarrow> ptr \<Rightarrow> ptr \<Rightarrow> (ptr \<times> bytes) option" where
  "strdup m p str =
     (case str of None \<Rightarrow> Some (None, m)
      | Some s \<Rightarrow> do {
          len \<leftarrow> strlen m s;
          ret \<leftarrow> p;
          m \<leftarrow> strcat_loop m ret s;
          Some (Some ret, m)
        })"

fun strncpy_loop :: "bytes \<Rightarrow> nat \<Rightarrow> nat \<Rightarrow> nat \<Rightarrow> bytes option" where
  "strncpy_loop m dest src 0 = Some m"
| "strncpy_loop m dest src (Suc n) = do {
     c \<leftarrow> m src;
     if c \<noteq> 0 then do { m \<leftarrow> poke m dest c; strncpy_loop m (dest + 1) (src + 1) n }
     else set_bytes m dest 0 (Suc n)
   }"

definition strncpy :: "bytes \<Rightarrow> nat \<Rightarrow> nat \<Rightarrow> nat \<Rightarrow> (nat \<times> bytes) option" where
  "strncpy m dest src n = do { m \<leftarrow> strncpy_loop m dest src n; Some (dest, m) }"

partial_function (option) strrchr_loop :: "bytes \<Rightarrow> nat \<Rightarrow> int \<Rightarrow> ptr \<Rightarrow> (nat \<times> ptr) option" where
  "strrchr_loop m s c lst = do {
     x \<leftarrow> m s;
     if x \<noteq> 0 then strrchr_loop m (s + 1) c (if x = word_of_int c then Some s else lst)
     else Some (s, lst)
   }"

definition strrchr :: "bytes \<Rightarrow> nat \<Rightarrow> int \<Rightarrow> ptr option" where
  "strrchr m s c = do {
     (e, lst) \<leftarrow> strrchr_loop m s c None;
     Some (if c = 0 then Some e else lst)
   }"

definition clz :: "u32 \<Rightarrow> nat" where
  "clz x = length (takeWhile Not (rev (map (bit x) [0..<32])))"

definition fls :: "u32 \<Rightarrow> nat" where
  "fls x = (if x = 0 then 0 else 32 - clz x)"

section \<open>Blocks and strings in memory\<close>

definition block_at :: "bytes \<Rightarrow> nat \<Rightarrow> u8 list \<Rightarrow> bool" where
  "block_at m a bs \<longleftrightarrow> (\<forall>i < length bs. m (a + i) = Some (bs ! i))"

definition mapped :: "bytes \<Rightarrow> nat \<Rightarrow> nat \<Rightarrow> bool" where
  "mapped m a n \<longleftrightarrow> (\<forall>i < n. m (a + i) \<noteq> None)"

definition put :: "bytes \<Rightarrow> nat \<Rightarrow> u8 list \<Rightarrow> bytes" where
  "put m a bs = (\<lambda>x. if a \<le> x \<and> x < a + length bs then Some (bs ! (x - a)) else m x)"

definition apart :: "nat \<Rightarrow> nat \<Rightarrow> nat \<Rightarrow> nat \<Rightarrow> bool" where
  "apart a n b k \<longleftrightarrow> a + n \<le> b \<or> b + k \<le> a"

definition cstr :: "bytes \<Rightarrow> nat \<Rightarrow> u8 list \<Rightarrow> bool" where
  "cstr m a s \<longleftrightarrow> 0 \<notin> set s \<and> block_at m a (s @ [0])"

lemma block_at_Nil [simp]: "block_at m a []"
  by (simp add: block_at_def)

lemma block_at_Cons [simp]: "block_at m a (b # bs) \<longleftrightarrow> m a = Some b \<and> block_at m (Suc a) bs"
  unfolding block_at_def by (auto simp: nth_Cons split: nat.splits)

lemma block_at_append: "block_at m a (xs @ ys) \<longleftrightarrow> block_at m a xs \<and> block_at m (a + length xs) ys"
  by (induction xs arbitrary: a) auto

lemma mapped_0 [simp]: "mapped m a 0"
  by (simp add: mapped_def)

lemma mapped_Suc [simp]: "mapped m a (Suc n) \<longleftrightarrow> m a \<noteq> None \<and> mapped m (Suc a) n"
  unfolding mapped_def by (auto simp: less_Suc_eq_0_disj)

lemma mapped_add: "mapped m a (n + k) \<longleftrightarrow> mapped m a n \<and> mapped m (a + n) k"
  by (induction n arbitrary: a) auto

lemma block_mapped: "block_at m a bs \<Longrightarrow> mapped m a (length bs)"
  by (simp add: block_at_def mapped_def)

lemma cstr_Nil [simp]: "cstr m a [] \<longleftrightarrow> m a = Some 0"
  by (simp add: cstr_def)

lemma cstr_Cons [simp]: "cstr m a (c # s) \<longleftrightarrow> c \<noteq> 0 \<and> m a = Some c \<and> cstr m (Suc a) s"
  by (auto simp: cstr_def)

lemma put_Nil [simp]: "put m a [] = m"
  by (rule ext) (auto simp: put_def)

lemma put_Cons [simp]: "put m a (b # bs) = put (m(a \<mapsto> b)) (Suc a) bs"
proof
  fix x
  show "put m a (b # bs) x = put (m(a \<mapsto> b)) (Suc a) bs x"
    by (cases "x = a") (auto simp: put_def nth_Cons')
qed

lemma put_append: "put m a (xs @ ys) = put (put m a xs) (a + length xs) ys"
  by (induction xs arbitrary: m a) auto

lemma poke_mapped [simp]: "m a \<noteq> None \<Longrightarrow> poke m a b = Some (m(a \<mapsto> b))"
  by (simp add: poke_def)

lemma mapped_upd [simp]: "mapped m a n \<Longrightarrow> mapped (m(x \<mapsto> b)) a n"
  by (simp add: mapped_def)

lemma mapped_put [simp]: "mapped m a n \<Longrightarrow> mapped (put m x bs) a n"
  by (simp add: mapped_def put_def)

lemma block_at_put:
  assumes "apart d (length cs) a (length bs)"
  shows "block_at (put m d cs) a bs = block_at m a bs"
proof -
  have "put m d cs (a + i) = m (a + i)" if "i < length bs" for i
    using assms that by (auto simp: put_def apart_def)
  then show ?thesis by (simp add: block_at_def)
qed

lemma block_at_upd: "apart d (Suc 0) a (length bs) \<Longrightarrow> block_at (m(d \<mapsto> c)) a bs = block_at m a bs"
  using block_at_put [of d "[c]" a bs m] by simp

lemma cstr_upd: "apart d (Suc 0) a (length s + 1) \<Longrightarrow> cstr (m(d \<mapsto> c)) a s = cstr m a s"
  unfolding cstr_def by (simp add: block_at_upd)

lemma peek_bytes_block: "block_at m a bs \<Longrightarrow> peek_bytes m a (length bs) = Some bs"
  by (induction bs arbitrary: a) auto

lemma poke_bytes_put: "mapped m a (length bs) \<Longrightarrow> poke_bytes m a bs = Some (put m a bs)"
  by (induction bs arbitrary: m a) auto

lemma copy_bytes_put:
  assumes "block_at m s bs" "mapped m d (length bs)" "apart d (length bs) s (length bs)"
  shows "copy_bytes m d s (length bs) = Some (put m d bs)"
  using assms
proof (induction bs arbitrary: m d s)
  case (Cons b bs)
  have ap: "apart d (Suc 0) (Suc s) (length bs)" "apart (Suc d) (length bs) (Suc s) (length bs)"
    using Cons.prems(3) by (auto simp: apart_def)
  have "block_at (m(d \<mapsto> b)) (Suc s) bs" "mapped (m(d \<mapsto> b)) (Suc d) (length bs)"
    using Cons.prems(1,2) block_at_upd [OF ap(1)] by simp_all
  then have "copy_bytes (m(d \<mapsto> b)) (Suc d) (Suc s) (length bs) = Some (put (m(d \<mapsto> b)) (Suc d) bs)"
    using ap(2) by (rule Cons.IH)
  with Cons.prems(1,2) show ?case by simp
qed simp

lemma copy_words_put:
  assumes "length bs = n * 8" "block_at m s bs" "mapped m d (length bs)" "apart d (length bs) s (length bs)"
  shows "copy_words m d s n = Some (put m d bs)"
  using assms
proof (induction n arbitrary: m d s bs)
  case (Suc n)
  define w ys where "w = take 8 bs" and "ys = drop 8 bs"
  have bs: "bs = w @ ys" "length w = 8" "length ys = n * 8" using Suc.prems(1) by (simp_all add: w_def ys_def)
  have w: "block_at m s w" "block_at m (s + 8) ys" "mapped m d 8" "mapped m (d + 8) (length ys)"
    using Suc.prems(2,3) bs by (auto simp: block_at_append mapped_add)
  have ap: "apart d (length w) (s + 8) (length ys)" "apart (d + 8) (length ys) (s + 8) (length ys)"
    using Suc.prems(4) bs by (auto simp: apart_def)
  have "peek_bytes m s sizeof_size_t = Some w"
    using peek_bytes_block [OF w(1)] bs(2) by (simp add: sizeof_size_t_def)
  moreover have "poke_bytes m d w = Some (put m d w)" using poke_bytes_put w(3) bs(2) by simp
  moreover have "copy_words (put m d w) (d + 8) (s + 8) n = Some (put (put m d w) (d + 8) ys)"
    using Suc.IH [OF bs(3), of "put m d w" "s + 8" "d + 8"] w ap by (simp add: block_at_put)
  ultimately show ?case using bs by (simp add: sizeof_size_t_def put_append)
qed simp

lemma memcpy_put:
  assumes "block_at m src bs" "mapped m dest (length bs)" "apart dest (length bs) src (length bs)"
  shows "memcpy m dest src (length bs) = Some (dest, put m dest bs)"
proof (cases "length bs < 8")
  case True
  then show ?thesis using copy_bytes_put [OF assms] by (simp add: memcpy_def)
next
  case False
  define al where "al = (if dest mod 8 \<noteq> 0 then 8 - dest mod 8 else 0)"
  define k where "k = (length bs - al) div 8"
  define xs ys zs where "xs = take al bs" and "ys = take (k * 8) (drop al bs)" and "zs = drop (k * 8) (drop al bs)"
  have le: "al \<le> length bs" "k * 8 \<le> length bs - al" using False by (auto simp: al_def k_def)
  have lens: "length xs = al" "length ys = k * 8" using le by (simp_all add: xs_def ys_def)
  have "length zs = length bs - al - (length bs - al) div 8 * 8" by (simp add: zs_def k_def)
  then have bs: "bs = xs @ ys @ zs" "length xs = al" "length ys = k * 8" "length zs = (length bs - al) mod 8"
    using lens by (simp_all only: minus_div_mult_eq_mod) (simp only: xs_def ys_def zs_def append_take_drop_id)
  have blk: "block_at m src xs" "block_at m (src + al) ys" "block_at m (src + al + k * 8) zs"
    using assms(1) unfolding bs(1) block_at_append bs(2,3) by (simp_all add: add.assoc)
  have len: "length bs = al + (k * 8 + length zs)" using bs by (metis length_append)
  have mp: "mapped m dest al" "mapped m (dest + al) (k * 8)" "mapped m (dest + al + k * 8) (length zs)"
    using assms(2) unfolding len mapped_add by simp_all
  have ap: "apart dest al src al" "apart dest al (src + al) (k * 8)" "apart dest al (src + al + k * 8) (length zs)"
    "apart (dest + al) (k * 8) (src + al) (k * 8)" "apart (dest + al) (k * 8) (src + al + k * 8) (length zs)"
    "apart (dest + al + k * 8) (length zs) (src + al + k * 8) (length zs)"
    using assms(3) len by (auto simp: apart_def)
  let ?m1 = "put m dest xs" and ?m2 = "put (put m dest xs) (dest + al) ys"
  have "copy_bytes m dest src al = Some ?m1" using copy_bytes_put [OF blk(1)] mp(1) ap(1) bs(2) by simp
  moreover have "copy_words ?m1 (dest + al) (src + al) k = Some ?m2"
    using copy_words_put [OF bs(3), of ?m1 "src + al" "dest + al"] blk(2) mp(2) ap(2,4) bs(2,3) by (simp add: block_at_put)
  moreover have "copy_bytes ?m2 (dest + al + k * 8) (src + al + k * 8) (length zs) = Some (put ?m2 (dest + al + k * 8) zs)"
    using copy_bytes_put [of ?m2 "src + al + k * 8" zs "dest + al + k * 8"] blk(3) mp(3) ap(3,5,6) bs(2,3)
    by (simp add: block_at_put)
  moreover have "put ?m2 (dest + al + k * 8) zs = put m dest bs"
    unfolding bs(1) put_append bs(2,3) by (simp add: add.assoc)
  ultimately show ?thesis
    using False bs(4) unfolding memcpy_def sizeof_size_t_def Let_def al_def [symmetric] k_def [symmetric] by simp
qed

lemma set_bytes_put: "mapped m d n \<Longrightarrow> set_bytes m d v n = Some (put m d (replicate n v))"
  by (induction n arbitrary: m d) auto

lemma digit_of_sum:
  fixes x :: nat
  assumes "x * b < p" "x < 256"
  shows "(x * ((a * 256 + 1) * p + b)) div p mod 256 = x"
proof -
  have "x * ((a * 256 + 1) * p + b) = x * b + x * (a * 256 + 1) * p" by (simp add: algebra_simps)
  then have "(x * ((a * 256 + 1) * p + b)) div p = x * (a * 256 + 1)" using assms(1) by simp
  also have "\<dots> = x + x * a * 256" by (simp add: algebra_simps)
  finally show ?thesis using assms(2) by simp
qed

lemma byte_of_repeat:
  fixes v :: u8
  assumes "i < 8"
  shows "ucast (drop_bit (8 * i) ((ucast v :: u64) * 0x0101010101010101)) = v"
proof -
  have v: "unat v < 256" using unsigned_less [of v, where ?'a = nat] by simp
  let ?w = "(ucast v :: u64) * 0x0101010101010101"
  have w: "unat ?w = unat v * 0x0101010101010101"
    using v by (subst unat_mult_small) (simp_all add: unsigned_ucast_eq take_bit_nat_eq_self)
  have d0: "(unat v * 0x0101010101010101) div 0x1 mod 256 = unat v"
    using digit_of_sum [of "unat v" "0x0" "0x1" "0x1010101010101"] v by simp
  have d1: "(unat v * 0x0101010101010101) div 0x100 mod 256 = unat v"
    using digit_of_sum [of "unat v" "0x1" "0x100" "0x10101010101"] v by simp
  have d2: "(unat v * 0x0101010101010101) div 0x10000 mod 256 = unat v"
    using digit_of_sum [of "unat v" "0x101" "0x10000" "0x101010101"] v by simp
  have d3: "(unat v * 0x0101010101010101) div 0x1000000 mod 256 = unat v"
    using digit_of_sum [of "unat v" "0x10101" "0x1000000" "0x1010101"] v by simp
  have d4: "(unat v * 0x0101010101010101) div 0x100000000 mod 256 = unat v"
    using digit_of_sum [of "unat v" "0x1010101" "0x100000000" "0x10101"] v by simp
  have d5: "(unat v * 0x0101010101010101) div 0x10000000000 mod 256 = unat v"
    using digit_of_sum [of "unat v" "0x101010101" "0x10000000000" "0x101"] v by simp
  have d6: "(unat v * 0x0101010101010101) div 0x1000000000000 mod 256 = unat v"
    using digit_of_sum [of "unat v" "0x10101010101" "0x1000000000000" "0x1"] v by simp
  have d7: "(unat v * 0x0101010101010101) div 0x100000000000000 mod 256 = unat v"
    using digit_of_sum [of "unat v" "0x1010101010101" "0x100000000000000" "0x0"] v by simp
  have "i = 0 \<or> i = 1 \<or> i = 2 \<or> i = 3 \<or> i = 4 \<or> i = 5 \<or> i = 6 \<or> i = 7" using assms by linarith
  then have "(unat v * 0x0101010101010101) div 2 ^ (8 * i) mod 256 = unat v"
  proof (elim disjE)
    assume "i = 0"
    then show ?thesis using d0 by simp
  next
    assume "i = 1"
    then show ?thesis using d1 by simp
  next
    assume "i = 2"
    then show ?thesis using d2 by simp
  next
    assume "i = 3"
    then show ?thesis using d3 by simp
  next
    assume "i = 4"
    then show ?thesis using d4 by simp
  next
    assume "i = 5"
    then show ?thesis using d5 by simp
  next
    assume "i = 6"
    then show ?thesis using d6 by simp
  next
    assume "i = 7"
    then show ?thesis using d7 by simp
  qed
  then have "unat (ucast (drop_bit (8 * i) ?w) :: u8) = unat v"
    unfolding unsigned_ucast_eq unat_drop_bit_eq w by (simp add: drop_bit_eq_div take_bit_eq_mod)
  then show ?thesis by (simp add: unsigned_word_eqI)
qed

lemma word_bytes_repeat: "word_bytes ((ucast v :: u64) * 0x0101010101010101) = replicate 8 v"
  by (rule nth_equalityI) (simp_all add: word_bytes_def byte_of_repeat)

lemma set_words_put:
  assumes "mapped m d n"
  shows "set_words m d ((ucast v :: u64) * 0x0101010101010101) n =
    Some (put m d (replicate (n div 8 * 8) v), d + n div 8 * 8, n mod 8)"
  using assms
proof (induction n arbitrary: m d rule: less_induct)
  case (less n)
  show ?case
  proof (cases "8 \<le> n")
    case False
    then show ?thesis by simp
  next
    case True
    then have n: "n = 8 + (n - 8)" by simp
    have mp: "mapped m d 8" "mapped m (d + 8) (n - 8)" using less.prems n mapped_add by metis+
    let ?m = "put m d (replicate 8 v)"
    have q: "n div 8 * 8 = 8 + (n - 8) div 8 * 8" "(n - 8) mod 8 = n mod 8" using True by (simp_all add: le_div_geq le_mod_geq)
    have "set_words ?m (d + 8) (ucast v * 0x0101010101010101) (n - 8) =
        Some (put ?m (d + 8) (replicate ((n - 8) div 8 * 8) v), d + 8 + (n - 8) div 8 * 8, (n - 8) mod 8)"
      using less.IH [of "n - 8"] mp(2) True by simp
    moreover have "put ?m (d + 8) (replicate ((n - 8) div 8 * 8) v) = put m d (replicate (n div 8 * 8) v)"
      unfolding q(1) replicate_add put_append by simp
    moreover have "poke_bytes m d (replicate 8 v) = Some ?m" using mp(1) by (simp add: poke_bytes_put)
    ultimately show ?thesis
      using True by (subst set_words.simps) (simp only: word_bytes_repeat if_True bind.bind_lunit q add.assoc)
  qed
qed

lemma set_unaligned_put:
  assumes "mapped m d n"
  shows "\<exists>k \<le> n. set_unaligned m d v n = Some (put m d (replicate k v), d + k, n - k)"
  using assms
proof (induction n arbitrary: m d)
  case (Suc n)
  show ?case
  proof (cases "d mod 8 = 0")
    case True
    then show ?thesis by (intro exI [of _ 0]) simp
  next
    case False
    have "mapped (m(d \<mapsto> v)) (Suc d) n" using Suc.prems by simp
    from Suc.IH [OF this] obtain k where "k \<le> n"
      "set_unaligned (m(d \<mapsto> v)) (Suc d) v n = Some (put (m(d \<mapsto> v)) (Suc d) (replicate k v), Suc d + k, n - k)" by blast
    with False Suc.prems show ?thesis by (intro exI [of _ "Suc k"]) simp
  qed
qed simp

lemma memset_put:
  assumes "mapped m dst n"
  shows "memset m dst val n = Some (dst, put m dst (replicate n (word_of_int val)))"
proof -
  let ?v = "word_of_int val :: u8"
  obtain k where k: "k \<le> n" "set_unaligned m dst ?v n = Some (put m dst (replicate k ?v), dst + k, n - k)"
    using set_unaligned_put [OF assms] by blast
  let ?q = "(n - k) div 8 * 8" and ?r = "(n - k) mod 8"
  have "n = k + (?q + ?r)" using k(1) by simp
  then have mp: "mapped m (dst + k) (n - k)" "mapped m (dst + k + ?q) ?r"
    using assms mapped_add by (metis k(1) le_add_diff_inverse, metis)
  let ?m1 = "put m dst (replicate k ?v)"
  let ?m2 = "put ?m1 (dst + k) (replicate ?q ?v)"
  have "set_words ?m1 (dst + k) (ucast ?v * 0x0101010101010101) (n - k) = Some (?m2, dst + k + ?q, ?r)"
    using mp(1) by (intro set_words_put) simp
  moreover have "set_bytes ?m2 (dst + k + ?q) ?v ?r = Some (put ?m2 (dst + k + ?q) (replicate ?r ?v))"
    using mp(2) by (intro set_bytes_put) simp
  moreover have "put ?m2 (dst + k + ?q) (replicate ?r ?v) = put m dst (replicate n ?v)"
  proof -
    have "replicate n ?v = replicate k ?v @ replicate ?q ?v @ replicate ?r ?v"
      using \<open>n = k + (?q + ?r)\<close> replicate_add by metis
    then show ?thesis by (simp only: put_append length_replicate add.assoc)
  qed
  ultimately show ?thesis using k(2) unfolding memset_def Let_def by simp
qed

section \<open>String operations on terminated strings\<close>

lemma strend_spec: "cstr m a s \<Longrightarrow> strend m a = Some (a + length s)"
  by (induction s arbitrary: a) (subst strend.simps; simp)+

lemma strlen_spec: "cstr m a s \<Longrightarrow> strlen m a = Some (length s)"
  by (simp add: strlen_def strend_spec)

lemma strnlen_loop_spec: "cstr m (a + k) s \<Longrightarrow> strnlen_loop m a k n = Some (k + min n (length s))"
proof (induction n arbitrary: k s)
  case (Suc n)
  then show ?case by (cases s) (auto dest!: Suc.IH)
qed simp

lemma strnlen_spec: "cstr m a s \<Longrightarrow> strnlen m (Some a) n = Some (min n (length s))"
  using strnlen_loop_spec [of m a 0 s n] by (simp add: strnlen_def)

lemma strcmp_spec:
  assumes "cstr m a s" "cstr m b t"
  shows "\<exists>r. strcmp m a b = Some r \<and> (r = 0 \<longleftrightarrow> s = t) \<and> (r < 0 \<longleftrightarrow> (s, t) \<in> lexord {(x, y). sint x < sint y})"
  using assms
proof (induction s arbitrary: t a b)
  case Nil
  then show ?case by (cases t) (subst strcmp.simps; simp)+
next
  case (Cons x s)
  show ?case
  proof (cases t)
    case Nil
    with Cons.prems show ?thesis by (subst strcmp.simps) simp
  next
    case (Cons y u)
    show ?thesis
    proof (cases "x = y")
      case True
      then have "strcmp m a b = strcmp m (Suc a) (Suc b)" using Cons Cons.prems by (subst strcmp.simps) simp
      then show ?thesis using Cons.IH [of "Suc a" "Suc b" u] Cons.prems Cons True by simp
    next
      case False
      then have "strcmp m a b = Some (sint x - sint y)" using Cons Cons.prems by (subst strcmp.simps) simp
      moreover have "sint x \<noteq> sint y" using False signed_word_eqI [of x y] by auto
      ultimately show ?thesis using False Cons by simp
    qed
  qed
qed

lemma match_at_spec:
  assumes "cstr m a s" "cstr m q t"
  shows "\<exists>k. match_at m a q = Some (q + k) \<and> k \<le> length t \<and> (k = length t \<longleftrightarrow> take (length t) s = t)"
  using assms
proof (induction t arbitrary: s a q)
  case Nil
  then show ?case by (cases s) (subst match_at.simps; simp)+
next
  case (Cons c t)
  show ?case
  proof (cases "\<exists>u. s = c # u")
    case True
    then obtain u where u: "s = c # u" by blast
    then have "match_at m a q = match_at m (Suc a) (Suc q)" using Cons.prems by (subst match_at.simps) simp
    then show ?thesis using Cons.IH [of "Suc a" u "Suc q"] Cons.prems u by auto
  next
    case False
    then have "match_at m a q = Some q" using Cons.prems by (cases s) (subst match_at.simps; auto)+
    moreover have "take (length (c # t)) s \<noteq> c # t" using False by (cases s) auto
    ultimately show ?thesis by (intro exI [of _ 0]) simp
  qed
qed

lemma cstr_end: "cstr m q t \<Longrightarrow> k \<le> length t \<Longrightarrow> \<exists>y. m (q + k) = Some y \<and> (y = 0 \<longleftrightarrow> k = length t)"
proof (induction t arbitrary: q k)
  case (Cons c t)
  then show ?case using Cons.IH [of "Suc q" "k - 1"] by (cases k) auto
qed simp

lemma strstr_spec:
  assumes "cstr m p s" "cstr m q t"
  shows "\<exists>r. strstr m p q = Some r \<and> (case r of None \<Rightarrow> \<forall>i < length s. take (length t) (drop i s) \<noteq> t
    | Some x \<Rightarrow> \<exists>i < length s. x = p + i \<and> take (length t) (drop i s) = t \<and> (\<forall>j < i. take (length t) (drop j s) \<noteq> t))"
  using assms(1)
proof (induction s arbitrary: p)
  case Nil
  then show ?case by (subst strstr.simps) simp
next
  case (Cons c s)
  obtain k where k: "match_at m p q = Some (q + k)" "k \<le> length t" "k = length t \<longleftrightarrow> take (length t) (c # s) = t"
    using match_at_spec [OF Cons.prems assms(2)] by blast
  obtain y where y: "m (q + k) = Some y" "y = 0 \<longleftrightarrow> k = length t" using cstr_end [OF assms(2) k(2)] by blast
  show ?case
  proof (cases "k = length t")
    case True
    then have "strstr m p q = Some (Some p)" using Cons.prems k(1) y by (subst strstr.simps) simp
    then show ?thesis using k(3) True by auto
  next
    case False
    then have run: "strstr m p q = strstr m (Suc p) q" using Cons.prems k(1) y by (subst strstr.simps) simp
    have n0: "take (length t) (drop 0 (c # s)) \<noteq> t" using k(3) False by simp
    obtain r where r: "strstr m (Suc p) q = Some r" "case r of None \<Rightarrow> \<forall>i < length s. take (length t) (drop i s) \<noteq> t
      | Some x \<Rightarrow> \<exists>i < length s. x = Suc p + i \<and> take (length t) (drop i s) = t \<and> (\<forall>j < i. take (length t) (drop j s) \<noteq> t)"
      using Cons.IH [of "Suc p"] Cons.prems by auto
    show ?thesis
    proof (cases r)
      case None
      then have "\<forall>i < length (c # s). take (length t) (drop i (c # s)) \<noteq> t"
        using r(2) n0 by (auto simp: less_Suc_eq_0_disj)
      then show ?thesis using run r(1) None by simp
    next
      case (Some x)
      then obtain i where i: "i < length s" "x = Suc p + i" "take (length t) (drop i s) = t" "\<forall>j < i. take (length t) (drop j s) \<noteq> t"
        using r(2) by auto
      have "\<forall>j < Suc i. take (length t) (drop j (c # s)) \<noteq> t" using i(4) n0 by (auto simp: less_Suc_eq_0_disj)
      then show ?thesis using run r(1) Some i(1-3) by (auto intro!: exI [of _ "Suc i"])
    qed
  qed
qed

lemma strchr_spec:
  assumes "cstr m a s" "(word_of_int c :: u8) \<noteq> 0"
  shows "\<exists>r. strchr m a c = Some r \<and> (r \<noteq> None \<longleftrightarrow> word_of_int c \<in> set s)"
  using assms(1)
proof (induction s arbitrary: a)
  case Nil
  then show ?case using assms(2) by (subst strchr.simps) simp
next
  case (Cons x s)
  show ?case
  proof (cases "x = word_of_int c")
    case True
    then show ?thesis using Cons.prems by (subst strchr.simps) simp
  next
    case False
    then have "strchr m a c = strchr m (Suc a) c" using Cons.prems by (subst strchr.simps) simp
    then show ?thesis using Cons.IH [of "Suc a"] Cons.prems False by auto
  qed
qed

lemma skip_delims_spec:
  assumes "cstr m q D" "cstr m p (xs @ ys)" "\<forall>x \<in> set xs. (x \<in> set D) = v" "ys \<noteq> [] \<longrightarrow> (hd ys \<in> set D) \<noteq> v"
  shows "skip_delims v m q p = Some (p + length xs)"
  using assms(2,3)
proof (induction xs arbitrary: p)
  case Nil
  show ?case
  proof (cases ys)
    case Nil
    then show ?thesis using \<open>cstr m p ([] @ ys)\<close> by (subst skip_delims.simps) simp
  next
    case (Cons y zs)
    then have y: "m p = Some y" "y \<noteq> 0" "(y \<in> set D) \<noteq> v" using Nil assms(4) by simp_all
    obtain r where "strchr m q (sint y) = Some r" "r \<noteq> None \<longleftrightarrow> y \<in> set D"
      using strchr_spec [OF assms(1), of "sint y"] y(2) by auto
    then show ?thesis using y by (subst skip_delims.simps) simp
  qed
next
  case (Cons x xs)
  then have x: "m p = Some x" "x \<noteq> 0" "(x \<in> set D) = v" by simp_all
  obtain r where "strchr m q (sint x) = Some r" "r \<noteq> None \<longleftrightarrow> x \<in> set D"
    using strchr_spec [OF assms(1), of "sint x"] x(2) by auto
  then have "skip_delims v m q p = skip_delims v m q (Suc p)" using x by (subst skip_delims.simps) simp
  then show ?case using Cons.IH [of "Suc p"] Cons.prems by simp
qed

text \<open>\<open>strcpy\<close> copies one byte before it looks for the terminator.\<close>

lemma strcpy_loop_put:
  assumes "cstr m (Suc src) s" "m src = Some c" "mapped m dest (Suc (length s))" "apart dest (Suc (length s)) src (length s + 2)"
  shows "strcpy_loop m dest src = Some (put m dest (c # s), dest + Suc (length s))"
  using assms
proof (induction s arbitrary: m dest src c)
  case Nil
  then show ?case by (subst strcpy_loop.simps) (auto simp: apart_def)
next
  case (Cons d s)
  let ?m = "m(dest \<mapsto> c)"
  have ap: "apart dest (Suc 0) (Suc src) (length (d # s) + 1)" "apart (Suc dest) (Suc (length s)) (Suc src) (length s + 2)"
    using Cons.prems(4) by (auto simp: apart_def)
  have c: "cstr ?m (Suc src) (d # s)" using Cons.prems(1) cstr_upd [OF ap(1)] by blast
  have "strcpy_loop ?m (Suc dest) (Suc src) = Some (put ?m (Suc dest) (d # s), Suc dest + Suc (length s))"
  proof (rule Cons.IH)
    show "cstr ?m (Suc (Suc src)) s" "?m (Suc src) = Some d" using c by simp_all
    show "mapped ?m (Suc dest) (Suc (length s))" using Cons.prems(3) mapped_upd by simp
  qed (rule ap(2))
  moreover have "strcpy_loop m dest src = strcpy_loop ?m (Suc dest) (Suc src)"
    using Cons.prems(2,3) c by (subst strcpy_loop.simps) auto
  ultimately show ?case by simp
qed

lemma strcpy_put:
  assumes "cstr m (Suc src) s" "m src = Some c" "mapped m dest (length s + 2)" "apart dest (length s + 2) src (length s + 2)"
  shows "strcpy m dest src = Some (dest, put m dest (c # s @ [0]))"
proof -
  have mp: "mapped m dest (Suc (length s))" "mapped m (dest + Suc (length s)) 1"
    using assms(3) mapped_add [of m dest "Suc (length s)" 1] by simp_all
  have "strcpy_loop m dest src = Some (put m dest (c # s), dest + Suc (length s))"
    using assms(4) by (intro strcpy_loop_put [OF assms(1,2) mp(1)]) (auto simp: apart_def)
  moreover have "put m dest (c # s) (dest + Suc (length s)) \<noteq> None"
    using mapped_put [OF mp(2), of dest "c # s"] by (simp add: mapped_def)
  ultimately have "strcpy m dest src = Some (dest, (put m dest (c # s))(dest + Suc (length s) \<mapsto> 0))"
    unfolding strcpy_def by (simp add: poke_def del: put_Cons)
  moreover have "(put m dest (c # s))(dest + Suc (length s) \<mapsto> 0) = put m dest (c # s @ [0])"
    using put_append [of m dest "c # s" "[0]"] by simp
  ultimately show ?thesis by simp
qed

lemma strncpy_put:
  assumes "cstr m src s" "mapped m dest n" "apart dest n src (length s + 1)"
  shows "strncpy_loop m dest src n = Some (put m dest (take n s @ replicate (n - length s) 0))"
  using assms
proof (induction n arbitrary: m dest src s)
  case (Suc n)
  show ?case
  proof (cases s)
    case Nil
    then show ?thesis using Suc.prems set_bytes_put [of m dest "Suc n" 0] by simp
  next
    case (Cons c t)
    let ?m = "m(dest \<mapsto> c)"
    have ap: "apart dest (Suc 0) (Suc src) (length t + 1)" "apart (Suc dest) n (Suc src) (length t + 1)"
      using Suc.prems(3) Cons by (auto simp: apart_def)
    have "cstr ?m (Suc src) t" using Suc.prems(1) cstr_upd [OF ap(1)] Cons by simp
    moreover have "mapped ?m (Suc dest) n" using Suc.prems(2) mapped_upd by simp
    ultimately have "strncpy_loop ?m (Suc dest) (Suc src) n = Some (put ?m (Suc dest) (take n t @ replicate (n - length t) 0))"
      using ap(2) by (rule Suc.IH)
    then show ?thesis using Suc.prems Cons by simp
  qed
qed simp

section \<open>Properties\<close>

text \<open>
  C39. \<open>memcpy\<close>, which copies up to an aligned address byte by byte, then whole words, then the
  rest, writes exactly the source block to the destination, for every length and alignment, when
  the two blocks do not overlap.
\<close>

theorem memcpy_copies:
  assumes "block_at m src bs" "mapped m dest (length bs)" "apart dest (length bs) src (length bs)"
  shows "memcpy m dest src (length bs) = Some (dest, put m dest bs)"
  using assms by (rule memcpy_put)

definition sample_bytes_at :: "nat \<Rightarrow> u8 list \<Rightarrow> bytes" where
  "sample_bytes_at a bs = put (\<lambda>x. if 100 \<le> x \<and> x < 200 then Some 7 else None) a bs"

theorem memcpy_copies_witness:
  "memcpy (sample_bytes_at 103 [1, 2, 3, 4, 5, 6, 7, 8, 9, 10, 11]) 150 103 11 =
     Some (150, put (sample_bytes_at 103 [1, 2, 3, 4, 5, 6, 7, 8, 9, 10, 11]) 150 [1, 2, 3, 4, 5, 6, 7, 8, 9, 10, 11])"
proof -
  let ?bs = "[1, 2, 3, 4, 5, 6, 7, 8, 9, 10, 11] :: u8 list"
  have b: "block_at (sample_bytes_at 103 ?bs) 103 ?bs" by (simp add: block_at_def sample_bytes_at_def put_def del: put_Cons block_at_Cons)
  have p: "mapped (sample_bytes_at 103 ?bs) 150 (length ?bs)" by (simp add: mapped_def sample_bytes_at_def put_def del: put_Cons mapped_Suc)
  have a: "apart 150 (length ?bs) 103 (length ?bs)" by (simp add: apart_def)
  have "length ?bs = 11" by simp
  then show ?thesis using memcpy_copies [OF b p a] by (simp only:)
qed

text \<open>
  \<open>memset\<close> writes the low byte of its value to every byte of the block and to nothing else,
  for every length and alignment.
\<close>

lemma memset_fills:
  assumes "mapped m dst n"
  shows "memset m dst val n = Some (dst, put m dst (replicate n (word_of_int val)))"
  using assms by (rule memset_put)

text \<open>
  \<open>strcmp\<close> of two strings returns, is zero exactly when they are equal, and negative exactly
  when the first is the smaller in the lexicographic order of \<^emph>\<open>signed\<close> bytes.
\<close>

lemma strcmp_orders:
  assumes "cstr m a s" "cstr m b t"
  shows "\<exists>r. strcmp m a b = Some r \<and> (r = 0 \<longleftrightarrow> s = t) \<and> (r < 0 \<longleftrightarrow> (s, t) \<in> lexord {(x, y). sint x < sint y})"
  using assms by (rule strcmp_spec)

text \<open>
  \<open>strstr\<close> returns, answers with the first position of the first string where the second
  one occurs, and with null exactly when it occurs at none of them.
\<close>

lemma strstr_first:
  assumes "cstr m p s" "cstr m q t"
  shows "\<exists>r. strstr m p q = Some r \<and> (case r of None \<Rightarrow> \<forall>i < length s. take (length t) (drop i s) \<noteq> t
    | Some x \<Rightarrow> \<exists>i < length s. x = p + i \<and> take (length t) (drop i s) = t \<and> (\<forall>j < i. take (length t) (drop j s) \<noteq> t))"
  using assms by (rule strstr_spec)

text \<open>
  \<open>strcpy\<close> copies a non-empty string correctly, but it copies the first byte before it
  tests for the end: from an \<^emph>\<open>empty\<close> string it goes on with whatever string lies behind the terminator
  and writes all of it to the destination.
\<close>

lemma strcpy_skips_terminator:
  assumes "cstr m (Suc src) s" "m src = Some c" "mapped m dest (length s + 2)" "apart dest (length s + 2) src (length s + 2)"
  shows "strcpy m dest src = Some (dest, put m dest (c # s @ [0]))"
  using assms by (rule strcpy_put)

end
