(* ===== verification/Numbers.thy ===== *)
theory Numbers
  imports Krlibc
begin

text \<open>
  The rest of \<^verbatim>\<open>kernel/krlibc.cpp\<close>: numbers read from and written to text (\<open>atoi\<close>, \<open>skip_atoi\<close>, \<open>strtol\<close>,
  \<open>wnumber\<close>) and the splitting of a command line (\<open>cmd_parse_limit\<close>). Signed overflow of an \<open>int\<close>, which the
  language leaves undefined, and a store behind the end of a buffer give \<open>None\<close>.
\<close>

section \<open>Reading numbers\<close>

partial_function (option) skip_atoi :: "bytes \<Rightarrow> nat \<Rightarrow> int \<Rightarrow> (int \<times> nat) option" where
  "skip_atoi m s i = do {
     c \<leftarrow> m s;
     if isdigit (sint c) then (if i * 10 + sint c < 2 ^ 31 then skip_atoi m (s + 1) (i * 10 + sint c - 48) else None)
     else Some (i, s)
   }"

definition atoi :: "bytes \<Rightarrow> nat \<Rightarrow> int option" where
  "atoi m pstr = do {
     c \<leftarrow> m pstr;
     let integer_sign = (if c = 45 then - 1 else 1);
     let pstr = (if c = 45 \<or> c = 43 then pstr + 1 else pstr);
     (ret_integer, pstr) \<leftarrow> skip_atoi m pstr 0;
     Some (integer_sign * ret_integer)
   }"

partial_function (option) skip_space :: "bytes \<Rightarrow> nat \<Rightarrow> nat option" where
  "skip_space m cursor = do { c \<leftarrow> m cursor; if isspace (uint c) then skip_space m (cursor + 1) else Some cursor }"

definition has_hex_prefix :: "bytes \<Rightarrow> nat \<Rightarrow> bool option" where
  "has_hex_prefix m cursor = do {
     c0 \<leftarrow> m cursor;
     if c0 \<noteq> 48 then Some False
     else do {
       c1 \<leftarrow> m (cursor + 1);
       if c1 \<noteq> 120 \<and> c1 \<noteq> 88 then Some False
       else do {
         c2 \<leftarrow> m (cursor + 2);
         let first_hex = sint c2;
         Some (first_hex \<ge> 48 \<and> first_hex \<le> 57 \<or> first_hex \<ge> 65 \<and> first_hex \<le> 70 \<or> first_hex \<ge> 97 \<and> first_hex \<le> 102)
       }
     }
   }"

text \<open>The value of a digit character, \<open>None\<close> when it is none.\<close>

definition digit_of :: "u8 \<Rightarrow> nat option" where
  "digit_of c =
     (let ch = sint c
      in if ch \<ge> 48 \<and> ch \<le> 57 then Some (nat (ch - 48))
         else if ch \<ge> 65 \<and> ch \<le> 90 then Some (nat (ch - 65 + 10))
         else if ch \<ge> 97 \<and> ch \<le> 122 then Some (nat (ch - 97 + 10))
         else None)"

partial_function (option) strtol_digits :: "bytes \<Rightarrow> nat \<Rightarrow> u64 \<Rightarrow> nat \<Rightarrow> u64 \<Rightarrow> bool \<Rightarrow> (nat \<times> u64 \<times> bool) option" where
  "strtol_digits m base limit cursor value overflow = do {
     c \<leftarrow> m cursor;
     if c = 0 then Some (cursor, value, overflow)
     else (case digit_of c of None \<Rightarrow> Some (cursor, value, overflow)
       | Some digit \<Rightarrow>
           if digit \<ge> base then Some (cursor, value, overflow)
           else if value > (limit - of_nat digit) div of_nat base then strtol_digits m base limit (cursor + 1) value True
           else strtol_digits m base limit (cursor + 1) (value * of_nat base + of_nat digit) overflow)
   }"

text \<open>The result is the value and what is stored through \<open>endptr\<close> when it is not null.\<close>

definition strtol :: "bytes \<Rightarrow> ptr \<Rightarrow> int \<Rightarrow> (int \<times> ptr) option" where
  "strtol m str base =
     (case str of None \<Rightarrow> Some (0, None)
      | Some str \<Rightarrow> do {
          cursor \<leftarrow> skip_space m str;
          c \<leftarrow> m cursor;
          let negative = (c = 45);
          let cursor = (if c = 45 \<or> c = 43 then cursor + 1 else cursor);
          if base \<noteq> 0 \<and> (base < 2 \<or> base > 36) then Some (0, Some str)
          else do {
            hex \<leftarrow> (if base = 0 \<or> base = 16 then has_hex_prefix m cursor else Some False);
            let cursor = (if hex then cursor + 2 else cursor);
            let base = (if hex then 16 else base);
            base \<leftarrow> (if base = 0 then do { c \<leftarrow> m cursor; Some (if c = 48 then 8 else 10) } else Some base);
            let limit = (if negative then 0x7fffffffffffffff + 1 else 0x7fffffffffffffff);
            (e, value, overflow) \<leftarrow> strtol_digits m (nat base) limit cursor 0 False;
            if e = cursor then Some (0, Some str)
            else if overflow then Some (if negative then - (2 ^ 63) else 2 ^ 63 - 1, Some e)
            else if \<not> negative then Some (sint value, Some e)
            else if value = 0x7fffffffffffffff + 1 then Some (- (2 ^ 63), Some e)
            else Some (- sint value, Some e)
          }
        })"

section \<open>Writing numbers\<close>

record num_fmt_type =
  zeropad :: bool
  nf_sign :: bool
  plus :: bool
  space :: bool
  left :: bool
  special :: bool
  small :: bool

record num_formatter =
  fm_num :: u64
  fm_base :: u64
  fm_size :: u64
  fm_precision :: u64

definition digit_table :: "bool \<Rightarrow> u8 list" where
  "digit_table sm = map of_nat ([48..<58] @ (if sm then [97..<123] else [65..<91]))"

text \<open>The digits go, the least significant first, to \<open>tmp\<close>, an array of 65 characters.\<close>

function wnumber_digits :: "u8 list \<Rightarrow> nat \<Rightarrow> nat \<Rightarrow> u8 list \<Rightarrow> u8 list option" where
  "wnumber_digits digits base value tmp =
     (if length tmp < 65 then
        let tmp = tmp @ [digits ! (value mod base)]; value = value div base
        in if value \<noteq> 0 then wnumber_digits digits base value tmp else Some tmp
      else None)"
  by auto
termination by (relation "measure (\<lambda>(digits, base, value, tmp). 65 - length tmp)") auto

text \<open>What the handler is given, and the result. A writer without a handler writes nothing.\<close>

definition wnumber :: "bool \<Rightarrow> num_formatter \<Rightarrow> num_fmt_type \<Rightarrow> (nat \<times> u8 list) option" where
  "wnumber handler fmter type =
     (if \<not> handler \<or> fm_base fmter < 2 \<or> fm_base fmter > 36 then Some (0, [])
      else do {
        let digits = digit_table (small type);
        let negative = (nf_sign type \<and> sint (fm_num fmter) < 0);
        let value = (if negative then word_of_int (- (sint (fm_num fmter) + 1)) + 1 else fm_num fmter);
        let sign = (if negative then [45] else if plus type then [43] else if space type then [32] else []);
        let prefix = (if special type then (if fm_base fmter = 8 then [48]
                        else if fm_base fmter = 16 then [48, if small type then 120 else 88] else [])
                      else []);
        tmp \<leftarrow> wnumber_digits digits (unat (fm_base fmter)) (unat value) [];
        let digit_count = length tmp;
        let prefix_width = length prefix;
        let precision_width = max (unat (fm_precision fmter)) digit_count;
        let precision_padding = precision_width - digit_count;
        let content_width = (precision_width + prefix_width + length sign) mod 2 ^ 64;
        let field_padding = unat (fm_size fmter) - content_width;
        let zero_field = (zeropad type \<and> \<not> left type);
        let out = (if \<not> left type \<and> \<not> zero_field then replicate field_padding 32 else []) @ sign @ prefix @
                  (if zero_field then replicate field_padding 48 else []) @ replicate precision_padding 48 @ rev tmp @
                  (if left type then replicate field_padding 32 else []);
        Some (length out mod 2 ^ 64, out)
      })"

section \<open>Command lines\<close>

partial_function (option) skip_token :: "bytes \<Rightarrow> u8 \<Rightarrow> nat \<Rightarrow> nat option" where
  "skip_token m token nxt = do { c \<leftarrow> m nxt; if c = token then skip_token m token (nxt + 1) else Some nxt }"

text \<open>A store into the argument buffer of \<open>cap\<close> bytes.\<close>

definition push_char :: "nat \<Rightarrow> u8 list \<Rightarrow> u8 \<Rightarrow> u8 list option" where
  "push_char cap arg c = (if length arg < cap then Some (arg @ [c]) else None)"

partial_function (option) parse_arg :: "bytes \<Rightarrow> u8 \<Rightarrow> nat \<Rightarrow> nat \<Rightarrow> u8 \<Rightarrow> u8 list \<Rightarrow> (nat \<times> u8 list) option" where
  "parse_arg m token cap nxt quote arg = do {
     c \<leftarrow> m nxt;
     if c = 0 then Some (nxt, arg)
     else if quote \<noteq> 0 \<and> c = quote then parse_arg m token cap (nxt + 1) 0 arg
     else if quote = 0 \<and> c = token then Some (nxt, arg)
     else if quote = 0 \<and> (c = 39 \<or> c = 34) then parse_arg m token cap (nxt + 1) c arg
     else if c = 92 then do {
       n \<leftarrow> m (nxt + 1);
       if n \<noteq> 0 then do { arg \<leftarrow> push_char cap arg n; parse_arg m token cap (nxt + 2) quote arg }
       else do { arg \<leftarrow> push_char cap arg c; parse_arg m token cap (nxt + 1) quote arg }
     }
     else do { arg \<leftarrow> push_char cap arg c; parse_arg m token cap (nxt + 1) quote arg }
   }"

text \<open>
  \<open>ok k\<close> says whether the \<open>k\<close>-th \<open>malloc\<close> succeeds; when it does not, the arguments so far are freed and the
  result is \<open>-1\<close>, here \<open>Some None\<close>.
\<close>

partial_function (option) parse_args :: "bytes \<Rightarrow> u8 \<Rightarrow> int \<Rightarrow> (nat \<Rightarrow> bool) \<Rightarrow> nat \<Rightarrow> u8 list list \<Rightarrow> u8 list list option option" where
  "parse_args m token max_argc ok nxt argv = do {
     c \<leftarrow> m nxt;
     if c = 0 then Some (Some argv)
     else do {
       nxt \<leftarrow> skip_token m token nxt;
       c \<leftarrow> m nxt;
       if c = 0 then Some (Some argv)
       else do {
         len \<leftarrow> strlen m nxt;
         if \<not> ok (length argv) then Some None
         else do {
           (nxt, arg) \<leftarrow> parse_arg m token (len + 1) nxt 0 [];
           arg0 \<leftarrow> push_char (len + 1) arg 0;
           if int (length argv) + 1 \<ge> max_argc then Some (Some (argv @ [arg]))
           else parse_args m token max_argc ok nxt (argv @ [arg])
         }
       }
     }
   }"

definition cmd_parse_limit :: "bytes \<Rightarrow> nat \<Rightarrow> u8 \<Rightarrow> int \<Rightarrow> (nat \<Rightarrow> bool) \<Rightarrow> u8 list list option option" where
  "cmd_parse_limit m cmd_str token max_argc ok =
     (if max_argc \<le> 0 then Some (Some []) else parse_args m token max_argc ok cmd_str [])"

definition cmd_parse :: "bytes \<Rightarrow> nat \<Rightarrow> u8 \<Rightarrow> (nat \<Rightarrow> bool) \<Rightarrow> u8 list list option option" where
  "cmd_parse m cmd_str token ok = cmd_parse_limit m cmd_str token 50 ok"

section \<open>Numerals\<close>

definition numeral_value :: "nat \<Rightarrow> nat \<Rightarrow> nat list \<Rightarrow> nat" where
  "numeral_value b x ds = foldl (\<lambda>a d. a * b + d) x ds"

lemma numeral_value_Nil [simp]: "numeral_value b x [] = x"
  by (simp add: numeral_value_def)

lemma numeral_value_Cons [simp]: "numeral_value b x (d # ds) = numeral_value b (x * b + d) ds"
  by (simp add: numeral_value_def)

lemma numeral_value_ge: "0 < b \<Longrightarrow> x \<le> numeral_value b x ds"
proof (induction ds arbitrary: x)
  case (Cons d ds)
  have "x \<le> x * b + d" using Cons.prems by (cases b) auto
  then show ?case using Cons.IH [of "x * b + d"] Cons.prems by simp
qed simp

text \<open>The characters \<open>cs\<close> are the digits \<open>ds\<close>; a character that ends them.\<close>

definition digits_of :: "nat \<Rightarrow> u8 list \<Rightarrow> nat list \<Rightarrow> bool" where
  "digits_of b cs ds \<longleftrightarrow> list_all2 (\<lambda>c d. digit_of c = Some d \<and> d < b) cs ds"

definition stops :: "nat \<Rightarrow> u8 \<Rightarrow> bool" where
  "stops b c \<longleftrightarrow> (case digit_of c of None \<Rightarrow> True | Some d \<Rightarrow> b \<le> d)"

lemma digit_of_0 [simp]: "digit_of 0 = None"
  by (simp add: digit_of_def)

lemma digits_of_Nil [simp]: "digits_of b [] ds \<longleftrightarrow> ds = []"
  by (auto simp: digits_of_def)

lemma digits_of_Cons [simp]:
  "digits_of b (c # cs) ds \<longleftrightarrow> (\<exists>d es. ds = d # es \<and> digit_of c = Some d \<and> d < b \<and> digits_of b cs es)"
  by (auto simp: digits_of_def list_all2_Cons1)

lemma digits_stop: "m p = Some c \<Longrightarrow> stops b c \<Longrightarrow> strtol_digits m b L p v ov = Some (p, v, ov)"
  by (subst strtol_digits.simps) (auto simp: stops_def split: option.splits)

lemma digits_overflowed:
  assumes "block_at m p cs" "digits_of b cs ds" "m (p + length cs) = Some e" "stops b e"
  shows "\<exists>w. strtol_digits m b L p v True = Some (p + length cs, w, True)"
  using assms
proof (induction cs arbitrary: p v ds)
  case Nil
  then show ?case by (simp add: digits_stop)
next
  case (Cons c cs)
  then obtain d es where d: "digit_of c = Some d" "d < b" "digits_of b cs es" by auto
  have "c \<noteq> 0" using d(1) by auto
  then have "\<exists>u. strtol_digits m b L p v True = strtol_digits m b L (Suc p) u True"
    using d Cons.prems(1) by (subst strtol_digits.simps) auto
  then show ?case using Cons.IH [of "Suc p" es] d(3) Cons.prems by auto
qed

lemma digit_fits:
  fixes v L :: u64
  assumes "0 < b" "b \<le> 36" "d < b" "36 \<le> unat L"
  shows "(L - of_nat d) div of_nat b < v \<longleftrightarrow> unat L < unat v * b + d"
    "unat v * b + d \<le> unat L \<Longrightarrow> unat (v * of_nat b + of_nat d) = unat v * b + d"
proof -
  have u: "unat (of_nat d :: u64) = d" "unat (of_nat b :: u64) = b" using assms by (simp_all add: unat_of_nat)
  have "unat (L - of_nat d) = unat L - d" using assms by (simp add: unat_sub word_le_nat_alt u)
  then have "(L - of_nat d) div of_nat b < v \<longleftrightarrow> (unat L - d) div b < unat v"
    by (simp add: word_less_nat_alt unat_div u)
  also have "\<dots> \<longleftrightarrow> unat L < unat v * b + d" using assms by (simp add: div_less_iff_less_mult) linarith
  finally show "(L - of_nat d) div of_nat b < v \<longleftrightarrow> unat L < unat v * b + d" .
  assume le: "unat v * b + d \<le> unat L"
  then have lt: "unat v * b + d < 2 ^ 64" using unat_less_64 [of L] by linarith
  then have "unat (v * of_nat b) = unat v * b" by (subst unat_mult_small) (simp_all add: u)
  then show "unat (v * of_nat b + of_nat d) = unat v * b + d" using lt by (subst unat_add_small) (simp_all add: u)
qed

lemma strtol_digits_spec:
  assumes "block_at m p cs" "digits_of b cs ds" "m (p + length cs) = Some e" "stops b e"
    and b: "0 < b" "b \<le> 36" "36 \<le> unat L" and "unat v \<le> unat L"
  shows "\<exists>w ov. strtol_digits m b L p v False = Some (p + length cs, w, ov) \<and>
    (ov \<longleftrightarrow> unat L < numeral_value b (unat v) ds) \<and> (\<not> ov \<longrightarrow> unat w = numeral_value b (unat v) ds)"
  using assms(1-4,8)
proof (induction cs arbitrary: p v ds)
  case Nil
  then show ?case by (auto simp: digits_stop)
next
  case (Cons c cs)
  then obtain d es where d: "ds = d # es" "digit_of c = Some d" "d < b" "digits_of b cs es" by auto
  have c: "c \<noteq> 0" "m p = Some c" using d(2) Cons.prems(1) by auto
  note fit = digit_fits [OF b(1,2) d(3) b(3), of v]
  show ?case
  proof (cases "unat L < unat v * b + d")
    case True
    then have "strtol_digits m b L p v False = strtol_digits m b L (Suc p) v True"
      using c d fit(1) by (subst strtol_digits.simps) simp
    moreover obtain w where "strtol_digits m b L (Suc p) v True = Some (Suc p + length cs, w, True)"
      using digits_overflowed [of m "Suc p" cs b es e L v] Cons.prems d(4) by auto
    moreover have "unat L < numeral_value b (unat v) ds"
      using True numeral_value_ge [OF b(1), of "unat v * b + d" es] d(1) by simp
    ultimately show ?thesis by auto
  next
    case False
    let ?v = "v * of_nat b + of_nat d"
    have u: "unat ?v = unat v * b + d" using False fit(2) by simp
    have "strtol_digits m b L p v False = strtol_digits m b L (Suc p) ?v False"
      using False c d fit(1) by (subst strtol_digits.simps) simp
    moreover have "\<exists>w ov. strtol_digits m b L (Suc p) ?v False = Some (Suc p + length cs, w, ov) \<and>
        (ov \<longleftrightarrow> unat L < numeral_value b (unat ?v) es) \<and> (\<not> ov \<longrightarrow> unat w = numeral_value b (unat ?v) es)"
      using Cons.prems d(4) False u by (intro Cons.IH) auto
    ultimately show ?thesis using d(1) u by auto
  qed
qed

lemma skip_space_spec:
  assumes "block_at m p sp" "\<forall>c \<in> set sp. isspace (uint c)" "m (p + length sp) = Some c" "\<not> isspace (uint c)"
  shows "skip_space m p = Some (p + length sp)"
  using assms
proof (induction sp arbitrary: p)
  case Nil
  then show ?case by (subst skip_space.simps) simp
next
  case (Cons x sp)
  then have "skip_space m p = skip_space m (Suc p)" by (subst skip_space.simps) simp
  then show ?case using Cons by simp
qed

lemma sint_small: "uint (w :: u64) < 2 ^ 63 \<Longrightarrow> sint w = uint w"
  using order_trans [of "- (2 ^ 63)" 0 "uint w"] by (simp add: sint_uint signed_take_bit_int_eq_self)

lemma sint_nonneg_u8: "0 \<le> sint (c :: u8) \<Longrightarrow> uint c = sint c"
  using sint_less [of c] by (simp add: uint_sint take_bit_int_eq_self)

lemma digit_char:
  assumes "digit_of c = Some d"
  shows "\<not> isspace (uint c)" "c \<noteq> 45" "c \<noteq> 43" "d < 16 \<Longrightarrow> c \<noteq> 120" "d < 16 \<Longrightarrow> c \<noteq> 88"
proof -
  have "0 \<le> sint c" "48 \<le> sint c" using assms by (auto simp: digit_of_def Let_def split: if_splits)
  then show "\<not> isspace (uint c)" using sint_nonneg_u8 [of c] by (simp add: isspace_def)
  show "c \<noteq> 45" "c \<noteq> 43" "d < 16 \<Longrightarrow> c \<noteq> 120" "d < 16 \<Longrightarrow> c \<noteq> 88"
    using assms by (auto simp: digit_of_def)
qed

lemma no_hex_prefix:
  assumes "block_at m p cs" "digits_of 16 cs ds" "cs \<noteq> []" "m (p + length cs) = Some e" "e \<noteq> 120" "e \<noteq> 88"
  shows "has_hex_prefix m p = Some False"
proof -
  obtain c0 cs' where cs: "cs = c0 # cs'" using assms(3) by (cases cs) auto
  have "\<exists>c1. m (Suc p) = Some c1 \<and> c1 \<noteq> 120 \<and> c1 \<noteq> 88"
  proof (cases cs')
    case Nil
    then show ?thesis using assms cs by simp
  next
    case (Cons c1 r)
    then show ?thesis using assms(1,2) cs digit_char(4,5) [of c1] by auto
  qed
  then show ?thesis using assms(1) cs by (auto simp: has_hex_prefix_def)
qed

lemma hex_prefix:
  assumes "block_at m p (px @ cs)" "px \<in> {[48, 120], [48, 88]}" "digits_of 16 cs ds" "cs \<noteq> []"
  shows "has_hex_prefix m p = Some True"
proof -
  obtain c0 cs' where cs: "cs = c0 # cs'" using assms(4) by (cases cs) auto
  then obtain d where "digit_of c0 = Some d" "d < 16" using assms(3) by auto
  then have "sint c0 \<ge> 48 \<and> sint c0 \<le> 57 \<or> sint c0 \<ge> 65 \<and> sint c0 \<le> 70 \<or> sint c0 \<ge> 97 \<and> sint c0 \<le> 102"
    by (auto simp: digit_of_def Let_def split: if_splits)
  then show ?thesis using assms(1,2) cs by (auto simp: has_hex_prefix_def)
qed

text \<open>Optional white space, an optional sign, in base 16 an optional prefix, digits of the base, and a character that ends them.\<close>

definition number_at :: "bytes \<Rightarrow> nat \<Rightarrow> int \<Rightarrow> u8 list \<Rightarrow> u8 list \<Rightarrow> u8 list \<Rightarrow> u8 list \<Rightarrow> nat list \<Rightarrow> bool" where
  "number_at m p base sp sg px cs ds \<longleftrightarrow>
     (\<exists>e. block_at m p (sp @ sg @ px @ cs @ [e]) \<and> stops (nat base) e \<and> (base = 16 \<longrightarrow> e \<noteq> 120 \<and> e \<noteq> 88)) \<and>
     (\<forall>c \<in> set sp. isspace (uint c)) \<and> sg \<in> {[], [45], [43]} \<and> (px = [] \<or> base = 16 \<and> px \<in> {[48, 120], [48, 88]}) \<and>
     cs \<noteq> [] \<and> digits_of (nat base) cs ds"

lemma strtol_number:
  assumes nb: "number_at m p base sp sg px cs ds" and base: "2 \<le> base" "base \<le> 36"
  shows "strtol m (Some p) base =
    Some (if sg = [45] then max (- (2 ^ 63)) (- int (numeral_value (nat base) 0 ds)) else min (2 ^ 63 - 1) (int (numeral_value (nat base) 0 ds)),
          Some (p + length sp + length sg + length px + length cs))"
proof -
  let ?b = "nat base" and ?V = "numeral_value (nat base) 0 ds" and ?neg = "sg = [45]"
  let ?q = "p + length sp + length sg" and ?hex = "px \<noteq> []"
  let ?r = "?q + length px"
  obtain e where blk: "block_at m p sp" "block_at m (p + length sp) sg" "block_at m ?q (px @ cs)" "block_at m ?r cs" "m (?r + length cs) = Some e"
    and e: "stops ?b e" "base = 16 \<longrightarrow> e \<noteq> 120 \<and> e \<noteq> 88"
    and sp: "\<forall>c \<in> set sp. isspace (uint c)" and sg: "sg \<in> {[], [45], [43]}" and cs: "cs \<noteq> []" "digits_of ?b cs ds"
    and px: "px = [] \<or> base = 16 \<and> px \<in> {[48, 120], [48, 88]}"
    using nb unfolding number_at_def block_at_append by (auto simp: add.assoc)
  obtain c0 cs' d0 where c0: "px @ cs = c0 # cs'" and d0: "digit_of c0 = Some d0"
  proof (cases "px = []")
    case True
    then show ?thesis using cs that by (cases cs) auto
  next
    case False
    then show ?thesis using px that [of 48 "tl px @ cs" 0] by (auto simp: digit_of_def)
  qed
  obtain h where h: "m (p + length sp) = Some h" "\<not> isspace (uint h)" "(h = 45) = ?neg"
      "(if ?neg \<or> h = 43 then p + length sp + 1 else p + length sp) = ?q"
    using sg blk(2,3) c0 digit_char [OF d0] by (auto simp: isspace_def)
  have sk: "skip_space m p = Some (p + length sp)" by (rule skip_space_spec [OF blk(1) sp h(1,2)])
  have hex: "(if base = 16 then has_hex_prefix m ?q else Some False) = Some ?hex"
    using no_hex_prefix [OF blk(4) _ cs(1) blk(5)] hex_prefix [OF blk(3) _ _ cs(1)] cs(2) e(2) px by (cases "base = 16") auto
  have hb: "(if ?hex then 16 else base) = base" "(if ?hex then ?q + 2 else ?q) = ?r" using px by auto
  define L :: u64 where "L = (if ?neg then 0x7fffffffffffffff + 1 else 0x7fffffffffffffff)"
  have L: "unat L = (if ?neg then 2 ^ 63 else 2 ^ 63 - 1)" by (simp add: L_def)
  have bb: "0 < ?b" "?b \<le> 36" "36 \<le> unat L" using base L by auto
  obtain w ov where w: "strtol_digits m ?b L ?r 0 False = Some (?r + length cs, w, ov)" "ov \<longleftrightarrow> unat L < ?V" "\<not> ov \<longrightarrow> unat w = ?V"
    using strtol_digits_spec [OF blk(4) cs(2) blk(5) e(1) bb, of 0] by auto
  have run: "strtol m (Some p) base =
      (if ov then Some (if ?neg then - (2 ^ 63) else 2 ^ 63 - 1, Some (?r + length cs))
       else if \<not> ?neg then Some (sint w, Some (?r + length cs))
       else if w = 0x7fffffffffffffff + 1 then Some (- (2 ^ 63), Some (?r + length cs))
       else Some (- sint w, Some (?r + length cs)))"
  proof -
    have c: "(base < 2 \<or> base > 36) = False" "(base = 0) = False" "(?r + length cs = ?r) = False" using base cs(1) by auto
    show ?thesis
      unfolding strtol_def Let_def
      by (simp only: option.case sk bind.bind_lunit h(1,3,4) hex hb c if_False simp_thms L_def [symmetric] w(1) case_prod_conv)
  qed
  have iw: "uint w = int (unat w)" by simp
  show ?thesis
  proof (cases ov)
    case True
    then show ?thesis using run w(2) L by (auto split: if_splits)
  next
    case False
    then have V: "unat w = ?V" "?V \<le> unat L" using w by simp_all
    show ?thesis
    proof (cases "w = 0x7fffffffffffffff + 1")
      case True
      then show ?thesis using run False V L by (auto split: if_splits)
    next
      case ne: False
      have "unat w \<noteq> 2 ^ 63" using ne by (simp add: word_unat_eq_iff)
      then have "uint w < 2 ^ 63" using V L by (auto split: if_splits simp: iw)
      then have "sint w = int ?V" using sint_small [of w] V iw by simp
      then show ?thesis using run False ne V L by (auto split: if_splits)
    qed
  qed
qed

section \<open>Written numbers read back\<close>

lemma numeral_value_snoc: "numeral_value b x (ds @ [d]) = numeral_value b x ds * b + d"
  by (simp add: numeral_value_def)

lemma numeral_value_zeros: "numeral_value b 0 (replicate n 0 @ ds) = numeral_value b 0 ds"
  by (induction n) simp_all

lemma sint_of_nat_u8: "k < 128 \<Longrightarrow> sint (of_nat k :: u8) = int k"
  by (simp add: sint_uint uint_word_of_int signed_take_bit_int_eq_self take_bit_int_eq_self unsigned_of_nat take_bit_nat_eq_self)

lemma digit_table_nth:
  assumes "d < 36"
  shows "digit_of (digit_table sm ! d) = Some d"
proof (cases "d < 10")
  case True
  then have "digit_table sm ! d = of_nat (48 + d)" by (simp add: digit_table_def nth_append del: upt_rec_numeral)
  then show ?thesis using True sint_of_nat_u8 [of "48 + d"] by (simp add: digit_of_def Let_def)
next
  case False
  then have "digit_table sm ! d = of_nat ((if sm then 97 else 65) + (d - 10))"
    using assms by (simp add: digit_table_def nth_append del: upt_rec_numeral)
  then show ?thesis
    using False assms sint_of_nat_u8 [of "97 + (d - 10)"] sint_of_nat_u8 [of "65 + (d - 10)"] by (simp add: digit_of_def Let_def)
qed

lemma wnumber_digits_spec:
  assumes "2 \<le> b" "length tmp \<le> 64" "n < 2 ^ (64 - length tmp)"
  shows "\<exists>ds. wnumber_digits tbl b n tmp = Some (tmp @ map ((!) tbl) ds) \<and> ds \<noteq> [] \<and> (\<forall>d \<in> set ds. d < b) \<and>
    numeral_value b 0 (rev ds) = n"
  using assms(2,3)
proof (induction "64 - length tmp" arbitrary: tmp n rule: less_induct)
  case less
  let ?d = "n mod b" and ?v = "n div b"
  have dv: "?v * b + ?d = n" "?d < b" using assms(1) by simp_all
  show ?case
  proof (cases "?v = 0")
    case True
    then have "wnumber_digits tbl b n tmp = Some (tmp @ [tbl ! ?d])"
      using less.prems by (subst wnumber_digits.simps) (simp add: Let_def del: wnumber_digits.simps)
    then show ?thesis using dv True by (intro exI [of _ "[?d]"]) simp
  next
    case False
    have "length tmp < 64"
    proof (rule ccontr)
      assume "\<not> length tmp < 64"
      then have "n = 0" using less.prems by simp
      then show False using False by simp
    qed
    then have e: "64 - length tmp = Suc (64 - length (tmp @ [tbl ! ?d]))" by simp
    have "?v \<le> n div 2" using assms(1) by (simp add: div_le_mono2)
    moreover have "n div 2 < 2 ^ (64 - length (tmp @ [tbl ! ?d]))" using less.prems(2) unfolding e by simp
    ultimately have lt: "?v < 2 ^ (64 - length (tmp @ [tbl ! ?d]))" by (rule le_less_trans)
    have l: "length (tmp @ [tbl ! ?d]) \<le> 64" "64 - length (tmp @ [tbl ! ?d]) < 64 - length tmp" using \<open>length tmp < 64\<close> by simp_all
    obtain ds where ds: "wnumber_digits tbl b ?v (tmp @ [tbl ! ?d]) = Some ((tmp @ [tbl ! ?d]) @ map ((!) tbl) ds)" "ds \<noteq> []"
        "\<forall>d \<in> set ds. d < b" "numeral_value b 0 (rev ds) = ?v"
      using less.hyps [OF l(2,1) lt] by blast
    have "wnumber_digits tbl b n tmp = wnumber_digits tbl b ?v (tmp @ [tbl ! ?d])"
      using False \<open>length tmp < 64\<close> by (subst wnumber_digits.simps) (simp add: Let_def del: wnumber_digits.simps)
    then show ?thesis using ds dv by (intro exI [of _ "?d # ds"]) (simp add: numeral_value_snoc)
  qed
qed

lemma digits_of_table:
  assumes "b \<le> 36" "\<forall>d \<in> set ds. d < b"
  shows "digits_of b (map ((!) (digit_table sm)) ds) ds"
  using assms by (induction ds) (auto simp: digit_table_nth)

lemma magnitude:
  fixes n :: u64
  shows "sint n < 0 \<Longrightarrow> unat (word_of_int (- (sint n + 1)) + 1 :: u64) = nat (- sint n)" "0 \<le> sint n \<Longrightarrow> unat n = nat (sint n)"
proof -
  have r: "- (2 ^ 63) \<le> sint n" "sint n < 2 ^ 63" using sint_ge [of n] sint_less [of n] by simp_all
  assume neg: "sint n < 0"
  have "word_of_int (- (sint n + 1)) + 1 = (word_of_int (- sint n) :: u64)" by simp
  moreover have "uint (word_of_int (- sint n) :: u64) = - sint n"
    using neg r by (simp only: uint_word_of_int_eq) (simp add: take_bit_int_eq_self)
  ultimately show "unat (word_of_int (- (sint n + 1)) + 1 :: u64) = nat (- sint n)" by (metis nat_uint_eq)
next
  assume nn: "0 \<le> sint n"
  then have "uint n = sint n" using sint_less [of n] by (simp add: uint_sint take_bit_int_eq_self)
  then show "unat n = nat (sint n)" by (metis nat_uint_eq)
qed

text \<open>The number \<open>wnumber\<close> writes, and its text.\<close>

definition shown :: "num_formatter \<Rightarrow> num_fmt_type \<Rightarrow> int" where
  "shown f t = (if nf_sign t then sint (fm_num f) else uint (fm_num f))"

lemma shown_magnitude:
  "unat (if nf_sign t \<and> sint (fm_num f) < 0 then word_of_int (- (sint (fm_num f) + 1)) + 1 else fm_num f) = nat \<bar>shown f t\<bar>"
  using magnitude [of "fm_num f"] by (auto simp: shown_def)

lemma wnumber_text:
  assumes b: "2 \<le> fm_base f" "fm_base f \<le> 36"
  shows "\<exists>sp sg px cs ds tr. wnumber True f t = Some (length (sp @ sg @ px @ cs @ replicate tr 32) mod 2 ^ 64, sp @ sg @ px @ cs @ replicate tr 32) \<and>
    (\<forall>c \<in> set sp. isspace (uint c)) \<and> sg \<in> {[], [45], [43]} \<and> (sg = [45] \<longleftrightarrow> shown f t < 0) \<and>
    (px = [] \<or> fm_base f = 16 \<and> px \<in> {[48, 120], [48, 88]}) \<and> cs \<noteq> [] \<and>
    digits_of (unat (fm_base f)) cs ds \<and> numeral_value (unat (fm_base f)) 0 ds = nat \<bar>shown f t\<bar>"
proof -
  let ?b = "unat (fm_base f)" and ?neg = "nf_sign t \<and> sint (fm_num f) < 0" and ?tbl = "digit_table (small t)"
  define v where "v = (if ?neg then word_of_int (- (sint (fm_num f) + 1)) + 1 else fm_num f)"
  have v: "unat v = nat \<bar>shown f t\<bar>" unfolding v_def by (rule shown_magnitude)
  have b': "2 \<le> ?b" "?b \<le> 36" using b by (simp_all add: word_le_nat_alt)
  obtain ds where ds: "wnumber_digits ?tbl ?b (unat v) [] = Some (map ((!) ?tbl) ds)" "ds \<noteq> []" "\<forall>d \<in> set ds. d < ?b"
      "numeral_value ?b 0 (rev ds) = unat v"
    using wnumber_digits_spec [OF b'(1), of "[]" "unat v" ?tbl] by auto
  define sign :: "u8 list" where "sign = (if ?neg then [45] else if plus t then [43] else if space t then [32] else [])"
  define prefix :: "u8 list" where "prefix = (if special t then (if fm_base f = 8 then [48] else if fm_base f = 16 then [48, if small t then 120 else 88] else []) else [])"
  define pw where "pw = max (unat (fm_precision f)) (length ds)"
  define fp where "fp = unat (fm_size f) - (pw + length prefix + length sign) mod 18446744073709551616"
  define lead where "lead = (if \<not> left t \<and> \<not> zeropad t then fp else 0)"
  define zs where "zs = (if zeropad t \<and> \<not> left t then fp else 0) + (pw - length ds)"
  define tr where "tr = (if left t then fp else 0)"
  define out where "out = replicate lead 32 @ sign @ prefix @ replicate zs 48 @ map ((!) ?tbl) (rev ds) @ replicate tr 32"
  have nlt: "\<not> fm_base f < 2" "\<not> 36 < fm_base f" using b by (simp_all add: not_less)
  have "length ds \<le> pw" by (simp add: pw_def)
  then have run: "wnumber True f t = Some (length out mod 2 ^ 64, out)"
    using nlt ds(1) unfolding wnumber_def Let_def out_def
    by (simp add: v_def [symmetric] sign_def [symmetric] prefix_def [symmetric] pw_def [symmetric] fp_def [symmetric]
        lead_def zs_def tr_def replicate_add rev_map) (simp add: replicate_add [symmetric])
  define sp where "sp = replicate lead 32 @ (if sign = [32] then [32 :: u8] else [])"
  define sg where "sg = (if sign = [32] then [] else sign)"
  define px where "px = (if fm_base f = 16 then prefix else [])"
  define n0 where "n0 = (if fm_base f = 16 then 0 else length prefix) + zs"
  define cs where "cs = replicate n0 48 @ map ((!) ?tbl) (rev ds)"
  have pz: "prefix @ replicate zs 48 = px @ replicate n0 48" by (simp add: px_def n0_def prefix_def)
  have ss: "replicate lead 32 @ sign = sp @ sg" "sg \<in> {[], [45], [43]}" "sg = [45] \<longleftrightarrow> shown f t < 0" "\<forall>c \<in> set sp. isspace (uint c)"
    by (auto simp: sp_def sg_def sign_def isspace_def shown_def)
  have out: "out = sp @ sg @ px @ cs @ replicate tr 32"
    unfolding out_def cs_def using ss(1) pz by (metis append.assoc)
  have z48: "digits_of ?b (replicate n0 48) (replicate n0 0)" using b'(1) by (induction n0) (auto simp: digit_of_def)
  have dg: "digits_of ?b cs (replicate n0 0 @ rev ds)"
    unfolding cs_def using z48 digits_of_table [OF b'(2), of "rev ds" "small t"] ds(3) by (simp add: digits_of_def list_all2_appendI)
  have nv: "numeral_value ?b 0 (replicate n0 0 @ rev ds) = nat \<bar>shown f t\<bar>" using ds(4) v by (simp add: numeral_value_zeros)
  have "px = [] \<or> fm_base f = 16 \<and> px \<in> {[48, 120], [48, 88]}" "cs \<noteq> []" using ds(2) by (auto simp: px_def prefix_def cs_def)
  then show ?thesis using run [unfolded out] ss(2-4) dg nv by blast
qed

lemma wnumber_read_back:
  assumes b: "2 \<le> fm_base f" "fm_base f \<le> 36"
  shows "\<exists>out. wnumber True f t = Some (length out mod 2 ^ 64, out) \<and>
    (\<forall>m p. cstr m p out \<longrightarrow> (\<exists>e. strtol m (Some p) (uint (fm_base f)) = Some (min (2 ^ 63 - 1) (shown f t), Some e)))"
proof -
  from wnumber_text [OF b, of t] obtain sp sg px cs ds tr where
      w: "wnumber True f t = Some (length (sp @ sg @ px @ cs @ replicate tr 32) mod 2 ^ 64, sp @ sg @ px @ cs @ replicate tr 32)"
      "\<forall>c \<in> set sp. isspace (uint c)" "sg \<in> {[], [45], [43]}" "sg = [45] \<longleftrightarrow> shown f t < 0"
      "px = [] \<or> fm_base f = 16 \<and> px \<in> {[48, 120], [48, 88]}" "cs \<noteq> []"
      "digits_of (unat (fm_base f)) cs ds" "numeral_value (unat (fm_base f)) 0 ds = nat \<bar>shown f t\<bar>"
    by (elim exE conjE)
  have nb: "nat (uint (fm_base f)) = unat (fm_base f)" by simp
  have r: "- (2 ^ 63) \<le> shown f t" "shown f t < 0 \<Longrightarrow> shown f t \<le> 2 ^ 63 - 1"
    using sint_ge [of "fm_num f"] uint_nonnegative [of "fm_num f"] unfolding shown_def by (cases "nf_sign t"; simp; linarith)+
  have base: "2 \<le> uint (fm_base f)" "uint (fm_base f) \<le> 36" "fm_base f = 16 \<Longrightarrow> uint (fm_base f) = 16" using b by (simp_all add: word_le_def)
  have "\<exists>e. strtol m (Some p) (uint (fm_base f)) = Some (min (2 ^ 63 - 1) (shown f t), Some e)"
    if c: "cstr m p (sp @ sg @ px @ cs @ replicate tr 32)" for m p
  proof -
    define e :: u8 where "e = (if tr = 0 then 0 else 32)"
    have "block_at m p (sp @ sg @ px @ cs @ replicate tr 32 @ [0])" using c by (simp add: cstr_def)
    moreover have "replicate tr 32 @ [0] = e # tl (replicate tr 32 @ [0])" by (cases tr) (simp_all add: e_def)
    ultimately have "block_at m p ((sp @ sg @ px @ cs @ [e]) @ tl (replicate tr 32 @ [0]))" by simp
    then have "block_at m p (sp @ sg @ px @ cs @ [e])" unfolding block_at_append by blast
    moreover have "stops (unat (fm_base f)) e" "e \<noteq> 120" "e \<noteq> 88" by (simp_all add: e_def stops_def digit_of_def)
    ultimately have "number_at m p (uint (fm_base f)) sp sg px cs ds" unfolding number_at_def nb using w(2,3,5-7) base(3) by blast
    from strtol_number [OF this base(1,2)] show ?thesis unfolding nb w(8) using w(4) r by (auto simp: max_def min_def)
  qed
  with w(1) show ?thesis by blast
qed

section \<open>Argument buffers\<close>

text \<open>The quoting automaton consumes at least one byte for every byte it stores.\<close>

lemma parse_arg_fits:
  assumes "cstr m p s" "length arg + length s < cap"
  shows "\<exists>k arg'. parse_arg m token cap p quote arg = Some (p + k, arg') \<and> k \<le> length s \<and>
    (k = length s \<or> s ! k = token) \<and> length arg' \<le> length arg + k \<and> (quote = 0 \<and> s \<noteq> [] \<and> hd s \<noteq> token \<longrightarrow> 0 < k)"
  using assms
proof (induction "length s" arbitrary: p s quote arg rule: less_induct)
  case less
  show ?case
  proof (cases s)
    case Nil
    then show ?thesis using less.prems by (subst parse_arg.simps) simp
  next
    case (Cons c t)
    have c: "c \<noteq> 0" "m p = Some c" "cstr m (Suc p) t" using less.prems(1) Cons by simp_all
    have step: "\<exists>k arg'. parse_arg m token cap p quote arg = Some (p + k, arg') \<and> k \<le> length s \<and>
        (k = length s \<or> s ! k = token) \<and> length arg' \<le> length arg + k \<and> (quote = 0 \<and> s \<noteq> [] \<and> hd s \<noteq> token \<longrightarrow> 0 < k)"
      if r: "parse_arg m token cap p quote arg = parse_arg m token cap (Suc p) q a" "length a \<le> Suc (length arg)" for q a
    proof -
      have l: "length t < length s" "length a + length t < cap" using r(2) less.prems(2) Cons by simp_all
      obtain k arg' where "parse_arg m token cap (Suc p) q a = Some (Suc p + k, arg')" "k \<le> length t" "k = length t \<or> t ! k = token"
          "length arg' \<le> length a + k" using less.hyps [OF l(1) c(3) l(2), of q] by blast
      then show ?thesis using r Cons by (intro exI [of _ "Suc k"] exI [of _ arg']) auto
    qed
    consider (close) "quote \<noteq> 0" "c = quote" | (stop) "quote = 0" "c = token" | (start) "quote = 0" "c \<noteq> token" "c = 39 \<or> c = 34"
      | (esc) "\<not> (quote \<noteq> 0 \<and> c = quote)" "\<not> (quote = 0 \<and> c = token)" "\<not> (quote = 0 \<and> (c = 39 \<or> c = 34))" "c = 92"
      | (plain) "\<not> (quote \<noteq> 0 \<and> c = quote)" "\<not> (quote = 0 \<and> c = token)" "\<not> (quote = 0 \<and> (c = 39 \<or> c = 34))" "c \<noteq> 92"
      by blast
    then show ?thesis
    proof cases
      case close
      then show ?thesis using c by (intro step [of 0 arg]) (subst parse_arg.simps, simp, simp)
    next
      case stop
      then show ?thesis using c Cons by (intro exI [of _ 0] exI [of _ arg]) (subst parse_arg.simps, simp)
    next
      case start
      then show ?thesis using c by (intro step [of c arg]) (subst parse_arg.simps, simp, simp)
    next
      case plain
      have "push_char cap arg c = Some (arg @ [c])" using less.prems(2) by (simp add: push_char_def)
      then show ?thesis using c plain by (intro step [of quote "arg @ [c]"]) (subst parse_arg.simps, auto)
    next
      case esc
      show ?thesis
      proof (cases t)
        case Nil
        have "push_char cap arg c = Some (arg @ [c])" using less.prems(2) by (simp add: push_char_def)
        then show ?thesis using c esc Nil by (intro step [of quote "arg @ [c]"]) (subst parse_arg.simps, auto)
      next
        case t: (Cons n u)
        have n: "n \<noteq> 0" "m (Suc p) = Some n" "cstr m (Suc (Suc p)) u" using c(3) t by simp_all
        have "push_char cap arg n = Some (arg @ [n])" using less.prems(2) by (simp add: push_char_def)
        then have r: "parse_arg m token cap p quote arg = parse_arg m token cap (Suc (Suc p)) quote (arg @ [n])"
          using c esc n by (subst parse_arg.simps) auto
        have l: "length u < length s" "length (arg @ [n]) + length u < cap" using less.prems(2) Cons t by simp_all
        obtain k arg' where "parse_arg m token cap (Suc (Suc p)) quote (arg @ [n]) = Some (Suc (Suc p) + k, arg')" "k \<le> length u"
            "k = length u \<or> u ! k = token" "length arg' \<le> length (arg @ [n]) + k" using less.hyps [OF l(1) n(3) l(2), of quote] by blast
        then show ?thesis using r Cons t by (intro exI [of _ "Suc (Suc k)"] exI [of _ arg']) auto
      qed
    qed
  qed
qed

lemma cstr_drop: "cstr m p s \<Longrightarrow> k \<le> length s \<Longrightarrow> cstr m (p + k) (drop k s)"
proof (induction k arbitrary: p s)
  case (Suc k)
  then obtain c t where "s = c # t" by (cases s) auto
  then show ?case using Suc.IH [of "Suc p" t] Suc.prems by simp
qed simp

lemma skip_token_spec:
  assumes "cstr m p s" "token \<noteq> 0"
  shows "\<exists>k \<le> length s. skip_token m token p = Some (p + k) \<and> (drop k s \<noteq> [] \<longrightarrow> hd (drop k s) \<noteq> token)"
  using assms(1)
proof (induction s arbitrary: p)
  case Nil
  then show ?case using assms(2) by (subst skip_token.simps) simp
next
  case (Cons c s)
  show ?case
  proof (cases "c = token")
    case True
    then have "skip_token m token p = skip_token m token (Suc p)" using Cons.prems by (subst skip_token.simps) simp
    moreover obtain k where "k \<le> length s" "skip_token m token (Suc p) = Some (Suc p + k)" "drop k s \<noteq> [] \<longrightarrow> hd (drop k s) \<noteq> token"
      using Cons.IH [of "Suc p"] Cons.prems by auto
    ultimately show ?thesis by (intro exI [of _ "Suc k"]) simp
  next
    case False
    then show ?thesis using Cons.prems by (intro exI [of _ 0]) (subst skip_token.simps, simp)
  qed
qed

lemma parse_args_total:
  assumes "cstr m p s" "token \<noteq> 0" "int (length argv) < max_argc"
  shows "\<exists>r. parse_args m token max_argc ok p argv = Some r \<and> (\<forall>args. r = Some args \<longrightarrow> int (length args) \<le> max_argc)"
  using assms(1,3)
proof (induction "length s" arbitrary: p s argv rule: less_induct)
  case less
  show ?case
  proof (cases s)
    case Nil
    then show ?thesis using less.prems by (subst parse_args.simps) simp
  next
    case (Cons c t)
    then have c: "m p = Some c" "c \<noteq> 0" using less.prems(1) by simp_all
    obtain k where k: "k \<le> length s" "skip_token m token p = Some (p + k)" "drop k s \<noteq> [] \<longrightarrow> hd (drop k s) \<noteq> token"
      using skip_token_spec [OF less.prems(1) assms(2)] by blast
    define q u where "q = p + k" and "u = drop k s"
    have u: "cstr m q u" using cstr_drop [OF less.prems(1) k(1)] by (simp add: q_def u_def)
    show ?thesis
    proof (cases "u = [] \<or> \<not> ok (length argv)")
      case True
      then show ?thesis
        using c k(2) u less.prems(2) strlen_spec [OF u] by (cases u) (subst parse_args.simps; auto simp: q_def [symmetric])+
    next
      case False
      then obtain x u' where x: "u = x # u'" by (cases u) auto
      obtain i arg where i: "parse_arg m token (length u + 1) q 0 [] = Some (q + i, arg)" "i \<le> length u" "length arg \<le> i" "0 < i"
        using parse_arg_fits [OF u, of "[]" "length u + 1" token 0] k(3) x by (auto simp: u_def)
      have pc: "push_char (length u + 1) arg 0 = Some (arg @ [0])" using i(2,3) by (simp add: push_char_def)
      have run: "parse_args m token max_argc ok p argv =
          (if int (length argv) + 1 \<ge> max_argc then Some (Some (argv @ [arg])) else parse_args m token max_argc ok (q + i) (argv @ [arg]))"
        using c k(2) u x False i(1) pc strlen_spec [OF u] by (subst parse_args.simps) (simp add: q_def [symmetric])
      show ?thesis
      proof (cases "int (length argv) + 1 \<ge> max_argc")
        case True
        then show ?thesis using run less.prems(2) by simp
      next
        case False
        have "length u \<le> length s" by (simp add: u_def)
        then have "length (drop i u) < length s" using i(2,4) unfolding length_drop by linarith
        moreover have "cstr m (q + i) (drop i u)" by (rule cstr_drop [OF u i(2)])
        ultimately show ?thesis using less.hyps [of "drop i u" "q + i" "argv @ [arg]"] run False by simp
      qed
    qed
  qed
qed

section \<open>Properties\<close>

text \<open>
  C29. For every 64-bit number, signed or unsigned, every base from 2 to 36 and every choice of padding,
  alignment, precision, sign, prefix and letter case, \<open>wnumber\<close> returns without overrunning its buffer of 65
  digits, its result is the number of characters it wrote (in 64 bits), and \<open>strtol\<close> in the same base
  reads the number back from the text, also behind the prefix \<open>0x\<close> or \<open>0X\<close>; an unsigned number above
  \<open>LONG_MAX\<close> is read as \<open>LONG_MAX\<close>.
\<close>

theorem number_roundtrip:
  assumes "2 \<le> fm_base f" "fm_base f \<le> 36"
  shows "\<exists>out. wnumber True f t = Some (length out mod 2 ^ 64, out) \<and>
    (\<forall>m p. cstr m p out \<longrightarrow> (\<exists>e. strtol m (Some p) (uint (fm_base f)) =
      Some (if nf_sign t then sint (fm_num f) else min (2 ^ 63 - 1) (uint (fm_num f)), Some e)))"
proof -
  have "min (2 ^ 63 - 1) (shown f t) = (if nf_sign t then sint (fm_num f) else min (2 ^ 63 - 1) (uint (fm_num f)))"
    using sint_less [of "fm_num f"] by (simp add: shown_def)
  then show ?thesis using wnumber_read_back [OF assms, of t] by (simp only:)
qed

theorem number_roundtrip_witness:
  "\<exists>out. wnumber True \<lparr>fm_num = - 42, fm_base = 16, fm_size = 8, fm_precision = 4\<rparr>
      \<lparr>zeropad = False, nf_sign = True, plus = True, space = False, left = False, special = True, small = True\<rparr> = Some (length out mod 2 ^ 64, out) \<and>
    (\<forall>m p. cstr m p out \<longrightarrow> (\<exists>e. strtol m (Some p) 16 = Some (- 42, Some e)))"
proof -
  let ?f = "\<lparr>fm_num = - 42, fm_base = 16, fm_size = 8, fm_precision = 4\<rparr>"
  let ?t = "\<lparr>zeropad = False, nf_sign = True, plus = True, space = False, left = False, special = True, small = True\<rparr>"
  have "2 \<le> fm_base ?f" "fm_base ?f \<le> 36" "sint (- 42 :: u64) = - 42" by simp_all
  then show ?thesis using number_roundtrip [of ?f ?t] by auto
qed

text \<open>
  \<open>strtol\<close> reads optional white space, an optional sign, in base 16 an optional prefix and the digits of the base; the
  result is their value, or the nearest 64-bit limit when it does not fit, and the end pointer is
  just behind the last digit.
\<close>

lemma strtol_saturates:
  assumes "number_at m p base sp sg px cs ds" "2 \<le> base" "base \<le> 36"
  shows "strtol m (Some p) base =
    Some (if sg = [45] then max (- (2 ^ 63)) (- int (numeral_value (nat base) 0 ds)) else min (2 ^ 63 - 1) (int (numeral_value (nat base) 0 ds)),
          Some (p + length sp + length sg + length px + length cs))"
  using assms by (rule strtol_number)

text \<open>
  C38. Splitting any command line returns, for every outcome of \<open>malloc\<close> and every quoting: no argument
  is longer than its buffer, nothing behind the terminator is read, and there are at most as many
  arguments as asked for.
\<close>

theorem cmd_parse_fits:
  assumes "cstr m p s" "token \<noteq> 0" "0 < max_argc"
  shows "\<exists>r. cmd_parse_limit m p token max_argc ok = Some r \<and> (\<forall>args. r = Some args \<longrightarrow> int (length args) \<le> max_argc)"
  using parse_args_total [OF assms(1,2), of "[]" max_argc ok] assms(3) by (simp add: cmd_parse_limit_def)

theorem cmd_parse_fits_witness:
  "\<exists>r. cmd_parse_limit (sample_bytes_at 100 [97, 32, 34, 98, 32, 92, 34, 0]) 100 32 5 (\<lambda>_. True) = Some r"
proof -
  have "cstr (sample_bytes_at 100 [97, 32, 34, 98, 32, 92, 34, 0]) 100 [97, 32, 34, 98, 32, 92, 34]"
    by (simp add: sample_bytes_at_def del: put_Cons) (simp add: put_def)
  then show ?thesis using cmd_parse_fits [of _ 100 _ 32 5 "\<lambda>_. True"] by fastforce
qed

end
