(* ===== verification/Utf.thy ===== *)
theory Utf
  imports Krlibc
begin

text \<open>
  UTF-8 decoding, \<^verbatim>\<open>kernel/utflib.cpp\<close>: \<open>charntorune\<close>, \<open>chartorune\<close>, \<open>utfnlen\<close> and \<open>utflen\<close> on a byte-addressed
  memory. A \<open>Rune\<close> is a 32-bit integer, \<open>Runeerror\<close> is \<open>-1\<close>. The reference is the encoding of a code point
  in its shortest form.
\<close>

section \<open>The decoder\<close>

definition utftab :: "nat list" where
  "utftab =
     [0, 0, 2, 2, 2, 2, 2, 2, 2, 2, 2, 2, 2, 2, 2, 2,
      2, 2, 2, 2, 2, 2, 2, 2, 2, 2, 2, 2, 2, 2, 2, 2,
      3, 3, 3, 3, 3, 3, 3, 3, 3, 3, 3, 3, 3, 3, 3, 3,
      4, 4, 4, 4, 4, 4, 4, 4, 5, 5, 5, 5, 6, 6, 0, 0]"

definition Runeerror :: int where "Runeerror = - 1"
definition UTFmax :: nat where "UTFmax = 6"

definition isvalidrune :: "int \<Rightarrow> bool" where
  "isvalidrune r =
     (if r < 0 then False
      else if r \<ge> 0xD800 \<and> r \<le> 0xDFFF then False
      else if r \<ge> 0xFDD0 \<and> r \<le> 0xFDEF then False
      else if (r AND 0xFFFE) = 0xFFFE then False
      else if r > 0x10FFFF then False
      else True)"

abbreviation continuation :: "u8 \<Rightarrow> bool" where
  "continuation b \<equiv> b AND 0xC0 = 0x80"

definition append_bits :: "u32 \<Rightarrow> u8 \<Rightarrow> u32" where
  "append_bits r b = (push_bit 6 r OR ucast (b AND 0x3f))"

text \<open>The loop over the bytes from the third on: (bytes seen, rune, all were continuation bytes).\<close>

function more_bytes :: "bytes \<Rightarrow> nat \<Rightarrow> u32 \<Rightarrow> nat \<Rightarrow> nat \<Rightarrow> (nat \<times> u32 \<times> bool) option" where
  "more_bytes m s r i mx =
     (if i < mx then do {
        b \<leftarrow> m (s + i);
        if \<not> continuation b then Some (i, r, False) else more_bytes m s (append_bits r b) (i + 1) mx
      } else Some (i, r, True))"
  by auto
termination by (relation "measure (\<lambda>(m, s, r, i, mx). mx - i)") auto

text \<open>The result, and what is stored through the pointer.\<close>

definition charntorune :: "bytes \<Rightarrow> nat \<Rightarrow> nat \<Rightarrow> (nat \<times> int option) option" where
  "charntorune m s len =
     (if len = 0 then Some (0, None)
      else do {
        c \<leftarrow> m s;
        if c AND 0x80 = 0 then Some (1, Some (uint c))
        else if c AND 0x40 = 0 then Some (1, Some Runeerror)
        else do {
          let n = utftab ! unat (c AND 0x3f);
          if n = 0 then Some (1, Some Runeerror)
          else if len = 1 then Some (0, None)
          else do {
            b \<leftarrow> m (s + 1);
            if \<not> continuation b then Some (1, Some Runeerror)
            else do {
              let x = drop_bit n (0xff :: u8);
              let r = append_bits (ucast (c AND x)) b;
              if r \<le> ucast x then Some (2, Some Runeerror)
              else do {
                (i, r, ok) \<leftarrow> more_bytes m s r 2 (min len n);
                if \<not> ok then Some (i, Some Runeerror)
                else if i < n then Some (0, None)
                else if \<not> isvalidrune (sint r) then Some (i, Some Runeerror)
                else Some (i, Some (sint r))
              }
            }
          }
        }
      })"

definition chartorune :: "bytes \<Rightarrow> nat \<Rightarrow> (nat \<times> int option) option" where
  "chartorune m s = charntorune m s UTFmax"

section \<open>Counting runes\<close>

function skip_continuation :: "bytes \<Rightarrow> nat \<Rightarrow> nat \<Rightarrow> nat \<Rightarrow> nat option" where
  "skip_continuation m s i mx =
     (if i < mx then do { b \<leftarrow> m (s + i); if \<not> continuation b then Some i else skip_continuation m s (i + 1) mx }
      else Some i)"
  by auto
termination by (relation "measure (\<lambda>(m, s, i, mx). mx - i)") auto

text \<open>The body of the loop of \<open>utfnlen\<close>: how far \<open>s\<close> advances, \<open>None\<close> for the early return.\<close>

definition utf_advance :: "bytes \<Rightarrow> nat \<Rightarrow> nat \<Rightarrow> nat option option" where
  "utf_advance m s len = do {
     c \<leftarrow> m s;
     if c AND 0xC0 \<noteq> 0xC0 then Some (Some 1)
     else do {
       let n = utftab ! unat (c AND 0x3f);
       if n = 0 then Some (Some 1)
       else if len = 1 then Some None
       else do {
         b \<leftarrow> m (s + 1);
         if \<not> continuation b then Some (Some 1)
         else do {
           let x = drop_bit n (0xff :: u8);
           let r = append_bits (ucast (c AND x)) b;
           if r \<le> ucast x then Some (Some 2)
           else do {
             i \<leftarrow> skip_continuation m s 2 (min len n);
             if i < min len n then Some (Some i)
             else if i < n then Some None
             else Some (Some i)
           }
         }
       }
     }
   }"

partial_function (option) utfnlen_loop :: "bytes \<Rightarrow> nat \<Rightarrow> nat \<Rightarrow> nat \<Rightarrow> nat option" where
  "utfnlen_loop m s len k = do {
     c \<leftarrow> m s;
     if c = 0 then Some k
     else if len = 0 then Some k
     else do {
       r \<leftarrow> utf_advance m s len;
       case r of None \<Rightarrow> Some k | Some a \<Rightarrow> utfnlen_loop m (s + a) (len - a) (k + 1)
     }
   }"

definition utfnlen :: "bytes \<Rightarrow> nat \<Rightarrow> nat \<Rightarrow> nat option" where
  "utfnlen m s len = utfnlen_loop m s len 0"

definition utflen :: "bytes \<Rightarrow> nat \<Rightarrow> nat option" where
  "utflen m s = utfnlen m s (2 ^ 64 - 1)"

section \<open>The reference encoding\<close>

definition cont :: "nat \<Rightarrow> u8" where "cont k = of_nat (0x80 + k mod 64)"

definition utf8 :: "nat \<Rightarrow> u8 list" where
  "utf8 r =
     (if r < 0x80 then [of_nat r]
      else if r < 0x800 then [of_nat (0xC0 + r div 0x40), cont r]
      else if r < 0x10000 then [of_nat (0xE0 + r div 0x1000), cont (r div 0x40), cont r]
      else [of_nat (0xF0 + r div 0x40000), cont (r div 0x1000), cont (r div 0x40), cont r])"

lemma unat_u8_less [simp]: "unat (b :: u8) < 256"
  using unsigned_less [of b, where ?'a = nat] by simp

lemma unat_cont: "unat (cont k) = 0x80 + k mod 64"
proof -
  have "0x80 + k mod 64 < 256" using mod_less_divisor [of 64 k] by linarith
  then show ?thesis unfolding cont_def by (simp only: unat_of_nat) simp
qed

text \<open>The masks of the decoder, on numbers.\<close>

lemma unat_low_bits: "unat (b AND mask k :: u8) = unat b mod 2 ^ k"
  by (simp only: take_bit_eq_mask [symmetric] unsigned_take_bit_eq) (simp only: take_bit_eq_mod)

lemma unat_high_bits: "unat (b AND NOT (mask 6) :: u8) = unat b div 64 * 64"
proof -
  have "b AND NOT (mask 6) = push_bit 6 (drop_bit 6 b)" by (rule bit_word_eqI) (auto simp: bit_simps)
  moreover have "unat b div 64 * 64 < 2 ^ 8" by (rule le_less_trans [OF div_times_less_eq_dividend]) simp
  ultimately show ?thesis
    by (simp only: unsigned_push_bit_eq unat_drop_bit_eq) (simp add: take_bit_nat_eq_self push_bit_eq_mult drop_bit_eq_div)
qed

lemma bit_u8: "bit (b :: u8) k \<longleftrightarrow> odd (unat b div 2 ^ k)"
  by (simp add: bit_iff_odd [of "unat b" k, symmetric] bit_unsigned_iff)

lemma and_masks:
  fixes b :: u8
  shows "unat (b AND 0x3f) = unat b mod 64" "continuation b \<longleftrightarrow> unat b div 64 = 2" "b AND 0xC0 = 0xC0 \<longleftrightarrow> unat b div 64 = 3"
    "b AND 0x80 = 0 \<longleftrightarrow> unat b < 128" "b AND 0x40 = 0 \<longleftrightarrow> even (unat b div 64)"
proof -
  have 3: "(0x3f :: u8) = mask 6" "(0xC0 :: u8) = NOT (mask 6)" by (simp_all add: mask_eq_exp_minus_1)
  show "unat (b AND 0x3f) = unat b mod 64" unfolding 3 unat_low_bits by simp
  have h: "unat (b AND 0xC0) = unat b div 64 * 64" using unat_high_bits [of b] by (simp only: 3(2))
  show "continuation b \<longleftrightarrow> unat b div 64 = 2" unfolding word_unat_eq_iff h by auto
  show "b AND 0xC0 = 0xC0 \<longleftrightarrow> unat b div 64 = 3" unfolding word_unat_eq_iff h by auto
  have e: "(0x80 :: u8) = 2 ^ 7" "(0x40 :: u8) = 2 ^ 6" by simp_all
  show "b AND 0x80 = 0 \<longleftrightarrow> unat b < 128"
  proof -
    have "unat b div 128 < 2" using unat_u8_less [of b] by (simp add: less_mult_imp_div_less)
    then have "even (unat b div 128) \<longleftrightarrow> unat b < 128" by (auto simp: less_2_cases_iff)
    then show ?thesis unfolding e and_exp_eq_0_iff_not_bit bit_u8 by simp
  qed
  show "b AND 0x40 = 0 \<longleftrightarrow> even (unat b div 64)" unfolding e and_exp_eq_0_iff_not_bit bit_u8 by simp
qed

lemma unat_append_bits:
  assumes "unat r < 2 ^ 26"
  shows "unat (append_bits r b) = unat r * 64 + unat b mod 64"
proof -
  have e: "(0x3f :: u8) = mask 6" by (simp add: mask_eq_exp_minus_1)
  have "append_bits r b = push_bit 6 r + ucast (b AND 0x3f)"
    unfolding append_bits_def e by (rule disjunctive_add [symmetric]) (auto simp: bit_simps)
  moreover have "unat (push_bit 6 r) = unat r * 64"
    using assms by (simp only: unsigned_push_bit_eq) (simp add: push_bit_eq_mult take_bit_nat_eq_self)
  moreover have "unat (ucast (b AND 0x3f) :: u32) = unat b mod 64"
    by (simp add: unsigned_ucast_eq and_masks take_bit_nat_eq_self)
  ultimately show ?thesis using assms by (simp add: unat_word_ariths)
qed

lemma utftab_nth:
  assumes "k < 64"
  shows "utftab ! k = (if k < 2 then 0 else if k < 32 then 2 else if k < 48 then 3 else if k < 56 then 4 else if k < 60 then 5
    else if k < 62 then 6 else 0)"
proof -
  have e: "utftab = replicate 2 0 @ replicate 30 2 @ replicate 16 3 @ replicate 8 4 @ replicate 4 5 @ replicate 2 6 @ replicate 2 0"
    by (simp add: utftab_def numeral_eq_Suc)
  show ?thesis unfolding e using assms by (auto simp: nth_append)
qed

lemma lead_bits:
  assumes "n \<le> 8"
  shows "unat (c AND drop_bit n (0xff :: u8)) = unat c mod 2 ^ (8 - n)" "unat (ucast (drop_bit n (0xff :: u8)) :: u32) = 255 div 2 ^ n"
proof -
  have 8: "(0xff :: u8) = mask 8" by (simp add: mask_eq_exp_minus_1)
  have e: "drop_bit n (0xff :: u8) = mask (8 - n)" unfolding 8 by (rule bit_word_eqI) (auto simp: bit_simps)
  show "unat (c AND drop_bit n (0xff :: u8)) = unat c mod 2 ^ (8 - n)" unfolding e by (rule unat_low_bits)
  have "unat (drop_bit n (0xff :: u8)) = 255 div 2 ^ n" by (simp only: unat_drop_bit_eq) (simp add: drop_bit_eq_div)
  moreover have "255 div 2 ^ n < (256 :: nat)" by (rule le_less_trans [OF div_le_dividend]) simp
  ultimately show "unat (ucast (drop_bit n (0xff :: u8)) :: u32) = 255 div 2 ^ n"
    by (simp add: unsigned_ucast_eq take_bit_nat_eq_self)
qed

text \<open>The number a lead byte and its continuation bytes stand for.\<close>

definition rune_value :: "nat \<Rightarrow> u8 list \<Rightarrow> nat" where
  "rune_value x bs = foldl (\<lambda>a b. a * 64 + unat b mod 64) x bs"

lemma rune_value_simps [simp]:
  "rune_value x [] = x" "rune_value x (b # bs) = rune_value (x * 64 + unat b mod 64) bs"
  by (simp_all add: rune_value_def)

lemma rune_value_less: "x < 2 ^ k \<Longrightarrow> rune_value x bs < 2 ^ (k + 6 * length bs)"
proof (induction bs arbitrary: x k)
  case (Cons b bs)
  have "x * 64 + unat b mod 64 < 2 ^ (k + 6)"
  proof -
    have "x * 64 + unat b mod 64 < (x + 1) * 64" using mod_less_divisor [of 64 "unat b"] by simp
    also have "\<dots> \<le> 2 ^ k * 64" using Cons.prems by simp
    finally show ?thesis by (simp add: power_add)
  qed
  from Cons.IH [OF this] show ?case by (simp add: add.assoc)
qed simp

lemma append_step:
  assumes "unat r < 2 ^ k" "k + 6 \<le> 32"
  shows "unat (append_bits r b) = unat r * 64 + unat b mod 64" "unat (append_bits r b) < 2 ^ (k + 6)"
proof -
  have "(2 :: nat) ^ k \<le> 2 ^ 26" using assms(2) by (intro power_increasing) simp_all
  then show v: "unat (append_bits r b) = unat r * 64 + unat b mod 64" using assms(1) by (intro unat_append_bits) simp
  show "unat (append_bits r b) < 2 ^ (k + 6)" using rune_value_less [OF assms(1), of "[b]"] v by simp
qed

lemma more_bytes_all:
  assumes "block_at m (s + i) bs" "\<forall>b \<in> set bs. continuation b" "i + length bs = mx" "unat r < 2 ^ k" "k + 6 * length bs \<le> 32"
  shows "\<exists>r'. more_bytes m s r i mx = Some (mx, r', True) \<and> unat r' = rune_value (unat r) bs"
  using assms
proof (induction bs arbitrary: i r k)
  case (Cons b bs)
  have st: "unat (append_bits r b) = unat r * 64 + unat b mod 64" "unat (append_bits r b) < 2 ^ (k + 6)"
    using append_step [OF Cons.prems(4)] Cons.prems(5) by simp_all
  have "more_bytes m s r i mx = more_bytes m s (append_bits r b) (i + 1) mx" using Cons.prems(1-3) by simp
  then show ?case using Cons.IH [of "i + 1" "append_bits r b" "k + 6"] Cons.prems st by (simp del: more_bytes.simps)
qed simp

lemma more_bytes_inv:
  assumes "more_bytes m s r i mx = Some (j, r', True)" "i \<le> mx" "unat r < 2 ^ k" "k + 6 * (mx - i) \<le> 32"
  shows "\<exists>bs. block_at m (s + i) bs \<and> (\<forall>b \<in> set bs. continuation b) \<and> i + length bs = mx \<and> j = mx \<and> unat r' = rune_value (unat r) bs"
  using assms
proof (induction "mx - i" arbitrary: i r k)
  case 0
  then show ?case by (intro exI [of _ "[]"]) simp
next
  case (Suc d)
  then have lt: "i < mx" by simp
  then obtain b where b: "m (s + i) = Some b" "continuation b" "more_bytes m s (append_bits r b) (i + 1) mx = Some (j, r', True)"
    using Suc.prems(1) by (auto simp: bind_eq_Some_conv split: if_splits)
  have st: "unat (append_bits r b) = unat r * 64 + unat b mod 64" "unat (append_bits r b) < 2 ^ (k + 6)"
    using append_step [OF Suc.prems(3)] Suc.prems(4) lt by simp_all
  have h: "d = mx - (i + 1)" "i + 1 \<le> mx" "k + 6 + 6 * (mx - (i + 1)) \<le> 32" using Suc.hyps(2) Suc.prems(4) lt by simp_all
  obtain bs where "block_at m (s + (i + 1)) bs" "\<forall>b \<in> set bs. continuation b" "i + 1 + length bs = mx" "j = mx"
      "unat r' = rune_value (unat (append_bits r b)) bs"
    using Suc.hyps(1) [OF h(1) b(3) h(2) st(2) h(3)] by blast
  then show ?case using b st by (intro exI [of _ "b # bs"]) simp
qed

section \<open>The decoder is exact\<close>

text \<open>
  A lead byte \<open>c\<close> that promises \<open>n\<close> bytes, its continuation bytes, and the number they stand for; the
  encoding is not too long and the number is a valid rune.
\<close>

definition sequence :: "u8 \<Rightarrow> nat \<Rightarrow> u8 list \<Rightarrow> nat \<Rightarrow> bool" where
  "sequence c n bs v \<longleftrightarrow> 192 \<le> unat c \<and> n = utftab ! (unat c mod 64) \<and> n \<noteq> 0 \<and> length bs = n - 1 \<and> (\<forall>b \<in> set bs. continuation b) \<and>
     v = rune_value (unat c mod 2 ^ (8 - n)) bs \<and> 255 div 2 ^ n < rune_value (unat c mod 2 ^ (8 - n)) [hd bs] \<and> isvalidrune (int v)"

lemma block_mod: "n * q \<le> x \<Longrightarrow> x < n * q + n \<Longrightarrow> x mod n = x - n * q" for x n q :: nat
  by (metis le_add_diff_inverse less_diff_conv2 mod_less mod_mult_self4 add.commute)

lemma lead_facts:
  fixes c :: u8
  assumes "192 \<le> unat c" "n = utftab ! (unat c mod 64)" "n \<noteq> 0"
  shows "2 \<le> n" "n \<le> 6" "unat c mod 2 ^ (8 - n) < 2 ^ (7 - n)" "\<not> (c AND 0x80 = 0)" "\<not> (c AND 0x40 = 0)" "c AND 0xC0 = 0xC0"
    "unat (c AND 0x3f) = unat c mod 64"
proof -
  let ?k = "unat c mod 64"
  have d: "unat c div 64 = 3" using assms(1) unat_u8_less [of c] by (simp add: div_nat_eqI)
  then show "\<not> (c AND 0x80 = 0)" "\<not> (c AND 0x40 = 0)" "c AND 0xC0 = 0xC0" "unat (c AND 0x3f) = unat c mod 64"
    using assms(1) by (simp_all add: and_masks)
  have k: "?k < 64" "unat c = 192 + ?k" using d div_mult_mod_eq [of "unat c" 64] by simp_all
  have n: "n = (if ?k < 2 then 0 else if ?k < 32 then 2 else if ?k < 48 then 3 else if ?k < 56 then 4 else if ?k < 60 then 5
    else if ?k < 62 then 6 else 0)" using utftab_nth [OF k(1)] assms(2) by simp
  then show "2 \<le> n" "n \<le> 6" using assms(3) by (auto split: if_splits)
  define j where "j = ?k"
  have j: "unat c = 192 + j" using k by (simp add: j_def)
  have r: "j < 32 \<Longrightarrow> (192 + j) mod 64 < 32" "32 \<le> j \<Longrightarrow> j < 48 \<Longrightarrow> (192 + j) mod 32 < 16" "48 \<le> j \<Longrightarrow> j < 56 \<Longrightarrow> (192 + j) mod 16 < 8"
    "56 \<le> j \<Longrightarrow> j < 60 \<Longrightarrow> (192 + j) mod 8 < 4" "60 \<le> j \<Longrightarrow> j < 62 \<Longrightarrow> (192 + j) mod 4 < 2"
    using block_mod [of 64 3 "192 + j"] block_mod [of 32 7 "192 + j"] block_mod [of 16 15 "192 + j"] block_mod [of 8 31 "192 + j"]
      block_mod [of 4 63 "192 + j"] by (simp_all add: less_diff_conv2)
  consider "n = 2" "j < 32" | "n = 3" "32 \<le> j" "j < 48" | "n = 4" "48 \<le> j" "j < 56" | "n = 5" "56 \<le> j" "j < 60" | "n = 6" "60 \<le> j" "j < 62"
    using n assms(3) unfolding j_def by (auto split: if_splits)
  then show "unat c mod 2 ^ (8 - n) < 2 ^ (7 - n)" unfolding j by cases (use r in simp_all)
qed

lemma sequence_bound:
  fixes c :: u8
  assumes "192 \<le> unat c" "n = utftab ! (unat c mod 64)" "n \<noteq> 0"
  shows "unat (append_bits (ucast (c AND drop_bit n 0xff)) b) = rune_value (unat c mod 2 ^ (8 - n)) [b]"
    "unat (append_bits (ucast (c AND drop_bit n 0xff)) b) < 2 ^ (13 - n)" "13 - n + 6 * (n - 2) \<le> 31"
proof -
  note f = lead_facts [OF assms]
  let ?x = "ucast (c AND drop_bit n 0xff) :: u32"
  have "unat (c AND drop_bit n 0xff) = unat c mod 2 ^ (8 - n)" using f(2) by (intro lead_bits(1)) simp
  then have x: "unat ?x = unat c mod 2 ^ (8 - n)"
    using unat_u8_less [of "c AND drop_bit n 0xff"] by (simp add: unsigned_ucast_eq take_bit_nat_eq_self)
  then have "unat ?x < 2 ^ (7 - n)" using f(3) by simp
  from append_step [OF this, of b] show "unat (append_bits ?x b) = rune_value (unat c mod 2 ^ (8 - n)) [b]"
    "unat (append_bits ?x b) < 2 ^ (13 - n)" using x f(1,2) by simp_all
  show "13 - n + 6 * (n - 2) \<le> 31" using f(1,2) by simp
qed

lemma charntorune_accepts:
  assumes sq: "sequence c n bs v" and m: "m s = Some c" "block_at m (s + 1) bs" and len: "n \<le> len"
  shows "charntorune m s len = Some (n, Some (int v))"
proof -
  have c: "192 \<le> unat c" "n = utftab ! (unat c mod 64)" "n \<noteq> 0" and bs: "length bs = n - 1" "\<forall>b \<in> set bs. continuation b"
    and v: "v = rune_value (unat c mod 2 ^ (8 - n)) bs" "255 div 2 ^ n < rune_value (unat c mod 2 ^ (8 - n)) [hd bs]" "isvalidrune (int v)"
    using sq unfolding sequence_def by blast+
  note f = lead_facts [OF c]
  obtain b bs' where b: "bs = b # bs'" using bs(1) f(1) by (cases bs) auto
  let ?r = "append_bits (ucast (c AND drop_bit n 0xff)) b"
  note sb = sequence_bound(1,2) [OF c, of b] sequence_bound(3) [OF c]
  have "unat (ucast (drop_bit n (0xff :: u8)) :: u32) < unat ?r" using lead_bits(2) [of n] f(2) v(2) sb(1) b by simp
  then have ol: "\<not> ?r \<le> ucast (drop_bit n (0xff :: u8))" by (simp add: word_le_nat_alt)
  have t: "block_at m (s + 2) bs'" "\<forall>b \<in> set bs'. continuation b" "2 + length bs' = n" using m(2) bs b f(1) by auto
  have "13 - n + 6 * length bs' \<le> 32" using sb(3) t(3) by simp
  from more_bytes_all [OF t sb(2) this] obtain r' where
    r': "more_bytes m s ?r 2 n = Some (n, r', True)" "unat r' = rune_value (unat ?r) bs'" by blast
  have rv: "unat r' = v" using r'(2) sb(1) v(1) b by simp
  have "v < 2 ^ 31"
  proof -
    have "v < 2 ^ (7 - n + 6 * length bs)" using rune_value_less [OF f(3)] v(1) by simp
    also have "\<dots> \<le> 2 ^ 31" using bs(1) f(1,2) by (intro power_increasing) simp_all
    finally show ?thesis .
  qed
  then have "sint r' = int v" using sint_u32 [of r'] rv by simp
  moreover have "len \<noteq> 0" "len \<noteq> 1" "min len n = n" "\<not> n < n" using len f(1) by simp_all
  moreover have "m (s + 1) = Some b" "continuation b" using m(2) bs(2) b by simp_all
  ultimately show ?thesis
    using m(1) f(4,5,7) c(2,3) ol r'(1) v(3) unfolding charntorune_def Let_def by (simp del: more_bytes.simps)
qed

lemma charntorune_inv:
  assumes run: "charntorune m s len = Some (k, Some v)" and v: "v \<noteq> Runeerror" and c: "m s = Some c" "128 \<le> unat c"
  shows "\<exists>bs w. sequence c k bs w \<and> block_at m (s + 1) bs \<and> v = int w \<and> k \<le> len"
proof -
  define n where "n = utftab ! unat (c AND 0x3f)"
  define r where "r b = append_bits (ucast (c AND drop_bit n 0xff)) b" for b
  have n': "utftab ! unat (c AND 0x3f) = n" by (simp add: n_def)
  have "\<not> (c AND 0x80 = 0)" using c(2) by (simp add: and_masks)
  then obtain b i r' where x: "\<not> (c AND 0x40 = 0)" "n \<noteq> 0" "len \<noteq> 0" "len \<noteq> 1" "m (s + 1) = Some b" "continuation b"
      "\<not> r b \<le> ucast (drop_bit n (0xff :: u8))" "more_bytes m s (r b) 2 (min len n) = Some (i, r', True)" "\<not> i < n"
      "isvalidrune (sint r')" "k = i" "v = sint r'"
    using run v c(1) unfolding charntorune_def Let_def n' r_def
    by (auto simp: bind_eq_Some_conv n' simp del: more_bytes.simps split: if_splits)
  have odd: "odd (unat c div 64)" using x(1) by (simp add: and_masks)
  have "unat c div 64 < 4" by (rule less_mult_imp_div_less) simp
  moreover have "2 \<le> unat c div 64" using c(2) by (simp add: div_le_mono [of 128 "unat c" 64, simplified])
  ultimately have "unat c div 64 = 3" using odd by (cases "unat c div 64 = 2") auto
  then have c3: "192 \<le> unat c" using div_mult_mod_eq [of "unat c" 64] by linarith
  have nn: "n = utftab ! (unat c mod 64)" by (simp add: n_def and_masks)
  note f = lead_facts [OF c3 nn x(2)] and sb = sequence_bound(1,2) [OF c3 nn x(2), of b] sequence_bound(3) [OF c3 nn x(2)]
  have le: "2 \<le> min len n" using f(1) x(3,4) by simp
  have "13 - n + 6 * (min len n - 2) \<le> 32" using sb(3) by simp
  from more_bytes_inv [OF x(8) le _ this] sb(2) obtain bs where
    bs: "block_at m (s + 2) bs" "\<forall>b \<in> set bs. continuation b" "2 + length bs = min len n" "i = min len n" "unat r' = rune_value (unat (r b)) bs"
    unfolding r_def by blast
  have i: "i = n" "n \<le> len" using bs(4) x(9) by simp_all
  let ?w = "rune_value (unat c mod 2 ^ (8 - n)) (b # bs)"
  have rw: "unat r' = ?w" using bs(5) sb(1) by (simp add: r_def)
  have "?w < 2 ^ 31"
  proof -
    have "?w < 2 ^ (7 - n + 6 * length (b # bs))" by (rule rune_value_less [OF f(3)])
    also have "\<dots> \<le> 2 ^ 31" using bs(3,4) i f(1,2) by (intro power_increasing) simp_all
    finally show ?thesis .
  qed
  then have sv: "sint r' = int ?w" using sint_u32 [of r'] rw by simp
  have ol: "255 div 2 ^ n < rune_value (unat c mod 2 ^ (8 - n)) [b]"
    using x(7) lead_bits(2) [of n] f(2) sb(1) by (simp add: r_def word_le_nat_alt not_le)
  have kn: "k = n" using x(11) i by simp
  have "sequence c k (b # bs) ?w"
    unfolding sequence_def kn
  proof (intro conjI)
    show "length (b # bs) = n - 1" using bs(3,4) i by simp
    show "\<forall>b \<in> set (b # bs). continuation b" using bs(2) x(6) by simp
    show "255 div 2 ^ n < rune_value (unat c mod 2 ^ (8 - n)) [hd (b # bs)]" using ol by (simp only: list.sel)
    show "isvalidrune (int ?w)" using x(10) by (simp only: sv)
  qed (rule c3 nn x(2) refl)+
  moreover have "block_at m (s + 1) (b # bs)" using x(5) bs(1) by simp
  ultimately show ?thesis using x(11,12) sv i by blast
qed

text \<open>The sequences the decoder accepts are the shortest encodings.\<close>

lemma byte_split:
  fixes b :: u8
  shows "continuation b \<Longrightarrow> unat b = 128 + unat b mod 64" "192 \<le> unat b \<Longrightarrow> unat b = 192 + unat b mod 64"
proof -
  assume "continuation b"
  then show "unat b = 128 + unat b mod 64" using div_mult_mod_eq [of "unat b" 64] by (simp add: and_masks)
next
  assume "192 \<le> unat b"
  then have "unat b div 64 = 3" using unat_u8_less [of b] by (simp add: div_nat_eqI)
  then show "unat b = 192 + unat b mod 64" using div_mult_mod_eq [of "unat b" 64] by simp
qed

lemma cont_eq: "continuation b \<Longrightarrow> unat b mod 64 = k mod 64 \<Longrightarrow> b = cont k"
  using byte_split(1) [of b] by (simp add: word_unat_eq_iff unat_cont)

lemma of_nat_eq_byte: "unat (b :: u8) = k \<Longrightarrow> of_nat k = b"
  by auto

lemma last_digit: "(a * 64 + b mod 64) div 64 = (a :: nat)" "(a * 64 + b mod 64) mod 64 = (b mod 64 :: nat)"
  by simp_all

lemma sequence_utf8:
  assumes "sequence c n bs v"
  shows "utf8 v = c # bs" "n = Suc (length bs)" "0x80 \<le> v"
proof -
  have c: "192 \<le> unat c" "n = utftab ! (unat c mod 64)" "n \<noteq> 0" and bs: "length bs = n - 1" "\<forall>b \<in> set bs. continuation b"
    and v: "v = rune_value (unat c mod 2 ^ (8 - n)) bs" "255 div 2 ^ n < rune_value (unat c mod 2 ^ (8 - n)) [hd bs]" "isvalidrune (int v)"
    using assms unfolding sequence_def by blast+
  show "n = Suc (length bs)" using bs(1) c(3) by simp
  define j where "j = unat c mod 64"
  have uc: "unat c = 192 + j" "j < 64" using byte_split(2) [OF c(1)] by (simp_all add: j_def)
  have vmax: "v \<le> 0x10FFFF" using v(3) by (simp add: isvalidrune_def split: if_splits)
  have nj: "n = (if j < 2 then 0 else if j < 32 then 2 else if j < 48 then 3 else if j < 56 then 4 else if j < 60 then 5
    else if j < 62 then 6 else 0)" using utftab_nth [OF uc(2)] c(2) by (simp add: j_def)
  consider "n = 2" "2 \<le> j" "j < 32" | "n = 3" "32 \<le> j" "j < 48" | "n = 4" "48 \<le> j" "j < 56" | "n = 5" "56 \<le> j" "j < 60" | "n = 6" "60 \<le> j" "j < 62"
    using nj c(3) by (auto split: if_splits)
  then have "utf8 v = c # bs \<and> 0x80 \<le> v"
  proof cases
    case 1
    obtain b where b: "bs = [b]" using bs(1) 1 by (auto simp: length_Suc_conv eval_nat_numeral)
    have "unat c mod 64 = j" using j_def by simp
    then have vv: "v = j * 64 + unat b mod 64" using v(1) 1 b by simp
    then have "v div 64 = j" "v mod 64 = unat b mod 64" "0x80 \<le> v" "v < 0x800" using 1 by simp_all
    then show ?thesis using b bs(2) cont_eq [of b v] of_nat_eq_byte [of c "192 + j"] uc by (simp add: utf8_def)
  next
    case 2
    obtain b0 b1 where b: "bs = [b0, b1]" using bs(1) 2 by (auto simp: length_Suc_conv eval_nat_numeral)
    define i where "i = j - 32"
    have i: "j = 32 + i" "i < 16" using 2 by (simp_all add: i_def)
    have "unat c mod 32 = i" using block_mod [of 32 7 "unat c"] uc i by simp
    then have vv: "v = (i * 64 + unat b0 mod 64) * 64 + unat b1 mod 64" "31 < i * 64 + unat b0 mod 64" using v(1,2) 2 b by simp_all
    have d1: "v div 64 = i * 64 + unat b0 mod 64" using vv(1) by simp
    have "v div 4096 = v div 64 div 64" by (simp add: div_mult2_eq [symmetric])
    then have d2: "v div 4096 = i" using d1 by simp
    have vm: "v mod 64 = unat b1 mod 64" unfolding vv(1) by (simp only: mod_mult_self3 mod_mod_trivial)
    have "0x800 \<le> v" "v < 0x10000" using vv i mod_less_divisor [of 64 "unat b0"] mod_less_divisor [of 64 "unat b1"]
      by simp_all
    then show ?thesis using b bs(2) cont_eq [of b1 v] cont_eq [of b0 "v div 64"] d1 d2 vm of_nat_eq_byte [of c "224 + i"] uc i
      by (simp add: utf8_def)
  next
    case 3
    obtain b0 b1 b2 where b: "bs = [b0, b1, b2]" using bs(1) 3 by (auto simp: length_Suc_conv eval_nat_numeral)
    define i where "i = j - 48"
    have i: "j = 48 + i" "i < 8" using 3 by (simp_all add: i_def)
    have "unat c mod 16 = i" using block_mod [of 16 15 "unat c"] uc i by simp
    then have vv: "v = ((i * 64 + unat b0 mod 64) * 64 + unat b1 mod 64) * 64 + unat b2 mod 64" "15 < i * 64 + unat b0 mod 64"
      using v(1,2) 3 b by simp_all
    have d1: "v div 64 = (i * 64 + unat b0 mod 64) * 64 + unat b1 mod 64" unfolding vv(1) last_digit ..
    have "v div 4096 = v div 64 div 64" by (simp add: div_mult2_eq [symmetric])
    then have d2: "v div 4096 = i * 64 + unat b0 mod 64" unfolding d1 last_digit .
    have "v div 262144 = v div 4096 div 64" by (simp add: div_mult2_eq [symmetric])
    then have d3: "v div 262144 = i" unfolding d2 last_digit .
    have ms: "v mod 64 = unat b2 mod 64" "v div 64 mod 64 = unat b1 mod 64" "v div 4096 mod 64 = unat b0 mod 64"
      unfolding d1 d2 unfolding vv(1) last_digit by simp_all
    have "0x10000 \<le> v" using vv by simp
    then show ?thesis using b bs(2) cont_eq [OF _ ms(1) [symmetric]] cont_eq [OF _ ms(2) [symmetric]] cont_eq [OF _ ms(3) [symmetric]] d3
        of_nat_eq_byte [of c "240 + i"] uc i by (simp add: utf8_def)
  next
    case 4
    obtain b0 b1 b2 b3 where b: "bs = [b0, b1, b2, b3]" using bs(1) 4 by (auto simp: length_Suc_conv eval_nat_numeral)
    have "7 < unat c mod 8 * 64 + unat b0 mod 64" using v(2) 4 b by simp
    then have "0x200000 \<le> v" using v(1) 4 b by simp
    then show ?thesis using vmax by simp
  next
    case 5
    obtain b0 b1 b2 b3 b4 where b: "bs = [b0, b1, b2, b3, b4]" using bs(1) 5 by (auto simp: length_Suc_conv eval_nat_numeral)
    have "3 < unat c mod 4 * 64 + unat b0 mod 64" using v(2) 5 b by simp
    then have "0x4000000 \<le> v" using v(1) 5 b by simp
    then show ?thesis using vmax by simp
  qed
  then show "utf8 v = c # bs" "0x80 \<le> v" by blast+
qed

lemma utf8_sequence:
  assumes "isvalidrune (int r)" "0x80 \<le> r"
  shows "\<exists>c bs. utf8 r = c # bs \<and> sequence c (length (utf8 r)) bs r"
proof -
  have r: "r \<le> 0x10FFFF" using assms(1) by (simp add: isvalidrune_def split: if_splits)
  have ct: "continuation (cont k)" for k
  proof -
    have "(128 + k mod 64) div 64 = 2" by (rule div_nat_eqI) simp_all
    then show ?thesis by (simp add: and_masks unat_cont)
  qed
  have cm: "unat (cont k) mod 64 = k mod 64" for k
    unfolding unat_cont using mod_mult_self4 [of 64 2 "k mod 64"] by simp
  consider "r < 0x800" | "0x800 \<le> r" "r < 0x10000" | "0x10000 \<le> r" by linarith
  then show ?thesis
  proof cases
    case 1
    define i where "i = r div 64"
    have i: "2 \<le> i" "i < 32" using assms(2) 1 by (simp_all add: i_def less_mult_imp_div_less div_le_mono [of 128 r 64, simplified])
    have c: "unat (of_nat (0xC0 + i) :: u8) = 192 + i" using i by (simp only: unat_of_nat) simp
    have m: "(192 + i) mod 64 = i" using block_mod [of 64 3 "192 + i"] i by simp
    have t: "utftab ! ((192 + i) mod 64) = 2" using i utftab_nth [of i] m by simp
    have v: "i * 64 + r mod 64 = r" by (simp add: i_def)
    have sq: "sequence (of_nat (0xC0 + i)) 2 [cont r] r"
      unfolding sequence_def c using i t m v cm ct assms(1) by simp
    have u: "utf8 r = of_nat (0xC0 + i) # [cont r]" using assms(2) 1 by (simp add: utf8_def i_def)
    have l: "length (utf8 r) = 2" unfolding u by simp
    show ?thesis unfolding l using u sq by blast
  next
    case 2
    define i where "i = r div 0x1000"
    have i: "i < 16" using 2 by (simp add: i_def less_mult_imp_div_less)
    have c: "unat (of_nat (0xE0 + i) :: u8) = 224 + i" using i by (simp only: unat_of_nat) simp
    have m: "(224 + i) mod 64 = 32 + i" "(224 + i) mod 32 = i"
      using block_mod [of 64 3 "224 + i"] block_mod [of 32 7 "224 + i"] i by simp_all
    have t: "utftab ! ((224 + i) mod 64) = 3" using i utftab_nth [of "32 + i"] m by simp
    have "r div 64 div 64 = i" by (simp add: i_def div_mult2_eq [symmetric])
    then have d: "i * 64 + r div 64 mod 64 = r div 64" by (metis div_mult_mod_eq)
    have v: "(i * 64 + r div 64 mod 64) * 64 + r mod 64 = r" unfolding d by simp
    have ol: "31 < i * 64 + r div 64 mod 64" unfolding d using 2 div_le_mono [of "0x800" r 64] by simp
    have sq: "sequence (of_nat (0xE0 + i)) 3 [cont (r div 64), cont r] r"
      unfolding sequence_def c using t m(2) v ol cm ct assms(1) by simp
    have u: "utf8 r = of_nat (0xE0 + i) # [cont (r div 64), cont r]" using assms(2) 2 by (simp add: utf8_def i_def)
    have l: "length (utf8 r) = 3" unfolding u by simp
    show ?thesis unfolding l using u sq by blast
  next
    case 3
    define i where "i = r div 0x40000"
    have i: "i < 8" using r by (simp add: i_def less_mult_imp_div_less)
    have c: "unat (of_nat (0xF0 + i) :: u8) = 240 + i" using i by (simp only: unat_of_nat) simp
    have m: "(240 + i) mod 64 = 48 + i" "(240 + i) mod 16 = i"
      using block_mod [of 64 3 "240 + i"] block_mod [of 16 15 "240 + i"] i by simp_all
    have t: "utftab ! ((240 + i) mod 64) = 4" using i utftab_nth [of "48 + i"] m by simp
    have "r div 4096 div 64 = i" by (simp add: i_def div_mult2_eq [symmetric])
    then have d1: "i * 64 + r div 4096 mod 64 = r div 4096" by (metis div_mult_mod_eq)
    have "r div 64 div 64 = r div 4096" by (simp add: div_mult2_eq [symmetric])
    then have d2: "r div 4096 * 64 + r div 64 mod 64 = r div 64" by (metis div_mult_mod_eq)
    have v: "((i * 64 + r div 4096 mod 64) * 64 + r div 64 mod 64) * 64 + r mod 64 = r" unfolding d1 d2 by simp
    have ol: "15 < i * 64 + r div 4096 mod 64" unfolding d1 using 3 div_le_mono [of "0x10000" r 4096] by simp
    have sq: "sequence (of_nat (0xF0 + i)) 4 [cont (r div 4096), cont (r div 64), cont r] r"
      unfolding sequence_def c using t m(2) v ol cm ct assms(1) by simp
    have u: "utf8 r = of_nat (0xF0 + i) # [cont (r div 4096), cont (r div 64), cont r]" using assms(2) 3 by (simp add: utf8_def i_def)
    have l: "length (utf8 r) = 4" unfolding u by simp
    show ?thesis unfolding l using u sq by blast
  qed
qed

lemma ascii_rune:
  assumes "r < 0x80"
  shows "isvalidrune (int r)" "utf8 r = [of_nat r]" "unat (of_nat r :: u8) = r"
proof -
  have "int r AND 0xFFFE \<le> int r" by (rule AND_upper1) simp
  then have "int r AND 0xFFFE \<noteq> 0xFFFE" using assms by linarith
  then show "isvalidrune (int r)" using assms by (auto simp: isvalidrune_def)
  show "utf8 r = [of_nat r]" using assms by (simp add: utf8_def)
  show "unat (of_nat r :: u8) = r" using assms by (simp only: unat_of_nat) simp
qed

lemma charntorune_ascii:
  assumes "m s = Some c" "unat c < 0x80" "0 < len"
  shows "charntorune m s len = Some (1, Some (int (unat c)))"
  using assms by (simp add: charntorune_def and_masks)

lemma charntorune_iff:
  "charntorune m s len = Some (k, Some v) \<and> v \<noteq> Runeerror \<longleftrightarrow>
    (\<exists>r. v = int r \<and> isvalidrune v \<and> k = length (utf8 r) \<and> k \<le> len \<and> block_at m s (utf8 r))"
proof
  assume a: "charntorune m s len = Some (k, Some v) \<and> v \<noteq> Runeerror"
  then have len: "0 < len" by (cases "len = 0") (simp_all add: charntorune_def)
  with a obtain c where c: "m s = Some c" by (auto simp: charntorune_def bind_eq_Some_conv)
  show "\<exists>r. v = int r \<and> isvalidrune v \<and> k = length (utf8 r) \<and> k \<le> len \<and> block_at m s (utf8 r)"
  proof (cases "unat c < 0x80")
    case True
    then have "v = int (unat c)" "k = 1" using charntorune_ascii [of m s c len] c True len a by simp_all
    then show ?thesis using ascii_rune [OF True] c len by (intro exI [of _ "unat c"]) simp
  next
    case False
    then obtain bs w where w: "sequence c k bs w" "block_at m (s + 1) bs" "v = int w" "k \<le> len"
      using charntorune_inv [of m s len k v c] a c by auto
    have "utf8 w = c # bs" "k = Suc (length bs)" using sequence_utf8 [OF w(1)] by simp_all
    moreover have "isvalidrune (int w)" using w(1) unfolding sequence_def by blast
    ultimately show ?thesis using w c by (intro exI [of _ w]) simp
  qed
next
  assume "\<exists>r. v = int r \<and> isvalidrune v \<and> k = length (utf8 r) \<and> k \<le> len \<and> block_at m s (utf8 r)"
  then obtain r where r: "v = int r" "isvalidrune (int r)" "k = length (utf8 r)" "k \<le> len" "block_at m s (utf8 r)" by blast
  have "charntorune m s len = Some (k, Some v)"
  proof (cases "r < 0x80")
    case True
    note ar = ascii_rune [OF True]
    have "m s = Some (of_nat r)" "k = 1" "0 < len" using r(3-5) ar(2) by simp_all
    then show ?thesis using charntorune_ascii [of m s "of_nat r" len] ar(3) True r(1) by simp
  next
    case False
    then obtain c bs where u: "utf8 r = c # bs" "sequence c (length (utf8 r)) bs r" using utf8_sequence [OF r(2)] by auto
    have "m s = Some c" "block_at m (s + 1) bs" using r(5) u(1) by simp_all
    from charntorune_accepts [OF u(2) this] r(3,4) show ?thesis using r(1) by simp
  qed
  then show "charntorune m s len = Some (k, Some v) \<and> v \<noteq> Runeerror" using r(1) by (simp add: Runeerror_def)
qed

section \<open>Counting\<close>

lemma skip_continuation_all:
  "block_at m (s + i) bs \<Longrightarrow> \<forall>b \<in> set bs. continuation b \<Longrightarrow> i + length bs = mx \<Longrightarrow> skip_continuation m s i mx = Some mx"
  by (induction bs arbitrary: i) auto

lemma utf_advance_rune:
  assumes "isvalidrune (int r)" "block_at m s (utf8 r)" "length (utf8 r) \<le> len"
  shows "utf_advance m s len = Some (Some (length (utf8 r)))"
proof (cases "r < 0x80")
  case True
  note ar = ascii_rune [OF True]
  have "r div 64 \<noteq> 3" using True by linarith
  then show ?thesis using assms(2) ar True by (simp add: utf_advance_def and_masks)
next
  case False
  then obtain c bs where u: "utf8 r = c # bs" "sequence c (length (utf8 r)) bs r" using utf8_sequence [OF assms(1)] by auto
  let ?n = "length (utf8 r)"
  have c: "192 \<le> unat c" "?n = utftab ! (unat c mod 64)" "?n \<noteq> 0" and bs: "length bs = ?n - 1" "\<forall>b \<in> set bs. continuation b"
    and v: "255 div 2 ^ ?n < rune_value (unat c mod 2 ^ (8 - ?n)) [hd bs]"
    using u(2) unfolding sequence_def by blast+
  note f = lead_facts [OF c]
  obtain b bs' where b: "bs = b # bs'" using bs(1) f(1) by (cases bs) auto
  let ?r = "append_bits (ucast (c AND drop_bit ?n 0xff)) b"
  have "unat (ucast (drop_bit ?n (0xff :: u8)) :: u32) < unat ?r"
    using lead_bits(2) [of ?n] f(2) v sequence_bound(1) [OF c, of b] b by simp
  then have ol: "\<not> ?r \<le> ucast (drop_bit ?n (0xff :: u8))" by (simp add: word_le_nat_alt)
  have "block_at m (s + 2) bs'" "\<forall>b \<in> set bs'. continuation b" "2 + length bs' = ?n" using assms(2) bs b f(1) u(1) by auto
  then have sk: "skip_continuation m s 2 ?n = Some ?n" by (rule skip_continuation_all)
  have l: "len \<noteq> 1" "min len ?n = ?n" "\<not> ?n < ?n" using assms(3) f(1) by simp_all
  have mb: "m s = Some c" "m (s + 1) = Some b" "continuation b" using assms(2) u(1) b bs(2) by simp_all
  show ?thesis
    unfolding utf_advance_def Let_def mb(1) bind.bind_lunit f(6,7) c(2) [symmetric] mb(2)
    using l ol sk mb(3) c(3) by (simp del: skip_continuation.simps)
qed

lemma utfnlen_counts:
  assumes "cstr m s (concat (map utf8 rs))" "\<forall>r \<in> set rs. isvalidrune (int r) \<and> r \<noteq> 0" "length (concat (map utf8 rs)) \<le> len"
  shows "utfnlen_loop m s len k = Some (k + length rs)"
  using assms
proof (induction rs arbitrary: s len k)
  case Nil
  then show ?case by (subst utfnlen_loop.simps) simp
next
  case (Cons r rs)
  let ?u = "utf8 r" and ?t = "concat (map utf8 rs)"
  have c: "0 \<notin> set ?t" "block_at m s ?u" "block_at m (s + length ?u) (?t @ [0])" "0 \<notin> set ?u"
    using Cons.prems(1) by (auto simp: cstr_def block_at_append)
  have "?u \<noteq> []" by (simp add: utf8_def)
  then obtain x xs where x: "?u = x # xs" by (cases ?u) auto
  have h: "m s = Some x" "x \<noteq> 0" "len \<noteq> 0" using c(2,4) x Cons.prems(3) by auto
  have "utf_advance m s len = Some (Some (length ?u))" using Cons.prems(2,3) c(2) by (intro utf_advance_rune) simp_all
  then have "utfnlen_loop m s len k = utfnlen_loop m (s + length ?u) (len - length ?u) (k + 1)"
    using h by (subst utfnlen_loop.simps) simp
  moreover have "cstr m (s + length ?u) ?t" using c(1,3) by (simp add: cstr_def)
  moreover have "length ?t \<le> len - length ?u" using Cons.prems(3) by simp
  ultimately show ?case using Cons.IH [of "s + length ?u" "len - length ?u" "k + 1"] Cons.prems(2) by simp
qed

section \<open>Properties\<close>

text \<open>
  C26. The decoder stores a rune, and reports its length, exactly when the bytes within the
  limit start with the shortest UTF-8 encoding of a valid rune, and it is that rune; every other
  input gives the error rune or asks for more bytes.
\<close>

theorem charntorune_exact:
  "charntorune m s len = Some (k, Some v) \<and> v \<noteq> Runeerror \<longleftrightarrow>
    (\<exists>r. v = int r \<and> isvalidrune v \<and> k = length (utf8 r) \<and> k \<le> len \<and> block_at m s (utf8 r))"
  by (rule charntorune_iff)

text \<open>
  For a string that is a sequence of encoded valid runes and a limit not below its length,
  \<open>utfnlen\<close> returns the number of runes.
\<close>

lemma utfnlen_exact:
  assumes "cstr m s (concat (map utf8 rs))" "\<forall>r \<in> set rs. isvalidrune (int r) \<and> r \<noteq> 0" "length (concat (map utf8 rs)) \<le> len"
  shows "utfnlen m s len = Some (length rs)"
  using utfnlen_counts [OF assms, of 0] by (simp add: utfnlen_def)

end
