(* ===== verification/AtomQueue.thy ===== *)
theory AtomQueue
  imports Krlibc
begin

text \<open>
  The byte ring of \<^verbatim>\<open>kernel/atom_queue.cpp\<close>. The operations on the counters are the locked
  instructions of the source (\<open>xadd\<close>, \<open>xchg\<close>, \<open>cmpxchg\<close>), the buffer is in the byte memory, and the
  structures are in a heap. Besides the operations run to completion, the single-producer ring is
  modelled at the grain of its memory accesses: \<open>ring_step\<close> interleaves one producer and one consumer.
\<close>

section \<open>The locked instructions\<close>

text \<open>Each returns its C result and the new contents of the memory cell.\<close>

definition load :: "u64 \<Rightarrow> u64 \<times> u64" where
  "load cell = (let ret = 0 in (cell, cell + ret))"

definition store :: "u64 \<Rightarrow> u64 \<Rightarrow> u64" where
  "store cell value = value"

text \<open>
  \<open>cmpxchg\<close> compares with \<open>rax\<close> (\<open>exp\<close>) and reports through the zero flag, which the code does not
  read: \<open>ret\<close> is still the 0 it was initialised with.
\<close>

definition cas :: "u64 \<Rightarrow> u64 \<Rightarrow> u64 \<Rightarrow> bool \<times> u64" where
  "cas cell expected new = (let ret = (0 :: u8) in (ret \<noteq> 0, if cell = expected then new else cell))"

section \<open>The queue\<close>

record atom_queue =
  aq_buf :: ptr
  aq_mask :: u64
  aq_head :: u64
  aq_tail :: u64
  aq_size :: u64

text \<open>
  The structures, the bytes, and the sizes of the byte blocks that \<open>malloc\<close> has handed out. The address
  of a new block and the bytes found in it are parameters.
\<close>

record ring_heap =
  rh_queue :: "addr \<rightharpoonup> atom_queue"
  rh_mem :: bytes
  rh_blocks :: "addr \<rightharpoonup> nat"

definition malloc_bytes :: "ring_heap \<Rightarrow> addr \<Rightarrow> nat \<Rightarrow> (nat \<Rightarrow> u8) \<Rightarrow> ring_heap" where
  "malloc_bytes h b n junk = h\<lparr>rh_mem := put (rh_mem h) b (map junk [0..<n]), rh_blocks := (rh_blocks h)(b \<mapsto> n)\<rparr>"

definition free_bytes :: "ring_heap \<Rightarrow> ptr \<Rightarrow> ring_heap option" where
  "free_bytes h p = (case p of None \<Rightarrow> Some h
     | Some b \<Rightarrow> do {
         n \<leftarrow> rh_blocks h b;
         Some (h\<lparr>rh_mem := (\<lambda>x. if b \<le> x \<and> x < b + n then None else rh_mem h x), rh_blocks := (rh_blocks h)(b := None)\<rparr>)
       })"

definition not_power_of_2 :: "u64 \<Rightarrow> bool" where
  "not_power_of_2 sz \<longleftrightarrow> sz = 0 \<or> sz AND (sz - 1) \<noteq> 0"

definition init_atom_queue :: "atom_queue option \<Rightarrow> ptr \<Rightarrow> u64 \<Rightarrow> bool \<times> atom_queue option" where
  "init_atom_queue queue buffer sz =
     (if queue = None \<or> buffer = None \<or> not_power_of_2 sz then (False, queue)
      else (True, Some \<lparr>aq_buf = buffer, aq_mask = sz - 1, aq_head = 0, aq_tail = 0, aq_size = 0\<rparr>))"

definition create_atom_queue :: "ring_heap \<Rightarrow> u64 \<Rightarrow> ptr \<Rightarrow> atom_queue \<Rightarrow> ptr \<Rightarrow> (nat \<Rightarrow> u8) \<Rightarrow> (ptr \<times> ring_heap) option" where
  "create_atom_queue h sz queue junk_queue buffer junk =
     (if not_power_of_2 sz then Some (None, h)
      else case queue of None \<Rightarrow> Some (None, h)
      | Some a \<Rightarrow> do {
          let h = h\<lparr>rh_queue := (rh_queue h)(a \<mapsto> junk_queue)\<rparr>;
          case buffer of
            None \<Rightarrow> do { hq \<leftarrow> release (rh_queue h) queue; Some (None, h\<lparr>rh_queue := hq\<rparr>) }
          | Some b \<Rightarrow> do {
              let h = malloc_bytes h b (unat sz) junk;
              q \<leftarrow> rh_queue h a;
              q \<leftarrow> snd (init_atom_queue (Some q) buffer sz);
              Some (queue, h\<lparr>rh_queue := (rh_queue h)(a \<mapsto> q)\<rparr>)
            }
        })"

definition atom_push :: "bytes \<Rightarrow> atom_queue option \<Rightarrow> u8 \<Rightarrow> (bool \<times> bytes \<times> atom_queue option) option" where
  "atom_push m queue data =
     (case queue of None \<Rightarrow> Some (False, m, queue)
      | Some q \<Rightarrow> (case aq_buf q of None \<Rightarrow> Some (False, m, queue)
        | Some buf \<Rightarrow> do {
            let (head, c) = load (aq_head q);
            let q = q\<lparr>aq_head := c\<rparr>;
            let nxt = (head + 1) AND aq_mask q;
            let (tail, c) = load (aq_tail q);
            let q = q\<lparr>aq_tail := c\<rparr>;
            if nxt = tail then Some (False, m, Some q)
            else do {
              m \<leftarrow> poke m (buf + unat head) data;
              let q = q\<lparr>aq_head := store (aq_head q) nxt\<rparr>;
              let q = q\<lparr>aq_size := aq_size q + 1\<rparr>;
              Some (True, m, Some q)
            }
          }))"

definition atom_pop :: "bytes \<Rightarrow> atom_queue option \<Rightarrow> (int \<times> atom_queue option) option" where
  "atom_pop m queue =
     (case queue of None \<Rightarrow> Some (- 1, queue)
      | Some q \<Rightarrow> (case aq_buf q of None \<Rightarrow> Some (- 1, queue)
        | Some buf \<Rightarrow> do {
            let (tail, c) = load (aq_tail q);
            let q = q\<lparr>aq_tail := c\<rparr>;
            let (head, c) = load (aq_head q);
            let q = q\<lparr>aq_head := c\<rparr>;
            if tail = head then Some (- 1, Some q)
            else do {
              data \<leftarrow> m (buf + unat tail);
              let q = q\<lparr>aq_tail := store (aq_tail q) ((tail + 1) AND aq_mask q)\<rparr>;
              let q = q\<lparr>aq_size := aq_size q - 1\<rparr>;
              Some (uint data, Some q)
            }
          }))"

definition free_queue :: "ring_heap \<Rightarrow> ptr \<Rightarrow> ring_heap option" where
  "free_queue h queue =
     (if queue = None then Some h
      else do {
        q \<leftarrow> deref (rh_queue h) queue;
        h \<leftarrow> free_bytes h (aq_buf q);
        hq \<leftarrow> release (rh_queue h) queue;
        Some (h\<lparr>rh_queue := hq\<rparr>)
      })"

section \<open>The queue for several producers and consumers\<close>

definition create_atom_queue_mpmc :: "ring_heap \<Rightarrow> u64 \<Rightarrow> ptr \<Rightarrow> ptr \<Rightarrow> (nat \<Rightarrow> u8) \<Rightarrow> (ptr \<times> ring_heap) option" where
  "create_atom_queue_mpmc h sz queue buffer junk =
     (if not_power_of_2 sz then Some (None, h)
      else case queue of None \<Rightarrow> Some (None, h)
      | Some a \<Rightarrow> do {
          let q = \<lparr>aq_buf = None, aq_mask = 0, aq_head = 0, aq_tail = 0, aq_size = 0\<rparr>;
          let q = q\<lparr>aq_buf := buffer\<rparr>;
          let h = h\<lparr>rh_queue := (rh_queue h)(a \<mapsto> q)\<rparr>;
          case buffer of
            None \<Rightarrow> do { hq \<leftarrow> release (rh_queue h) queue; Some (None, h\<lparr>rh_queue := hq\<rparr>) }
          | Some b \<Rightarrow> do {
              let h = malloc_bytes h b (unat sz) junk;
              let q = q\<lparr>aq_mask := sz - 1, aq_head := 0, aq_tail := 0, aq_size := sz\<rparr>;
              Some (queue, h\<lparr>rh_queue := (rh_queue h)(a \<mapsto> q)\<rparr>)
            }
        })"

partial_function (option) push_mpmc_loop :: "bytes \<Rightarrow> atom_queue \<Rightarrow> u8 \<Rightarrow> (bool \<times> bytes \<times> atom_queue) option" where
  "push_mpmc_loop m q data = do {
     let (head, c) = load (aq_head q);
     let q = q\<lparr>aq_head := c\<rparr>;
     let (tail, c) = load (aq_tail q);
     let q = q\<lparr>aq_tail := c\<rparr>;
     let nxt = (head + 1) AND aq_mask q;
     if nxt = tail then Some (False, m, q)
     else do {
       let (ok, c) = cas (aq_head q) head nxt;
       let q = q\<lparr>aq_head := c\<rparr>;
       if ok then do {
         buf \<leftarrow> aq_buf q;
         m \<leftarrow> poke m (buf + unat head) data;
         Some (True, m, q\<lparr>aq_size := aq_size q + 1\<rparr>)
       }
       else push_mpmc_loop m q data
     }
   }"

definition atom_push_mpmc :: "bytes \<Rightarrow> atom_queue option \<Rightarrow> u8 \<Rightarrow> (bool \<times> bytes \<times> atom_queue option) option" where
  "atom_push_mpmc m queue data =
     (case queue of None \<Rightarrow> Some (False, m, None)
      | Some q \<Rightarrow> do { (r, m, q) \<leftarrow> push_mpmc_loop m q data; Some (r, m, Some q) })"

partial_function (option) pop_mpmc_loop :: "bytes \<Rightarrow> atom_queue \<Rightarrow> (int \<times> atom_queue) option" where
  "pop_mpmc_loop m q = do {
     let (tail, c) = load (aq_tail q);
     let q = q\<lparr>aq_tail := c\<rparr>;
     let (head, c) = load (aq_head q);
     let q = q\<lparr>aq_head := c\<rparr>;
     if tail = head then Some (- 1, q)
     else do {
       let nxt = (tail + 1) AND aq_mask q;
       let (ok, c) = cas (aq_tail q) tail nxt;
       let q = q\<lparr>aq_tail := c\<rparr>;
       if ok then do {
         buf \<leftarrow> aq_buf q;
         data \<leftarrow> m (buf + unat tail);
         Some (uint data, q\<lparr>aq_size := aq_size q - 1\<rparr>)
       }
       else pop_mpmc_loop m q
     }
   }"

definition atom_pop_mpmc :: "bytes \<Rightarrow> atom_queue option \<Rightarrow> (int \<times> atom_queue option) option" where
  "atom_pop_mpmc m queue =
     (case queue of None \<Rightarrow> Some (- 1, None)
      | Some q \<Rightarrow> do { (r, q) \<leftarrow> pop_mpmc_loop m q; Some (r, Some q) })"

definition free_queue_mpmc :: "ring_heap \<Rightarrow> ptr \<Rightarrow> ring_heap option" where
  "free_queue_mpmc h queue = free_queue h queue"

section \<open>One producer and one consumer, access by access\<close>

text \<open>
  Where \<open>atom_push\<close> and \<open>atom_pop\<close> stand between two accesses to shared memory, with their local
  variables. The increment of the plain field \<open>size\<close> is a read and a write.
\<close>

datatype producer = P_idle | P_head u8 u64 | P_room u8 u64 u64 | P_written u8 u64 | P_stored | P_size u64
datatype consumer = C_idle | C_tail u64 | C_some u64 | C_data u64 u8 | C_stored | C_size u64

record ring =
  r_mem :: bytes
  r_q :: atom_queue
  r_prod :: producer
  r_cons :: consumer
  r_in :: "u8 list"
  r_out :: "u8 list"

text \<open>
  \<open>r_in\<close> and \<open>r_out\<close> record the bytes of the pushes and pops that have taken effect, in order. The
  first argument of \<open>push_step\<close> is the byte a new call pushes.
\<close>

definition push_step :: "u8 \<Rightarrow> ring \<Rightarrow> ring option" where
  "push_step data s = do {
     let q = r_q s;
     buf \<leftarrow> aq_buf q;
     case r_prod s of
       P_idle \<Rightarrow> do {
         let (head, c) = load (aq_head q);
         Some (s\<lparr>r_q := q\<lparr>aq_head := c\<rparr>, r_prod := P_head data head\<rparr>)
       }
     | P_head d head \<Rightarrow> do {
         let nxt = (head + 1) AND aq_mask q;
         let (tail, c) = load (aq_tail q);
         Some (s\<lparr>r_q := q\<lparr>aq_tail := c\<rparr>, r_prod := (if nxt = tail then P_idle else P_room d head nxt)\<rparr>)
       }
     | P_room d head nxt \<Rightarrow> do {
         m \<leftarrow> poke (r_mem s) (buf + unat head) d;
         Some (s\<lparr>r_mem := m, r_prod := P_written d nxt\<rparr>)
       }
     | P_written d nxt \<Rightarrow> Some (s\<lparr>r_q := q\<lparr>aq_head := store (aq_head q) nxt\<rparr>, r_prod := P_stored, r_in := r_in s @ [d]\<rparr>)
     | P_stored \<Rightarrow> Some (s\<lparr>r_prod := P_size (aq_size q)\<rparr>)
     | P_size n \<Rightarrow> Some (s\<lparr>r_q := q\<lparr>aq_size := n + 1\<rparr>, r_prod := P_idle\<rparr>)
   }"

definition pop_step :: "ring \<Rightarrow> ring option" where
  "pop_step s = do {
     let q = r_q s;
     buf \<leftarrow> aq_buf q;
     case r_cons s of
       C_idle \<Rightarrow> do {
         let (tail, c) = load (aq_tail q);
         Some (s\<lparr>r_q := q\<lparr>aq_tail := c\<rparr>, r_cons := C_tail tail\<rparr>)
       }
     | C_tail tail \<Rightarrow> do {
         let (head, c) = load (aq_head q);
         Some (s\<lparr>r_q := q\<lparr>aq_head := c\<rparr>, r_cons := (if tail = head then C_idle else C_some tail)\<rparr>)
       }
     | C_some tail \<Rightarrow> do { data \<leftarrow> r_mem s (buf + unat tail); Some (s\<lparr>r_cons := C_data tail data\<rparr>) }
     | C_data tail data \<Rightarrow>
         Some (s\<lparr>r_q := q\<lparr>aq_tail := store (aq_tail q) ((tail + 1) AND aq_mask q)\<rparr>, r_cons := C_stored, r_out := r_out s @ [data]\<rparr>)
     | C_stored \<Rightarrow> Some (s\<lparr>r_cons := C_size (aq_size q)\<rparr>)
     | C_size n \<Rightarrow> Some (s\<lparr>r_q := q\<lparr>aq_size := n - 1\<rparr>, r_cons := C_idle\<rparr>)
   }"

inductive ring_step :: "ring \<Rightarrow> ring \<Rightarrow> bool" where
  produce: "push_step data s = Some s' \<Longrightarrow> ring_step s s'"
| consume: "pop_step s = Some s' \<Longrightarrow> ring_step s s'"

abbreviation ring_steps :: "ring \<Rightarrow> ring \<Rightarrow> bool" where
  "ring_steps \<equiv> ring_step\<^sup>*\<^sup>*"

text \<open>A call that runs to its end without the other side.\<close>

fun push_run :: "nat \<Rightarrow> u8 \<Rightarrow> ring \<Rightarrow> ring option" where
  "push_run 0 data s = Some s"
| "push_run (Suc n) data s = do { s \<leftarrow> push_step data s; if r_prod s = P_idle then Some s else push_run n data s }"

fun pop_run :: "nat \<Rightarrow> ring \<Rightarrow> ring option" where
  "pop_run 0 s = Some s"
| "pop_run (Suc n) s = do { s \<leftarrow> pop_step s; if r_cons s = C_idle then Some s else pop_run n s }"

section \<open>The ring as a queue\<close>

lemma load_simp [simp]: "load c = (c, c)"
  by (simp add: load_def)

lemma store_simp [simp]: "store c v = v"
  by (simp add: store_def)

lemma cas_simp [simp]: "cas c e u = (False, if c = e then u else c)"
  by (simp add: cas_def)

text \<open>
  \<open>ring_at m q k xs\<close>: the buffer has \<open>2\<^sup>k\<close> mapped bytes and the entries \<open>xs\<close> start at the tail; one byte
  always stays free.
\<close>

definition ring_at :: "bytes \<Rightarrow> atom_queue \<Rightarrow> nat \<Rightarrow> u8 list \<Rightarrow> bool" where
  "ring_at m q k xs \<longleftrightarrow> (\<exists>b. aq_buf q = Some b \<and> mapped m b (2 ^ k) \<and>
     (\<forall>i < length xs. m (b + (unat (aq_tail q) + i) mod 2 ^ k) = Some (xs ! i))) \<and>
     k < 64 \<and> aq_mask q = mask k \<and> length xs < 2 ^ k \<and>
     unat (aq_tail q) < 2 ^ k \<and> unat (aq_head q) = (unat (aq_tail q) + length xs) mod 2 ^ k"

lemma advance:
  assumes "k \<le> 64"
  shows "unat (((h :: u64) + 1) AND mask k) = (unat h + 1) mod 2 ^ k"
proof -
  have "(2 :: nat) ^ k dvd 18446744073709551616" using le_imp_power_dvd [OF assms, of "2 :: nat"] by simp
  then show ?thesis
    by (simp only: take_bit_eq_mask [symmetric] unsigned_take_bit_eq)
       (simp add: take_bit_eq_mod unat_word_ariths mod_mod_cancel)
qed

lemma ring_full:
  assumes "ring_at m q k xs"
  shows "(aq_head q + 1) AND aq_mask q = aq_tail q \<longleftrightarrow> length xs + 1 = 2 ^ k"
proof -
  have r: "k < 64" "aq_mask q = mask k" "length xs < 2 ^ k" "unat (aq_tail q) < 2 ^ k" "unat (aq_head q) = (unat (aq_tail q) + length xs) mod 2 ^ k"
    using assms by (auto simp: ring_at_def)
  have "unat ((aq_head q + 1) AND aq_mask q) = (unat (aq_tail q) + (length xs + 1)) mod 2 ^ k"
    using r advance [of k "aq_head q"] by (simp add: mod_Suc_eq)
  moreover have "(unat (aq_tail q) + (length xs + 1)) mod 2 ^ k = unat (aq_tail q) \<longleftrightarrow> length xs + 1 = 2 ^ k"
  proof (cases "length xs + 1 = 2 ^ k")
    case True
    then show ?thesis using r(4) by (simp only: mod_add_self2) simp
  next
    case False
    then have "length xs + 1 < 2 ^ k" using r(3) by linarith
    then show ?thesis using cyclic_eq [OF r(4), of "length xs + 1"] False by simp
  qed
  ultimately show ?thesis by (simp only: word_unat_eq_iff)
qed

lemma ring_empty: "ring_at m q k xs \<Longrightarrow> aq_tail q = aq_head q \<longleftrightarrow> xs = []"
  using cyclic_eq [of "unat (aq_tail q)" "2 ^ k" "length xs"] by (auto simp: ring_at_def word_unat_eq_iff)

lemma ring_at_cong: "ring_at m (q\<lparr>aq_size := n\<rparr>) k xs = ring_at m q k xs"
  by (simp add: ring_at_def)

text \<open>A byte written at the head, and then the head moved over it, is a new last entry.\<close>

lemma ring_write:
  assumes "ring_at m q k xs" "aq_buf q = Some b"
  shows "poke m (b + unat (aq_head q)) d = Some (m(b + unat (aq_head q) \<mapsto> d))" "ring_at (m(b + unat (aq_head q) \<mapsto> d)) q k xs"
proof -
  have r: "mapped m b (2 ^ k)" "length xs < 2 ^ k" "unat (aq_tail q) < 2 ^ k" "unat (aq_head q) = (unat (aq_tail q) + length xs) mod 2 ^ k"
    and e: "\<And>i. i < length xs \<Longrightarrow> m (b + (unat (aq_tail q) + i) mod 2 ^ k) = Some (xs ! i)"
    using assms by (auto simp: ring_at_def)
  have "unat (aq_head q) < 2 ^ k" using r(4) by simp
  then show "poke m (b + unat (aq_head q)) d = Some (m(b + unat (aq_head q) \<mapsto> d))"
    using r(1) by (simp add: poke_def mapped_def)
  have "(unat (aq_tail q) + i) mod 2 ^ k \<noteq> unat (aq_head q)" if "i < length xs" for i
  proof
    assume a: "(unat (aq_tail q) + i) mod 2 ^ k = unat (aq_head q)"
    have "((unat (aq_tail q) + i) mod 2 ^ k + (length xs - i)) mod 2 ^ k = (unat (aq_tail q) + i + (length xs - i)) mod 2 ^ k"
      by (simp only: mod_add_left_eq)
    also have "unat (aq_tail q) + i + (length xs - i) = unat (aq_tail q) + length xs" using that by simp
    finally have "((unat (aq_tail q) + i) mod 2 ^ k + (length xs - i)) mod 2 ^ k = (unat (aq_tail q) + i) mod 2 ^ k"
      using a r(4) by simp
    moreover have "length xs - i < 2 ^ k" using r(2) by linarith
    ultimately show False using cyclic_eq [of "(unat (aq_tail q) + i) mod 2 ^ k" "2 ^ k" "length xs - i"] that by simp
  qed
  then show "ring_at (m(b + unat (aq_head q) \<mapsto> d)) q k xs"
    using assms e mapped_upd [OF r(1)] by (auto simp: ring_at_def)
qed

lemma ring_publish:
  assumes "ring_at m q k xs" "aq_buf q = Some b" "m (b + unat (aq_head q)) = Some d" "length xs + 1 \<noteq> 2 ^ k"
  shows "ring_at m (q\<lparr>aq_head := (aq_head q + 1) AND aq_mask q\<rparr>) k (xs @ [d])"
proof -
  have r: "k < 64" "aq_mask q = mask k" "length xs < 2 ^ k" "unat (aq_head q) = (unat (aq_tail q) + length xs) mod 2 ^ k"
    using assms(1) by (auto simp: ring_at_def)
  have "unat ((aq_head q + 1) AND aq_mask q) = (unat (aq_tail q) + length (xs @ [d])) mod 2 ^ k"
    using r advance [of k "aq_head q"] by (simp add: mod_Suc_eq)
  moreover have "length (xs @ [d]) < 2 ^ k" using r(3) assms(4) by simp
  ultimately show ?thesis using assms(1-3) r(4) by (auto simp: ring_at_def nth_append less_Suc_eq)
qed

text \<open>The byte at the tail is the first entry; moving the tail over it removes it.\<close>

lemma ring_first:
  assumes "ring_at m q k xs" "aq_buf q = Some b" "xs \<noteq> []"
  shows "m (b + unat (aq_tail q)) = Some (hd xs)"
proof -
  have e: "\<And>i. i < length xs \<Longrightarrow> m (b + (unat (aq_tail q) + i) mod 2 ^ k) = Some (xs ! i)" and "unat (aq_tail q) < 2 ^ k"
    using assms by (auto simp: ring_at_def)
  then show ?thesis using assms(3) e [of 0] by (simp add: hd_conv_nth)
qed

lemma ring_drop:
  assumes "ring_at m q k xs" "xs \<noteq> []"
  shows "ring_at m (q\<lparr>aq_tail := (aq_tail q + 1) AND aq_mask q\<rparr>) k (tl xs)"
proof -
  obtain b where b: "aq_buf q = Some b" "mapped m b (2 ^ k)" and e: "\<And>i. i < length xs \<Longrightarrow> m (b + (unat (aq_tail q) + i) mod 2 ^ k) = Some (xs ! i)"
    using assms(1) by (auto simp: ring_at_def)
  have r: "k < 64" "aq_mask q = mask k" "length xs < 2 ^ k" "unat (aq_head q) = (unat (aq_tail q) + length xs) mod 2 ^ k"
    using assms(1) by (auto simp: ring_at_def)
  have t: "unat ((aq_tail q + 1) AND aq_mask q) = (unat (aq_tail q) + 1) mod 2 ^ k" using r(1,2) advance [of k "aq_tail q"] by simp
  have s: "((unat (aq_tail q) + 1) mod 2 ^ k + i) mod 2 ^ k = (unat (aq_tail q) + Suc i) mod 2 ^ k" for i
    by (simp add: mod_add_left_eq)
  have "m (b + ((unat (aq_tail q) + 1) mod 2 ^ k + i) mod 2 ^ k) = Some (tl xs ! i)" if "i < length (tl xs)" for i
    unfolding s using e [of "Suc i"] that by (simp add: nth_tl)
  moreover have "unat (aq_head q) = ((unat (aq_tail q) + 1) mod 2 ^ k + length (tl xs)) mod 2 ^ k"
    unfolding s using r(4) assms(2) by simp
  moreover have "length (tl xs) < 2 ^ k" using r(3) by simp
  ultimately show ?thesis unfolding ring_at_def using b r t by simp
qed

section \<open>Calls that run to completion\<close>

lemma atom_push_ring:
  assumes "ring_at m q k xs"
  shows "if length xs + 1 = 2 ^ k then atom_push m (Some q) d = Some (False, m, Some q)
    else \<exists>m' q'. atom_push m (Some q) d = Some (True, m', Some q') \<and> ring_at m' q' k (xs @ [d])"
proof -
  obtain b where b: "aq_buf q = Some b" using assms by (auto simp: ring_at_def)
  note w = ring_write [OF assms b, of d]
  have same: "q\<lparr>aq_head := aq_head q\<rparr> = q" "q\<lparr>aq_tail := aq_tail q\<rparr> = q" by simp_all
  show ?thesis
  proof (cases "length xs + 1 = 2 ^ k")
    case True
    then show ?thesis using ring_full [OF assms] b by (simp add: atom_push_def)
  next
    case False
    let ?q = "q\<lparr>aq_head := (aq_head q + 1) AND aq_mask q\<rparr>"
    have "ring_at (m(b + unat (aq_head q) \<mapsto> d)) ?q k (xs @ [d])" using ring_publish [OF w(2) b _ False, of d] by simp
    then have "ring_at (m(b + unat (aq_head q) \<mapsto> d)) (?q\<lparr>aq_size := aq_size q + 1\<rparr>) k (xs @ [d])" by (simp only: ring_at_cong)
    moreover have "atom_push m (Some q) d = Some (True, m(b + unat (aq_head q) \<mapsto> d), Some (?q\<lparr>aq_size := aq_size q + 1\<rparr>))"
      using False ring_full [OF assms] b w(1) by (simp add: atom_push_def)
    ultimately show ?thesis using False by auto
  qed
qed

lemma atom_pop_ring:
  assumes "ring_at m q k xs"
  shows "if xs = [] then atom_pop m (Some q) = Some (- 1, Some q)
    else \<exists>q'. atom_pop m (Some q) = Some (uint (hd xs), Some q') \<and> ring_at m q' k (tl xs)"
proof -
  obtain b where b: "aq_buf q = Some b" using assms by (auto simp: ring_at_def)
  show ?thesis
  proof (cases "xs = []")
    case True
    then show ?thesis using ring_empty [OF assms] b by (simp add: atom_pop_def)
  next
    case False
    let ?q = "q\<lparr>aq_tail := (aq_tail q + 1) AND aq_mask q\<rparr>"
    have "atom_pop m (Some q) = Some (uint (hd xs), Some (?q\<lparr>aq_size := aq_size q - 1\<rparr>))"
      using False ring_empty [OF assms] b ring_first [OF assms b False] by (simp add: atom_pop_def)
    moreover have "ring_at m (?q\<lparr>aq_size := aq_size q - 1\<rparr>) k (tl xs)" using ring_drop [OF assms False] by (simp only: ring_at_cong)
    ultimately show ?thesis using False by auto
  qed
qed

text \<open>The access-by-access model, run without interference, is the code.\<close>

lemma push_run_atom_push:
  assumes "r_prod s = P_idle" "aq_buf (r_q s) = Some b"
  shows "push_run 6 d s =
    (case atom_push (r_mem s) (Some (r_q s)) d of
       Some (ok, m, Some q) \<Rightarrow> Some (s\<lparr>r_mem := m, r_q := q, r_prod := P_idle, r_in := (if ok then r_in s @ [d] else r_in s)\<rparr>)
     | _ \<Rightarrow> None)"
  using assms by (simp add: numeral_eq_Suc push_step_def atom_push_def poke_def Let_def)

lemma uint_nonneg_not: "uint (d :: u8) \<noteq> - 1"
  using uint_nonnegative [of d] by linarith

lemma pop_run_atom_pop:
  assumes "r_cons s = C_idle" "aq_buf (r_q s) = Some b"
  shows "pop_run 6 s =
    (case atom_pop (r_mem s) (Some (r_q s)) of
       Some (r, Some q) \<Rightarrow> Some (s\<lparr>r_q := q, r_cons := C_idle, r_out := (if r = - 1 then r_out s else r_out s @ [word_of_int r])\<rparr>)
     | _ \<Rightarrow> None)"
  using assms by (cases "r_mem s (b + unat (aq_tail (r_q s)))") (simp_all add: numeral_eq_Suc pop_step_def atom_pop_def Let_def uint_nonneg_not)

section \<open>All interleavings\<close>

text \<open>What each side knows where it stands, while the other side moves.\<close>

fun prod_ok :: "bytes \<Rightarrow> atom_queue \<Rightarrow> nat \<Rightarrow> u8 list \<Rightarrow> producer \<Rightarrow> bool" where
  "prod_ok m q k xs (P_head d head) \<longleftrightarrow> head = aq_head q"
| "prod_ok m q k xs (P_room d head nxt) \<longleftrightarrow> head = aq_head q \<and> nxt = (head + 1) AND aq_mask q \<and> length xs + 1 \<noteq> 2 ^ k"
| "prod_ok m q k xs (P_written d nxt) \<longleftrightarrow> nxt = (aq_head q + 1) AND aq_mask q \<and> length xs + 1 \<noteq> 2 ^ k \<and>
     (\<exists>b. aq_buf q = Some b \<and> m (b + unat (aq_head q)) = Some d)"
| "prod_ok m q k xs _ \<longleftrightarrow> True"

fun cons_ok :: "atom_queue \<Rightarrow> u8 list \<Rightarrow> consumer \<Rightarrow> bool" where
  "cons_ok q xs (C_tail tail) \<longleftrightarrow> tail = aq_tail q"
| "cons_ok q xs (C_some tail) \<longleftrightarrow> tail = aq_tail q \<and> xs \<noteq> []"
| "cons_ok q xs (C_data tail data) \<longleftrightarrow> tail = aq_tail q \<and> xs \<noteq> [] \<and> data = hd xs"
| "cons_ok q xs _ \<longleftrightarrow> True"

definition ring_inv :: "nat \<Rightarrow> ring \<Rightarrow> bool" where
  "ring_inv k s \<longleftrightarrow> (\<exists>xs. ring_at (r_mem s) (r_q s) k xs \<and> r_in s = r_out s @ xs \<and>
     prod_ok (r_mem s) (r_q s) k xs (r_prod s) \<and> cons_ok (r_q s) xs (r_cons s))"

lemma ok_upd [simp]:
  "prod_ok m (q\<lparr>aq_size := n\<rparr>) k xs p = prod_ok m q k xs p"
  "cons_ok (q\<lparr>aq_size := n\<rparr>) xs c = cons_ok q xs c"
  "cons_ok (q\<lparr>aq_head := h\<rparr>) xs c = cons_ok q xs c"
  "prod_ok m (q\<lparr>aq_tail := h\<rparr>) k xs p = prod_ok m q k xs p"
  by (cases p; cases c; simp)+

lemma cons_ok_snoc: "cons_ok q xs c \<Longrightarrow> cons_ok q (xs @ [d]) c"
  by (cases c) auto

lemma prod_ok_tl: "prod_ok m q k xs p \<Longrightarrow> xs \<noteq> [] \<Longrightarrow> length xs < 2 ^ k \<Longrightarrow> prod_ok m q k (tl xs) p"
  by (cases p) auto

lemma push_step_inv:
  assumes "ring_inv k s"
  shows "\<exists>s'. push_step data s = Some s' \<and> ring_inv k s'"
proof -
  obtain xs where r: "ring_at (r_mem s) (r_q s) k xs" "r_in s = r_out s @ xs" and p: "prod_ok (r_mem s) (r_q s) k xs (r_prod s)"
    and c: "cons_ok (r_q s) xs (r_cons s)" using assms by (auto simp: ring_inv_def)
  obtain b where b: "aq_buf (r_q s) = Some b" using r(1) by (auto simp: ring_at_def)
  have I: "ring_inv k s'" if "ring_at (r_mem s') (r_q s') k ys" "r_in s' = r_out s' @ ys"
      "prod_ok (r_mem s') (r_q s') k ys (r_prod s')" "cons_ok (r_q s') ys (r_cons s')" for s' ys
    using that by (auto simp: ring_inv_def)
  show ?thesis
  proof (cases "r_prod s")
    case P_idle
    then show ?thesis using r c b by (intro exI conjI, simp add: push_step_def, intro I [where ys = xs]) simp_all
  next
    case (P_head d head)
    then show ?thesis using r p c b ring_full [OF r(1)]
      by (intro exI conjI, simp add: push_step_def Let_def, intro I [where ys = xs]) auto
  next
    case (P_room d head nxt)
    then have h: "head = aq_head (r_q s)" using p by simp
    note w = ring_write [OF r(1) b, of d]
    show ?thesis using P_room r p c b w h by (intro exI conjI, simp add: push_step_def Let_def, intro I [where ys = xs]) simp_all
  next
    case (P_written d nxt)
    then have n: "nxt = (aq_head (r_q s) + 1) AND aq_mask (r_q s)" "length xs + 1 \<noteq> 2 ^ k" "r_mem s (b + unat (aq_head (r_q s))) = Some d"
      using p b by auto
    show ?thesis using P_written r c b ring_publish [OF r(1) b n(3,2)] n(1) cons_ok_snoc [OF c, of d]
      by (intro exI conjI, simp add: push_step_def Let_def, intro I [where ys = "xs @ [d]"]) simp_all
  next
    case P_stored
    then show ?thesis using r c b by (intro exI conjI, simp add: push_step_def Let_def, intro I [where ys = xs]) simp_all
  next
    case (P_size n)
    then show ?thesis using r c b by (intro exI conjI, simp add: push_step_def Let_def, intro I [where ys = xs]) (simp_all add: ring_at_cong)
  qed
qed

lemma pop_step_inv:
  assumes "ring_inv k s"
  shows "\<exists>s'. pop_step s = Some s' \<and> ring_inv k s'"
proof -
  obtain xs where r: "ring_at (r_mem s) (r_q s) k xs" "r_in s = r_out s @ xs" and p: "prod_ok (r_mem s) (r_q s) k xs (r_prod s)"
    and c: "cons_ok (r_q s) xs (r_cons s)" using assms by (auto simp: ring_inv_def)
  obtain b where b: "aq_buf (r_q s) = Some b" using r(1) by (auto simp: ring_at_def)
  have I: "ring_inv k s'" if "ring_at (r_mem s') (r_q s') k ys" "r_in s' = r_out s' @ ys"
      "prod_ok (r_mem s') (r_q s') k ys (r_prod s')" "cons_ok (r_q s') ys (r_cons s')" for s' ys
    using that by (auto simp: ring_inv_def)
  show ?thesis
  proof (cases "r_cons s")
    case C_idle
    then show ?thesis using r p b by (intro exI conjI, simp add: pop_step_def, intro I [where ys = xs]) simp_all
  next
    case (C_tail tail)
    then show ?thesis using r p c b ring_empty [OF r(1)]
      by (intro exI conjI, simp add: pop_step_def Let_def, intro I [where ys = xs]) auto
  next
    case (C_some tail)
    then have h: "tail = aq_tail (r_q s)" "xs \<noteq> []" using c by simp_all
    show ?thesis using C_some r p b h ring_first [OF r(1) b h(2)]
      by (intro exI conjI, simp add: pop_step_def Let_def, intro I [where ys = xs]) simp_all
  next
    case (C_data tail data)
    then have n: "tail = aq_tail (r_q s)" "xs \<noteq> []" "data = hd xs" using c by simp_all
    have len: "length xs < 2 ^ k" using r(1) by (simp add: ring_at_def)
    let ?s = "s\<lparr>r_q := (r_q s)\<lparr>aq_tail := (aq_tail (r_q s) + 1) AND aq_mask (r_q s)\<rparr>, r_cons := C_stored, r_out := r_out s @ [hd xs]\<rparr>"
    have "r_out s @ [hd xs] @ tl xs = r_out s @ xs" using n(2) by simp
    then have "ring_inv k ?s" using ring_drop [OF r(1) n(2)] prod_ok_tl [OF p n(2) len] r(2) by (intro I [where ys = "tl xs"]) simp_all
    moreover have "pop_step s = Some ?s" using C_data n b by (simp add: pop_step_def Let_def)
    ultimately show ?thesis by blast
  next
    case C_stored
    then show ?thesis using r p b by (intro exI conjI, simp add: pop_step_def Let_def, intro I [where ys = xs]) simp_all
  next
    case (C_size n)
    then show ?thesis using r p b by (intro exI conjI, simp add: pop_step_def Let_def, intro I [where ys = xs]) (simp_all add: ring_at_cong)
  qed
qed

lemma ring_step_inv: "ring_step s s' \<Longrightarrow> ring_inv k s \<Longrightarrow> ring_inv k s'"
  by (induction rule: ring_step.induct) (metis push_step_inv pop_step_inv option.inject)+

lemma ring_steps_inv: "ring_steps s s' \<Longrightarrow> ring_inv k s \<Longrightarrow> ring_inv k s'"
  by (induction rule: rtranclp_induct) (auto intro: ring_step_inv)

lemma init_ring_at:
  assumes "init_atom_queue (Some q0) (Some b) sz = (True, Some q)" "mapped m b (unat sz)"
  shows "\<exists>k. unat sz = 2 ^ k \<and> ring_at m q k []"
proof -
  have sz: "sz \<noteq> 0" "sz AND (sz - 1) = 0" and q: "q = \<lparr>aq_buf = Some b, aq_mask = sz - 1, aq_head = 0, aq_tail = 0, aq_size = 0\<rparr>"
    using assms(1) by (auto simp: init_atom_queue_def not_power_of_2_def split: if_splits)
  have p: "unat (sz - 1) = unat sz - 1" using sz(1) by (rule unat_minus_one)
  have "unat sz AND (unat sz - 1) = 0" using arg_cong [OF sz(2), of unat] by (simp only: unsigned_and_eq p) simp
  then obtain k where k: "unat sz = 2 ^ k" using and_pred_power [of "unat sz"] sz(1) by (auto simp: unat_eq_zero)
  have "(2 :: nat) ^ k < 2 ^ 64" using k unat_less_64 [of sz] by simp
  then have "k < 64" by (rule power_less_imp_less_exp [rotated]) simp
  moreover have "of_nat (unat sz) = sz" by simp
  then have "sz - 1 = mask k" using k by (simp add: mask_eq_exp_minus_1)
  ultimately show ?thesis using assms(2) k q by (intro exI [of _ k]) (simp add: ring_at_def)
qed

section \<open>Bounded queues\<close>

text \<open>
  The contract of a bounded queue, and what it gives for a sequence of calls: the answers are those of
  a list of at most \<open>cap\<close> entries.
\<close>

datatype 'a fifo_op = Push 'a | Pop
datatype 'a fifo_answer = Pushed bool | Popped "'a option"

fun fifo_run :: "('s \<Rightarrow> 'a \<Rightarrow> (bool \<times> 's) option) \<Rightarrow> ('s \<Rightarrow> ('a option \<times> 's) option) \<Rightarrow> 's \<Rightarrow> 'a fifo_op list \<Rightarrow> ('a fifo_answer list \<times> 's) option" where
  "fifo_run push pop s [] = Some ([], s)"
| "fifo_run push pop s (Push a # ops) = do { (r, s) \<leftarrow> push s a; (rs, s) \<leftarrow> fifo_run push pop s ops; Some (Pushed r # rs, s) }"
| "fifo_run push pop s (Pop # ops) = do { (r, s) \<leftarrow> pop s; (rs, s) \<leftarrow> fifo_run push pop s ops; Some (Popped r # rs, s) }"

fun list_run :: "nat \<Rightarrow> 'a list \<Rightarrow> 'a fifo_op list \<Rightarrow> 'a fifo_answer list \<times> 'a list" where
  "list_run cap xs [] = ([], xs)"
| "list_run cap xs (Push a # ops) =
     (let ok = length xs < cap; (rs, ys) = list_run cap (if ok then xs @ [a] else xs) ops in (Pushed ok # rs, ys))"
| "list_run cap xs (Pop # ops) =
     (let (rs, ys) = list_run cap (tl xs) ops in (Popped (if xs = [] then None else Some (hd xs)) # rs, ys))"

locale bounded_fifo =
  fixes push :: "'s \<Rightarrow> 'a \<Rightarrow> (bool \<times> 's) option"
    and pop :: "'s \<Rightarrow> ('a option \<times> 's) option"
    and holds :: "'s \<Rightarrow> 'a list \<Rightarrow> bool"
    and cap :: nat
  assumes push: "holds s xs \<Longrightarrow> \<exists>s'. push s a = Some (length xs < cap, s') \<and> holds s' (if length xs < cap then xs @ [a] else xs)"
    and pop: "holds s xs \<Longrightarrow> \<exists>s'. pop s = Some (if xs = [] then None else Some (hd xs), s') \<and> holds s' (tl xs)"
begin

lemma run_list:
  "holds s xs \<Longrightarrow> \<exists>s'. fifo_run push pop s ops = Some (fst (list_run cap xs ops), s') \<and> holds s' (snd (list_run cap xs ops))"
proof (induction ops arbitrary: s xs)
  case (Cons x ops)
  show ?case
  proof (cases x)
    case (Push a)
    obtain s1 where s1: "push s a = Some (length xs < cap, s1)" "holds s1 (if length xs < cap then xs @ [a] else xs)" using push [OF Cons.prems] by blast
    from Cons.IH [OF s1(2)] show ?thesis using Push s1(1) by (auto simp: split_beta Let_def)
  next
    case Pop
    obtain s1 where s1: "pop s = Some (if xs = [] then None else Some (hd xs), s1)" "holds s1 (tl xs)" using pop [OF Cons.prems] by blast
    from Cons.IH [OF s1(2)] show ?thesis using Pop s1(1) by (auto simp: split_beta Let_def)
  qed
qed auto

end

text \<open>The ring as such a queue.\<close>

definition ring_push :: "bytes \<times> atom_queue \<Rightarrow> u8 \<Rightarrow> (bool \<times> bytes \<times> atom_queue) option" where
  "ring_push s d = do { (ok, m, q) \<leftarrow> atom_push (fst s) (Some (snd s)) d; q \<leftarrow> q; Some (ok, m, q) }"

definition ring_pop :: "bytes \<times> atom_queue \<Rightarrow> (u8 option \<times> bytes \<times> atom_queue) option" where
  "ring_pop s = do { (r, q) \<leftarrow> atom_pop (fst s) (Some (snd s)); q \<leftarrow> q; Some (if r = - 1 then None else Some (word_of_int r), fst s, q) }"

interpretation ring: bounded_fifo ring_push ring_pop "\<lambda>s. ring_at (fst s) (snd s) k" "2 ^ k - 1" for k
proof
  fix s :: "bytes \<times> atom_queue" and xs and a :: u8
  assume r: "ring_at (fst s) (snd s) k xs"
  then have "length xs < 2 ^ k" by (simp add: ring_at_def)
  then have "length xs + 1 = 2 ^ k \<longleftrightarrow> \<not> length xs < 2 ^ k - 1" by linarith
  then show "\<exists>s'. ring_push s a = Some (length xs < 2 ^ k - 1, s') \<and> ring_at (fst s') (snd s') k (if length xs < 2 ^ k - 1 then xs @ [a] else xs)"
    using atom_push_ring [OF r, of a] r by (cases s) (auto simp: ring_push_def split: if_splits)
  show "\<exists>s'. ring_pop s = Some (if xs = [] then None else Some (hd xs), s') \<and> ring_at (fst s') (snd s') k (tl xs)"
    using atom_pop_ring [OF r] r by (cases s) (auto simp: ring_pop_def uint_nonneg_not split: if_splits)
qed

section \<open>Several producers and consumers\<close>

lemma push_mpmc_fills:
  "ring_at m q k xs \<Longrightarrow>
    \<exists>q' ys. push_mpmc_loop m q d = Some (False, m, q') \<and> ring_at m q' k (xs @ ys) \<and> length (xs @ ys) = 2 ^ k - 1 \<and> aq_tail q' = aq_tail q"
proof (induction "2 ^ k - length xs" arbitrary: q xs rule: less_induct)
  case less
  have l: "length xs < 2 ^ k" using less.prems by (simp add: ring_at_def)
  obtain b where b: "aq_buf q = Some b" "mapped m b (2 ^ k)" and h: "unat (aq_head q) < 2 ^ k" using less.prems by (auto simp: ring_at_def)
  show ?case
  proof (cases "length xs + 1 = 2 ^ k")
    case True
    then show ?thesis using less.prems ring_full [OF less.prems]
      by (intro exI [of _ q] exI [of _ "[]"]) (simp add: push_mpmc_loop.simps)
  next
    case False
    let ?q = "q\<lparr>aq_head := (aq_head q + 1) AND aq_mask q\<rparr>"
    obtain x where x: "m (b + unat (aq_head q)) = Some x" using b(2) h by (auto simp: mapped_def)
    have r: "ring_at m ?q k (xs @ [x])" by (rule ring_publish [OF less.prems b(1) x False])
    have "2 ^ k - length (xs @ [x]) < 2 ^ k - length xs" using l by simp
    from less.hyps [OF this r] obtain q' ys where "push_mpmc_loop m ?q d = Some (False, m, q')" "ring_at m q' k ((xs @ [x]) @ ys)"
      "length ((xs @ [x]) @ ys) = 2 ^ k - 1" "aq_tail q' = aq_tail q" by auto
    moreover have "push_mpmc_loop m q d = push_mpmc_loop m ?q d"
      using False ring_full [OF less.prems] by (subst push_mpmc_loop.simps) (simp add: Let_def)
    ultimately show ?thesis by (intro exI [of _ q'] exI [of _ "x # ys"]) simp
  qed
qed

lemma pop_mpmc_drains:
  "ring_at m q k xs \<Longrightarrow> \<exists>q'. pop_mpmc_loop m q = Some (- 1, q') \<and> ring_at m q' k [] \<and> aq_head q' = aq_head q"
proof (induction xs arbitrary: q)
  case Nil
  then show ?case using ring_empty [OF Nil] by (intro exI [of _ q]) (simp add: pop_mpmc_loop.simps)
next
  case (Cons x xs)
  let ?q = "q\<lparr>aq_tail := (aq_tail q + 1) AND aq_mask q\<rparr>"
  have "ring_at m ?q k xs" using ring_drop [OF Cons.prems] by simp
  from Cons.IH [OF this] obtain q' where "pop_mpmc_loop m ?q = Some (- 1, q')" "ring_at m q' k []" "aq_head q' = aq_head q" by auto
  moreover have "pop_mpmc_loop m q = pop_mpmc_loop m ?q"
    using ring_empty [OF Cons.prems] by (subst pop_mpmc_loop.simps) (simp add: Let_def)
  ultimately show ?case by auto
qed

section \<open>Properties\<close>

text \<open>
  C7. From a freshly initialised ring, after any interleaving of the memory accesses of one
  producer and one consumer, the bytes popped are a prefix of the bytes pushed, in order, fewer than the
  size of the buffer are outstanding, and neither side is ever at an access that faults.
\<close>

theorem ring_interleavings:
  assumes "init_atom_queue (Some q0) (Some b) sz = (True, Some q)" "mapped m b (unat sz)"
    and "ring_steps \<lparr>r_mem = m, r_q = q, r_prod = P_idle, r_cons = C_idle, r_in = [], r_out = []\<rparr> s"
  shows "\<exists>xs. r_in s = r_out s @ xs \<and> length xs < unat sz \<and> push_step d s \<noteq> None \<and> pop_step s \<noteq> None"
proof -
  obtain k where k: "unat sz = 2 ^ k" "ring_at m q k []" using init_ring_at [OF assms(1,2)] by blast
  have "ring_inv k s" by (rule ring_steps_inv [OF assms(3)]) (simp add: ring_inv_def k)
  then show ?thesis using push_step_inv [of k s d] pop_step_inv [of k s] k(1)
    by (auto simp: ring_inv_def ring_at_def)
qed

theorem ring_interleavings_witness:
  "\<exists>s. ring_steps \<lparr>r_mem = sample_bytes_at 100 [], r_q = \<lparr>aq_buf = Some 100, aq_mask = 3, aq_head = 0, aq_tail = 0, aq_size = 0\<rparr>,
      r_prod = P_idle, r_cons = C_idle, r_in = [], r_out = []\<rparr> s \<and> push_step 5 s \<noteq> None"
proof -
  let ?q = "\<lparr>aq_buf = Some 100, aq_mask = 3, aq_head = 0, aq_tail = 0, aq_size = 0\<rparr>"
  let ?s = "\<lparr>r_mem = sample_bytes_at 100 [], r_q = ?q, r_prod = P_idle, r_cons = C_idle, r_in = [], r_out = []\<rparr>"
  have "init_atom_queue (Some ?q) (Some 100) 4 = (True, Some ?q)" by (simp add: init_atom_queue_def not_power_of_2_def)
  moreover have "mapped (sample_bytes_at 100 []) 100 (unat (4 :: u64))" by (simp add: sample_bytes_at_def mapped_def)
  moreover have "ring_steps ?s (?s\<lparr>r_prod := P_head 9 0\<rparr>)"
    by (rule r_into_rtranclp, rule ring_step.produce [of 9]) (simp add: push_step_def)
  ultimately show ?thesis using ring_interleavings [of ?q 100 4 ?q "sample_bytes_at 100 []" "?s\<lparr>r_prod := P_head 9 0\<rparr>" 5] by blast
qed

text \<open>
  C25. Any sequence of \<open>atom_push\<close> and \<open>atom_pop\<close> calls on an initialised ring of \<open>sz\<close> bytes answers
  as a list of at most \<open>sz - 1\<close> bytes does: a push fails exactly when the list is full, a pop exactly when it is
  empty, and the bytes come out in order.
\<close>

theorem ring_refines_list:
  assumes "init_atom_queue (Some q0) (Some b) sz = (True, Some q)" "mapped m b (unat sz)"
  shows "\<exists>s. fifo_run ring_push ring_pop (m, q) ops = Some (fst (list_run (unat sz - 1) [] ops), s)"
proof -
  obtain k where k: "unat sz = 2 ^ k" "ring_at m q k []" using init_ring_at [OF assms] by blast
  then show ?thesis using ring.run_list [where s = "(m, q)" and k = k and xs = "[]" and ops = ops] by auto
qed

theorem ring_refines_list_witness:
  "\<exists>s. fifo_run ring_push ring_pop (sample_bytes_at 100 [], \<lparr>aq_buf = Some 100, aq_mask = 1, aq_head = 0, aq_tail = 0, aq_size = 0\<rparr>)
    [Push 5, Push 6, Pop, Pop] = Some ([Pushed True, Pushed False, Popped (Some 5), Popped None], s)"
proof -
  let ?q = "\<lparr>aq_buf = Some 100, aq_mask = 1, aq_head = 0, aq_tail = 0, aq_size = 0\<rparr>"
  have "init_atom_queue (Some ?q) (Some 100) 2 = (True, Some ?q)" by (simp add: init_atom_queue_def not_power_of_2_def)
  moreover have "mapped (sample_bytes_at 100 []) 100 (unat (2 :: u64))" by (simp add: sample_bytes_at_def mapped_def)
  ultimately show ?thesis
    using ring_refines_list [of ?q 100 2 ?q "sample_bytes_at 100 []" "[Push 5, Push 6, Pop, Pop]"] by simp
qed

text \<open>
  Because \<open>cas\<close> always answers false, a push on the queue for several producers never
  stores its byte: it fills the ring with whatever the buffer holds and answers false. A pop never
  delivers: it drops every entry and answers -1.
\<close>

lemma mpmc_never_succeeds:
  assumes "ring_at m q k xs"
  shows "(\<exists>q' ys. atom_push_mpmc m (Some q) d = Some (False, m, Some q') \<and> ring_at m q' k (xs @ ys) \<and> length (xs @ ys) = 2 ^ k - 1) \<and>
    (\<exists>q'. atom_pop_mpmc m (Some q) = Some (- 1, Some q') \<and> ring_at m q' k [])"
  using push_mpmc_fills [OF assms, of d] pop_mpmc_drains [OF assms] by (auto simp: atom_push_mpmc_def atom_pop_mpmc_def)

end
