(* ===== verification/IdAlloc.thy ===== *)
theory IdAlloc
  imports Prelude
begin

text \<open>
  The identifier allocator of \<^verbatim>\<open>kernel/id_alloc.cpp\<close>: a bitmap of 32-bit words with a cursor. A store
  outside the bitmap, and the division by zero of \<open>(id + 1) % max_ids\<close>, have no result.
\<close>

definition BITS_PER_WORD :: nat where "BITS_PER_WORD = 4 * 8"

record id_allocator =
  ia_bitmap :: "u32 list"
  ia_max_ids :: u32
  ia_free_count :: u32
  ia_next_id :: u32

text \<open>
  \<open>BITS_PER_WORD\<close> is a \<open>size_t\<close>, so the size of the bitmap is computed in 64 bits and truncated. The two
  allocations succeed or fail as the arguments say; \<open>calloc\<close> clears the words.
\<close>

definition id_allocator_create :: "u32 \<Rightarrow> bool \<Rightarrow> bool \<Rightarrow> id_allocator option" where
  "id_allocator_create max_ids malloc_ok calloc_ok =
     (if \<not> malloc_ok then None
      else
        let bitmap_size = (unat max_ids + BITS_PER_WORD - 1) div BITS_PER_WORD mod 2 ^ 32 in
        if \<not> calloc_ok then None
        else Some \<lparr>ia_bitmap = replicate bitmap_size 0, ia_max_ids = max_ids, ia_free_count = max_ids, ia_next_id = 0\<rparr>)"

definition word_index :: "u32 \<Rightarrow> nat" where "word_index i = unat i div BITS_PER_WORD"
definition id_mask :: "u32 \<Rightarrow> u32" where "id_mask i = push_bit (unat i mod BITS_PER_WORD) 1"

definition bitmap_word :: "id_allocator \<Rightarrow> u32 \<Rightarrow> u32 option" where
  "bitmap_word a i = (if word_index i < length (ia_bitmap a) then Some (ia_bitmap a ! word_index i) else None)"

definition next_of :: "id_allocator \<Rightarrow> u32 \<Rightarrow> u32 option" where
  "next_of a i = (if ia_max_ids a = 0 then None else Some ((i + 1) mod ia_max_ids a))"

partial_function (option) id_alloc_loop :: "id_allocator \<Rightarrow> u32 \<Rightarrow> u32 \<Rightarrow> (int \<times> id_allocator) option" where
  "id_alloc_loop a start i = do {
     w \<leftarrow> bitmap_word a i;
     if w AND id_mask i = 0 then do {
       let a = a\<lparr>ia_bitmap := (ia_bitmap a)[word_index i := w OR id_mask i]\<rparr>;
       let a = a\<lparr>ia_free_count := ia_free_count a - 1\<rparr>;
       n \<leftarrow> next_of a i;
       Some (sint i, a\<lparr>ia_next_id := n\<rparr>)
     }
     else do {
       i \<leftarrow> next_of a i;
       if i \<noteq> start then id_alloc_loop a start i else Some (- 1, a)
     }
   }"

definition id_alloc :: "id_allocator \<Rightarrow> (int \<times> id_allocator) option" where
  "id_alloc a = (if ia_free_count a = 0 then Some (- 1, a) else id_alloc_loop a (ia_next_id a) (ia_next_id a))"

definition id_free :: "id_allocator \<Rightarrow> u32 \<Rightarrow> (bool \<times> id_allocator) option" where
  "id_free a i =
     (if ia_max_ids a \<le> i then Some (False, a)
      else do {
        w \<leftarrow> bitmap_word a i;
        if w AND id_mask i \<noteq> 0
        then Some (True, a\<lparr>ia_bitmap := (ia_bitmap a)[word_index i := w AND NOT (id_mask i)], ia_free_count := ia_free_count a + 1\<rparr>)
        else Some (False, a)
      })"

section \<open>The allocator as a set of identifiers\<close>

definition used :: "id_allocator \<Rightarrow> nat \<Rightarrow> bool" where
  "used a n \<longleftrightarrow> bit (ia_bitmap a ! (n div 32)) (n mod 32)"

definition used_ids :: "id_allocator \<Rightarrow> nat set" where
  "used_ids a = {n. n < unat (ia_max_ids a) \<and> used a n}"

definition ids_ok :: "id_allocator \<Rightarrow> bool" where
  "ids_ok a \<longleftrightarrow> 0 < unat (ia_max_ids a) \<and> unat (ia_max_ids a) \<le> 32 * length (ia_bitmap a) \<and> unat (ia_next_id a) < unat (ia_max_ids a) \<and>
     unat (ia_free_count a) + card (used_ids a) = unat (ia_max_ids a)"

lemma finite_used_ids [simp]: "finite (used_ids a)"
  by (simp add: used_ids_def)

lemma create_ok:
  assumes "id_allocator_create max_ids True True = Some a" "max_ids \<noteq> 0"
  shows "ids_ok a" "used_ids a = {}"
proof -
  have m: "unat max_ids < 2 ^ 32" using unsigned_less [of max_ids, where ?'a = nat] by simp
  have a: "a = \<lparr>ia_bitmap = replicate ((unat max_ids + 31) div 32) 0, ia_max_ids = max_ids, ia_free_count = max_ids, ia_next_id = 0\<rparr>"
    using assms(1) m by (auto simp: id_allocator_create_def BITS_PER_WORD_def Let_def add.commute)
  have b: "n div 32 < (unat max_ids + 31) div 32" if "n < unat max_ids" for n using that by simp
  then show "used_ids a = {}" using a by (auto simp: used_ids_def used_def)
  then show "ids_ok a" using a assms(2) by (auto simp: ids_ok_def unat_gt_0)
qed

lemma mask_test:
  assumes "word_index i < length (ia_bitmap a)"
  shows "bitmap_word a i = Some (ia_bitmap a ! (unat i div 32))" "ia_bitmap a ! (unat i div 32) AND id_mask i = 0 \<longleftrightarrow> \<not> used a (unat i)"
proof -
  show "bitmap_word a i = Some (ia_bitmap a ! (unat i div 32))" using assms by (simp add: bitmap_word_def word_index_def BITS_PER_WORD_def)
  show "ia_bitmap a ! (unat i div 32) AND id_mask i = 0 \<longleftrightarrow> \<not> used a (unat i)"
    by (auto simp: used_def id_mask_def BITS_PER_WORD_def and_exp_eq_0_iff_not_bit push_bit_of_1)
qed

lemma used_upd:
  assumes "word_index i < length (ia_bitmap a)"
  shows "used (a\<lparr>ia_bitmap := (ia_bitmap a)[word_index i := ia_bitmap a ! (unat i div 32) OR id_mask i]\<rparr>) n \<longleftrightarrow> used a n \<or> n = unat i"
    and "used (a\<lparr>ia_bitmap := (ia_bitmap a)[word_index i := ia_bitmap a ! (unat i div 32) AND NOT (id_mask i)]\<rparr>) n \<longleftrightarrow> used a n \<and> n \<noteq> unat i"
proof -
  have e: "n = unat i \<longleftrightarrow> n div 32 = unat i div 32 \<and> n mod 32 = unat i mod 32" by (metis div_mult_mod_eq)
  have b: "bit (id_mask i) (n mod 32) \<longleftrightarrow> n mod 32 = unat i mod 32"
    by (auto simp: id_mask_def BITS_PER_WORD_def push_bit_of_1 bit_exp_iff)
  have w: "word_index i = unat i div 32" by (simp add: word_index_def BITS_PER_WORD_def)
  show "used (a\<lparr>ia_bitmap := (ia_bitmap a)[word_index i := ia_bitmap a ! (unat i div 32) OR id_mask i]\<rparr>) n \<longleftrightarrow> used a n \<or> n = unat i"
    using assms unfolding e w by (cases "n div 32 = unat i div 32") (simp_all add: used_def bit_or_iff b)
  show "used (a\<lparr>ia_bitmap := (ia_bitmap a)[word_index i := ia_bitmap a ! (unat i div 32) AND NOT (id_mask i)]\<rparr>) n \<longleftrightarrow> used a n \<and> n \<noteq> unat i"
    using assms unfolding e w by (cases "n div 32 = unat i div 32") (auto simp: used_def bit_and_iff bit_not_iff b)
qed

lemma unat_inc_below: "unat i < unat m \<Longrightarrow> unat (i + 1) = unat i + 1" for i m :: u32
  by (rule unat_add_one_word) (use unsigned_less [of m, where ?'a = nat] in \<open>auto simp: unsigned_minus_1_eq_mask mask_eq_exp_minus_1\<close>)

lemma in_bitmap: "ids_ok a \<Longrightarrow> unat i < unat (ia_max_ids a) \<Longrightarrow> word_index i < length (ia_bitmap a)"
  by (simp add: ids_ok_def word_index_def BITS_PER_WORD_def less_mult_imp_div_less mult.commute)

lemma next_of_spec:
  assumes "ids_ok a" "unat i < unat (ia_max_ids a)"
  shows "\<exists>j. next_of a i = Some j \<and> unat j = (unat i + 1) mod unat (ia_max_ids a)"
proof -
  have "unat (i + 1) = unat i + 1"
    using assms(2) by (rule unat_inc_below)
  then show ?thesis using assms by (auto simp: next_of_def ids_ok_def unat_mod)
qed

text \<open>The set and the counter after taking and after giving back an identifier.\<close>

lemma take_id:
  assumes "ids_ok a" "unat i < unat (ia_max_ids a)" "\<not> used a (unat i)" "unat n < unat (ia_max_ids a)"
  defines "a' \<equiv> a\<lparr>ia_bitmap := (ia_bitmap a)[word_index i := ia_bitmap a ! (unat i div 32) OR id_mask i],
    ia_free_count := ia_free_count a - 1, ia_next_id := n\<rparr>"
  shows "used_ids a' = insert (unat i) (used_ids a)" "unat i \<notin> used_ids a" "ids_ok a'"
proof -
  note u = used_upd(1) [OF in_bitmap [OF assms(1,2)]]
  have "used a' x \<longleftrightarrow> used a x \<or> x = unat i" for x using u [of x] by (simp add: a'_def used_def)
  then show s: "used_ids a' = insert (unat i) (used_ids a)" using assms(2) by (auto simp: used_ids_def a'_def)
  show ni: "unat i \<notin> used_ids a" using assms(3) by (simp add: used_ids_def)
  have "card (used_ids a') \<le> unat (ia_max_ids a)"
    using card_mono [of "{..<unat (ia_max_ids a)}" "used_ids a'"] by (auto simp: used_ids_def a'_def)
  then have c: "card (used_ids a') = card (used_ids a) + 1" "card (used_ids a) < unat (ia_max_ids a)" using s ni by simp_all
  then have "ia_free_count a \<noteq> 0" using assms(1) by (auto simp: ids_ok_def)
  then have "unat (ia_free_count a - 1) = unat (ia_free_count a) - 1" "0 < unat (ia_free_count a)" by (simp_all add: unat_minus_one unat_gt_0)
  then show "ids_ok a'" using assms(1,4) c(1) by (simp add: ids_ok_def a'_def)
qed

lemma give_id:
  assumes "ids_ok a" "unat i < unat (ia_max_ids a)" "used a (unat i)"
  defines "a' \<equiv> a\<lparr>ia_bitmap := (ia_bitmap a)[word_index i := ia_bitmap a ! (unat i div 32) AND NOT (id_mask i)], ia_free_count := ia_free_count a + 1\<rparr>"
  shows "used_ids a' = used_ids a - {unat i}" "unat i \<in> used_ids a" "ids_ok a'"
proof -
  note u = used_upd(2) [OF in_bitmap [OF assms(1,2)]]
  have "used a' x \<longleftrightarrow> used a x \<and> x \<noteq> unat i" for x using u [of x] by (simp add: a'_def used_def)
  then show s: "used_ids a' = used_ids a - {unat i}" by (auto simp: used_ids_def a'_def)
  show i: "unat i \<in> used_ids a" using assms(2,3) by (simp add: used_ids_def)
  have c: "card (used_ids a') + 1 = card (used_ids a)" using s i by (metis Suc_eq_plus1 card_Suc_Diff1 finite_used_ids)
  have "unat (ia_free_count a) + 1 \<le> unat (ia_max_ids a)" using assms(1) c by (simp add: ids_ok_def)
  then have "unat (ia_free_count a + 1) = unat (ia_free_count a) + 1" by (intro unat_inc_below [of _ "ia_max_ids a"]) simp
  then show "ids_ok a'" using assms(1) c by (simp add: ids_ok_def a'_def)
qed

text \<open>The search visits the identifiers from the cursor on, around the end, and takes the first unused one.\<close>

lemma id_alloc_loop_spec:
  assumes "ids_ok a" "unat start < unat (ia_max_ids a)" "k < unat (ia_max_ids a)" "unat i = (unat start + k) mod unat (ia_max_ids a)"
    and "\<And>j. j < k \<Longrightarrow> used a ((unat start + j) mod unat (ia_max_ids a))"
  shows "(id_alloc_loop a start i = Some (- 1, a) \<and> (\<forall>j < unat (ia_max_ids a). used a ((unat start + j) mod unat (ia_max_ids a)))) \<or>
    (\<exists>(x :: u32) a'. id_alloc_loop a start i = Some (sint x, a') \<and> unat x < unat (ia_max_ids a) \<and> unat x \<notin> used_ids a \<and>
      used_ids a' = insert (unat x) (used_ids a) \<and> ids_ok a' \<and> ia_max_ids a' = ia_max_ids a)"
  using assms
proof (induction "unat (ia_max_ids a) - k" arbitrary: k i rule: less_induct)
  case less
  let ?M = "unat (ia_max_ids a)"
  have M: "0 < ?M" using less.prems(1) by (simp add: ids_ok_def)
  have i: "unat i < ?M" using less.prems(4) M by simp
  note b = mask_test [OF in_bitmap [OF less.prems(1) i]]
  obtain n where n: "next_of a i = Some n" "unat n = (unat i + 1) mod ?M" using next_of_spec [OF less.prems(1) i] by blast
  have nM: "unat n < ?M" using n(2) M by simp
  have nk: "unat n = (unat start + (k + 1)) mod ?M" using n(2) less.prems(4) by (simp add: mod_Suc_eq)
  show ?case
  proof (cases "used a (unat i)")
    case False
    note t = take_id [OF less.prems(1) i False nM]
    have n': "next_of (a\<lparr>ia_bitmap := w, ia_free_count := f\<rparr>) i = Some n" for w f using n(1) by (simp add: next_of_def split: if_splits)
    let ?a = "a\<lparr>ia_bitmap := (ia_bitmap a)[word_index i := ia_bitmap a ! (unat i div 32) OR id_mask i],
      ia_free_count := ia_free_count a - 1, ia_next_id := n\<rparr>"
    have "id_alloc_loop a start i = Some (sint i, ?a)" using False b n' by (subst id_alloc_loop.simps) (simp add: Let_def)
    then show ?thesis using t i by - (rule disjI2, rule exI [of _ i], rule exI [of _ ?a], simp)
  next
    case True
    have all: "used a ((unat start + j) mod ?M)" if "j < k + 1" for j
      using less.prems(4,5) True that by (cases "j = k") auto
    have step: "id_alloc_loop a start i = (if n \<noteq> start then id_alloc_loop a start n else Some (- 1, a))"
      using True b n(1) by (subst id_alloc_loop.simps) simp
    show ?thesis
    proof (cases "k + 1 = ?M")
      case True
      then have "n = start" using nk less.prems(2) by (simp only: mod_add_self2) (simp add: word_unat_eq_iff)
      then show ?thesis using step all True by simp
    next
      case False
      then have k: "k + 1 < ?M" using less.prems(3) by simp
      have "n \<noteq> start"
      proof
        assume "n = start"
        then show False using nk cyclic_eq [OF less.prems(2) k] by simp
      qed
      then show ?thesis using step less.hyps [OF _ less.prems(1,2) k nk all] k by simp
    qed
  qed
qed

lemma id_alloc_spec:
  assumes "ids_ok a" "unat (ia_max_ids a) \<le> 2 ^ 31"
  shows "if card (used_ids a) = unat (ia_max_ids a) then id_alloc a = Some (- 1, a)
    else \<exists>x a'. id_alloc a = Some (int x, a') \<and> x < unat (ia_max_ids a) \<and> x \<notin> used_ids a \<and>
      used_ids a' = insert x (used_ids a) \<and> ids_ok a' \<and> ia_max_ids a' = ia_max_ids a"
proof -
  let ?M = "unat (ia_max_ids a)"
  have n: "unat (ia_next_id a) < ?M" and c: "unat (ia_free_count a) + card (used_ids a) = ?M" using assms(1) by (simp_all add: ids_ok_def)
  have s: "sint x = int (unat x)" if "unat x < ?M" for x :: u32
    using that assms(2) by (intro sint_u32) simp
  have "used_ids a = {..<?M}" if "\<forall>j < ?M. used a ((unat (ia_next_id a) + j) mod ?M)"
  proof -
    have "used a x" if "x < ?M" for x
    proof -
      let ?j = "if unat (ia_next_id a) \<le> x then x - unat (ia_next_id a) else x + ?M - unat (ia_next_id a)"
      have "?j < ?M" "(unat (ia_next_id a) + ?j) mod ?M = x" using that n by auto
      then show ?thesis using \<open>\<forall>j < ?M. used a ((unat (ia_next_id a) + j) mod ?M)\<close> by metis
    qed
    then show ?thesis by (auto simp: used_ids_def)
  qed
  then have full: "card (used_ids a) = ?M" if "\<forall>j < ?M. used a ((unat (ia_next_id a) + j) mod ?M)" using that by simp
  note l = id_alloc_loop_spec [OF assms(1) n, of 0 "ia_next_id a"]
  show ?thesis
  proof (cases "card (used_ids a) = ?M")
    case True
    then show ?thesis using c by (simp add: id_alloc_def unat_eq_zero)
  next
    case False
    then have "ia_free_count a \<noteq> 0" using c by auto
    then show ?thesis using False l n full s unfolding id_alloc_def by fastforce
  qed
qed

lemma id_free_spec:
  assumes "ids_ok a"
  shows "\<exists>a'. id_free a i = Some (unat i \<in> used_ids a, a') \<and> used_ids a' = used_ids a - {unat i} \<and> ids_ok a' \<and> ia_max_ids a' = ia_max_ids a"
proof (cases "unat i < unat (ia_max_ids a)")
  case True
  note b = mask_test [OF in_bitmap [OF assms True]]
  show ?thesis
  proof (cases "used a (unat i)")
    case u: True
    show ?thesis using True u b give_id [OF assms True u] by (auto simp: id_free_def word_le_nat_alt)
  next
    case False
    then have "unat i \<notin> used_ids a" by (simp add: used_ids_def)
    then show ?thesis using True False b assms by (simp add: id_free_def word_le_nat_alt)
  qed
next
  case False
  then have "unat i \<notin> used_ids a" by (simp add: used_ids_def)
  then show ?thesis using False assms by (simp add: id_free_def word_le_nat_alt)
qed

section \<open>Properties\<close>

text \<open>
  C31. On an allocator in a valid state with at most \<open>2 ^ 31\<close> identifiers, \<open>id_alloc\<close> returns -1 and changes nothing
  exactly when every identifier is in use; otherwise it returns an identifier in range that was not in use and
  is in use from then on. \<open>id_free\<close> answers whether the identifier was in use and releases exactly it. Both
  keep the state valid, the counter of free identifiers exact included.
\<close>

theorem ids_unique:
  assumes "ids_ok a" "unat (ia_max_ids a) \<le> 2 ^ 31"
  shows "(if card (used_ids a) = unat (ia_max_ids a) then id_alloc a = Some (- 1, a)
      else \<exists>x a'. id_alloc a = Some (int x, a') \<and> x < unat (ia_max_ids a) \<and> x \<notin> used_ids a \<and>
        used_ids a' = insert x (used_ids a) \<and> ids_ok a' \<and> ia_max_ids a' = ia_max_ids a) \<and>
    (\<exists>a'. id_free a i = Some (unat i \<in> used_ids a, a') \<and> used_ids a' = used_ids a - {unat i} \<and> ids_ok a' \<and> ia_max_ids a' = ia_max_ids a)"
  using id_alloc_spec [OF assms] id_free_spec [OF assms(1)] by blast

theorem ids_unique_witness:
  "\<exists>a x a'. id_allocator_create 3 True True = Some a \<and> id_alloc a = Some (int x, a') \<and> used_ids a' = {x}"
proof -
  obtain a where a: "id_allocator_create 3 True True = Some a" by (simp add: id_allocator_create_def Let_def)
  then have "ia_max_ids a = 3" by (auto simp: id_allocator_create_def Let_def)
  then show ?thesis using ids_unique [of a 0] create_ok [OF a] a by auto
qed

end
