(* ===== verification/DiskLayout.thy ===== *)
theory DiskLayout
  imports Krlibc
begin

text \<open>
  The installer's partition table planner and serialiser, \<^verbatim>\<open>kernel/installer/disk_layout.cpp\<close>. Byte
  buffers of fixed size are byte lists; the five buffers of a readback are blocks of the byte memory,
  whose addresses the code compares. Sizes and block addresses are 64-bit words with wrap-around.
\<close>

section \<open>Constants and structures\<close>

definition Invalid :: int where "Invalid = - 22"
definition DiskSectorBytes :: nat where "DiskSectorBytes = 512"
definition DiskEntryCount :: nat where "DiskEntryCount = 128"
definition DiskEntryBytes :: nat where "DiskEntryBytes = 128"
definition DiskTableBytes :: nat where "DiskTableBytes = DiskEntryCount * DiskEntryBytes"
definition DiskMiB :: u64 where "DiskMiB = 1048576"
definition SectorsPerMiB :: u64 where "SectorsPerMiB = DiskMiB div 512"
definition TableSectors :: u64 where "TableSectors = of_nat (DiskTableBytes div DiskSectorBytes)"
definition HeaderBytes :: nat where "HeaderBytes = 92"

definition RootType :: "u8 list" where
  "RootType = [0xaf, 0x3d, 0xc6, 0x0f, 0x83, 0x84, 0x72, 0x47, 0x8e, 0x79, 0x3d, 0x69, 0xd8, 0x47, 0x7d, 0xe4]"

definition EspType :: "u8 list" where
  "EspType = [0x28, 0x73, 0x2a, 0xc1, 0x1f, 0xf8, 0xd2, 0x11, 0xba, 0x4b, 0x00, 0xa0, 0xc9, 0x3e, 0xc9, 0x3b]"

definition signature :: "u8 list" where
  "signature = [0x45, 0x46, 0x49, 0x20, 0x50, 0x41, 0x52, 0x54]"

text \<open>The labels \<open>"XJ380"\<close> and \<open>"ESP"\<close>.\<close>

definition root_label :: "u8 list" where "root_label = [0x58, 0x4a, 0x33, 0x38, 0x30]"
definition esp_label :: "u8 list" where "esp_label = [0x45, 0x53, 0x50]"

record DiskIdentities =
  id_disk :: "u8 list"
  id_root :: "u8 list"
  id_esp :: "u8 list"

record DiskLayoutOptions =
  op_disk_bytes :: u64
  op_esp_bytes :: u64
  op_identities :: DiskIdentities

record DiskLayout =
  dl_disk_bytes :: u64
  dl_total_sectors :: u64
  dl_primary_entries_lba :: u64
  dl_backup_entries_lba :: u64
  dl_first_usable_lba :: u64
  dl_last_usable_lba :: u64
  dl_root_first_lba :: u64
  dl_root_last_lba :: u64
  dl_esp_first_lba :: u64
  dl_esp_last_lba :: u64
  dl_identities :: DiskIdentities

record DiskLayoutWorkspace =
  ws_mbr :: "u8 list"
  ws_primary_header :: "u8 list"
  ws_backup_header :: "u8 list"
  ws_entries :: "u8 list"

record DiskLayoutSpan =
  sp_data :: u64
  sp_size :: u64

record DiskLayoutReadback =
  rb_mbr :: DiskLayoutSpan
  rb_primary_header :: DiskLayoutSpan
  rb_primary_entries :: DiskLayoutSpan
  rb_backup_header :: DiskLayoutSpan
  rb_backup_entries :: DiskLayoutSpan

abbreviation sizeof_options :: u64 where "sizeof_options \<equiv> 64"
abbreviation sizeof_layout :: u64 where "sizeof_layout \<equiv> 128"
abbreviation sizeof_workspace :: u64 where "sizeof_workspace \<equiv> 17920"
abbreviation sizeof_readback :: u64 where "sizeof_readback \<equiv> 80"

section \<open>Bytes\<close>

definition get32 :: "u8 list \<Rightarrow> nat \<Rightarrow> u32" where
  "get32 p off = ucast (p ! off) OR push_bit 8 (ucast (p ! (off + 1))) OR push_bit 16 (ucast (p ! (off + 2))) OR push_bit 24 (ucast (p ! (off + 3)))"

definition get64 :: "u8 list \<Rightarrow> nat \<Rightarrow> u64" where
  "get64 p off = ucast (get32 p off) OR push_bit 32 (ucast (get32 p (off + 4)))"

text \<open>The loops \<open>p[i] = uint8_t(value >> (i * 8))\<close> and \<open>target[i] = source[i]\<close>.\<close>

fun store_bytes :: "u8 list \<Rightarrow> nat \<Rightarrow> u8 list \<Rightarrow> u8 list" where
  "store_bytes p off [] = p"
| "store_bytes p off (b # bs) = store_bytes (p[off := b]) (off + 1) bs"

definition le32 :: "u32 \<Rightarrow> u8 list" where
  "le32 v = map (\<lambda>i. ucast (drop_bit (i * 8) v)) [0..<4]"

definition le64 :: "u64 \<Rightarrow> u8 list" where
  "le64 v = map (\<lambda>i. ucast (drop_bit (i * 8) v)) [0..<8]"

definition put32 :: "u8 list \<Rightarrow> nat \<Rightarrow> u32 \<Rightarrow> u8 list" where
  "put32 p off v = store_bytes p off (le32 v)"

definition put64 :: "u8 list \<Rightarrow> nat \<Rightarrow> u64 \<Rightarrow> u8 list" where
  "put64 p off v = store_bytes p off (le64 v)"

definition zero_bytes :: "u8 list \<Rightarrow> nat \<Rightarrow> u8 list" where
  "zero_bytes p n = store_bytes p 0 (replicate n 0)"

definition copy :: "u8 list \<Rightarrow> nat \<Rightarrow> u8 list \<Rightarrow> nat \<Rightarrow> u8 list" where
  "copy target off source n = store_bytes target off (take n source)"

definition equal_bytes :: "u8 list \<Rightarrow> nat \<Rightarrow> u8 list \<Rightarrow> nat \<Rightarrow> bool" where
  "equal_bytes a off b n \<longleftrightarrow> (\<forall>i \<in> {0..<n}. a ! (off + i) = b ! i)"

definition zeros :: "u8 list \<Rightarrow> nat \<Rightarrow> nat \<Rightarrow> bool" where
  "zeros p off n \<longleftrightarrow> (\<forall>i \<in> {0..<n}. p ! (off + i) = 0)"

definition valid_range :: "u64 \<Rightarrow> u64 \<Rightarrow> bool" where
  "valid_range lo n \<longleftrightarrow> lo \<noteq> 0 \<and> n \<le> - 1 - lo"

definition overlaps :: "u64 \<Rightarrow> u64 \<Rightarrow> u64 \<Rightarrow> u64 \<Rightarrow> bool" where
  "overlaps first a_size second b_size = (if first \<le> second then second - first < a_size else first - second < b_size)"

fun crc_bits :: "nat \<Rightarrow> u32 \<Rightarrow> u32" where
  "crc_bits 0 state = state"
| "crc_bits (Suc n) state = crc_bits n (drop_bit 1 state XOR ((0 - (state AND 1)) AND 0xedb88320))"

fun crc_loop :: "u8 list \<Rightarrow> bool \<Rightarrow> nat \<Rightarrow> nat \<Rightarrow> u32 \<Rightarrow> u32" where
  "crc_loop data header i 0 state = state"
| "crc_loop data header i (Suc n) state =
     crc_loop data header (i + 1) n (crc_bits 8 (state XOR (if header \<and> 16 \<le> i \<and> i < 20 then 0 else ucast (data ! i))))"

definition crc32 :: "u8 list \<Rightarrow> nat \<Rightarrow> bool \<Rightarrow> u32" where
  "crc32 data n header = crc_loop data header 0 n 0xffffffff XOR 0xffffffff"

section \<open>Planning\<close>

definition valid_identities :: "DiskIdentities \<Rightarrow> bool" where
  "valid_identities ids \<longleftrightarrow> \<not> zeros (id_disk ids) 0 16 \<and> \<not> zeros (id_root ids) 0 16 \<and> \<not> zeros (id_esp ids) 0 16 \<and>
     \<not> equal_bytes (id_disk ids) 0 (id_root ids) 16 \<and> \<not> equal_bytes (id_disk ids) 0 (id_esp ids) 16 \<and>
     \<not> equal_bytes (id_root ids) 0 (id_esp ids) 16"

definition plan_refused :: "DiskLayoutOptions \<Rightarrow> bool" where
  "plan_refused options \<longleftrightarrow>
     op_disk_bytes options mod DiskMiB \<noteq> 0 \<or> op_esp_bytes options mod DiskMiB \<noteq> 0 \<or>
     op_disk_bytes options < 98 * DiskMiB \<or> op_esp_bytes options < 64 * DiskMiB \<or>
     op_disk_bytes options - 2 * DiskMiB < op_esp_bytes options \<or>
     op_disk_bytes options - 2 * DiskMiB - op_esp_bytes options < 32 * DiskMiB \<or>
     \<not> valid_identities (op_identities options)"

definition plan_layout :: "DiskLayoutOptions \<Rightarrow> DiskLayout" where
  "plan_layout options =
     (let total = op_disk_bytes options div 512;
          esp_first = total - SectorsPerMiB - op_esp_bytes options div 512 in
      \<lparr>dl_disk_bytes = op_disk_bytes options,
       dl_total_sectors = total,
       dl_primary_entries_lba = 2,
       dl_backup_entries_lba = total - 1 - TableSectors,
       dl_first_usable_lba = 2 + TableSectors,
       dl_last_usable_lba = total - 2 - TableSectors,
       dl_root_first_lba = SectorsPerMiB,
       dl_root_last_lba = esp_first - 1,
       dl_esp_first_lba = esp_first,
       dl_esp_last_lba = total - SectorsPerMiB - 1,
       dl_identities = op_identities options\<rparr>)"

definition disk_layout_plan :: "u64 \<Rightarrow> DiskLayoutOptions \<Rightarrow> u64 \<Rightarrow> DiskLayout \<Rightarrow> int \<times> DiskLayout" where
  "disk_layout_plan options_at options layout_at layout =
     (if \<not> valid_range options_at sizeof_options \<or> \<not> valid_range layout_at sizeof_layout \<or>
         overlaps options_at sizeof_options layout_at sizeof_layout then (Invalid, layout)
      else if plan_refused options then (Invalid, layout)
      else (0, plan_layout options))"

text \<open>
  The geometry of a plan is recomputed and compared. The options and the expected plan are two
  local variables of the code, so their addresses pass the first test of \<open>disk_layout_plan\<close>.
\<close>

definition valid_layout :: "DiskLayout \<Rightarrow> bool" where
  "valid_layout layout =
     (if dl_esp_last_lba layout < dl_esp_first_lba layout \<or>
         (- 1) div 512 \<le> dl_esp_last_lba layout - dl_esp_first_lba layout then False
      else
        let options = \<lparr>op_disk_bytes = dl_disk_bytes layout,
                       op_esp_bytes = (dl_esp_last_lba layout - dl_esp_first_lba layout + 1) * 512,
                       op_identities = dl_identities layout\<rparr> in
        if plan_refused options then False
        else
          let expected = plan_layout options in
          dl_total_sectors layout = dl_total_sectors expected \<and>
          dl_primary_entries_lba layout = dl_primary_entries_lba expected \<and>
          dl_backup_entries_lba layout = dl_backup_entries_lba expected \<and>
          dl_first_usable_lba layout = dl_first_usable_lba expected \<and>
          dl_last_usable_lba layout = dl_last_usable_lba expected \<and>
          dl_root_first_lba layout = dl_root_first_lba expected \<and> dl_root_last_lba layout = dl_root_last_lba expected \<and>
          dl_esp_first_lba layout = dl_esp_first_lba expected \<and> dl_esp_last_lba layout = dl_esp_last_lba expected)"

section \<open>Serialising\<close>

definition protective_size :: "DiskLayout \<Rightarrow> u32" where
  "protective_size layout = (if 0xffffffff < dl_total_sectors layout - 1 then 0xffffffff else ucast (dl_total_sectors layout - 1))"

definition make_mbr :: "DiskLayout \<Rightarrow> u8 list \<Rightarrow> u8 list" where
  "make_mbr layout mbr =
     (let mbr = zero_bytes mbr DiskSectorBytes;
          mbr = mbr[448 := 2];
          mbr = mbr[450 := 0xee];
          mbr = mbr[451 := 0xff];
          mbr = mbr[452 := 0xff];
          mbr = mbr[453 := 0xff];
          mbr = put32 mbr 454 1;
          mbr = put32 mbr 458 (protective_size layout);
          mbr = mbr[510 := 0x55] in
      mbr[511 := 0xaa])"

fun store_label :: "u8 list \<Rightarrow> nat \<Rightarrow> u8 list \<Rightarrow> u8 list" where
  "store_label p off [] = p"
| "store_label p off (c # label) = store_label (p[off := c]) (off + 2) label"

definition make_entry :: "u8 list \<Rightarrow> nat \<Rightarrow> u8 list \<Rightarrow> u8 list \<Rightarrow> u64 \<Rightarrow> u64 \<Rightarrow> u8 list \<Rightarrow> u8 list" where
  "make_entry p entry type identity first lst label =
     (let p = copy p entry type 16;
          p = copy p (entry + 16) identity 16;
          p = put64 p (entry + 32) first;
          p = put64 p (entry + 40) lst in
      store_label p (entry + 56) label)"

definition make_header :: "DiskLayout \<Rightarrow> u8 list \<Rightarrow> u32 \<Rightarrow> bool \<Rightarrow> u8 list" where
  "make_header layout header table_crc backup =
     (let h = zero_bytes header DiskSectorBytes;
          h = copy h 0 signature 8;
          h = put32 h 8 0x00010000;
          h = put32 h 12 (of_nat HeaderBytes);
          h = put64 h 24 (if backup then dl_total_sectors layout - 1 else 1);
          h = put64 h 32 (if backup then 1 else dl_total_sectors layout - 1);
          h = put64 h 40 (dl_first_usable_lba layout);
          h = put64 h 48 (dl_last_usable_lba layout);
          h = copy h 56 (id_disk (dl_identities layout)) 16;
          h = put64 h 72 (if backup then dl_backup_entries_lba layout else dl_primary_entries_lba layout);
          h = put32 h 80 (of_nat DiskEntryCount);
          h = put32 h 84 (of_nat DiskEntryBytes);
          h = put32 h 88 table_crc in
      put32 h 16 (crc32 h HeaderBytes True))"

definition disk_layout_build :: "u64 \<Rightarrow> DiskLayout \<Rightarrow> u64 \<Rightarrow> DiskLayoutWorkspace \<Rightarrow> int \<times> DiskLayoutWorkspace" where
  "disk_layout_build layout_at layout workspace_at ws =
     (if \<not> valid_range layout_at sizeof_layout \<or> \<not> valid_range workspace_at sizeof_workspace \<or>
         overlaps layout_at sizeof_layout workspace_at sizeof_workspace \<or> \<not> valid_layout layout then (Invalid, ws)
      else
        let ws = ws\<lparr>ws_mbr := make_mbr layout (ws_mbr ws)\<rparr>;
            ws = ws\<lparr>ws_entries := zero_bytes (ws_entries ws) DiskTableBytes\<rparr>;
            ws = ws\<lparr>ws_entries := make_entry (ws_entries ws) 0 RootType (id_root (dl_identities layout))
                     (dl_root_first_lba layout) (dl_root_last_lba layout) root_label\<rparr>;
            ws = ws\<lparr>ws_entries := make_entry (ws_entries ws) DiskEntryBytes EspType (id_esp (dl_identities layout))
                     (dl_esp_first_lba layout) (dl_esp_last_lba layout) esp_label\<rparr>;
            table_crc = crc32 (ws_entries ws) DiskTableBytes False;
            ws = ws\<lparr>ws_primary_header := make_header layout (ws_primary_header ws) table_crc False\<rparr>;
            ws = ws\<lparr>ws_backup_header := make_header layout (ws_backup_header ws) table_crc True\<rparr> in
        (0, ws))"

section \<open>Checking what was read back\<close>

definition check_mbr :: "DiskLayout \<Rightarrow> u8 list \<Rightarrow> bool" where
  "check_mbr layout mbr \<longleftrightarrow> zeros mbr 0 448 \<and> mbr ! 448 = 2 \<and> mbr ! 449 = 0 \<and> mbr ! 450 = 0xee \<and>
     mbr ! 451 = 0xff \<and> mbr ! 452 = 0xff \<and> mbr ! 453 = 0xff \<and> get32 mbr 454 = 1 \<and>
     get32 mbr 458 = protective_size layout \<and> zeros mbr 462 48 \<and> mbr ! 510 = 0x55 \<and> mbr ! 511 = 0xaa"

definition check_header :: "DiskLayout \<Rightarrow> u8 list \<Rightarrow> u32 \<Rightarrow> bool \<Rightarrow> bool" where
  "check_header layout h table_crc backup \<longleftrightarrow> equal_bytes h 0 signature 8 \<and> get32 h 8 = 0x00010000 \<and>
     get32 h 12 = of_nat HeaderBytes \<and> get32 h 16 = crc32 h HeaderBytes True \<and>
     get32 h 20 = 0 \<and> get64 h 24 = (if backup then dl_total_sectors layout - 1 else 1) \<and>
     get64 h 32 = (if backup then 1 else dl_total_sectors layout - 1) \<and>
     get64 h 40 = dl_first_usable_lba layout \<and> get64 h 48 = dl_last_usable_lba layout \<and>
     equal_bytes h 56 (id_disk (dl_identities layout)) 16 \<and>
     get64 h 72 = (if backup then dl_backup_entries_lba layout else dl_primary_entries_lba layout) \<and>
     get32 h 80 = of_nat DiskEntryCount \<and> get32 h 84 = of_nat DiskEntryBytes \<and>
     get32 h 88 = table_crc \<and> zeros h HeaderBytes (DiskSectorBytes - HeaderBytes)"

fun check_label :: "u8 list \<Rightarrow> nat \<Rightarrow> u8 list \<Rightarrow> bool" where
  "check_label p off [] = True"
| "check_label p off (c # label) \<longleftrightarrow> p ! off = c \<and> p ! (off + 1) = 0 \<and> check_label p (off + 2) label"

definition check_entry :: "u8 list \<Rightarrow> nat \<Rightarrow> u8 list \<Rightarrow> u8 list \<Rightarrow> u64 \<Rightarrow> u64 \<Rightarrow> u8 list \<Rightarrow> bool" where
  "check_entry p entry type identity first lst label =
     (if \<not> equal_bytes p entry type 16 \<or> \<not> equal_bytes p (entry + 16) identity 16 \<or> get64 p (entry + 32) \<noteq> first \<or>
         get64 p (entry + 40) \<noteq> lst \<or> get64 p (entry + 48) \<noteq> 0 then False
      else check_label p (entry + 56) label \<and> zeros p (entry + 56 + length label * 2) (72 - length label * 2))"

fun spans_refused :: "DiskLayoutSpan list \<Rightarrow> (DiskLayoutSpan \<times> nat) list \<Rightarrow> bool" where
  "spans_refused previous [] = False"
| "spans_refused previous ((s, expected) # rest) \<longleftrightarrow>
     sp_size s \<noteq> of_nat expected \<or> \<not> valid_range (sp_data s) (sp_size s) \<or>
     (\<exists>t \<in> set previous. overlaps (sp_data s) (sp_size s) (sp_data t) (sp_size t)) \<or>
     spans_refused (previous @ [s]) rest"

definition spans :: "DiskLayoutReadback \<Rightarrow> (DiskLayoutSpan \<times> nat) list" where
  "spans rb = [(rb_mbr rb, DiskSectorBytes), (rb_primary_header rb, DiskSectorBytes), (rb_primary_entries rb, DiskTableBytes),
     (rb_backup_header rb, DiskSectorBytes), (rb_backup_entries rb, DiskTableBytes)]"

definition check_tables :: "DiskLayout \<Rightarrow> u8 list \<Rightarrow> u8 list \<Rightarrow> u8 list \<Rightarrow> u8 list \<Rightarrow> u8 list \<Rightarrow> int" where
  "check_tables layout mbr primary entries backup backup_entries =
     (if \<not> check_mbr layout mbr \<or> \<not> equal_bytes entries 0 backup_entries DiskTableBytes \<or>
         \<not> check_entry entries 0 RootType (id_root (dl_identities layout)) (dl_root_first_lba layout) (dl_root_last_lba layout) root_label \<or>
         \<not> check_entry entries DiskEntryBytes EspType (id_esp (dl_identities layout)) (dl_esp_first_lba layout) (dl_esp_last_lba layout) esp_label \<or>
         \<not> zeros entries (2 * DiskEntryBytes) (DiskTableBytes - 2 * DiskEntryBytes) then Invalid
      else
        let checksum = crc32 entries DiskTableBytes False in
        if check_header layout primary checksum False \<and> check_header layout backup checksum True then 0 else Invalid)"

text \<open>The buffers must be mapped: a read of an unmapped byte has no result.\<close>

definition span_bytes :: "bytes \<Rightarrow> DiskLayoutSpan \<Rightarrow> u8 list option" where
  "span_bytes m s = peek_bytes m (unat (sp_data s)) (unat (sp_size s))"

definition disk_layout_validate :: "bytes \<Rightarrow> u64 \<Rightarrow> DiskLayout \<Rightarrow> u64 \<Rightarrow> DiskLayoutReadback \<Rightarrow> int option" where
  "disk_layout_validate m layout_at layout readback_at rb =
     (if \<not> valid_range layout_at sizeof_layout \<or> \<not> valid_range readback_at sizeof_readback \<or> \<not> valid_layout layout then Some Invalid
      else if spans_refused [] (spans rb) then Some Invalid
      else do {
        mbr \<leftarrow> span_bytes m (rb_mbr rb);
        primary \<leftarrow> span_bytes m (rb_primary_header rb);
        entries \<leftarrow> span_bytes m (rb_primary_entries rb);
        backup \<leftarrow> span_bytes m (rb_backup_header rb);
        backup_entries \<leftarrow> span_bytes m (rb_backup_entries rb);
        Some (check_tables layout mbr primary entries backup backup_entries)
      })"

section \<open>Segments of a buffer\<close>

definition seg :: "u8 list \<Rightarrow> nat \<Rightarrow> nat \<Rightarrow> u8 list" where
  "seg p off n = take n (drop off p)"

lemma length_store_bytes [simp]: "length (store_bytes p off bs) = length p"
  by (induction bs arbitrary: p off) simp_all

lemma nth_store_bytes:
  "off + length bs \<le> length p \<Longrightarrow> store_bytes p off bs ! i = (if off \<le> i \<and> i < off + length bs then bs ! (i - off) else p ! i)"
proof (induction bs arbitrary: p off)
  case (Cons b bs)
  then show ?case by (auto simp: nth_list_update nth_Cons' Suc_diff_le)
qed auto

lemma length_store_label [simp]: "length (store_label p off bs) = length p"
  by (induction bs arbitrary: p off) simp_all

lemma length_le [simp]: "length (le32 v) = 4" "length (le64 w) = 8"
  by (simp_all add: le32_def le64_def)

lemma seg_eq: "off + n \<le> length p \<Longrightarrow> seg p off n = bs \<longleftrightarrow> length bs = n \<and> (\<forall>i < n. p ! (off + i) = bs ! i)"
  by (auto simp: seg_def list_eq_iff_nth_eq)

lemma length_seg [simp]: "off + n \<le> length p \<Longrightarrow> length (seg p off n) = n"
  by (simp add: seg_def)

lemma seg_same [simp]: "length bs = n \<Longrightarrow> off + n \<le> length p \<Longrightarrow> seg (store_bytes p off bs) off n = bs"
  by (simp add: seg_eq nth_store_bytes)

lemma seg_other [simp]:
  "off + n \<le> length p \<Longrightarrow> w + length bs \<le> length p \<Longrightarrow> w + length bs \<le> off \<or> off + n \<le> w \<Longrightarrow>
    seg (store_bytes p w bs) off n = seg p off n"
  by (auto simp: seg_eq nth_store_bytes) (simp_all add: seg_def)

lemma seg_upd_other [simp]: "i < off \<or> off + n \<le> i \<Longrightarrow> seg (p[i := b]) off n = seg p off n"
  by (auto simp: seg_def drop_update_swap take_update_cancel drop_update_cancel)

lemma seg_zero [simp]: "length p = N \<Longrightarrow> off + n \<le> N \<Longrightarrow> seg (zero_bytes p N) off n = replicate n 0"
  by (simp add: seg_eq zero_bytes_def nth_store_bytes)

lemma nth_zero [simp]: "length p = N \<Longrightarrow> i < N \<Longrightarrow> zero_bytes p N ! i = 0"
  by (simp add: zero_bytes_def nth_store_bytes)

lemma nth_store_other [simp]: "off + length bs \<le> length p \<Longrightarrow> i < off \<or> off + length bs \<le> i \<Longrightarrow> store_bytes p off bs ! i = p ! i"
  by (auto simp: nth_store_bytes)

lemma length_zero_bytes [simp]: "length (zero_bytes p n) = length p"
  by (simp add: zero_bytes_def)

text \<open>The reading functions as statements on segments.\<close>

lemma zeros_seg: "off + n \<le> length p \<Longrightarrow> zeros p off n \<longleftrightarrow> seg p off n = replicate n 0"
  by (auto simp: seg_eq zeros_def)

lemma equal_seg: "off + n \<le> length p \<Longrightarrow> length bs = n \<Longrightarrow> equal_bytes p off bs n \<longleftrightarrow> seg p off n = bs"
  by (auto simp: seg_eq equal_bytes_def)

lemma word32_bytes:
  fixes a b c d :: u8
  shows "(ucast a OR push_bit 8 (ucast b) OR push_bit 16 (ucast c) OR push_bit 24 (ucast d) = (v :: u32)) \<longleftrightarrow> [a, b, c, d] = le32 v"
proof -
  have l: "le32 v = [ucast v, ucast (drop_bit 8 v), ucast (drop_bit 16 v), ucast (drop_bit 24 v)]"
    by (simp add: le32_def upt_rec)
  show ?thesis
  proof
    assume "ucast a OR push_bit 8 (ucast b) OR push_bit 16 (ucast c) OR push_bit 24 (ucast d) = v"
    then have v: "v = ucast a OR push_bit 8 (ucast b) OR push_bit 16 (ucast c) OR push_bit 24 (ucast d)" by simp
    have o: "\<not> bit a (8 + n)" "\<not> bit a (16 + n)" "\<not> bit a (24 + n)" "\<not> bit b (8 + n)" "\<not> bit b (16 + n)" "\<not> bit c (8 + n)" for n
      by (auto dest: bit_imp_le_length)
    have "a = ucast v" unfolding v by (rule bit_word_eqI) (auto simp: bit_simps)
    moreover have "b = ucast (drop_bit 8 v)" unfolding v by (rule bit_word_eqI) (auto simp: bit_simps o)
    moreover have "c = ucast (drop_bit 16 v)" unfolding v by (rule bit_word_eqI) (auto simp: bit_simps o)
    moreover have "d = ucast (drop_bit 24 v)" unfolding v by (rule bit_word_eqI) (auto simp: bit_simps o)
    ultimately show "[a, b, c, d] = le32 v" unfolding l by simp
  next
    assume "[a, b, c, d] = le32 v"
    then have e: "a = ucast v" "b = ucast (drop_bit 8 v)" "c = ucast (drop_bit 16 v)" "d = ucast (drop_bit 24 v)" unfolding l by simp_all
    show "ucast a OR push_bit 8 (ucast b) OR push_bit 16 (ucast c) OR push_bit 24 (ucast d) = v"
      unfolding e
    proof (rule bit_word_eqI)
      fix n
      assume "n < LENGTH(32)"
      then consider "n < 8" | "8 \<le> n" "n < 16" | "16 \<le> n" "n < 24" | "24 \<le> n" "n < 32" by fastforce
      then show "bit (ucast (ucast v :: u8) OR push_bit 8 (ucast (ucast (drop_bit 8 v) :: u8)) OR
          push_bit 16 (ucast (ucast (drop_bit 16 v) :: u8)) OR push_bit 24 (ucast (ucast (drop_bit 24 v) :: u8)) :: u32) n = bit v n"
        by cases (auto simp: bit_simps)
    qed
  qed
qed

lemma seg_4: "off + 4 \<le> length p \<Longrightarrow> seg p off 4 = [p ! off, p ! (off + 1), p ! (off + 2), p ! (off + 3)]"
  by (auto simp: seg_eq numeral_eq_Suc less_Suc_eq)

lemma get32_seg: "off + 4 \<le> length p \<Longrightarrow> get32 p off = v \<longleftrightarrow> seg p off 4 = le32 v"
  unfolding get32_def word32_bytes by (simp add: seg_4)

lemma get64_seg:
  assumes "off + 8 \<le> length p"
  shows "get64 p off = v \<longleftrightarrow> seg p off 8 = le64 v"
proof -
  have a: "get64 p off = v \<longleftrightarrow> get32 p off = ucast v \<and> get32 p (off + 4) = ucast (drop_bit 32 v)"
  proof
    assume "get64 p off = v"
    then have v: "v = ucast (get32 p off) OR push_bit 32 (ucast (get32 p (off + 4)))" by (simp add: get64_def)
    have "\<not> bit (get32 p off) (32 + n)" for n by (auto dest: bit_imp_le_length)
    then show "get32 p off = ucast v \<and> get32 p (off + 4) = ucast (drop_bit 32 v)"
      unfolding v by (intro conjI; intro bit_word_eqI) (auto simp: bit_simps)
  next
    assume "get32 p off = ucast v \<and> get32 p (off + 4) = ucast (drop_bit 32 v)"
    then show "get64 p off = v" unfolding get64_def by (auto intro!: bit_word_eqI simp: bit_simps)
  qed
  have s: "seg p off 8 = seg p off 4 @ seg p (off + 4) 4" using take_add [of 4 4 "drop off p"] by (simp add: seg_def add.commute)
  have "le64 v = le32 (ucast v) @ le32 (ucast (drop_bit 32 v))"
    by (simp add: le64_def le32_def upt_rec) (auto intro!: bit_word_eqI simp: bit_simps)
  then show ?thesis using assms unfolding a s by (simp add: get32_seg)
qed

lemma nth_seg: "i < length p \<Longrightarrow> p ! i = b \<longleftrightarrow> seg p i 1 = [b]"
  by (simp add: seg_eq)

lemma seg_upd_same [simp]: "i < length p \<Longrightarrow> seg (p[i := b]) i 1 = [b]"
  by (simp add: seg_eq)

fun segs :: "u8 list \<Rightarrow> nat \<Rightarrow> nat list \<Rightarrow> u8 list list" where
  "segs p off [] = []"
| "segs p off (n # ns) = seg p off n # segs p (off + n) ns"

lemma concat_segs: "drop off p = concat (segs p off ns) @ drop (off + sum_list ns) p"
proof (induction ns arbitrary: off)
  case (Cons n ns)
  have "drop off p = seg p off n @ drop (off + n) p" by (simp add: seg_def add.commute flip: drop_drop)
  then show ?case using Cons [of "off + n"] by (simp add: add.assoc)
qed simp

lemma segs_concat: "segs (concat xss) 0 (map length xss) = xss"
proof -
  have "segs (ys @ concat xss) (length ys) (map length xss) = xss" for ys
    by (induction xss arbitrary: ys) (simp, simp add: seg_def, metis append.assoc length_append)
  from this [of "[]"] show ?thesis by simp
qed

lemma buffer_eq_iff: "length p = sum_list (map length xss) \<Longrightarrow> p = concat xss \<longleftrightarrow> segs p 0 (map length xss) = xss"
  using concat_segs [of 0 p "map length xss"] segs_concat [of xss] by auto

section \<open>Each structure has one serialisation\<close>

definition mbr_image :: "DiskLayout \<Rightarrow> u8 list list" where
  "mbr_image layout = [replicate 448 0, [2], [0], [0xee], [0xff], [0xff], [0xff], le32 1, le32 (protective_size layout), replicate 48 0, [0x55], [0xaa]]"

definition header_image :: "DiskLayout \<Rightarrow> u32 \<Rightarrow> bool \<Rightarrow> u32 \<Rightarrow> u8 list list" where
  "header_image layout table_crc backup crc =
     [signature, le32 0x00010000, le32 92, le32 crc, le32 0,
      le64 (if backup then dl_total_sectors layout - 1 else 1), le64 (if backup then 1 else dl_total_sectors layout - 1),
      le64 (dl_first_usable_lba layout), le64 (dl_last_usable_lba layout), id_disk (dl_identities layout),
      le64 (if backup then dl_backup_entries_lba layout else dl_primary_entries_lba layout),
      le32 128, le32 128, le32 table_crc, replicate 420 0]"

definition table_image :: "DiskLayout \<Rightarrow> u8 list list" where
  "table_image layout =
     [RootType, id_root (dl_identities layout), le64 (dl_root_first_lba layout), le64 (dl_root_last_lba layout), le64 0,
      [0x58], [0], [0x4a], [0], [0x33], [0], [0x38], [0], [0x30], [0], replicate 62 0,
      EspType, id_esp (dl_identities layout), le64 (dl_esp_first_lba layout), le64 (dl_esp_last_lba layout), le64 0,
      [0x45], [0], [0x53], [0], [0x50], [0], replicate 66 0, replicate 16128 0]"

definition identities_sized :: "DiskIdentities \<Rightarrow> bool" where
  "identities_sized ids \<longleftrightarrow> length (id_disk ids) = 16 \<and> length (id_root ids) = 16 \<and> length (id_esp ids) = 16"

lemma le_zero [simp]: "le32 0 = replicate 4 0" "le64 0 = replicate 8 0"
  by (simp_all add: le32_def le64_def upt_rec numeral_eq_Suc)

lemmas read_seg = zeros_seg equal_seg get32_seg get64_seg nth_seg
lemmas disk_sizes = DiskSectorBytes_def DiskEntryCount_def DiskEntryBytes_def DiskTableBytes_def HeaderBytes_def

lemma length_types [simp]: "length RootType = 16" "length EspType = 16" "length signature = 8"
  by (simp_all add: RootType_def EspType_def signature_def)

lemma check_mbr_iff:
  assumes "length p = 512"
  shows "check_mbr layout p \<longleftrightarrow> p = concat (mbr_image layout)"
proof -
  have "length p = sum_list (map length (mbr_image layout))" using assms by (simp add: mbr_image_def)
  then have "p = concat (mbr_image layout) \<longleftrightarrow> segs p 0 (map length (mbr_image layout)) = mbr_image layout" by (rule buffer_eq_iff)
  also have "\<dots> \<longleftrightarrow> check_mbr layout p" using assms by (simp add: mbr_image_def check_mbr_def read_seg)
  finally show ?thesis by simp
qed

lemma make_mbr_image:
  assumes "length p = 512"
  shows "make_mbr layout p = concat (mbr_image layout)"
proof -
  have l: "length (make_mbr layout p) = 512" using assms by (simp add: make_mbr_def put32_def Let_def)
  have "check_mbr layout (make_mbr layout p)"
    using assms by (simp add: check_mbr_def make_mbr_def put32_def Let_def read_seg disk_sizes)
  then show ?thesis using check_mbr_iff [OF l] by blast
qed

lemma crc_loop_cong:
  "(\<And>j. i \<le> j \<Longrightarrow> j < i + n \<Longrightarrow> \<not> (16 \<le> j \<and> j < 20) \<Longrightarrow> p ! j = q ! j) \<Longrightarrow> crc_loop p True i n st = crc_loop q True i n st"
  by (induction n arbitrary: i st) auto

lemma crc_field:
  assumes "length p = 512"
  shows "crc32 (store_bytes p 16 (le32 c)) 92 True = crc32 p 92 True"
  unfolding crc32_def using assms by (intro arg_cong2 [where f = "(XOR)"] crc_loop_cong) auto

lemma header_image_update:
  assumes "identities_sized (dl_identities layout)"
  shows "store_bytes (concat (header_image layout tc backup c)) 16 (le32 c') = concat (header_image layout tc backup c')"
proof -
  have l: "length (id_disk (dl_identities layout)) = 16" using assms by (simp add: identities_sized_def)
  let ?p = "concat (header_image layout tc backup c)"
  have lp: "length ?p = 512" using l by (simp add: header_image_def)
  have s: "segs ?p 0 (map length (header_image layout tc backup c)) = header_image layout tc backup c" by (rule segs_concat)
  have "segs (store_bytes ?p 16 (le32 c')) 0 (map length (header_image layout tc backup c')) = header_image layout tc backup c'"
    using s lp l by (simp add: header_image_def del: concat.simps)
  then show ?thesis using buffer_eq_iff [of "store_bytes ?p 16 (le32 c')" "header_image layout tc backup c'"] lp l
    by (simp add: header_image_def)
qed

definition header_crc :: "DiskLayout \<Rightarrow> u32 \<Rightarrow> bool \<Rightarrow> u32" where
  "header_crc layout tc backup = crc32 (concat (header_image layout tc backup 0)) 92 True"

lemma check_header_image:
  assumes "length p = 512" "identities_sized (dl_identities layout)"
  shows "check_header layout p tc backup \<longleftrightarrow> p = concat (header_image layout tc backup (crc32 p 92 True))"
proof -
  have l: "length (id_disk (dl_identities layout)) = 16" using assms(2) by (simp add: identities_sized_def)
  let ?i = "header_image layout tc backup (crc32 p 92 True)"
  have "length p = sum_list (map length ?i)" using assms(1) l by (simp add: header_image_def)
  then have "p = concat ?i \<longleftrightarrow> segs p 0 (map length ?i) = ?i" by (rule buffer_eq_iff)
  also have "\<dots> \<longleftrightarrow> check_header layout p tc backup" using assms(1) l by (simp add: header_image_def check_header_def read_seg disk_sizes)
  finally show ?thesis by simp
qed

lemma check_header_iff:
  assumes "length p = 512" "identities_sized (dl_identities layout)"
  shows "check_header layout p tc backup \<longleftrightarrow> p = concat (header_image layout tc backup (header_crc layout tc backup))"
proof -
  have lp: "length (concat (header_image layout tc backup c)) = 512" for c
    using assms(2) by (simp add: header_image_def identities_sized_def)
  have "crc32 (concat (header_image layout tc backup c)) 92 True = header_crc layout tc backup" for c
    using crc_field [OF lp, of 0 c] header_image_update [OF assms(2), of tc backup 0 c] by (simp add: header_crc_def)
  then show ?thesis using check_header_image [OF assms] by metis
qed

lemma make_header_image:
  assumes "length p = 512" "identities_sized (dl_identities layout)"
  shows "make_header layout p tc backup = concat (header_image layout tc backup (header_crc layout tc backup))"
proof -
  have i: "length (id_disk (dl_identities layout)) = 16" using assms(2) by (simp add: identities_sized_def)
  have l: "length (make_header layout p tc backup) = 512" using assms(1) by (simp add: make_header_def put32_def put64_def copy_def Let_def)
  have "check_header layout (make_header layout p tc backup) tc backup"
    using assms(1) i by (simp add: check_header_def make_header_def put32_def put64_def copy_def Let_def read_seg disk_sizes crc_field)
  then show ?thesis using check_header_iff [OF l assms(2)] by blast
qed

definition check_table :: "DiskLayout \<Rightarrow> u8 list \<Rightarrow> bool" where
  "check_table layout entries \<longleftrightarrow>
     check_entry entries 0 RootType (id_root (dl_identities layout)) (dl_root_first_lba layout) (dl_root_last_lba layout) root_label \<and>
     check_entry entries DiskEntryBytes EspType (id_esp (dl_identities layout)) (dl_esp_first_lba layout) (dl_esp_last_lba layout) esp_label \<and>
     zeros entries (2 * DiskEntryBytes) (DiskTableBytes - 2 * DiskEntryBytes)"

lemma check_table_iff:
  assumes "length p = 16384" "identities_sized (dl_identities layout)"
  shows "check_table layout p \<longleftrightarrow> p = concat (table_image layout)"
proof -
  have l: "length (id_root (dl_identities layout)) = 16" "length (id_esp (dl_identities layout)) = 16" using assms(2) by (simp_all add: identities_sized_def)
  let ?i = "table_image layout"
  have "length p = sum_list (map length ?i)" using assms(1) l by (simp add: table_image_def)
  then have "p = concat ?i \<longleftrightarrow> segs p 0 (map length ?i) = ?i" by (rule buffer_eq_iff)
  also have "\<dots> \<longleftrightarrow> check_table layout p"
    using assms(1) l by (simp add: table_image_def check_table_def check_entry_def root_label_def esp_label_def read_seg disk_sizes) blast
  finally show ?thesis by simp
qed

definition make_table :: "DiskLayout \<Rightarrow> u8 list \<Rightarrow> u8 list" where
  "make_table layout p =
     make_entry (make_entry (zero_bytes p DiskTableBytes) 0 RootType (id_root (dl_identities layout))
       (dl_root_first_lba layout) (dl_root_last_lba layout) root_label) DiskEntryBytes EspType (id_esp (dl_identities layout))
       (dl_esp_first_lba layout) (dl_esp_last_lba layout) esp_label"

lemma make_table_image:
  assumes "length p = 16384" "identities_sized (dl_identities layout)"
  shows "make_table layout p = concat (table_image layout)"
proof -
  have i: "length (id_root (dl_identities layout)) = 16" "length (id_esp (dl_identities layout)) = 16" using assms(2) by (simp_all add: identities_sized_def)
  have l: "length (make_table layout p) = 16384" using assms(1) by (simp add: make_table_def make_entry_def put64_def copy_def Let_def)
  have "check_table layout (make_table layout p)"
    using assms(1) i by (simp add: check_table_def make_table_def check_entry_def make_entry_def put64_def copy_def Let_def root_label_def esp_label_def read_seg disk_sizes)
  then show ?thesis using check_table_iff [OF l assms(2)] by blast
qed

section \<open>The geometry of a plan\<close>

lemma of_nat_div64: "a < 2 ^ 64 \<Longrightarrow> b < 2 ^ 64 \<Longrightarrow> (of_nat a :: u64) div of_nat b = of_nat (a div b)"
  by (simp only: word_unat_eq_iff unat_div unat_of_nat)
     (simp add: take_bit_nat_eq_self unsigned_of_nat, metis div_le_dividend le_less_trans mod_less)

lemma unat_of_nat64: "a < 2 ^ 64 \<Longrightarrow> unat (of_nat a :: u64) = a"
  by (simp add: unsigned_of_nat take_bit_nat_eq_self)

text \<open>An accepted plan in units of a MiB: \<open>d\<close> for the disk and \<open>e\<close> for the ESP.\<close>

lemma plan_units:
  assumes "\<not> plan_refused options"
  obtains d e where "op_disk_bytes options = of_nat (1048576 * d)" "op_esp_bytes options = of_nat (1048576 * e)"
    "1048576 * d < 2 ^ 64" "98 \<le> d" "64 \<le> e" "e + 34 \<le> d" "valid_identities (op_identities options)"
proof -
  let ?D = "unat (op_disk_bytes options)" and ?E = "unat (op_esp_bytes options)"
  note r = assms [unfolded plan_refused_def de_Morgan_disj not_not DiskMiB_def not_less]
  have "?D mod 1048576 = 0" "?E mod 1048576 = 0" using r by (auto simp: word_unat_eq_iff unat_mod)
  then obtain d e where de: "?D = 1048576 * d" "?E = 1048576 * e" by (auto simp: mod_eq_0_iff_dvd elim!: dvdE)
  have o: "98 * 1048576 \<le> ?D" "64 * 1048576 \<le> ?E" using r by (auto simp: word_le_nat_alt)
  have m: "unat (op_disk_bytes options - 2 * 1048576) = ?D - 2 * 1048576" using o(1) by (subst unat_sub) (auto simp: word_le_nat_alt)
  then have s: "?E \<le> ?D - 2 * 1048576" using r by (auto simp: word_le_nat_alt)
  have "unat (op_disk_bytes options - 2 * 1048576 - op_esp_bytes options) = ?D - 2 * 1048576 - ?E"
    using s m by (subst unat_sub) (auto simp: word_le_nat_alt)
  then have t: "32 * 1048576 \<le> ?D - 2 * 1048576 - ?E" using r by (auto simp: word_le_nat_alt)
  have "op_disk_bytes options = of_nat ?D" "op_esp_bytes options = of_nat ?E" by simp_all
  moreover have "98 \<le> d" "64 \<le> e" "e + 34 \<le> d" using o s t de by linarith+
  moreover have "?D < 2 ^ 64" by (rule unat_less_64)
  ultimately show ?thesis using that [of d e] de r by metis
qed

lemma plan_layout_units:
  assumes "op_disk_bytes options = of_nat (1048576 * d)" "op_esp_bytes options = of_nat (1048576 * e)" "1048576 * d < 2 ^ 64" "98 \<le> d" "64 \<le> e" "e + 34 \<le> d"
  shows "plan_layout options =
    \<lparr>dl_disk_bytes = of_nat (1048576 * d), dl_total_sectors = of_nat (2048 * d), dl_primary_entries_lba = 2,
     dl_backup_entries_lba = of_nat (2048 * d - 33), dl_first_usable_lba = 34, dl_last_usable_lba = of_nat (2048 * d - 34),
     dl_root_first_lba = 2048, dl_root_last_lba = of_nat (2048 * (d - 1 - e) - 1), dl_esp_first_lba = of_nat (2048 * (d - 1 - e)),
     dl_esp_last_lba = of_nat (2048 * (d - 1) - 1), dl_identities = op_identities options\<rparr>"
proof -
  have t: "op_disk_bytes options div 512 = of_nat (2048 * d)" using of_nat_div64 [of "1048576 * d" 512] assms(1,3) by simp
  have "1048576 * e < 2 ^ 64" using assms(3,6) by linarith
  then have e: "op_esp_bytes options div 512 = of_nat (2048 * e)" using of_nat_div64 [of "1048576 * e" 512] assms(2) by simp
  have diff: "b \<le> a \<Longrightarrow> of_nat a - of_nat b = (of_nat (a - b) :: u64)" for a b by (simp add: of_nat_diff)
  have "of_nat (2048 * d) - 2048 = (of_nat (2048 * (d - 1)) :: u64)" using diff [of 2048 "2048 * d"] assms(4) by (simp add: diff_mult_distrib2)
  moreover have "of_nat (2048 * (d - 1)) - of_nat (2048 * e) = (of_nat (2048 * (d - 1 - e)) :: u64)"
    using diff [of "2048 * e" "2048 * (d - 1)"] assms(6) by (simp add: diff_mult_distrib2)
  moreover have "of_nat (2048 * d) - of_nat (2048 * e) - 2049 = (of_nat (2048 * (d - 1 - e) - 1) :: u64)"
    using diff [of "2048 * e" "2048 * d"] diff [of 2049 "2048 * d - 2048 * e"] assms(6) by (simp add: diff_mult_distrib2 del: of_nat_mult)
  moreover have "of_nat (2048 * d) - 2049 = (of_nat (2048 * (d - 1) - 1) :: u64)"
    using diff [of 2049 "2048 * d"] assms(4) by (simp add: diff_mult_distrib2 del: of_nat_mult)
  moreover have "of_nat (2048 * d) - 1 - 32 = (of_nat (2048 * d - 33) :: u64)" using diff [of 33 "2048 * d"] assms(4) by simp
  moreover have "of_nat (2048 * d) - 2 - 32 = (of_nat (2048 * d - 34) :: u64)" using diff [of 34 "2048 * d"] assms(4) by simp
  ultimately show ?thesis
    using assms(1) t e by (simp add: plan_layout_def Let_def SectorsPerMiB_def TableSectors_def DiskMiB_def disk_sizes del: of_nat_mult)
qed

lemma plan_is_valid:
  assumes "\<not> plan_refused options"
  shows "valid_layout (plan_layout options)"
proof -
  obtain d e where u: "op_disk_bytes options = of_nat (1048576 * d)" "op_esp_bytes options = of_nat (1048576 * e)"
    "1048576 * d < 2 ^ 64" "98 \<le> d" "64 \<le> e" "e + 34 \<le> d" using plan_units [OF assms] by metis
  note p = plan_layout_units [OF u]
  let ?f = "of_nat (2048 * (d - 1 - e)) :: u64" and ?l = "of_nat (2048 * (d - 1) - 1) :: u64"
  have n: "unat ?f = 2048 * (d - 1 - e)" "unat ?l = 2048 * (d - 1) - 1"
    using u(3) by (intro unat_of_nat64; linarith)+
  have le: "?f \<le> ?l" using n u(4,5,6) by (simp only: word_le_nat_alt) linarith
  have sub: "?l - ?f = of_nat (2048 * e - 1)" using of_nat_diff [of "2048 * (d - 1 - e)" "2048 * (d - 1) - 1", where ?'a = u64] u(4,5,6)
    by (simp add: diff_mult_distrib2 del: of_nat_mult)
  have "unat (of_nat (2048 * e - 1) :: u64) = 2048 * e - 1" using u(3,6) by (intro unat_of_nat64) linarith
  moreover have lt: "1048576 * d < 18446744073709551616" using u(3) by simp
  moreover have "unat ((- 1 :: u64) div 512) = 36028797018963967" by (simp add: unat_div unsigned_minus_1_eq_mask mask_eq_exp_minus_1)
  ultimately have small: "\<not> (- 1 :: u64) div 512 \<le> ?l - ?f" unfolding sub using u(6) lt by (simp only: word_le_nat_alt)
  have "(of_nat (2048 * e - 1) + 1 :: u64) = of_nat (2048 * e)" using u(5) by (simp add: of_nat_diff)
  then have b: "(?l - ?f + 1) * 512 = op_esp_bytes options" unfolding sub u(2) by simp
  have o: "options = \<lparr>op_disk_bytes = of_nat (1048576 * d), op_esp_bytes = (?l - ?f + 1) * 512, op_identities = op_identities options\<rparr>"
    using u(1) b by simp
  show ?thesis unfolding valid_layout_def using le small assms p o [symmetric] by (simp add: not_less [symmetric] del: of_nat_mult)
qed

section \<open>Properties\<close>

definition workspace_sized :: "DiskLayoutWorkspace \<Rightarrow> bool" where
  "workspace_sized ws \<longleftrightarrow> length (ws_mbr ws) = 512 \<and> length (ws_primary_header ws) = 512 \<and> length (ws_backup_header ws) = 512 \<and>
     length (ws_entries ws) = 16384"

lemma peek_bytes_length: "peek_bytes m a n = Some bs \<Longrightarrow> length bs = n"
  by (induction n arbitrary: a bs) (auto simp: bind_eq_Some_conv)

lemma check_tables_iff:
  assumes "identities_sized (dl_identities layout)" "length b0 = 512" "length b1 = 512" "length b2 = 16384" "length b3 = 512" "length b4 = 16384"
  shows "check_tables layout b0 b1 b2 b3 b4 = 0 \<longleftrightarrow>
    b0 = concat (mbr_image layout) \<and> b2 = concat (table_image layout) \<and> b4 = concat (table_image layout) \<and>
    b1 = concat (header_image layout (crc32 b2 16384 False) False (header_crc layout (crc32 b2 16384 False) False)) \<and>
    b3 = concat (header_image layout (crc32 b2 16384 False) True (header_crc layout (crc32 b2 16384 False) True))"
    "check_tables layout b0 b1 b2 b3 b4 = 0 \<or> check_tables layout b0 b1 b2 b3 b4 = Invalid"
proof -
  have "equal_bytes b2 0 b4 16384 \<longleftrightarrow> b2 = b4" using assms by (simp add: equal_seg) (simp add: seg_def)
  moreover have "check_tables layout b0 b1 b2 b3 b4 = 0 \<longleftrightarrow> check_mbr layout b0 \<and> equal_bytes b2 0 b4 16384 \<and> check_table layout b2 \<and>
     check_header layout b1 (crc32 b2 16384 False) False \<and> check_header layout b3 (crc32 b2 16384 False) True"
    by (auto simp: check_tables_def check_table_def Let_def Invalid_def disk_sizes)
  ultimately show "check_tables layout b0 b1 b2 b3 b4 = 0 \<longleftrightarrow>
    b0 = concat (mbr_image layout) \<and> b2 = concat (table_image layout) \<and> b4 = concat (table_image layout) \<and>
    b1 = concat (header_image layout (crc32 b2 16384 False) False (header_crc layout (crc32 b2 16384 False) False)) \<and>
    b3 = concat (header_image layout (crc32 b2 16384 False) True (header_crc layout (crc32 b2 16384 False) True))"
    using assms by (auto simp: check_mbr_iff check_table_iff check_header_iff)
  show "check_tables layout b0 b1 b2 b3 b4 = 0 \<or> check_tables layout b0 b1 b2 b3 b4 = Invalid"
    by (simp add: check_tables_def Let_def)
qed

lemma build_images:
  assumes "disk_layout_build layout_at layout workspace_at ws0 = (0, ws)" "workspace_sized ws0" "identities_sized (dl_identities layout)"
  defines "tc \<equiv> crc32 (concat (table_image layout)) 16384 False"
  shows "ws_mbr ws = concat (mbr_image layout)" "ws_entries ws = concat (table_image layout)"
    "ws_primary_header ws = concat (header_image layout tc False (header_crc layout tc False))"
    "ws_backup_header ws = concat (header_image layout tc True (header_crc layout tc True))" "valid_layout layout"
proof -
  have "valid_layout layout" "ws_mbr ws = make_mbr layout (ws_mbr ws0)" "ws_entries ws = make_table layout (ws_entries ws0)"
    "ws_primary_header ws = make_header layout (ws_primary_header ws0) (crc32 (make_table layout (ws_entries ws0)) 16384 False) False"
    "ws_backup_header ws = make_header layout (ws_backup_header ws0) (crc32 (make_table layout (ws_entries ws0)) 16384 False) True"
    using assms(1) by (auto simp: disk_layout_build_def make_table_def Let_def Invalid_def disk_sizes split: if_splits)
  then show "ws_mbr ws = concat (mbr_image layout)" "ws_entries ws = concat (table_image layout)"
    "ws_primary_header ws = concat (header_image layout tc False (header_crc layout tc False))"
    "ws_backup_header ws = concat (header_image layout tc True (header_crc layout tc True))" "valid_layout layout"
    using assms(2,3) by (simp_all add: workspace_sized_def make_mbr_image make_table_image make_header_image tc_def)
qed

text \<open>
  C8. For a plan that \<open>disk_layout_plan\<close> accepted, the buffers \<open>disk_layout_build\<close> writes are the only
  ones \<open>disk_layout_validate\<close> accepts: reading back five readable, disjoint buffers gives 0 exactly when each is
  byte for byte the one that was built, the checksums included, and \<open>-EINVAL\<close> otherwise.
\<close>

theorem disk_table_roundtrip:
  assumes "disk_layout_plan options_at options layout_at l0 = (0, layout)" "identities_sized (op_identities options)"
    and "disk_layout_build layout_at layout workspace_at ws0 = (0, ws)" "workspace_sized ws0"
    and "valid_range readback_at sizeof_readback" "\<not> spans_refused [] (spans rb)"
    and "span_bytes m (rb_mbr rb) = Some b0" "span_bytes m (rb_primary_header rb) = Some b1" "span_bytes m (rb_primary_entries rb) = Some b2"
    and "span_bytes m (rb_backup_header rb) = Some b3" "span_bytes m (rb_backup_entries rb) = Some b4"
  shows "disk_layout_validate m layout_at layout readback_at rb =
    Some (if b0 = ws_mbr ws \<and> b1 = ws_primary_header ws \<and> b2 = ws_entries ws \<and> b3 = ws_backup_header ws \<and> b4 = ws_entries ws
          then 0 else Invalid)"
proof -
  have l: "layout = plan_layout options" "valid_range layout_at sizeof_layout"
    using assms(1) by (auto simp: disk_layout_plan_def Invalid_def split: if_splits)
  have ids: "identities_sized (dl_identities layout)" using assms(2) l(1) by (simp add: plan_layout_def Let_def)
  note b = build_images [OF assms(3,4) ids]
  have sz: "length b0 = 512" "length b1 = 512" "length b2 = 16384" "length b3 = 512" "length b4 = 16384"
    using assms(6-11) by (auto simp: spans_def span_bytes_def disk_sizes dest!: peek_bytes_length)
  note c = check_tables_iff [OF ids sz]
  have "check_tables layout b0 b1 b2 b3 b4 =
    (if b0 = ws_mbr ws \<and> b1 = ws_primary_header ws \<and> b2 = ws_entries ws \<and> b3 = ws_backup_header ws \<and> b4 = ws_entries ws then 0 else Invalid)"
    using c b by (auto simp: Invalid_def)
  then show ?thesis using assms(5-11) l(2) b(5) by (simp add: disk_layout_validate_def)
qed

definition sample_options :: DiskLayoutOptions where
  "sample_options = \<lparr>op_disk_bytes = 98 * 1048576, op_esp_bytes = 64 * 1048576,
     op_identities = \<lparr>id_disk = replicate 16 1, id_root = replicate 16 2, id_esp = replicate 16 3\<rparr>\<rparr>"

definition sample_readback :: DiskLayoutReadback where
  "sample_readback = \<lparr>rb_mbr = \<lparr>sp_data = 0x100000, sp_size = 512\<rparr>, rb_primary_header = \<lparr>sp_data = 0x110000, sp_size = 512\<rparr>,
     rb_primary_entries = \<lparr>sp_data = 0x120000, sp_size = 16384\<rparr>, rb_backup_header = \<lparr>sp_data = 0x130000, sp_size = 512\<rparr>,
     rb_backup_entries = \<lparr>sp_data = 0x140000, sp_size = 16384\<rparr>\<rparr>"

lemma sample_accepted: "\<not> plan_refused sample_options" "identities_sized (op_identities sample_options)" "\<not> spans_refused [] (spans sample_readback)"
proof -
  have z: "\<not> zeros (replicate 16 k) 0 16" if "k \<noteq> 0" for k :: u8 using that by (auto simp: zeros_def intro: exI [of _ 0])
  have e: "\<not> equal_bytes (replicate 16 k) 0 (replicate 16 k') 16" if "k \<noteq> k'" for k k' :: u8
    using that by (auto simp: equal_bytes_def intro: exI [of _ 0])
  show "\<not> plan_refused sample_options" by (simp add: plan_refused_def sample_options_def DiskMiB_def valid_identities_def z e)
  show "identities_sized (op_identities sample_options)" by (simp add: identities_sized_def sample_options_def)
  show "\<not> spans_refused [] (spans sample_readback)" by (simp add: spans_def sample_readback_def valid_range_def overlaps_def disk_sizes)
qed

theorem disk_table_roundtrip_witness:
  "\<exists>m. disk_layout_validate m 0x2000 (plan_layout sample_options) 0x3000 sample_readback = Some 0"
proof -
  let ?l = "plan_layout sample_options"
  define ws0 :: DiskLayoutWorkspace where "ws0 = \<lparr>ws_mbr = replicate 512 0, ws_primary_header = replicate 512 0, ws_backup_header = replicate 512 0, ws_entries = replicate 16384 0\<rparr>"
  have sz: "workspace_sized ws0" by (simp add: workspace_sized_def ws0_def)
  have ids: "identities_sized (dl_identities ?l)" using sample_accepted(2) by (simp add: plan_layout_def Let_def)
  have p: "disk_layout_plan 0x1000 sample_options 0x2000 ?l = (0, ?l)"
    using sample_accepted(1) by (simp add: disk_layout_plan_def valid_range_def overlaps_def)
  obtain ws where b: "disk_layout_build 0x2000 ?l 0x10000 ws0 = (0, ws)"
    using plan_is_valid [OF sample_accepted(1)] by (simp add: disk_layout_build_def valid_range_def overlaps_def Let_def)
  have len: "length (ws_mbr ws) = 512" "length (ws_primary_header ws) = 512" "length (ws_backup_header ws) = 512" "length (ws_entries ws) = 16384"
    using build_images [OF b sz ids] ids by (simp_all add: mbr_image_def header_image_def table_image_def identities_sized_def)
  define m where "m = put (put (put (put (put (\<lambda>_. None) 0x140000 (ws_entries ws)) 0x130000 (ws_backup_header ws))
    0x120000 (ws_entries ws)) 0x110000 (ws_primary_header ws)) 0x100000 (ws_mbr ws)"
  have at_put: "block_at (put m' a bs) a bs" for m' a bs by (simp add: block_at_def put_def)
  have "block_at m 0x100000 (ws_mbr ws)" "block_at m 0x110000 (ws_primary_header ws)" "block_at m 0x120000 (ws_entries ws)"
    "block_at m 0x130000 (ws_backup_header ws)" "block_at m 0x140000 (ws_entries ws)"
    by (simp_all add: m_def at_put block_at_put apart_def len)
  from this [THEN peek_bytes_block] have r: "span_bytes m (rb_mbr sample_readback) = Some (ws_mbr ws)"
    "span_bytes m (rb_primary_header sample_readback) = Some (ws_primary_header ws)" "span_bytes m (rb_primary_entries sample_readback) = Some (ws_entries ws)"
    "span_bytes m (rb_backup_header sample_readback) = Some (ws_backup_header ws)" "span_bytes m (rb_backup_entries sample_readback) = Some (ws_entries ws)"
    by (simp_all add: span_bytes_def sample_readback_def len)
  have "valid_range 0x3000 sizeof_readback" by (simp add: valid_range_def)
  from disk_table_roundtrip [OF p sample_accepted(2) b sz this sample_accepted(3) r] show ?thesis by auto
qed

text \<open>
  C30. An accepted plan covers the disk it was made for: the header and the two tables at both ends,
  the root partition and then the ESP, in this order and without overlap inside the usable range, both starting on a whole
  MiB, the ESP of the requested size and the root partition of at least 32 MiB taking the rest; and the plan passes
  the check that building and validating make.
\<close>

theorem disk_plan_geometry:
  assumes "disk_layout_plan options_at options layout_at l0 = (0, l)"
  shows "valid_layout l \<and> unat (dl_total_sectors l) * 512 = unat (op_disk_bytes options) \<and>
    dl_primary_entries_lba l = 2 \<and> unat (dl_first_usable_lba l) = 2 + 32 \<and> unat (dl_first_usable_lba l) \<le> unat (dl_root_first_lba l) \<and>
    unat (dl_root_first_lba l) \<le> unat (dl_root_last_lba l) \<and> unat (dl_root_last_lba l) + 1 = unat (dl_esp_first_lba l) \<and>
    unat (dl_esp_first_lba l) \<le> unat (dl_esp_last_lba l) \<and> unat (dl_esp_last_lba l) \<le> unat (dl_last_usable_lba l) \<and>
    unat (dl_last_usable_lba l) < unat (dl_backup_entries_lba l) \<and> unat (dl_backup_entries_lba l) + 32 = unat (dl_total_sectors l) - 1 \<and>
    2048 dvd unat (dl_root_first_lba l) \<and> 2048 dvd unat (dl_esp_first_lba l) \<and>
    (unat (dl_esp_last_lba l) + 1 - unat (dl_esp_first_lba l)) * 512 = unat (op_esp_bytes options) \<and>
    32 * 1048576 \<le> (unat (dl_root_last_lba l) + 1 - unat (dl_root_first_lba l)) * 512"
proof -
  have l: "l = plan_layout options" "\<not> plan_refused options"
    using assms by (auto simp: disk_layout_plan_def Invalid_def split: if_splits)
  obtain d e where u: "op_disk_bytes options = of_nat (1048576 * d)" "op_esp_bytes options = of_nat (1048576 * e)"
    "1048576 * d < 2 ^ 64" "98 \<le> d" "64 \<le> e" "e + 34 \<le> d" using plan_units [OF l(2)] by metis
  note p = plan_layout_units [OF u]
  have small: "unat (of_nat k :: u64) = k" if "k \<le> 1048576 * d" for k using u(3) that by (intro unat_of_nat64) linarith
  have f: "dl_total_sectors l = of_nat (2048 * d)" "dl_backup_entries_lba l = of_nat (2048 * d - 33)" "dl_last_usable_lba l = of_nat (2048 * d - 34)"
    "dl_root_last_lba l = of_nat (2048 * (d - 1 - e) - 1)" "dl_esp_first_lba l = of_nat (2048 * (d - 1 - e))" "dl_esp_last_lba l = of_nat (2048 * (d - 1) - 1)"
    unfolding l(1) p by simp_all
  have n: "unat (dl_total_sectors l) = 2048 * d" "unat (dl_backup_entries_lba l) = 2048 * d - 33" "unat (dl_last_usable_lba l) = 2048 * d - 34"
    "unat (dl_root_last_lba l) = 2048 * (d - 1 - e) - 1" "unat (dl_esp_first_lba l) = 2048 * (d - 1 - e)" "unat (dl_esp_last_lba l) = 2048 * (d - 1) - 1"
    "unat (op_disk_bytes options) = 1048576 * d" "unat (op_esp_bytes options) = 1048576 * e"
    using u(6) unfolding f u(1,2) by (intro small; linarith)+
  have c: "dl_primary_entries_lba l = 2" "unat (dl_first_usable_lba l) = 34" "unat (dl_root_first_lba l) = 2048" unfolding l(1) p by simp_all
  have "valid_layout l" using plan_is_valid [OF l(2)] l(1) by simp
  moreover have "2048 dvd unat (dl_esp_first_lba l)" unfolding n by simp
  ultimately show ?thesis unfolding n c using u(4,5,6) by (simp add: diff_mult_distrib2) linarith
qed

theorem disk_plan_geometry_witness:
  "unat (dl_total_sectors (plan_layout sample_options)) * 512 = 98 * 1048576 \<and> valid_layout (plan_layout sample_options)"
proof -
  have "disk_layout_plan 0x1000 sample_options 0x2000 (plan_layout sample_options) = (0, plan_layout sample_options)"
    using sample_accepted(1) by (simp add: disk_layout_plan_def valid_range_def overlaps_def)
  from disk_plan_geometry [OF this] show ?thesis by (simp add: sample_options_def)
qed

end
