(* ===== verification/Mutex.thy ===== *)
theory Mutex
  imports LockQueueSpec
begin

text \<open>
  The yielding mutex of \<^verbatim>\<open>kernel/task/mutex.cpp\<close>. What the code asks of other components is an argument:
  the running task (\<open>get_current_task\<close>, \<open>None\<close> before the scheduler runs), the heap of task control
  blocks, and whether the scheduler still references a task. A section between \<open>spin_lock\<close> and
  \<open>spin_unlock\<close> is one step; what other tasks do between two sections of a task is an argument.
\<close>

section \<open>Structures\<close>

datatype mutex_state = MUTEX_UNLOCKED | MUTEX_LOCKED | MUTEX_DESTROYED
datatype TaskStatus = CREATE | RUNNING | WAIT | DEATH | START | FUTEX | OUT | ZOMBIE

record mutex =
  mx_lock :: bool
  mx_state :: mutex_state
  mx_owner :: ptr
  mx_wait_queue :: "lock_queue option"
  mx_rcc :: u64
  mx_rec :: bool

record tcb =
  t_status :: TaskStatus
  t_parent_group :: ptr
  t_tid :: u64

record tasks =
  ts_tcb :: "addr \<rightharpoonup> tcb"
  ts_referenced :: "addr \<Rightarrow> bool"

definition EPERM :: int where "EPERM = 1"
definition EBUSY :: int where "EBUSY = 16"
definition EINVAL :: int where "EINVAL = 22"
definition EDEADLK :: int where "EDEADLK = 35"

abbreviation lock_m :: "mutex \<Rightarrow> mutex option" where
  "lock_m m \<equiv> map_option (\<lambda>l. m\<lparr>mx_lock := l\<rparr>) (spin_lock (mx_lock m))"

abbreviation unlock_m :: "mutex \<Rightarrow> mutex" where
  "unlock_m m \<equiv> m\<lparr>mx_lock := spin_unlock (mx_lock m)\<rparr>"

section \<open>Operations\<close>

text \<open>The argument says whether the allocation of \<open>queue_init\<close> succeeds; a null mutex is not touched.\<close>

definition mutex_create :: "mutex option \<Rightarrow> bool \<Rightarrow> bool \<Rightarrow> mutex option" where
  "mutex_create mtx recursive malloc_ok =
     (case mtx of None \<Rightarrow> None
      | Some m \<Rightarrow> Some (m\<lparr>mx_lock := False, mx_state := MUTEX_UNLOCKED, mx_owner := None, mx_wait_queue := queue_init malloc_ok,
          mx_rcc := 0, mx_rec := recursive\<rparr>))"

text \<open>One round of \<open>mutex_lock\<close>: its result, or \<open>None\<close> to yield and try again.\<close>

definition mutex_lock_round :: "ptr \<Rightarrow> mutex \<Rightarrow> (int option \<times> mutex) option" where
  "mutex_lock_round current m = do {
     m \<leftarrow> lock_m m;
     if mx_state m = MUTEX_DESTROYED then Some (Some (- EINVAL), unlock_m m)
     else if mx_owner m = current then
       (if mx_rec m then do {
          let m = m\<lparr>mx_rcc := mx_rcc m + 1\<rparr>;
          Some (Some 0, unlock_m m)
        }
        else Some (Some (- EDEADLK), unlock_m m))
     else if mx_state m = MUTEX_UNLOCKED then do {
       let m = m\<lparr>mx_state := MUTEX_LOCKED, mx_owner := current, mx_rcc := 1\<rparr>;
       Some (Some 0, unlock_m m)
     }
     else Some (None, unlock_m m)
   }"

text \<open>
  \<open>others k\<close> is what the other tasks do to the mutex during the \<open>k\<close>th yield.
\<close>

partial_function (option) mutex_lock_loop :: "(nat \<Rightarrow> mutex \<Rightarrow> mutex) \<Rightarrow> nat \<Rightarrow> ptr \<Rightarrow> mutex \<Rightarrow> (int \<times> mutex) option" where
  "mutex_lock_loop others k current m = do {
     (r, m) \<leftarrow> mutex_lock_round current m;
     case r of Some rc \<Rightarrow> Some (rc, m) | None \<Rightarrow> mutex_lock_loop others (k + 1) current (others k m)
   }"

definition mutex_lock :: "(nat \<Rightarrow> mutex \<Rightarrow> mutex) \<Rightarrow> ptr \<Rightarrow> mutex option \<Rightarrow> (int \<times> mutex option) option" where
  "mutex_lock others current mutex =
     (case mutex of None \<Rightarrow> Some (- EINVAL, None)
      | Some m \<Rightarrow> do { (r, m) \<leftarrow> mutex_lock_loop others 0 current m; Some (r, Some m) })"

definition mutex_trylock :: "ptr \<Rightarrow> mutex option \<Rightarrow> (int \<times> mutex option) option" where
  "mutex_trylock current mutex =
     (case mutex of None \<Rightarrow> Some (- EINVAL, None)
      | Some m \<Rightarrow> do {
          m \<leftarrow> lock_m m;
          if mx_state m = MUTEX_DESTROYED then Some (- EINVAL, Some (unlock_m m))
          else if mx_owner m = current then
            (if mx_rec m then do {
               let m = m\<lparr>mx_rcc := mx_rcc m + 1\<rparr>;
               Some (0, Some (unlock_m m))
             }
             else Some (- EDEADLK, Some (unlock_m m)))
          else if mx_state m = MUTEX_UNLOCKED then do {
            let m = m\<lparr>mx_state := MUTEX_LOCKED, mx_owner := current, mx_rcc := 1\<rparr>;
            Some (0, Some (unlock_m m))
          }
          else Some (- EBUSY, Some (unlock_m m))
        })"

definition mutex_owner_has_stopped_locked :: "tasks \<Rightarrow> ptr \<Rightarrow> bool option" where
  "mutex_owner_has_stopped_locked ts owner =
     (case owner of None \<Rightarrow> Some False
      | Some a \<Rightarrow> do {
          t \<leftarrow> ts_tcb ts a;
          if t_status t \<noteq> DEATH \<and> t_status t \<noteq> OUT then Some False
          else Some (\<not> ts_referenced ts a)
        })"

text \<open>
  The second locked section of a round of \<open>mutex_lock_recoverable\<close>: whether the mutex was abandoned by a stopped owner and
  taken over. Other tasks run before it, after \<open>mutex_trylock\<close> has released the spin lock, and during the yield.
\<close>

definition mutex_take_abandoned :: "tasks \<Rightarrow> ptr \<Rightarrow> mutex option \<Rightarrow> (bool \<times> mutex option) option" where
  "mutex_take_abandoned ts current mutex = do {
     m \<leftarrow> mutex;
     m \<leftarrow> lock_m m;
     abandoned \<leftarrow> (if mx_state m = MUTEX_LOCKED then mutex_owner_has_stopped_locked ts (mx_owner m) else Some False);
     let m = (if abandoned then m\<lparr>mx_owner := current, mx_rcc := 1\<rparr> else m);
     Some (abandoned, Some (unlock_m m))
   }"

partial_function (option) mutex_recover_loop ::
  "(nat \<Rightarrow> mutex option \<Rightarrow> mutex option) \<Rightarrow> (nat \<Rightarrow> tasks) \<Rightarrow> nat \<Rightarrow> ptr \<Rightarrow> mutex option \<Rightarrow> (int \<times> bool \<times> mutex option) option" where
  "mutex_recover_loop others ts k current mutex = do {
     (result, mutex) \<leftarrow> mutex_trylock current mutex;
     if result \<noteq> - EBUSY then Some (result, False, mutex)
     else do {
       (abandoned, mutex) \<leftarrow> mutex_take_abandoned (ts k) current (others (2 * k) mutex);
       if abandoned then Some (0, True, mutex)
       else mutex_recover_loop others ts (k + 1) current (others (2 * k + 1) mutex)
     }
   }"

definition mutex_lock_recoverable ::
  "(nat \<Rightarrow> mutex option \<Rightarrow> mutex option) \<Rightarrow> (nat \<Rightarrow> tasks) \<Rightarrow> ptr \<Rightarrow> mutex option \<Rightarrow> (int \<times> bool \<times> mutex option) option" where
  "mutex_lock_recoverable others ts current mutex = mutex_recover_loop others ts 0 current mutex"

definition mutex_unlock :: "ptr \<Rightarrow> mutex option \<Rightarrow> (int \<times> mutex option) option" where
  "mutex_unlock current mutex =
     (case mutex of None \<Rightarrow> Some (- EINVAL, None)
      | Some m \<Rightarrow> do {
          m \<leftarrow> lock_m m;
          if mx_state m = MUTEX_DESTROYED then Some (- EINVAL, Some (unlock_m m))
          else if mx_owner m \<noteq> current \<or> mx_state m \<noteq> MUTEX_LOCKED \<or> mx_rcc m = 0 then Some (- EPERM, Some (unlock_m m))
          else do {
            let m = m\<lparr>mx_rcc := mx_rcc m - 1\<rparr>;
            let m = (if mx_rcc m = 0 then
                       let m = m\<lparr>mx_owner := None\<rparr> in
                       if mx_state m \<noteq> MUTEX_DESTROYED then m\<lparr>mx_state := MUTEX_UNLOCKED\<rparr> else m
                     else m);
            Some (0, Some (unlock_m m))
          }
        })"

definition mutex_destroy :: "node_heap \<Rightarrow> mutex option \<Rightarrow> (int \<times> mutex option \<times> node_heap) option" where
  "mutex_destroy h mutex =
     (case mutex of None \<Rightarrow> Some (- EINVAL, None, h)
      | Some m \<Rightarrow> do {
          m \<leftarrow> lock_m m;
          if mx_state m = MUTEX_LOCKED then Some (- EBUSY, Some (unlock_m m), h)
          else do {
            let m = m\<lparr>mx_state := MUTEX_DESTROYED\<rparr>;
            let wait_queue = mx_wait_queue m;
            let m = m\<lparr>mx_wait_queue := None, mx_owner := None, mx_rcc := 0\<rparr>;
            let m = unlock_m m;
            h \<leftarrow> (if wait_queue \<noteq> None then queue_destroy h wait_queue else Some h);
            Some (0, Some m, h)
          }
        })"

definition mutex_is_locked :: "mutex option \<Rightarrow> (bool \<times> mutex option) option" where
  "mutex_is_locked mutex =
     (case mutex of None \<Rightarrow> Some (False, None)
      | Some m \<Rightarrow> do {
          m \<leftarrow> lock_m m;
          let locked = (mx_state m = MUTEX_LOCKED);
          Some (locked, Some (unlock_m m))
        })"

definition mutex_get_owner :: "mutex option \<Rightarrow> (ptr \<times> mutex option) option" where
  "mutex_get_owner mutex =
     (case mutex of None \<Rightarrow> Some (None, None)
      | Some m \<Rightarrow> do {
          m \<leftarrow> lock_m m;
          let owner = mx_owner m;
          Some (owner, Some (unlock_m m))
        })"

definition mutex_abort_for_process :: "tasks \<Rightarrow> mutex option \<Rightarrow> ptr \<Rightarrow> (bool \<times> mutex option) option" where
  "mutex_abort_for_process ts mutex process =
     (case mutex of None \<Rightarrow> Some (False, None)
      | Some m \<Rightarrow>
          if process = None then Some (False, mutex)
          else do {
            m \<leftarrow> lock_m m;
            let owner = mx_owner m;
            release_it \<leftarrow> (if mx_state m = MUTEX_LOCKED \<and> owner \<noteq> None then do {
                            t \<leftarrow> deref (ts_tcb ts) owner;
                            if t_parent_group t = process then mutex_owner_has_stopped_locked ts owner else Some False
                          }
                          else Some False);
            let m = (if release_it then m\<lparr>mx_owner := None, mx_rcc := 0, mx_state := MUTEX_UNLOCKED\<rparr> else m);
            Some (release_it, Some (unlock_m m))
          })"

section \<open>Histories\<close>

text \<open>
  A history is a list of the locked sections the tasks run, in the order in which they take the spin
  lock. A round of \<open>mutex_lock_recoverable\<close> is two of them, a \<open>Try\<close> and, when that finds the mutex busy, a \<open>Recover\<close>
  with whatever other tasks do in between. The second component of the state counts for each task how often it holds the mutex: what the
  results of its calls tell it, minus its own releases, and nothing any more once its lock was taken over or released for it.
\<close>

datatype mutex_event =
  Acquire addr | Try addr | Recover tasks addr | Unlock addr | Destroy node_heap | Abort tasks ptr

type_synonym holders = "addr \<Rightarrow> nat"

definition drop_owner :: "mutex \<Rightarrow> holders \<Rightarrow> holders" where
  "drop_owner m H = (case mx_owner m of None \<Rightarrow> H | Some t \<Rightarrow> H(t := 0))"

fun mutex_apply :: "mutex_event \<Rightarrow> mutex \<times> holders \<Rightarrow> (mutex \<times> holders) option" where
  "mutex_apply (Acquire t) (m, H) = do {
     (r, m') \<leftarrow> mutex_lock_round (Some t) m;
     Some (m', if r = Some 0 then H(t := H t + 1) else H)
   }"
| "mutex_apply (Try t) (m, H) = do {
     (r, m') \<leftarrow> mutex_trylock (Some t) (Some m);
     m' \<leftarrow> m';
     Some (m', if r = 0 then H(t := H t + 1) else H)
   }"
| "mutex_apply (Recover ts t) (m, H) = do {
     (r, m') \<leftarrow> mutex_take_abandoned ts (Some t) (Some m);
     m' \<leftarrow> m';
     Some (m', if r then (drop_owner m H)(t := 1) else H)
   }"
| "mutex_apply (Unlock t) (m, H) = do {
     (r, m') \<leftarrow> mutex_unlock (Some t) (Some m);
     m' \<leftarrow> m';
     Some (m', if r = 0 then H(t := H t - 1) else H)
   }"
| "mutex_apply (Destroy h) (m, H) = do { (r, m', h') \<leftarrow> mutex_destroy h (Some m); m' \<leftarrow> m'; Some (m', H) }"
| "mutex_apply (Abort ts p) (m, H) = do {
     (r, m') \<leftarrow> mutex_abort_for_process ts (Some m) p;
     m' \<leftarrow> m';
     Some (m', if r then drop_owner m H else H)
   }"

fun mutex_history :: "mutex_event list \<Rightarrow> mutex \<times> holders \<Rightarrow> (mutex \<times> holders) option" where
  "mutex_history [] s = Some s"
| "mutex_history (e # es) s = do { s \<leftarrow> mutex_apply e s; mutex_history es s }"

definition mutex_inv :: "nat \<Rightarrow> mutex \<times> holders \<Rightarrow> bool" where
  "mutex_inv n s \<longleftrightarrow> (case s of (m, H) \<Rightarrow>
     \<not> mx_lock m \<and> unat (mx_rcc m) \<le> n \<and> (\<not> mx_rec m \<longrightarrow> unat (mx_rcc m) \<le> 1) \<and>
     (if mx_state m = MUTEX_LOCKED
      then \<exists>t. mx_owner m = Some t \<and> mx_rcc m \<noteq> 0 \<and> H t = unat (mx_rcc m) \<and> (\<forall>u. u \<noteq> t \<longrightarrow> H u = 0)
      else mx_owner m = None \<and> mx_rcc m = 0 \<and> (\<forall>u. H u = 0)))"

lemma unat_Suc_u64: "unat x < 2 ^ 64 - 1 \<Longrightarrow> unat (x + 1) = unat x + 1" for x :: u64
  by (rule unat_add_one_word) (auto simp: unsigned_minus_1_eq_mask mask_eq_exp_minus_1)

text \<open>Taking the free mutex, and taking it again.\<close>

lemma inv_take:
  assumes "mutex_inv n (m, H)" "mx_state m = MUTEX_UNLOCKED"
  shows "mutex_inv (Suc n) (m\<lparr>mx_lock := False, mx_state := MUTEX_LOCKED, mx_owner := Some t, mx_rcc := 1\<rparr>, H(t := H t + 1))"
  using assms by (auto simp: mutex_inv_def)

lemma inv_again:
  assumes "mutex_inv n (m, H)" "mx_state m \<noteq> MUTEX_DESTROYED" "mx_owner m = Some t" "mx_rec m" "n < 2 ^ 64 - 1"
  shows "mutex_inv (Suc n) (m\<lparr>mx_lock := False, mx_rcc := mx_rcc m + 1\<rparr>, H(t := H t + 1))"
proof -
  have l: "mx_state m = MUTEX_LOCKED" "unat (mx_rcc m) \<le> n" using assms by (auto simp: mutex_inv_def split: if_splits)
  then have "unat (mx_rcc m + 1) = unat (mx_rcc m) + 1" using assms(5) by (intro unat_Suc_u64) simp
  then show ?thesis using assms l by (auto simp: mutex_inv_def word_unat_eq_iff)
qed

lemma inv_same: "mutex_inv n (m, H) \<Longrightarrow> mutex_inv (Suc n) (m\<lparr>mx_lock := False\<rparr>, H)"
  by (auto simp: mutex_inv_def split: if_splits)

lemma inv_unlocked: "mutex_inv n (m, H) \<Longrightarrow> lock_m m = Some (m\<lparr>mx_lock := True\<rparr>)"
  by (auto simp: mutex_inv_def)

lemma inv_trylock:
  assumes "mutex_inv n (m, H)" "n < 2 ^ 64 - 1" "mutex_trylock (Some t) (Some m) = Some (r, m')"
  shows "\<exists>m1. m' = Some m1 \<and> mutex_inv (Suc n) (m1, if r = 0 then H(t := H t + 1) else H) \<and>
    (r = - EBUSY \<longrightarrow> m1 = m)"
  using assms(3) inv_unlocked [OF assms(1)] inv_take [OF assms(1), of t] inv_again [OF assms(1), of t] inv_same [OF assms(1)] assms(1,2)
  by (auto simp: mutex_trylock_def EINVAL_def EDEADLK_def EBUSY_def mutex_inv_def split: if_splits)

lemma lock_round_trylock:
  "mutex_lock_round current m = map_option (\<lambda>(r, m'). (if r = - EBUSY then None else Some r, the m')) (mutex_trylock current (Some m))"
  by (cases "mx_lock m") (auto simp: mutex_lock_round_def mutex_trylock_def spin_lock_def Let_def EINVAL_def EBUSY_def EDEADLK_def)

lemma inv_drop:
  assumes "mutex_inv n (m, H)" "mx_state m = MUTEX_LOCKED"
  shows "drop_owner m H u = 0"
  using assms by (cases "mx_owner m") (auto simp: mutex_inv_def drop_owner_def)

lemma inv_recover:
  assumes "mutex_inv n (m, H)" "mutex_take_abandoned ts (Some t) (Some m) = Some (r, m')"
  shows "\<exists>m1. m' = Some m1 \<and> mutex_inv (Suc n) (m1, if r then (drop_owner m H)(t := 1) else H)"
proof -
  have l: "mx_lock m = False" using assms(1) by (auto simp: mutex_inv_def)
  have "mutex_inv (Suc n) (m\<lparr>mx_owner := Some t, mx_rcc := 1, mx_lock := False\<rparr>, (drop_owner m H)(t := 1))"
    if "mx_state m = MUTEX_LOCKED" using assms(1) that inv_drop [OF assms(1) that] by (auto simp: mutex_inv_def)
  then show ?thesis using assms(2) l inv_same [OF assms(1)]
    by (cases "mx_state m = MUTEX_LOCKED") (auto simp: mutex_take_abandoned_def bind_eq_Some_conv Let_def split: if_splits)
qed

lemma inv_unlock:
  assumes "mutex_inv n (m, H)" "mutex_unlock (Some t) (Some m) = Some (r, m')"
  shows "\<exists>m1. m' = Some m1 \<and> mutex_inv (Suc n) (m1, if r = 0 then H(t := H t - 1) else H)"
proof -
  have l: "mx_lock m = False" using assms(1) by (auto simp: mutex_inv_def)
  show ?thesis
  proof (cases "mx_state m = MUTEX_LOCKED \<and> mx_owner m = Some t \<and> mx_rcc m \<noteq> 0")
    case False
    then show ?thesis using assms(2) l inv_same [OF assms(1)] by (auto simp: mutex_unlock_def EINVAL_def EPERM_def split: if_splits)
  next
    case True
    have u: "unat (mx_rcc m - 1) = unat (mx_rcc m) - 1" using True by (intro unat_minus_one) simp
    have H: "H t = unat (mx_rcc m)" "\<And>u. u \<noteq> t \<Longrightarrow> H u = 0" "unat (mx_rcc m) \<le> n" "\<not> mx_rec m \<Longrightarrow> unat (mx_rcc m) \<le> 1"
      using assms(1) True by (auto simp: mutex_inv_def)
    have "mutex_inv (Suc n) (if mx_rcc m - 1 = 0 then m\<lparr>mx_rcc := 0, mx_owner := None, mx_state := MUTEX_UNLOCKED, mx_lock := False\<rparr>
        else m\<lparr>mx_rcc := mx_rcc m - 1, mx_lock := False\<rparr>, H(t := H t - 1))"
      using True H u by (auto simp: mutex_inv_def word_unat_eq_iff)
    then show ?thesis using assms(2) l True by (auto simp: mutex_unlock_def Let_def split: if_splits)
  qed
qed

lemma inv_destroy:
  assumes "mutex_inv n (m, H)" "mutex_destroy h (Some m) = Some (r, m', h')"
  shows "\<exists>m1. m' = Some m1 \<and> mutex_inv (Suc n) (m1, H)"
proof -
  have l: "mx_lock m = False" using assms(1) by (auto simp: mutex_inv_def)
  have "mutex_inv (Suc n) (m\<lparr>mx_state := MUTEX_DESTROYED, mx_wait_queue := None, mx_owner := None, mx_rcc := 0, mx_lock := False\<rparr>, H)"
    if "mx_state m \<noteq> MUTEX_LOCKED" using assms(1) that by (auto simp: mutex_inv_def)
  then show ?thesis using assms(2) l inv_same [OF assms(1)]
    by (cases "mx_state m = MUTEX_LOCKED") (auto simp: mutex_destroy_def bind_eq_Some_conv Let_def)
qed

lemma inv_abort:
  assumes "mutex_inv n (m, H)" "mutex_abort_for_process ts (Some m) p = Some (r, m')"
  shows "\<exists>m1. m' = Some m1 \<and> mutex_inv (Suc n) (m1, if r then drop_owner m H else H)"
proof -
  have l: "mx_lock m = False" using assms(1) by (auto simp: mutex_inv_def)
  have "mutex_inv (Suc n) (m\<lparr>mx_owner := None, mx_rcc := 0, mx_state := MUTEX_UNLOCKED, mx_lock := False\<rparr>, drop_owner m H)"
    if "mx_state m = MUTEX_LOCKED" using assms(1) inv_drop [OF assms(1) that] by (auto simp: mutex_inv_def)
  moreover have "mutex_inv (Suc n) (m, H)" using assms(1) by (auto simp: mutex_inv_def split: if_splits)
  ultimately show ?thesis using assms(2) l inv_same [OF assms(1)]
    by (cases "mx_state m = MUTEX_LOCKED") (auto simp: mutex_abort_for_process_def bind_eq_Some_conv Let_def split: if_splits)
qed

lemma mutex_apply_inv:
  assumes "mutex_inv n s" "n < 2 ^ 64 - 1" "mutex_apply e s = Some s'"
  shows "mutex_inv (Suc n) s'"
proof -
  obtain m H where s: "s = (m, H)" by (cases s)
  note i = assms(1) [unfolded s]
  show ?thesis
  proof (cases e)
    case (Acquire t)
    obtain r m' where r: "mutex_trylock (Some t) (Some m) = Some (r, m')" using assms(3) Acquire s
      by (cases "mutex_trylock (Some t) (Some m)") (auto simp: lock_round_trylock)
    from inv_trylock [OF i assms(2) r] show ?thesis using assms(3) Acquire s r by (auto simp: lock_round_trylock EBUSY_def)
  next
    case (Try t)
    obtain r m' where r: "mutex_trylock (Some t) (Some m) = Some (r, m')" using assms(3) Try s by (auto simp: bind_eq_Some_conv)
    from inv_trylock [OF i assms(2) r] show ?thesis using assms(3) Try s r by auto
  next
    case (Recover ts t)
    obtain r m' where r: "mutex_take_abandoned ts (Some t) (Some m) = Some (r, m')" using assms(3) Recover s by (auto simp: bind_eq_Some_conv)
    from inv_recover [OF i r] show ?thesis using assms(3) Recover s r by auto
  next
    case (Unlock t)
    obtain r m' where r: "mutex_unlock (Some t) (Some m) = Some (r, m')" using assms(3) Unlock s by (auto simp: bind_eq_Some_conv)
    from inv_unlock [OF i r] show ?thesis using assms(3) Unlock s r by auto
  next
    case (Destroy h)
    obtain r m' h' where r: "mutex_destroy h (Some m) = Some (r, m', h')" using assms(3) Destroy s by (auto simp: bind_eq_Some_conv)
    from inv_destroy [OF i r] show ?thesis using assms(3) Destroy s r by auto
  next
    case (Abort ts p)
    obtain r m' where r: "mutex_abort_for_process ts (Some m) p = Some (r, m')" using assms(3) Abort s by (auto simp: bind_eq_Some_conv)
    from inv_abort [OF i r] show ?thesis using assms(3) Abort s r by auto
  qed
qed

lemma mutex_history_inv:
  "mutex_history es s = Some s' \<Longrightarrow> mutex_inv n s \<Longrightarrow> n + length es < 2 ^ 64 \<Longrightarrow> mutex_inv (n + length es) s'"
proof (induction es arbitrary: n s)
  case (Cons e es)
  then obtain s1 where s1: "mutex_apply e s = Some s1" "mutex_history es s1 = Some s'" by (auto simp: bind_eq_Some_conv)
  have "mutex_inv (Suc n) s1" using Cons.prems(2,3) s1(1) by (intro mutex_apply_inv) auto
  then show ?case using Cons.IH [OF s1(2), of "Suc n"] Cons.prems(3) by simp
qed simp

text \<open>A task loses the mutex only by its own release, or after it has stopped.\<close>

definition stopped :: "tasks \<Rightarrow> addr \<Rightarrow> bool" where
  "stopped ts t \<longleftrightarrow> (\<exists>c. ts_tcb ts t = Some c \<and> (t_status c = DEATH \<or> t_status c = OUT)) \<and> \<not> ts_referenced ts t"

lemma owner_has_stopped: "mutex_owner_has_stopped_locked ts owner = Some True \<Longrightarrow> \<exists>t. owner = Some t \<and> stopped ts t"
  by (auto simp: mutex_owner_has_stopped_locked_def stopped_def bind_eq_Some_conv split: option.splits if_splits)

lemma drop_owner_zero: "0 < H t \<Longrightarrow> drop_owner m H t = 0 \<Longrightarrow> mx_owner m = Some t"
  by (auto simp: drop_owner_def split: option.splits if_splits)

lemma recover_stopped:
  assumes "mutex_take_abandoned ts c (Some m) = Some (True, m')"
  shows "\<exists>t. mx_owner m = Some t \<and> stopped ts t"
  using assms
  by (cases "mx_state m = MUTEX_LOCKED")
     (auto simp: mutex_take_abandoned_def bind_eq_Some_conv Let_def split: if_splits dest!: owner_has_stopped)

lemma abort_stopped:
  assumes "mutex_abort_for_process ts (Some m) p = Some (True, m')"
  shows "\<exists>t. mx_owner m = Some t \<and> stopped ts t"
  using assms
  by (cases "mx_state m = MUTEX_LOCKED")
     (auto simp: mutex_abort_for_process_def bind_eq_Some_conv Let_def split: if_splits dest!: owner_has_stopped)

lemma mutex_not_stolen:
  assumes "mutex_inv n (m, H)" "n < 2 ^ 64 - 1" "mutex_apply e (m, H) = Some (m', H')" "0 < H t" "H' t = 0"
  shows "e = Unlock t \<or> (\<exists>ts u. e = Recover ts u \<and> stopped ts t) \<or> (\<exists>ts p. e = Abort ts p \<and> stopped ts t)"
proof (cases e)
  case (Recover ts u)
  then obtain r mt where r: "mutex_take_abandoned ts (Some u) (Some m) = Some (r, mt)" using assms(3) by (auto simp: bind_eq_Some_conv)
  then have "r" "drop_owner m H t = 0" using assms(3-5) Recover by (auto simp: bind_eq_Some_conv split: if_splits)
  then show ?thesis using recover_stopped [of ts "Some u" m mt] r drop_owner_zero [of H t m] assms(4) Recover by auto
next
  case (Abort ts p)
  then obtain r mt where r: "mutex_abort_for_process ts (Some m) p = Some (r, mt)" using assms(3) by (auto simp: bind_eq_Some_conv)
  then have "r" "drop_owner m H t = 0" using assms(3-5) Abort by (auto simp: bind_eq_Some_conv split: if_splits)
  then show ?thesis using abort_stopped [of ts m p mt] r drop_owner_zero [of H t m] assms(4) Abort by auto
qed (use assms(3-5) in \<open>auto simp: bind_eq_Some_conv split: if_splits\<close>)

section \<open>Waiting\<close>

fun seen :: "(nat \<Rightarrow> mutex \<Rightarrow> mutex) \<Rightarrow> mutex \<Rightarrow> nat \<Rightarrow> mutex" where
  "seen others m 0 = m"
| "seen others m (Suc k) = others k (seen others m k)"

lemma lock_round_busy:
  "\<not> mx_lock m \<Longrightarrow> mx_state m = MUTEX_LOCKED \<Longrightarrow> mx_owner m \<noteq> c \<Longrightarrow> mutex_lock_round c m = Some (None, m)"
  by (simp add: mutex_lock_round_def)

lemma lock_round_free:
  "\<not> mx_lock m \<Longrightarrow> mx_state m = MUTEX_UNLOCKED \<Longrightarrow> mx_owner m \<noteq> c \<Longrightarrow>
    mutex_lock_round c m = Some (Some 0, m\<lparr>mx_state := MUTEX_LOCKED, mx_owner := c, mx_rcc := 1\<rparr>)"
  by (simp add: mutex_lock_round_def)

lemma lock_loop_waits:
  assumes "\<And>j. k \<le> j \<Longrightarrow> j < k + n \<Longrightarrow> mx_state (seen others m j) = MUTEX_LOCKED"
    and "\<And>j. \<not> mx_lock (seen others m j) \<and> mx_owner (seen others m j) \<noteq> c" "mx_state (seen others m (k + n)) = MUTEX_UNLOCKED"
  shows "mutex_lock_loop others k c (seen others m k) =
    Some (0, (seen others m (k + n))\<lparr>mx_state := MUTEX_LOCKED, mx_owner := c, mx_rcc := 1\<rparr>)"
  using assms(1,3)
proof (induction n arbitrary: k)
  case 0
  then show ?case using assms(2) [of k] lock_round_free [of "seen others m k" c] by (subst mutex_lock_loop.simps) simp
next
  case (Suc n)
  have "mutex_lock_round c (seen others m k) = Some (None, seen others m k)" using Suc.prems(1) [of k] assms(2) [of k] by (intro lock_round_busy) simp_all
  moreover have "mutex_lock_loop others (Suc k) c (seen others m (Suc k)) =
    Some (0, (seen others m (Suc k + n))\<lparr>mx_state := MUTEX_LOCKED, mx_owner := c, mx_rcc := 1\<rparr>)"
    using Suc.prems by (intro Suc.IH) simp_all
  ultimately show ?case by (subst mutex_lock_loop.simps) simp
qed

section \<open>Properties\<close>

text \<open>
  C4. In every history of fewer than \<open>2 ^ 64 - 1\<close> locked sections on a new mutex at most one task
  holds it, and it is the recorded owner; a mutex that is not recursive is held at most once. A task that holds it loses it
  only by its own \<open>mutex_unlock\<close>, or by a recovery or an abort after the task has stopped running.
\<close>

theorem mutex_exclusion:
  assumes "mutex_create (Some m0) recursive ok = Some m1" "mutex_history es (m1, \<lambda>_. 0) = Some (m, H)" "length es < 2 ^ 64 - 1"
  shows "(\<forall>t u. 0 < H t \<and> 0 < H u \<longrightarrow> t = u) \<and> (\<forall>t. 0 < H t \<longleftrightarrow> mx_state m = MUTEX_LOCKED \<and> mx_owner m = Some t) \<and>
    (\<not> mx_rec m \<longrightarrow> (\<forall>t. H t \<le> 1)) \<and>
    (\<forall>e m' H' t. mutex_apply e (m, H) = Some (m', H') \<and> 0 < H t \<and> H' t = 0 \<longrightarrow>
       e = Unlock t \<or> (\<exists>ts u. e = Recover ts u \<and> stopped ts t) \<or> (\<exists>ts p. e = Abort ts p \<and> stopped ts t))"
proof -
  have "mutex_inv 0 (m1, \<lambda>_. 0)" using assms(1) by (auto simp: mutex_inv_def mutex_create_def)
  from mutex_history_inv [OF assms(2) this] have i: "mutex_inv (length es) (m, H)" using assms(3) by simp
  have "unat (mx_rcc m) \<noteq> 0 \<longleftrightarrow> mx_rcc m \<noteq> 0" by (simp add: unat_eq_zero)
  then have "(\<forall>t u. 0 < H t \<and> 0 < H u \<longrightarrow> t = u)" "(\<forall>t. 0 < H t \<longleftrightarrow> mx_state m = MUTEX_LOCKED \<and> mx_owner m = Some t)"
    using i by (auto simp: mutex_inv_def split: if_splits) (metis neq0_conv)+
  moreover have "H t \<le> 1" if "\<not> mx_rec m" for t
    using i that by (cases "mx_owner m = Some t") (auto simp: mutex_inv_def split: if_splits)
  ultimately show ?thesis using mutex_not_stolen [OF i assms(3)] by blast
qed

theorem mutex_exclusion_witness:
  "\<exists>m H. mutex_history [Try 7, Try 9, Acquire 9] (\<lparr>mx_lock = False, mx_state = MUTEX_UNLOCKED, mx_owner = None, mx_wait_queue = None, mx_rcc = 0, mx_rec = False\<rparr>, \<lambda>_. 0) =
    Some (m, H) \<and> 0 < H 7 \<and> mx_owner m = Some 7"
proof -
  let ?m = "\<lparr>mx_lock = False, mx_state = MUTEX_UNLOCKED, mx_owner = None, mx_wait_queue = None, mx_rcc = 0, mx_rec = False\<rparr>"
  have c: "mutex_create (Some ?m) False False = Some ?m" by (simp add: mutex_create_def queue_init_def)
  obtain m H where h: "mutex_history [Try 7, Try 9, Acquire 9] (?m, \<lambda>_. 0) = Some (m, H)" "0 < H 7"
    by (simp add: mutex_trylock_def mutex_lock_round_def EBUSY_def)
  from mutex_exclusion [OF c h(1)] show ?thesis using h by auto
qed

text \<open>
  C33. A task that waits gets the mutex: when the other tasks leave it unlocked at some yield, and
  until then keep it locked, \<open>mutex_lock\<close> returns 0 with the task as the owner.
\<close>

theorem mutex_lock_succeeds:
  assumes "\<And>j. j < n \<Longrightarrow> mx_state (seen others m j) = MUTEX_LOCKED" "mx_state (seen others m n) = MUTEX_UNLOCKED"
    and "\<And>j. \<not> mx_lock (seen others m j) \<and> mx_owner (seen others m j) \<noteq> Some t"
  shows "\<exists>m'. mutex_lock others (Some t) (Some m) = Some (0, Some m') \<and> mx_state m' = MUTEX_LOCKED \<and> mx_owner m' = Some t \<and> mx_rcc m' = 1"
  using lock_loop_waits [where k = 0 and n = n and others = others and m = m and c = "Some t"] assms by (simp add: mutex_lock_def)

theorem mutex_lock_succeeds_witness:
  "\<exists>m'. mutex_lock (\<lambda>k m. if k = 2 then m\<lparr>mx_state := MUTEX_UNLOCKED, mx_owner := None, mx_rcc := 0\<rparr> else m) (Some 9)
    (Some \<lparr>mx_lock = False, mx_state = MUTEX_LOCKED, mx_owner = Some 7, mx_wait_queue = None, mx_rcc = 1, mx_rec = False\<rparr>) = Some (0, Some m') \<and>
    mx_owner m' = Some 9"
proof -
  let ?o = "\<lambda>k m. if k = 2 then m\<lparr>mx_state := MUTEX_UNLOCKED, mx_owner := None, mx_rcc := 0\<rparr> else m"
  let ?m = "\<lparr>mx_lock = False, mx_state = MUTEX_LOCKED, mx_owner = Some 7, mx_wait_queue = None, mx_rcc = 1, mx_rec = False\<rparr>"
  have "seen ?o ?m j = (if j < 3 then ?m else ?m\<lparr>mx_state := MUTEX_UNLOCKED, mx_owner := None, mx_rcc := 0\<rparr>)" for j
    by (induction j) auto
  then have "\<And>j. j < 3 \<Longrightarrow> mx_state (seen ?o ?m j) = MUTEX_LOCKED" "mx_state (seen ?o ?m 3) = MUTEX_UNLOCKED"
    "\<And>j. \<not> mx_lock (seen ?o ?m j) \<and> mx_owner (seen ?o ?m j) \<noteq> Some 9" by auto
  from mutex_lock_succeeds [OF this] show ?thesis by blast
qed

text \<open>
  While there is no current task, a free mutex counts as owned by the caller: \<open>mutex_lock\<close> and
  \<open>mutex_trylock\<close> refuse a free mutex as a deadlock, and on a recursive one they report success without locking it.
\<close>

lemma mutex_without_task:
  assumes "\<not> mx_lock m" "mx_state m = MUTEX_UNLOCKED" "mx_owner m = None"
  shows "mutex_lock others None (Some m) =
      Some (if mx_rec m then (0, Some (m\<lparr>mx_rcc := mx_rcc m + 1\<rparr>)) else (- EDEADLK, Some m)) \<and>
    mutex_trylock None (Some m) =
      Some (if mx_rec m then (0, Some (m\<lparr>mx_rcc := mx_rcc m + 1\<rparr>)) else (- EDEADLK, Some m))"
  using assms by (simp add: mutex_lock_def mutex_trylock_def mutex_lock_loop.simps mutex_lock_round_def)

end
