(* ===== verification/Vma.thy ===== *)
theory Vma
  imports Prelude
begin

text \<open>
  The virtual memory areas of a process, \<^verbatim>\<open>kernel/memory/vma.cpp\<close>: a doubly linked list of areas
  in a heap, sorted by address, with the manager's count of the mapped bytes. The names of areas are
  strings in a heap of their own. The results of \<open>malloc\<close> are arguments; the serial log lines of
  \<open>vma_manager_clone\<close> have no effect on the state and are left out.
\<close>

section \<open>Structures\<close>

datatype vma_type = VMA_TYPE_ANON | VMA_TYPE_FILE | VMA_TYPE_SHM

record vma =
  vm_start :: u64
  vm_end :: u64
  vm_flags :: u64
  vm_type :: vma_type
  vm_fd :: int
  vm_offset :: u64
  shm_id :: int
  vm_name :: ptr
  vm_next :: ptr
  vm_prev :: ptr

record vma_manager =
  vma_list :: ptr
  vm_total :: u64
  vm_used :: u64

record vspace =
  vs_vma :: "addr \<rightharpoonup> vma"
  vs_name :: "addr \<rightharpoonup> u8 list"

definition upd_vma :: "vspace \<Rightarrow> ptr \<Rightarrow> (vma \<Rightarrow> vma) \<Rightarrow> vspace option" where
  "upd_vma s p f = do { h \<leftarrow> upd (vs_vma s) p f; Some (s\<lparr>vs_vma := h\<rparr>) }"

section \<open>Operations\<close>

definition fresh_vma :: vma where
  "fresh_vma = \<lparr>vm_start = 0, vm_end = 0, vm_flags = 0, vm_type = VMA_TYPE_ANON, vm_fd = - 1, vm_offset = 0, shm_id = - 1,
     vm_name = None, vm_next = None, vm_prev = None\<rparr>"

definition vma_alloc :: "vspace \<Rightarrow> ptr \<Rightarrow> ptr \<times> vspace" where
  "vma_alloc s block = (case block of None \<Rightarrow> (None, s) | Some a \<Rightarrow> (Some a, s\<lparr>vs_vma := (vs_vma s)(a \<mapsto> fresh_vma)\<rparr>))"

definition vma_free :: "vspace \<Rightarrow> ptr \<Rightarrow> vspace option" where
  "vma_free s p =
     (if p = None then Some s
      else do {
        v \<leftarrow> deref (vs_vma s) p;
        names \<leftarrow> release (vs_name s) (vm_name v);
        h \<leftarrow> release (vs_vma s) p;
        Some (s\<lparr>vs_vma := h, vs_name := names\<rparr>)
      })"

partial_function (option) vma_find_loop :: "(addr \<rightharpoonup> vma) \<Rightarrow> u64 \<Rightarrow> ptr \<Rightarrow> ptr option" where
  "vma_find_loop h a p =
     (if p = None then Some None
      else do {
          v \<leftarrow> deref h p;
          if vm_start v \<le> a \<and> a < vm_end v then Some p else vma_find_loop h a (vm_next v)
        })"

definition vma_find :: "vspace \<Rightarrow> vma_manager \<Rightarrow> u64 \<Rightarrow> ptr option" where
  "vma_find s mgr a = vma_find_loop (vs_vma s) a (vma_list mgr)"

definition intersects :: "u64 \<Rightarrow> u64 \<Rightarrow> vma \<Rightarrow> bool" where
  "intersects start fin v \<longleftrightarrow> \<not> (fin \<le> vm_start v \<or> vm_end v \<le> start)"

partial_function (option) vma_intersect_loop :: "(addr \<rightharpoonup> vma) \<Rightarrow> u64 \<Rightarrow> u64 \<Rightarrow> ptr \<Rightarrow> ptr option" where
  "vma_intersect_loop h start fin p =
     (if p = None then Some None
      else do {
          v \<leftarrow> deref h p;
          if intersects start fin v then Some p else vma_intersect_loop h start fin (vm_next v)
        })"

definition vma_find_intersection :: "vspace \<Rightarrow> vma_manager \<Rightarrow> u64 \<Rightarrow> u64 \<Rightarrow> ptr option" where
  "vma_find_intersection s mgr start fin = vma_intersect_loop (vs_vma s) start fin (vma_list mgr)"

partial_function (option) insert_position :: "(addr \<rightharpoonup> vma) \<Rightarrow> u64 \<Rightarrow> ptr \<Rightarrow> ptr \<Rightarrow> (ptr \<times> ptr) option" where
  "insert_position h start prev p =
     (if p = None then Some (prev, None)
      else do {
          v \<leftarrow> deref h p;
          if vm_start v < start then insert_position h start p (vm_next v) else Some (prev, p)
        })"

definition vma_insert :: "vspace \<Rightarrow> vma_manager \<Rightarrow> ptr \<Rightarrow> (int \<times> vspace \<times> vma_manager) option" where
  "vma_insert s mgr new_vma =
     (if new_vma = None then Some (- 1, s, mgr)
      else do {
        nv \<leftarrow> deref (vs_vma s) new_vma;
        hit \<leftarrow> vma_find_intersection s mgr (vm_start nv) (vm_end nv);
        if hit \<noteq> None then Some (- 1, s, mgr)
        else do {
          (prev, p) \<leftarrow> insert_position (vs_vma s) (vm_start nv) None (vma_list mgr);
          s \<leftarrow> upd_vma s new_vma (\<lambda>v. v\<lparr>vm_next := p, vm_prev := prev\<rparr>);
          (s, mgr) \<leftarrow> (if prev \<noteq> None then do { s \<leftarrow> upd_vma s prev (\<lambda>v. v\<lparr>vm_next := new_vma\<rparr>); Some (s, mgr) }
                       else Some (s, mgr\<lparr>vma_list := new_vma\<rparr>));
          s \<leftarrow> (if p \<noteq> None then upd_vma s p (\<lambda>v. v\<lparr>vm_prev := new_vma\<rparr>) else Some s);
          Some (0, s, mgr\<lparr>vm_used := vm_used mgr + (vm_end nv - vm_start nv)\<rparr>)
        }
      })"

text \<open>Unlinking, the part \<open>vma_remove\<close> and \<open>vma_manager_exit_cleanup\<close> have in common.\<close>

definition vma_unlink :: "vspace \<Rightarrow> vma_manager \<Rightarrow> vma \<Rightarrow> (vspace \<times> vma_manager) option" where
  "vma_unlink s mgr v = do {
     (s, mgr) \<leftarrow> (if vm_prev v \<noteq> None then do { s \<leftarrow> upd_vma s (vm_prev v) (\<lambda>u. u\<lparr>vm_next := vm_next v\<rparr>); Some (s, mgr) }
                  else Some (s, mgr\<lparr>vma_list := vm_next v\<rparr>));
     s \<leftarrow> (if vm_next v \<noteq> None then upd_vma s (vm_next v) (\<lambda>u. u\<lparr>vm_prev := vm_prev v\<rparr>) else Some s);
     Some (s, mgr\<lparr>vm_used := vm_used mgr - (vm_end v - vm_start v)\<rparr>)
   }"

definition vma_remove :: "vspace \<Rightarrow> vma_manager \<Rightarrow> ptr \<Rightarrow> (int \<times> vspace \<times> vma_manager) option" where
  "vma_remove s mgr p =
     (if p = None then Some (- 1, s, mgr)
      else do {
        v \<leftarrow> deref (vs_vma s) p;
        (s, mgr) \<leftarrow> vma_unlink s mgr v;
        Some (0, s, mgr)
      })"

text \<open>\<open>strdup\<close> writes through the result of \<open>malloc\<close> without a check, so a failed allocation has no result.\<close>

definition dup_name :: "vspace \<Rightarrow> ptr \<Rightarrow> ptr \<Rightarrow> (ptr \<times> vspace) option" where
  "dup_name s name block =
     (if name = None then Some (None, s)
      else do {
        text \<leftarrow> deref (vs_name s) name;
        b \<leftarrow> block;
        Some (Some b, s\<lparr>vs_name := (vs_name s)(b \<mapsto> text)\<rparr>)
      })"

definition vma_split :: "vspace \<Rightarrow> ptr \<Rightarrow> u64 \<Rightarrow> ptr \<Rightarrow> ptr \<Rightarrow> (int \<times> vspace) option" where
  "vma_split s p a block name_block =
     (if p = None then Some (- 1, s)
      else do {
        v \<leftarrow> deref (vs_vma s) p;
        if a \<le> vm_start v \<or> vm_end v \<le> a then Some (- 1, s)
        else do {
          let (new_vma, s) = vma_alloc s block;
          if new_vma = None then Some (- 1, s)
          else do {
            (name, s) \<leftarrow> dup_name s (vm_name v) name_block;
            let nv = v\<lparr>vm_start := a, vm_next := vm_next v, vm_prev := p, vm_name := name\<rparr>;
            let nv = (if vm_type v = VMA_TYPE_FILE then nv\<lparr>vm_offset := vm_offset nv + (a - vm_start v)\<rparr> else nv);
            s \<leftarrow> upd_vma s new_vma (\<lambda>_. nv);
            s \<leftarrow> upd_vma s p (\<lambda>v. v\<lparr>vm_end := a, vm_next := new_vma\<rparr>);
            s \<leftarrow> (if vm_next nv \<noteq> None then upd_vma s (vm_next nv) (\<lambda>v. v\<lparr>vm_prev := new_vma\<rparr>) else Some s);
            Some (0, s)
          }
        }
      })"

definition vma_merge :: "vspace \<Rightarrow> ptr \<Rightarrow> ptr \<Rightarrow> (int \<times> vspace) option" where
  "vma_merge s p1 p2 =
     (if p1 = None \<or> p2 = None then Some (- 1, s)
      else do {
        v1 \<leftarrow> deref (vs_vma s) p1;
        v2 \<leftarrow> deref (vs_vma s) p2;
        if vm_end v1 \<noteq> vm_start v2 then Some (- 1, s)
        else if vm_flags v1 \<noteq> vm_flags v2 \<or> vm_type v1 \<noteq> vm_type v2 \<or> vm_fd v1 \<noteq> vm_fd v2 then Some (- 1, s)
        else do {
          s \<leftarrow> upd_vma s p1 (\<lambda>v. v\<lparr>vm_end := vm_end v2, vm_next := vm_next v2\<rparr>);
          s \<leftarrow> (if vm_next v2 \<noteq> None then upd_vma s (vm_next v2) (\<lambda>v. v\<lparr>vm_prev := p1\<rparr>) else Some s);
          s \<leftarrow> vma_free s p2;
          Some (0, s)
        }
      })"

text \<open>
  The loop of \<open>vma_unmap_range\<close>. Only one area can contain the whole range, so \<open>vma_split\<close> is called at
  most once; its allocations are the last two arguments.
\<close>

partial_function (option) unmap_loop ::
  "vspace \<Rightarrow> vma_manager \<Rightarrow> u64 \<Rightarrow> u64 \<Rightarrow> ptr \<Rightarrow> ptr \<Rightarrow> ptr \<Rightarrow> (int \<times> vspace \<times> vma_manager) option" where
  "unmap_loop s mgr start fin p block name_block =
     (if p = None then Some (0, s, mgr)
      else do {
          v \<leftarrow> deref (vs_vma s) p;
          if vm_end v \<le> start then unmap_loop s mgr start fin (vm_next v) block name_block
          else if fin \<le> vm_start v then Some (0, s, mgr)
          else if start \<le> vm_start v \<and> vm_end v \<le> fin then do {
            let nxt = vm_next v;
            (r, s, mgr) \<leftarrow> vma_remove s mgr p;
            s \<leftarrow> vma_free s p;
            unmap_loop s mgr start fin nxt block name_block
          }
          else if vm_start v < start \<and> fin < vm_end v then do {
            (r, s) \<leftarrow> vma_split s p fin block name_block;
            if r \<noteq> 0 then Some (- 1, s, mgr)
            else do {
              s \<leftarrow> upd_vma s p (\<lambda>v. v\<lparr>vm_end := start\<rparr>);
              let mgr = mgr\<lparr>vm_used := vm_used mgr - (fin - start)\<rparr>;
              v \<leftarrow> deref (vs_vma s) p;
              unmap_loop s mgr start fin (vm_next v) block name_block
            }
          }
          else if vm_start v < start then do {
            let old_end = vm_end v;
            s \<leftarrow> upd_vma s p (\<lambda>v. v\<lparr>vm_end := start\<rparr>);
            let mgr = mgr\<lparr>vm_used := vm_used mgr - (old_end - start)\<rparr>;
            unmap_loop s mgr start fin (vm_next v) block name_block
          }
          else if fin < vm_end v then do {
            let old_start = vm_start v;
            s \<leftarrow> upd_vma s p (\<lambda>v. v\<lparr>vm_start := fin, vm_offset := (if vm_type v = VMA_TYPE_FILE then vm_offset v + (fin - old_start) else vm_offset v)\<rparr>);
            Some (0, s, mgr\<lparr>vm_used := vm_used mgr - (fin - old_start)\<rparr>)
          }
          else unmap_loop s mgr start fin (vm_next v) block name_block
        })"

definition vma_unmap_range :: "vspace \<Rightarrow> vma_manager option \<Rightarrow> u64 \<Rightarrow> u64 \<Rightarrow> ptr \<Rightarrow> ptr \<Rightarrow> (int \<times> vspace \<times> vma_manager option) option" where
  "vma_unmap_range s mgr start fin block name_block =
     (case mgr of None \<Rightarrow> Some (- 1, s, None)
      | Some m \<Rightarrow>
          if fin \<le> start then Some (- 1, s, mgr)
          else do { (r, s, m) \<leftarrow> unmap_loop s m start fin (vma_list m) block name_block; Some (r, s, Some m) })"

partial_function (option) cleanup_loop :: "vspace \<Rightarrow> vma_manager \<Rightarrow> ptr \<Rightarrow> (vspace \<times> vma_manager) option" where
  "cleanup_loop s mgr p =
     (if p = None then Some (s, mgr)
      else do {
          v \<leftarrow> deref (vs_vma s) p;
          let nxt = vm_next v;
          (s, mgr) \<leftarrow> vma_unlink s mgr v;
          s \<leftarrow> vma_free s p;
          cleanup_loop s mgr nxt
        })"

definition vma_manager_exit_cleanup :: "vspace \<Rightarrow> vma_manager option \<Rightarrow> (vspace \<times> vma_manager option) option" where
  "vma_manager_exit_cleanup s mgr =
     (case mgr of None \<Rightarrow> Some (s, None)
      | Some m \<Rightarrow> do {
          (s, m) \<leftarrow> cleanup_loop s m (vma_list m);
          Some (s, Some \<lparr>vma_list = None, vm_total = 0, vm_used = 0\<rparr>)
        })"

definition vma_clone_name :: "vspace \<Rightarrow> vma \<Rightarrow> ptr \<Rightarrow> (bool \<times> ptr \<times> vspace) option" where
  "vma_clone_name s src block =
     (if vm_name src = None then Some (True, None, s)
      else do {
        text \<leftarrow> deref (vs_name s) (vm_name src);
        case block of None \<Rightarrow> Some (False, None, s)
        | Some b \<Rightarrow> Some (True, Some b, s\<lparr>vs_name := (vs_name s)(b \<mapsto> text)\<rparr>)
      })"

partial_function (option) overlap_loop :: "(addr \<rightharpoonup> vma) \<Rightarrow> ptr \<Rightarrow> vma \<Rightarrow> ptr \<Rightarrow> bool option" where
  "overlap_loop h src v p =
     (if p = None then Some False
      else do {
          u \<leftarrow> deref h p;
          if p \<noteq> src \<and> intersects (vm_start v) (vm_end v) u then Some True
          else overlap_loop h src v (vm_next u)
        })"

definition copy_fields :: "vma \<Rightarrow> vma \<Rightarrow> vma" where
  "copy_fields src new =
     new\<lparr>vm_start := vm_start src, vm_end := vm_end src, vm_flags := vm_flags src, vm_type := vm_type src, vm_fd := vm_fd src,
        vm_offset := vm_offset src, shm_id := shm_id src\<rparr>"

text \<open>\<open>blocks\<close> are the results of the two \<open>malloc\<close> calls of each round; when they run out, the calls fail.\<close>

partial_function (option) clone_loop ::
  "vspace \<Rightarrow> ptr \<Rightarrow> vma_manager \<Rightarrow> ptr \<Rightarrow> (ptr \<times> ptr) list \<Rightarrow> (bool \<times> vspace \<times> vma_manager) option" where
  "clone_loop s src_list dst p blocks =
     (if p = None then Some (True, s, dst)
      else do {
          v \<leftarrow> deref (vs_vma s) p;
          let fail = (\<lambda>s. do { (s, d) \<leftarrow> vma_manager_exit_cleanup s (Some dst); d \<leftarrow> d; Some (False, s, d) });
          if vm_end v \<le> vm_start v then fail s
          else do {
            bad \<leftarrow> overlap_loop (vs_vma s) p v src_list;
            if bad then fail s
            else do {
              let (block, name_block) = (case blocks of [] \<Rightarrow> (None, None) | b # bs \<Rightarrow> b);
              let (new_vma, s) = vma_alloc s block;
              if new_vma = None then fail s
              else do {
                s \<leftarrow> upd_vma s new_vma (copy_fields v);
                (ok, name, s) \<leftarrow> vma_clone_name s v name_block;
                s \<leftarrow> upd_vma s new_vma (\<lambda>u. u\<lparr>vm_name := name\<rparr>);
                if ok = False then do { s \<leftarrow> vma_free s new_vma; fail s }
                else do {
                  (r, s, dst) \<leftarrow> vma_insert s dst new_vma;
                  if r \<noteq> 0 then do {
                    s \<leftarrow> vma_free s new_vma;
                    (s, d) \<leftarrow> vma_manager_exit_cleanup s (Some dst);
                    d \<leftarrow> d;
                    Some (False, s, d)
                  }
                  else clone_loop s src_list dst (vm_next v) (tl blocks)
                }
              }
            }
          }
        })"

definition vma_manager_clone ::
  "vspace \<Rightarrow> vma_manager option \<Rightarrow> vma_manager option \<Rightarrow> (ptr \<times> ptr) list \<Rightarrow> (bool \<times> vspace \<times> vma_manager option) option" where
  "vma_manager_clone s src_mgr dst_mgr blocks =
     (case (src_mgr, dst_mgr) of
        (Some src, Some dst) \<Rightarrow> do {
          let dst = dst\<lparr>vma_list := None, vm_total := vm_total src, vm_used := 0\<rparr>;
          (ok, s, dst) \<leftarrow> clone_loop s (vma_list src) dst (vma_list src) blocks;
          Some (ok, s, Some dst)
        }
      | _ \<Rightarrow> Some (False, s, dst_mgr))"

section \<open>The list of areas\<close>

text \<open>The value of an area is the structure without its links; that of a manager is the list of its areas.\<close>

definition area :: "vma \<Rightarrow> vma" where
  "area v = v\<lparr>vm_next := None, vm_prev := None\<rparr>"

interpretation vl: dll_payload vm_next vm_prev "\<lambda>p v. v\<lparr>vm_next := p\<rparr>" "\<lambda>p v. v\<lparr>vm_prev := p\<rparr>" area
  by unfold_locales (simp_all add: area_def)

abbreviation areas :: "vspace \<Rightarrow> addr list \<Rightarrow> vma list" where
  "areas s xs \<equiv> payloads area (vs_vma s) xs"

abbreviation chain :: "vspace \<Rightarrow> ptr \<Rightarrow> addr list \<Rightarrow> bool" where
  "chain s f xs \<equiv> \<exists>l. dll vm_next vm_prev (vs_vma s) f xs l"

lemma area_fields [simp]:
  "vm_start (area v) = vm_start v" "vm_end (area v) = vm_end v" "vm_flags (area v) = vm_flags v" "vm_type (area v) = vm_type v"
  "vm_fd (area v) = vm_fd v" "vm_offset (area v) = vm_offset v" "shm_id (area v) = shm_id v" "vm_name (area v) = vm_name v"
  by (simp_all add: area_def)

text \<open>Each area owns its name.\<close>

fun names :: "vma list \<Rightarrow> addr list" where
  "names [] = []"
| "names (v # vs) = (case vm_name v of None \<Rightarrow> names vs | Some n \<Rightarrow> n # names vs)"

lemma names_append [simp]: "names (vs @ ws) = names vs @ names ws"
  by (induction vs) (auto split: option.split)

definition names_ok :: "(addr \<rightharpoonup> u8 list) \<Rightarrow> vma list \<Rightarrow> bool" where
  "names_ok h vs \<longleftrightarrow> distinct (names vs) \<and> set (names vs) \<subseteq> dom h"

definition length_of :: "vma \<Rightarrow> u64" where
  "length_of v = vm_end v - vm_start v"

definition vmas_at :: "vspace \<Rightarrow> vma_manager \<Rightarrow> addr list \<Rightarrow> bool" where
  "vmas_at s mgr xs \<longleftrightarrow> chain s (vma_list mgr) xs \<and> names_ok (vs_name s) (areas s xs) \<and> vm_used mgr = sum_list (map length_of (areas s xs))"

definition areas_ok :: "vma list \<Rightarrow> bool" where
  "areas_ok vs \<longleftrightarrow> (\<forall>v \<in> set vs. vm_start v < vm_end v) \<and> sorted_wrt (\<lambda>u v. vm_end u \<le> vm_start v) vs"

section \<open>Lists in the heap\<close>

lemma upd_vma_Some: "vs_vma s a \<noteq> None \<Longrightarrow> upd_vma s (Some a) f = Some (s\<lparr>vs_vma := (vs_vma s)(a \<mapsto> f (the (vs_vma s a)))\<rparr>)"
  by (auto simp: upd_vma_def)

lemma chain_node:
  assumes "chain s f (xs @ a # ys)"
  shows "\<exists>v. vs_vma s a = Some v \<and> vm_next v = first_of ys \<and> vm_prev v = last_of xs"
proof -
  obtain l where l: "dll vm_next vm_prev (vs_vma s) f (xs @ a # ys) l" using assms by blast
  then have "dll vm_next vm_prev (vs_vma s) f ((xs @ [a]) @ ys) l" by simp
  from dll_ends(1) [OF this] dll_ends(2) [OF l] show ?thesis by auto
qed

lemma chain_first: "chain s f xs \<Longrightarrow> f = first_of xs"
  by (cases xs) (auto simp: dll_def)

lemma last_of_cases: "last_of xs = Some b \<Longrightarrow> \<exists>zs. xs = zs @ [b]"
  by (cases xs rule: rev_cases) (auto simp: last_of_def)

lemma first_of_cases: "first_of ys = Some c \<Longrightarrow> \<exists>zs. ys = c # zs"
  by (cases ys) auto

lemma vma_unlink_eq:
  assumes "chain s (vma_list mgr) (xs @ a # ys)" "vs_vma s a = Some v"
  shows "vma_unlink s mgr v = Some (s\<lparr>vs_vma := vl.unlink (vs_vma s) v\<rparr>,
    mgr\<lparr>vma_list := (if vm_prev v = None then vm_next v else vma_list mgr), vm_used := vm_used mgr - (vm_end v - vm_start v)\<rparr>)"
proof -
  have n: "vm_next v = first_of ys" "vm_prev v = last_of xs" using chain_node [OF assms(1)] assms(2) by auto
  have d: "vs_vma s b \<noteq> None" if "b \<in> set xs \<union> set ys" for b using assms(1) that by (auto dest: dll_dom)
  have p: "vs_vma s b \<noteq> None" if "last_of xs = Some b" for b using d last_of_cases [OF that] by auto
  have q: "vs_vma s c \<noteq> None" if "first_of ys = Some c" for c using d first_of_cases [OF that] by auto
  show ?thesis using n p q
    by (cases "last_of xs"; cases "first_of ys") (simp_all add: vma_unlink_def vl.unlink_def Let_def upd_vma_Some)
qed

lemma names_ok_drop:
  assumes "names_ok h (vs @ v # ws)"
  shows "\<exists>h'. release h (vm_name v) = Some h' \<and> names_ok h' (vs @ ws) \<and> (\<forall>n. h n = None \<longrightarrow> h' n = None)"
proof (cases "vm_name v")
  case None
  then show ?thesis using assms by (auto simp: names_ok_def)
next
  case (Some n)
  then have "h n \<noteq> None" using assms by (auto simp: names_ok_def)
  then have "release h (vm_name v) = Some (h(n := None))" using Some by auto
  moreover have "names_ok (h(n := None)) (vs @ ws)" using assms Some by (auto simp: names_ok_def)
  ultimately show ?thesis by auto
qed

lemma areas_split: "areas s (xs @ a # ys) = areas s xs @ area (the (vs_vma s a)) # areas s ys"
  by (simp add: payloads_append payloads_Cons)

lemma drop_vma:
  assumes "chain s (vma_list mgr) (xs @ a # ys)" "names_ok (vs_name s) (areas s (xs @ a # ys))" "vs_vma s a = Some v"
  shows "\<exists>s1 s' mgr'. vma_remove s mgr (Some a) = Some (0, s1, mgr') \<and> vma_unlink s mgr v = Some (s1, mgr') \<and> vma_free s1 (Some a) = Some s' \<and>
    chain s' (vma_list mgr') (xs @ ys) \<and> areas s' (xs @ ys) = areas s (xs @ ys) \<and> names_ok (vs_name s') (areas s (xs @ ys)) \<and>
    vm_used mgr' = vm_used mgr - length_of v \<and> unchanged_off (set (xs @ a # ys)) (vs_vma s) (vs_vma s') \<and> vs_vma s' a = None \<and>
    (\<forall>n. vs_name s n = None \<longrightarrow> vs_name s' n = None)"
proof -
  obtain l where l: "dll vm_next vm_prev (vs_vma s) (vma_list mgr) (xs @ a # ys) l" using assms(1) by blast
  let ?h = "vl.unlink (vs_vma s) v"
  let ?mgr = "mgr\<lparr>vma_list := (if vm_prev v = None then vm_next v else vma_list mgr), vm_used := vm_used mgr - (vm_end v - vm_start v)\<rparr>"
  have a: "a \<notin> set xs" "a \<notin> set ys" using l by (auto simp: dll_def)
  have ha: "?h a = Some v" using vl.unlink_other [OF l assms(3) a] assms(3) by simp
  have d: "dll vm_next vm_prev ?h (vma_list ?mgr) (xs @ ys) (if vm_next v = None then vm_prev v else l)" using vl.dll_unlink [OF l assms(3)] by simp
  obtain nm where nm: "release (vs_name s) (vm_name v) = Some nm" "names_ok nm (areas s (xs @ ys))" "\<forall>n. vs_name s n = None \<longrightarrow> nm n = None"
    using names_ok_drop [OF assms(2) [unfolded areas_split]] assms(3) by (auto simp: payloads_append)
  let ?s1 = "s\<lparr>vs_vma := ?h\<rparr>" and ?s2 = "s\<lparr>vs_vma := ?h(a := None), vs_name := nm\<rparr>"
  have u: "vma_unlink s mgr v = Some (?s1, ?mgr)" by (rule vma_unlink_eq [OF assms(1,3)])
  then have r: "vma_remove s mgr (Some a) = Some (0, ?s1, ?mgr)" using assms(3) by (simp add: vma_remove_def)
  have fre: "vma_free ?s1 (Some a) = Some ?s2" using ha nm(1) by (simp add: vma_free_def)
  have fr: "a \<notin> set (xs @ ys)" using a by simp
  have "dll vm_next vm_prev (?h(a := None)) (vma_list ?mgr) (xs @ ys) (if vm_next v = None then vm_prev v else l)"
    using d by (simp only: dll_frame [OF fr])
  moreover have sel: "vs_vma ?s2 = ?h(a := None)" by simp
  ultimately have "chain ?s2 (vma_list ?mgr) (xs @ ys)" unfolding sel by blast
  moreover have "areas ?s2 (xs @ ys) = areas s (xs @ ys)" using vl.payloads_unlink [OF l assms(3)] a by simp
  moreover note r fre
  moreover have "unchanged_off (set (xs @ a # ys)) (vs_vma s) (vs_vma ?s2)"
    using vl.unlink_other [OF l assms(3)] by (auto simp: unchanged_off_def)
  moreover have "vm_used ?mgr = vm_used mgr - length_of v" "vs_vma ?s2 a = None" "names_ok (vs_name ?s2) (areas s (xs @ ys))"
    "\<forall>n. vs_name s n = None \<longrightarrow> vs_name ?s2 n = None"
    using nm(2,3) by (simp_all add: length_of_def)
  ultimately show ?thesis using u by - (rule exI [of _ ?s1], rule exI [of _ ?s2], rule exI [of _ ?mgr], (intro conjI; assumption))
qed

text \<open>Writing fields other than the links.\<close>

lemma set_fields:
  assumes "chain s f (xs @ a # ys)" "vs_vma s a = Some v" "vm_next v' = vm_next v" "vm_prev v' = vm_prev v"
  shows "chain (s\<lparr>vs_vma := (vs_vma s)(a \<mapsto> v')\<rparr>) f (xs @ a # ys)"
    "areas (s\<lparr>vs_vma := (vs_vma s)(a \<mapsto> v')\<rparr>) (xs @ a # ys) = areas s xs @ area v' # areas s ys"
proof -
  obtain l where l: "dll vm_next vm_prev (vs_vma s) f (xs @ a # ys) l" using assms(1) by blast
  then show "chain (s\<lparr>vs_vma := (vs_vma s)(a \<mapsto> v')\<rparr>) f (xs @ a # ys)" using dll_same_links [of "vs_vma s" a v vm_next v' vm_prev] assms(2-4) by auto
  have "a \<notin> set xs" "a \<notin> set ys" using l by (auto simp: dll_def)
  then show "areas (s\<lparr>vs_vma := (vs_vma s)(a \<mapsto> v')\<rparr>) (xs @ a # ys) = areas s xs @ area v' # areas s ys" by (simp add: payloads_append payloads_Cons)
qed

text \<open>The part of an area from \<open>a\<close> on: a file area keeps its file positions.\<close>

definition from_addr :: "u64 \<Rightarrow> vma \<Rightarrow> vma" where
  "from_addr a v = v\<lparr>vm_start := a, vm_offset := (if vm_type v = VMA_TYPE_FILE then vm_offset v + (a - vm_start v) else vm_offset v)\<rparr>"

definition named :: "ptr \<Rightarrow> vma \<Rightarrow> vma" where
  "named n v = v\<lparr>vm_name := (if vm_name v = None then None else n)\<rparr>"

text \<open>The second half of a split area gets a copy of the name, for which there has to be memory when there is a name.\<close>

definition name_ready :: "vspace \<Rightarrow> ptr \<Rightarrow> vma \<Rightarrow> bool" where
  "name_ready s nb v \<longleftrightarrow> vm_name v = None \<or> (\<exists>n. nb = Some n \<and> vs_name s n = None)"

lemma vma_split_spec:
  assumes "chain s f (xs @ x # ys)" "names_ok (vs_name s) (areas s (xs @ x # ys))" "vs_vma s x = Some v"
    and "vm_start v < a" "a < vm_end v" "vs_vma s b = None" "name_ready s nb v"
  shows "\<exists>s'. vma_split s (Some x) a (Some b) nb = Some (0, s') \<and> chain s' f (xs @ x # b # ys) \<and>
    areas s' (xs @ x # b # ys) = areas s xs @ area (v\<lparr>vm_end := a\<rparr>) # area (named nb (from_addr a v)) # areas s ys \<and>
    names_ok (vs_name s') (areas s' (xs @ x # b # ys)) \<and> unchanged_off (set (xs @ x # b # ys)) (vs_vma s) (vs_vma s') \<and>
    vm_next (the (vs_vma s' x)) = Some b"
proof -
  obtain l where l: "dll vm_next vm_prev (vs_vma s) f ((xs @ [x]) @ ys) l" using assms(1) by auto
  have nx: "vm_next v = first_of ys" using chain_node [OF assms(1)] assms(3) by auto
  have b: "b \<notin> set (xs @ [x])" "b \<notin> set ys" "x \<notin> set xs" "x \<notin> set ys" "b \<noteq> x"
    using l assms(3,6) dll_dom [OF l, of b] by (auto simp: dll_def)
  let ?nv = "(named nb (from_addr a v))\<lparr>vm_next := first_of ys, vm_prev := Some x\<rparr>"
  let ?k = "vl.link (vs_vma s) (last_of (xs @ [x])) (first_of ys) b ?nv"
  let ?h = "?k(x \<mapsto> v\<lparr>vm_end := a, vm_next := Some b\<rparr>)"
  let ?nm = "if vm_name v = None then vs_name s else (vs_name s)(the nb \<mapsto> the (vs_name s (the (vm_name v))))"
  have kx: "?k x = Some (v\<lparr>vm_next := Some b\<rparr>)" using b assms(3) by (cases ys) (auto simp: vl.link_def Let_def)
  have "dll vm_next vm_prev ?k (if last_of (xs @ [x]) = None then Some b else f) ((xs @ [x]) @ b # ys) (if first_of ys = None then Some b else l)"
    by (rule vl.dll_link [OF l b(1,2)]) (simp_all add: named_def from_addr_def)
  then have d: "dll vm_next vm_prev ?h f (xs @ x # b # ys) (if first_of ys = None then Some b else l)"
    using dll_same_links [of ?k x "v\<lparr>vm_next := Some b\<rparr>" vm_next "v\<lparr>vm_end := a, vm_next := Some b\<rparr>" vm_prev] kx by simp
  have "payloads area ?k ((xs @ [x]) @ b # ys) = areas s (xs @ [x]) @ area ?nv # areas s ys" by (rule vl.payloads_link [OF l b(1,2)])
  then have k: "payloads area ?k xs = areas s xs" "payloads area ?k (b # ys) = area ?nv # areas s ys"
    by (simp_all add: payloads_append payloads_Cons)
  have ar: "payloads area ?h (xs @ x # b # ys) = areas s xs @ area (v\<lparr>vm_end := a\<rparr>) # area (named nb (from_addr a v)) # areas s ys"
    using k b by (simp add: payloads_append payloads_Cons area_def)
  have nn: "vm_name v = Some m \<Longrightarrow> vs_name s m \<noteq> None" for m using assms(2,3) by (auto simp: names_ok_def areas_split)
  have nms: "names_ok ?nm (payloads area ?h (xs @ x # b # ys))"
    unfolding ar using assms(2,3,7) by (auto simp: names_ok_def areas_split named_def from_addr_def name_ready_def split: option.splits)
  have dup: "dup_name s' (vm_name v) nb = Some (if vm_name v = None then None else nb, s'\<lparr>vs_name := ?nm\<rparr>)" if "vs_name s' = vs_name s" for s'
    using that nn assms(7) by (cases "vm_name v") (auto simp: dup_name_def name_ready_def)
  have q: "vs_vma s c \<noteq> None" if "first_of ys = Some c" for c using dll_dom [OF l, of c] first_of_cases [OF that] by auto
  have "vma_split s (Some x) a (Some b) nb = Some (0, s\<lparr>vs_vma := ?h, vs_name := ?nm\<rparr>)"
  proof (cases "first_of ys")
    case None
    then show ?thesis using assms(3-5) b nx dup
      by (cases v; cases s) (simp add: vma_split_def vma_alloc_def Let_def upd_vma_Some vl.link_def named_def from_addr_def fun_upd_twist not_le)
  next
    case (Some c)
    then have "c \<noteq> b" "c \<noteq> x" using first_of_cases [OF Some] b by auto
    then show ?thesis using assms(3-5) b nx dup q Some
      by (cases v; cases s) (simp add: vma_split_def vma_alloc_def Let_def upd_vma_Some vl.link_def named_def from_addr_def fun_upd_twist not_le)
  qed
  moreover have "unchanged_off (set (xs @ x # b # ys)) (vs_vma s) ?h" using vl.link_other [of _ "xs @ [x]" ys b] by (auto simp: unchanged_off_def)
  ultimately show ?thesis using d ar nms by (intro exI [of _ "s\<lparr>vs_vma := ?h, vs_name := ?nm\<rparr>"]) auto
qed

section \<open>Unmapping a range\<close>

fun unmap_areas :: "ptr \<Rightarrow> u64 \<Rightarrow> u64 \<Rightarrow> vma list \<Rightarrow> vma list" where
  "unmap_areas n start fin [] = []"
| "unmap_areas n start fin (v # vs) =
     (if vm_end v \<le> start then v # unmap_areas n start fin vs
      else if fin \<le> vm_start v then v # vs
      else if start \<le> vm_start v \<and> vm_end v \<le> fin then unmap_areas n start fin vs
      else if vm_start v < start \<and> fin < vm_end v then v\<lparr>vm_end := start\<rparr> # named n (from_addr fin v) # vs
      else if vm_start v < start then v\<lparr>vm_end := start\<rparr> # unmap_areas n start fin vs
      else from_addr fin v # vs)"

lemma unmap_areas_cases:
  "vm_end v \<le> start \<Longrightarrow> unmap_areas n start fin (v # vs) = v # unmap_areas n start fin vs"
  "\<not> vm_end v \<le> start \<Longrightarrow> fin \<le> vm_start v \<Longrightarrow> unmap_areas n start fin (v # vs) = v # vs"
  "\<not> vm_end v \<le> start \<Longrightarrow> \<not> fin \<le> vm_start v \<Longrightarrow> start \<le> vm_start v \<Longrightarrow> vm_end v \<le> fin \<Longrightarrow> unmap_areas n start fin (v # vs) = unmap_areas n start fin vs"
  "\<not> vm_end v \<le> start \<Longrightarrow> \<not> fin \<le> vm_start v \<Longrightarrow> vm_start v < start \<Longrightarrow> fin < vm_end v \<Longrightarrow>
    unmap_areas n start fin (v # vs) = v\<lparr>vm_end := start\<rparr> # named n (from_addr fin v) # vs"
  "\<not> vm_end v \<le> start \<Longrightarrow> \<not> fin \<le> vm_start v \<Longrightarrow> vm_start v < start \<Longrightarrow> vm_end v \<le> fin \<Longrightarrow>
    unmap_areas n start fin (v # vs) = v\<lparr>vm_end := start\<rparr> # unmap_areas n start fin vs"
  "\<not> vm_end v \<le> start \<Longrightarrow> \<not> fin \<le> vm_start v \<Longrightarrow> start \<le> vm_start v \<Longrightarrow> fin < vm_end v \<Longrightarrow> unmap_areas n start fin (v # vs) = from_addr fin v # vs"
  by auto

lemma range_cases:
  obtains (below) "vm_end v \<le> start" | (above) "\<not> vm_end v \<le> start" "fin \<le> vm_start v"
    | (inside) "\<not> vm_end v \<le> start" "\<not> fin \<le> vm_start v" "start \<le> vm_start v" "vm_end v \<le> fin"
    | (hole) "\<not> vm_end v \<le> start" "\<not> fin \<le> vm_start v" "vm_start v < start" "fin < vm_end v"
    | (left) "\<not> vm_end v \<le> start" "\<not> fin \<le> vm_start v" "vm_start v < start" "vm_end v \<le> fin"
    | (right) "\<not> vm_end v \<le> start" "\<not> fin \<le> vm_start v" "start \<le> vm_start v" "fin < vm_end v"
  by force

lemma area_upd [simp]: "area (v\<lparr>vm_end := e\<rparr>) = (area v)\<lparr>vm_end := e\<rparr>" "area (from_addr a v) = from_addr a (area v)" "area (named n v) = named n (area v)"
  by (simp_all add: area_def from_addr_def named_def)

definition unmapped_to :: "vspace \<Rightarrow> vma_manager \<Rightarrow> addr list \<Rightarrow> addr list \<Rightarrow> vma list \<Rightarrow> vspace \<Rightarrow> vma_manager \<Rightarrow> bool" where
  "unmapped_to s mgr pre ys vs s' mgr' \<longleftrightarrow> (\<exists>zs. chain s' (vma_list mgr') (pre @ zs) \<and> areas s' (pre @ zs) = areas s pre @ vs \<and>
     names_ok (vs_name s') (areas s pre @ vs) \<and>
     vm_used mgr' = vm_used mgr - sum_list (map length_of (areas s ys)) + sum_list (map length_of vs))"

lemma unmapped_refl: "chain s (vma_list mgr) (pre @ ys) \<Longrightarrow> names_ok (vs_name s) (areas s (pre @ ys)) \<Longrightarrow> unmapped_to s mgr pre ys (areas s ys) s mgr"
  by (auto simp: unmapped_to_def payloads_append)

text \<open>One more area in front of those that are already done.\<close>

lemma unmapped_shift:
  assumes "unmapped_to s mgr (pre @ [x]) ys vs s' mgr'"
  shows "unmapped_to s mgr pre (x # ys) (area (the (vs_vma s x)) # vs) s' mgr'"
proof -
  obtain zs where zs: "chain s' (vma_list mgr') ((pre @ [x]) @ zs)" "areas s' ((pre @ [x]) @ zs) = areas s (pre @ [x]) @ vs"
    "names_ok (vs_name s') (areas s (pre @ [x]) @ vs)" "vm_used mgr' = vm_used mgr - sum_list (map length_of (areas s ys)) + sum_list (map length_of vs)"
    using assms unfolding unmapped_to_def by blast
  then have "chain s' (vma_list mgr') (pre @ x # zs)" "areas s' (pre @ x # zs) = areas s pre @ area (the (vs_vma s x)) # vs"
    "names_ok (vs_name s') (areas s pre @ area (the (vs_vma s x)) # vs)"
    "vm_used mgr' = vm_used mgr - sum_list (map length_of (areas s (x # ys))) + sum_list (map length_of (area (the (vs_vma s x)) # vs))"
    by (simp_all add: payloads_append payloads_Cons algebra_simps)
  then show ?thesis unfolding unmapped_to_def by blast
qed

lemma unmap_loop_None [simp]: "unmap_loop s mgr start fin None block nb = Some (0, s, mgr)"
  by (simp add: unmap_loop.simps)

lemma chain_snoc: "chain s f (pre @ x # ys) \<longleftrightarrow> chain s f ((pre @ [x]) @ ys)"
  by simp

text \<open>The memory a split needs: a block for the second half and, when the area has a name, one for the copy of it.\<close>

definition split_ready :: "vspace \<Rightarrow> ptr \<Rightarrow> ptr \<Rightarrow> u64 \<Rightarrow> u64 \<Rightarrow> vma list \<Rightarrow> bool" where
  "split_ready s block nb start fin vs \<longleftrightarrow> (\<forall>v \<in> set vs. vm_start v < start \<and> fin < vm_end v \<longrightarrow>
     (\<exists>b. block = Some b \<and> vs_vma s b = None) \<and> name_ready s nb v)"

lemma split_readyI:
  "split_ready s block nb start fin vs \<Longrightarrow> set ws \<subseteq> set vs \<Longrightarrow> (\<And>b. vs_vma s b = None \<Longrightarrow> vs_vma s' b = None) \<Longrightarrow>
    (\<And>n. vs_name s n = None \<Longrightarrow> vs_name s' n = None) \<Longrightarrow> split_ready s' block nb start fin ws"
  by (fastforce simp: split_ready_def name_ready_def)

lemma name_ready_area [simp]: "name_ready s nb (area v) = name_ready s nb v"
  by (simp add: name_ready_def area_def)

lemma unmap_loop_spec:
  assumes "chain s (vma_list mgr) (pre @ ys)" "names_ok (vs_name s) (areas s (pre @ ys))" "start < fin"
    and "split_ready s block nb start fin (areas s ys)"
  shows "\<exists>s' mgr'. unmap_loop s mgr start fin (first_of ys) block nb = Some (0, s', mgr') \<and>
    unmapped_to s mgr pre ys (unmap_areas nb start fin (areas s ys)) s' mgr'"
  using assms
proof (induction ys arbitrary: pre s mgr)
  case Nil
  then show ?case using unmapped_refl [OF Nil.prems(1,2)] by simp
next
  case (Cons x ys)
  obtain v where v: "vs_vma s x = Some v" "vm_next v = first_of ys" "vm_prev v = last_of pre" using chain_node [OF Cons.prems(1)] by blast
  have ar: "areas s (x # ys) = area v # areas s ys" using v by (simp add: payloads_Cons)
  note step = unmap_loop.simps [of s mgr start fin "Some x" block nb]
  show ?case
  proof (cases rule: range_cases [where v = v and start = start and fin = fin])
    case below
    have "unmap_loop s mgr start fin (Some x) block nb = unmap_loop s mgr start fin (first_of ys) block nb"
      unfolding step using below v by simp
    moreover obtain s' mgr' where "unmap_loop s mgr start fin (first_of ys) block nb = Some (0, s', mgr')"
      "unmapped_to s mgr (pre @ [x]) ys (unmap_areas nb start fin (areas s ys)) s' mgr'"
      using Cons.IH [of s mgr "pre @ [x]"] Cons.prems ar by (auto simp: split_ready_def)
    ultimately show ?thesis using unmapped_shift [of s mgr pre x ys] below ar v(1) by auto
  next
    case above
    then show ?thesis unfolding first_of_simps step using v Cons.prems unmapped_refl [OF Cons.prems(1,2)] ar by auto
  next
    case inside
    from drop_vma [OF Cons.prems(1,2) v(1)] obtain s1 s2 m2 where d: "vma_remove s mgr (Some x) = Some (0, s1, m2)" "vma_free s1 (Some x) = Some s2"
      "chain s2 (vma_list m2) (pre @ ys)" "areas s2 (pre @ ys) = areas s (pre @ ys)" "names_ok (vs_name s2) (areas s (pre @ ys))"
      "vm_used m2 = vm_used mgr - length_of v" "unchanged_off (set (pre @ x # ys)) (vs_vma s) (vs_vma s2)" "\<forall>n. vs_name s n = None \<longrightarrow> vs_name s2 n = None" "vs_vma s2 x = None"
      by auto
    have a2: "areas s2 pre = areas s pre" "areas s2 ys = areas s ys" using d(4) by (simp_all add: payloads_append)
    have b: "vs_vma s2 b = None" if "vs_vma s b = None" for b
      using that d(7) dll_dom [of vm_next vm_prev "vs_vma s" _ "pre @ x # ys" _ b] Cons.prems(1) by (cases "b \<in> set (pre @ x # ys)") (auto simp: unchanged_off_def)
    have "unmap_loop s mgr start fin (Some x) block nb = unmap_loop s2 m2 start fin (first_of ys) block nb"
      unfolding step using inside v d(1,2) by simp
    moreover have bl: "split_ready s2 block nb start fin (areas s2 ys)"
      by (rule split_readyI [OF Cons.prems(4)]) (use a2 ar b d(8) in auto)
    have "names_ok (vs_name s2) (areas s2 (pre @ ys))" using d(4,5) by simp
    from Cons.IH [OF d(3) this Cons.prems(3) bl]
    obtain s' mgr' where "unmap_loop s2 m2 start fin (first_of ys) block nb = Some (0, s', mgr')"
      "unmapped_to s2 m2 pre ys (unmap_areas nb start fin (areas s2 ys)) s' mgr'" by auto
    moreover from this(2) have "unmapped_to s mgr pre (x # ys) (unmap_areas nb start fin (areas s ys)) s' mgr'"
      unfolding unmapped_to_def a2 d(6) ar by (auto simp: length_of_def algebra_simps)
    ultimately show ?thesis using inside ar by auto
  next
    case hole
    then obtain b where b: "block = Some b" "vs_vma s b = None" and nr: "name_ready s nb v" using Cons.prems(4) ar by (auto simp: split_ready_def)
    have lt: "vm_start v < fin" using hole(2) by simp
    from vma_split_spec [OF Cons.prems(1,2) v(1) lt hole(4) b(2) nr]
    obtain s1 where s1: "vma_split s (Some x) fin (Some b) nb = Some (0, s1)" "chain s1 (vma_list mgr) (pre @ x # b # ys)"
      "areas s1 (pre @ x # b # ys) = areas s pre @ area (v\<lparr>vm_end := fin\<rparr>) # area (named nb (from_addr fin v)) # areas s ys"
      "names_ok (vs_name s1) (areas s1 (pre @ x # b # ys))" "vm_next (the (vs_vma s1 x)) = Some b" by blast
    obtain u where u: "vs_vma s1 x = Some u" using chain_node [OF s1(2)] by blast
    obtain w where w: "vs_vma s1 b = Some w" using chain_node [of s1 "vma_list mgr" "pre @ [x]" b ys] s1(2) by auto
    have f: "areas s1 pre = areas s pre" "area u = area (v\<lparr>vm_end := fin\<rparr>)" "area w = area (named nb (from_addr fin v))" "areas s1 ys = areas s ys"
      using s1(3) u w by (simp_all add: payloads_append payloads_Cons)
    have bx: "b \<noteq> x" using s1(2) by (auto simp: dll_def)
    let ?s2 = "s1\<lparr>vs_vma := (vs_vma s1)(x \<mapsto> u\<lparr>vm_end := start\<rparr>)\<rparr>" and ?m2 = "mgr\<lparr>vm_used := vm_used mgr - (fin - start)\<rparr>"
    note sf = set_fields [OF s1(2) u, of "u\<lparr>vm_end := start\<rparr>", simplified]
    have "vm_start w = fin" "vm_end w = vm_end v" using arg_cong [OF f(3), of vm_start] arg_cong [OF f(3), of vm_end] by (simp_all add: named_def from_addr_def)
    then have "unmap_loop ?s2 ?m2 start fin (Some b) (Some b) nb = Some (0, ?s2, ?m2)"
      using hole(1) w bx by (subst unmap_loop.simps) simp
    moreover have "vm_next u = Some b" using s1(5) u by simp
    ultimately have run: "unmap_loop s mgr start fin (Some x) block nb = Some (0, ?s2, ?m2)"
      unfolding step using hole v s1(1) b(1) u by (auto simp: upd_vma_Some)
    have res: "unmap_areas nb start fin (areas s (x # ys)) = area (v\<lparr>vm_end := start\<rparr>) # area (named nb (from_addr fin v)) # areas s ys"
      using hole ar by auto
    have au: "area (u\<lparr>vm_end := start\<rparr>) = area (v\<lparr>vm_end := start\<rparr>)" using f(2) by simp
    have a2: "areas ?s2 (pre @ x # b # ys) = areas s pre @ area (v\<lparr>vm_end := start\<rparr>) # area (named nb (from_addr fin v)) # areas s ys"
      using sf(2) f au w by (simp add: payloads_Cons)
    have "unmapped_to s mgr pre (x # ys) (unmap_areas nb start fin (areas s (x # ys))) ?s2 ?m2"
      unfolding unmapped_to_def res
      using sf(1) a2 s1(3,4) ar by (intro exI [of _ "x # b # ys"]) (auto simp: names_ok_def length_of_def named_def from_addr_def algebra_simps)
    then show ?thesis using run by auto
  next
    case left
    let ?s1 = "s\<lparr>vs_vma := (vs_vma s)(x \<mapsto> v\<lparr>vm_end := start\<rparr>)\<rparr>" and ?m1 = "mgr\<lparr>vm_used := vm_used mgr - (vm_end v - start)\<rparr>"
    note sf = set_fields [OF Cons.prems(1) v(1), of "v\<lparr>vm_end := start\<rparr>", simplified]
    have run: "unmap_loop s mgr start fin (Some x) block nb = unmap_loop ?s1 ?m1 start fin (first_of ys) block nb"
      unfolding step using left v by (auto simp: upd_vma_Some)
    have xs: "x \<notin> set ys" "x \<notin> set pre" using Cons.prems(1) by (auto simp: dll_def)
    then have a1: "areas ?s1 ys = areas s ys" "areas ?s1 pre = areas s pre" by simp_all
    have nm: "names_ok (vs_name ?s1) (areas ?s1 ((pre @ [x]) @ ys))" using Cons.prems(2) sf(2) v(1) by (simp add: names_ok_def areas_split)
    have bl: "split_ready ?s1 block nb start fin (areas ?s1 ys)"
      by (rule split_readyI [OF Cons.prems(4)]) (use a1 ar v(1) in auto)
    have "chain ?s1 (vma_list ?m1) ((pre @ [x]) @ ys)" using sf(1) by simp
    from Cons.IH [OF \<open>chain ?s1 (vma_list ?m1) ((pre @ [x]) @ ys)\<close> nm Cons.prems(3) bl] obtain s' mgr' where r: "unmap_loop ?s1 ?m1 start fin (first_of ys) block nb = Some (0, s', mgr')"
      "unmapped_to ?s1 ?m1 (pre @ [x]) ys (unmap_areas nb start fin (areas ?s1 ys)) s' mgr'" by blast
    have "unmapped_to ?s1 ?m1 pre (x # ys) (area (v\<lparr>vm_end := start\<rparr>) # unmap_areas nb start fin (areas s ys)) s' mgr'"
      using unmapped_shift [OF r(2)] a1 by simp
    moreover have "areas ?s1 (x # ys) = area (v\<lparr>vm_end := start\<rparr>) # areas s ys" using a1 by (simp add: payloads_Cons)
    ultimately have "unmapped_to s mgr pre (x # ys) (area (v\<lparr>vm_end := start\<rparr>) # unmap_areas nb start fin (areas s ys)) s' mgr'"
      unfolding unmapped_to_def using a1 ar by (auto simp: length_of_def algebra_simps)
    moreover have "unmap_areas nb start fin (areas s (x # ys)) = area (v\<lparr>vm_end := start\<rparr>) # unmap_areas nb start fin (areas s ys)"
      using left ar by auto
    ultimately show ?thesis using run r(1) by auto
  next
    case right
    let ?w = "v\<lparr>vm_start := fin, vm_offset := (if vm_type v = VMA_TYPE_FILE then vm_offset v + (fin - vm_start v) else vm_offset v)\<rparr>"
    have w: "?w = from_addr fin v" by (simp add: from_addr_def)
    let ?s1 = "s\<lparr>vs_vma := (vs_vma s)(x \<mapsto> ?w)\<rparr>" and ?m1 = "mgr\<lparr>vm_used := vm_used mgr - (fin - vm_start v)\<rparr>"
    have sf: "chain ?s1 (vma_list mgr) (pre @ x # ys)" "areas ?s1 (pre @ x # ys) = areas s pre @ area ?w # areas s ys"
      using set_fields [OF Cons.prems(1) v(1), of ?w] by simp_all
    have run: "unmap_loop s mgr start fin (Some x) block nb = Some (0, ?s1, ?m1)"
      unfolding step using right v by (auto simp: upd_vma_Some Let_def)
    have res: "unmap_areas nb start fin (areas s (x # ys)) = area ?w # areas s ys"
      unfolding w using right ar by auto
    have "unmapped_to s mgr pre (x # ys) (unmap_areas nb start fin (areas s (x # ys))) ?s1 ?m1"
      unfolding unmapped_to_def res using sf Cons.prems(2) ar v(1)
      by (intro exI [of _ "x # ys"]) (auto simp: names_ok_def length_of_def areas_split algebra_simps)
    then show ?thesis using run by auto
  qed
qed

lemma areas_ok_Cons: "areas_ok (v # vs) \<longleftrightarrow> vm_start v < vm_end v \<and> (\<forall>u \<in> set vs. vm_end v \<le> vm_start u) \<and> areas_ok vs"
  by (auto simp: areas_ok_def)

text \<open>
  Without the block for the second half the range is refused. With it and without the block for the name,
  \<open>strdup\<close> copies to the null pointer, which is no defined result.
\<close>

lemma unmap_loop_fails:
  assumes "chain s (vma_list mgr) (pre @ ys)" "areas_ok (areas s ys)" "start < fin"
    and "v \<in> set (areas s ys)" "vm_start v < start" "fin < vm_end v" "block = None \<or> vm_name v \<noteq> None \<and> nb = None"
  shows "unmap_loop s mgr start fin (first_of ys) block nb = (if block = None then Some (- 1, s, mgr) else None)"
  using assms(1,2,4)
proof (induction ys arbitrary: pre)
  case (Cons x ys)
  obtain u where u: "vs_vma s x = Some u" "vm_next u = first_of ys" using chain_node [OF Cons.prems(1)] by blast
  have ar: "areas s (x # ys) = area u # areas s ys" using u by (simp add: payloads_Cons)
  have o: "\<And>w. w \<in> set (areas s ys) \<Longrightarrow> vm_end u \<le> vm_start w" "areas_ok (areas s ys)"
    using Cons.prems(2) ar by (auto simp: areas_ok_Cons)
  note step = unmap_loop.simps [of s mgr start fin "Some x" block nb]
  show ?case
  proof (cases "v = area u")
    case True
    then have "vm_start u < start" "fin < vm_end u" "block = None \<or> vm_name u \<noteq> None \<and> nb = None"
      using assms(5-7) by (simp_all add: area_def)
    moreover from this have "\<not> vm_end u \<le> start" "\<not> fin \<le> vm_start u" using assms(3) by (auto simp: not_le)
    ultimately show ?thesis unfolding first_of_simps step using u assms(3)
      by (cases block) (auto simp: vma_split_def vma_alloc_def dup_name_def Let_def)
  next
    case False
    then have v: "v \<in> set (areas s ys)" using Cons.prems(3) ar by auto
    then have "vm_end u \<le> start" using o(1) assms(5) by force
    then show ?thesis unfolding first_of_simps step using u Cons.IH [of "pre @ [x]"] Cons.prems(1) o(2) v by simp
  qed
qed simp

text \<open>What an address of a process is mapped to: the attributes of its area and the position in the file.\<close>

definition position :: "vma \<Rightarrow> u64 \<Rightarrow> u64" where
  "position v a = (if vm_type v = VMA_TYPE_FILE then vm_offset v + (a - vm_start v) else vm_offset v)"

fun view :: "vma list \<Rightarrow> u64 \<Rightarrow> (u64 \<times> vma_type \<times> int \<times> int \<times> u64) option" where
  "view [] a = None"
| "view (v # vs) a = (if vm_start v \<le> a \<and> a < vm_end v then Some (vm_flags v, vm_type v, vm_fd v, shm_id v, position v a) else view vs a)"

lemma view_below: "\<forall>v \<in> set vs. a < vm_start v \<Longrightarrow> view vs a = None"
  by (induction vs) auto

lemma from_addr_fields [simp]:
  "vm_start (from_addr a v) = a" "vm_end (from_addr a v) = vm_end v" "vm_flags (from_addr a v) = vm_flags v" "vm_type (from_addr a v) = vm_type v"
  "vm_fd (from_addr a v) = vm_fd v" "shm_id (from_addr a v) = shm_id v" "position (from_addr a v) x = position v x"
  by (simp_all add: from_addr_def position_def)

lemma named_fields [simp]:
  "vm_start (named n v) = vm_start v" "vm_end (named n v) = vm_end v" "vm_flags (named n v) = vm_flags v" "vm_type (named n v) = vm_type v"
  "vm_fd (named n v) = vm_fd v" "shm_id (named n v) = shm_id v" "position (named n v) x = position v x"
  by (simp_all add: named_def position_def)

lemma position_end [simp]: "position (v\<lparr>vm_end := e\<rparr>) a = position v a"
  by (simp add: position_def)

lemma view_unmap:
  "areas_ok vs \<Longrightarrow> start < fin \<Longrightarrow> view (unmap_areas n start fin vs) a = (if start \<le> a \<and> a < fin then None else view vs a)"
  supply unmap_areas.simps(2) [simp del]
proof (induction vs)
  case (Cons v vs)
  have o: "vm_start v < vm_end v" "\<forall>u \<in> set vs. vm_end v \<le> vm_start u" "areas_ok vs" using Cons.prems by (auto simp: areas_ok_Cons)
  have b: "view vs a = None" if "a < vm_end v" using o(2) that by (intro view_below) auto
  have IH: "view (unmap_areas n start fin vs) a = (if start \<le> a \<and> a < fin then None else view vs a)" using Cons o(3) by simp
  show ?case
  proof (cases rule: range_cases [where v = v and start = start and fin = fin])
    case below
    then show ?thesis using IH by (auto simp: unmap_areas_cases)
  next
    case above
    then have "view (v # vs) a = None" if "a < fin" using that o by (intro view_below) auto
    then show ?thesis using above by (auto simp: unmap_areas_cases simp del: view.simps)
  next
    case inside
    then show ?thesis using IH b by (auto simp: unmap_areas_cases)
  next
    case hole
    have o3: "a < fin \<or> start \<le> a" "a < start \<Longrightarrow> a < fin" "a < start \<Longrightarrow> a < vm_end v" "fin \<le> a \<Longrightarrow> start \<le> a \<and> vm_start v \<le> a"
      "start \<le> a \<Longrightarrow> vm_start v \<le> a" "a < fin \<Longrightarrow> a < vm_end v" using hole Cons.prems(2) by auto
    show ?thesis
    proof (cases "a < vm_end v")
      case True
      then show ?thesis using b o3 by (cases "a < start"; cases "a < fin") (simp_all add: unmap_areas_cases(4) [OF hole] not_le [symmetric])
    next
      case False
      then have "\<not> a < fin" "\<not> a < start" using o3 by auto
      then show ?thesis using False by (simp add: unmap_areas_cases(4) [OF hole])
    qed
  next
    case left
    have o3: "a < start \<Longrightarrow> a < vm_end v" "a < vm_end v \<Longrightarrow> a < fin" "\<not> a < start \<Longrightarrow> start \<le> a" "a < start \<Longrightarrow> \<not> start \<le> a" using left by auto
    show ?thesis using IH b o3 by (cases "a < start"; cases "a < vm_end v") (simp_all add: unmap_areas_cases(5) [OF left])
  next
    case right
    then show ?thesis using b by (cases "a < vm_end v") (auto simp: unmap_areas_cases not_less not_le)
  qed
qed simp

lemma unmap_bounds: "w \<in> set (unmap_areas n start fin vs) \<Longrightarrow> start < fin \<Longrightarrow> \<exists>v \<in> set vs. vm_start v \<le> vm_start w"
  by (induction vs) (auto split: if_splits)

lemma areas_ok_unmap: "areas_ok vs \<Longrightarrow> start < fin \<Longrightarrow> areas_ok (unmap_areas n start fin vs)"
  supply unmap_areas.simps(2) [simp del]
proof (induction vs)
  case (Cons v vs)
  have o: "vm_start v < vm_end v" "\<forall>u \<in> set vs. vm_end v \<le> vm_start u" "areas_ok vs" using Cons.prems by (auto simp: areas_ok_Cons)
  have u: "vm_end v \<le> vm_start w" if "w \<in> set (unmap_areas n start fin vs)" for w
    using unmap_bounds [OF that Cons.prems(2)] o(2) by force
  have IH: "areas_ok (unmap_areas n start fin vs)" using Cons o(3) by simp
  show ?case
  proof (cases rule: range_cases [where v = v and start = start and fin = fin])
    case below
    then show ?thesis using o u IH by (simp add: unmap_areas_cases areas_ok_Cons)
  next
    case above
    then show ?thesis using o by (simp add: unmap_areas_cases areas_ok_Cons)
  next
    case inside
    then show ?thesis using IH by (simp add: unmap_areas_cases)
  next
    case hole
    then have "\<forall>u \<in> set vs. start \<le> vm_start u" using o(2) by force
    then show ?thesis using hole o Cons.prems(2) by (simp add: unmap_areas_cases areas_ok_Cons not_le less_imp_le)
  next
    case left
    then have "\<forall>w \<in> set (unmap_areas n start fin vs). start \<le> vm_start w" using u by force
    then show ?thesis using left IH by (simp add: unmap_areas_cases areas_ok_Cons not_le)
  next
    case right
    then show ?thesis using o by (simp add: unmap_areas_cases areas_ok_Cons not_le)
  qed
qed (simp add: areas_ok_def)

section \<open>Finding and inserting\<close>

lemma intersect_loop_spec:
  "chain s f (pre @ ys) \<Longrightarrow> \<exists>r. vma_intersect_loop (vs_vma s) start fin (first_of ys) = Some r \<and>
    (r = None \<longleftrightarrow> (\<forall>v \<in> set (areas s ys). fin \<le> vm_start v \<or> vm_end v \<le> start))"
proof (induction ys arbitrary: pre)
  case Nil
  then show ?case by (simp add: vma_intersect_loop.simps)
next
  case (Cons x ys)
  obtain v where v: "vs_vma s x = Some v" "vm_next v = first_of ys" using chain_node [OF Cons.prems] by blast
  have "chain s f ((pre @ [x]) @ ys)" using Cons.prems by simp
  from Cons.IH [OF this] show ?case using v by (subst vma_intersect_loop.simps) (auto simp: intersects_def payloads_Cons)
qed

lemma find_loop_spec:
  "chain s f (pre @ ys) \<Longrightarrow> vma_find_loop (vs_vma s) a (first_of ys) =
    Some (find (\<lambda>x. vm_start (the (vs_vma s x)) \<le> a \<and> a < vm_end (the (vs_vma s x))) ys)"
proof (induction ys arbitrary: pre)
  case Nil
  then show ?case by (simp add: vma_find_loop.simps)
next
  case (Cons x ys)
  obtain v where v: "vs_vma s x = Some v" "vm_next v = first_of ys" using chain_node [OF Cons.prems] by blast
  have "chain s f ((pre @ [x]) @ ys)" using Cons.prems by simp
  from Cons.IH [OF this] show ?case using v by (subst vma_find_loop.simps) auto
qed

lemma insert_position_spec:
  "chain s f (pre @ ys) \<Longrightarrow> \<exists>zs ws. ys = zs @ ws \<and> insert_position (vs_vma s) start (last_of pre) (first_of ys) = Some (last_of (pre @ zs), first_of ws) \<and>
    (\<forall>x \<in> set zs. vm_start (the (vs_vma s x)) < start) \<and> (ws \<noteq> [] \<longrightarrow> start \<le> vm_start (the (vs_vma s (hd ws))))"
proof (induction ys arbitrary: pre)
  case Nil
  then show ?case by (simp add: insert_position.simps)
next
  case (Cons x ys)
  obtain v where v: "vs_vma s x = Some v" "vm_next v = first_of ys" using chain_node [OF Cons.prems] by blast
  show ?case
  proof (cases "vm_start v < start")
    case True
    have "chain s f ((pre @ [x]) @ ys)" using Cons.prems by simp
    from Cons.IH [OF this] obtain zs ws where "ys = zs @ ws" "insert_position (vs_vma s) start (Some x) (first_of ys) = Some (last_of ((pre @ [x]) @ zs), first_of ws)"
      "\<forall>x \<in> set zs. vm_start (the (vs_vma s x)) < start" "ws \<noteq> [] \<longrightarrow> start \<le> vm_start (the (vs_vma s (hd ws)))" by auto
    then show ?thesis using v True by - (rule exI [of _ "x # zs"], rule exI [of _ ws], subst insert_position.simps, simp)
  next
    case False
    then show ?thesis using v by - (rule exI [of _ "[]"], rule exI [of _ "x # ys"], subst insert_position.simps, simp)
  qed
qed

lemma link_area:
  assumes "chain s (vma_list mgr) (xs @ ys)" "vs_vma s a = Some v" "a \<notin> set (xs @ ys)"
  defines "h \<equiv> vl.link (vs_vma s) (last_of xs) (first_of ys) a (v\<lparr>vm_next := first_of ys, vm_prev := last_of xs\<rparr>)"
  shows "chain (s\<lparr>vs_vma := h\<rparr>) (if last_of xs = None then Some a else vma_list mgr) (xs @ a # ys)"
    "areas (s\<lparr>vs_vma := h\<rparr>) (xs @ a # ys) = areas s xs @ area v # areas s ys"
    "do { s \<leftarrow> upd_vma s (Some a) (\<lambda>v. v\<lparr>vm_next := first_of ys, vm_prev := last_of xs\<rparr>);
        (s, mgr) \<leftarrow> (if last_of xs \<noteq> None then do { s \<leftarrow> upd_vma s (last_of xs) (\<lambda>v. v\<lparr>vm_next := Some a\<rparr>); Some (s, mgr) }
                     else Some (s, mgr\<lparr>vma_list := Some a\<rparr>));
        s \<leftarrow> (if first_of ys \<noteq> None then upd_vma s (first_of ys) (\<lambda>v. v\<lparr>vm_prev := Some a\<rparr>) else Some s);
        Some (s, mgr) } =
      Some (s\<lparr>vs_vma := h\<rparr>, mgr\<lparr>vma_list := if last_of xs = None then Some a else vma_list mgr\<rparr>)"
proof -
  obtain l where l: "dll vm_next vm_prev (vs_vma s) (vma_list mgr) (xs @ ys) l" using assms(1) by blast
  have a: "a \<notin> set xs" "a \<notin> set ys" using assms(3) by simp_all
  have "dll vm_next vm_prev h (if last_of xs = None then Some a else vma_list mgr) (xs @ a # ys) (if first_of ys = None then Some a else l)"
    unfolding h_def by (rule vl.dll_link [OF l a]) simp_all
  then show "chain (s\<lparr>vs_vma := h\<rparr>) (if last_of xs = None then Some a else vma_list mgr) (xs @ a # ys)" unfolding vspace.select_convs vspace.update_convs by force
  show "areas (s\<lparr>vs_vma := h\<rparr>) (xs @ a # ys) = areas s xs @ area v # areas s ys"
    using vl.payloads_link [OF l a] by (simp add: h_def area_def)
  have p: "vs_vma s b \<noteq> None" "b \<noteq> a" if "last_of xs = Some b" for b using dll_dom [OF l, of b] last_of_cases [OF that] a by auto
  have q: "vs_vma s c \<noteq> None" "c \<noteq> a" if "first_of ys = Some c" for c using dll_dom [OF l, of c] first_of_cases [OF that] a by auto
  show "do { s \<leftarrow> upd_vma s (Some a) (\<lambda>v. v\<lparr>vm_next := first_of ys, vm_prev := last_of xs\<rparr>);
        (s, mgr) \<leftarrow> (if last_of xs \<noteq> None then do { s \<leftarrow> upd_vma s (last_of xs) (\<lambda>v. v\<lparr>vm_next := Some a\<rparr>); Some (s, mgr) }
                     else Some (s, mgr\<lparr>vma_list := Some a\<rparr>));
        s \<leftarrow> (if first_of ys \<noteq> None then upd_vma s (first_of ys) (\<lambda>v. v\<lparr>vm_prev := Some a\<rparr>) else Some s);
        Some (s, mgr) } =
      Some (s\<lparr>vs_vma := h\<rparr>, mgr\<lparr>vma_list := if last_of xs = None then Some a else vma_list mgr\<rparr>)"
    using assms(2) p q by (cases "last_of xs"; cases "first_of ys") (simp_all add: upd_vma_Some h_def vl.link_def Let_def)
qed

lemma insert_run:
  assumes "chain s (vma_list mgr) xs" "vs_vma s a = Some v" "a \<notin> set xs"
    and "\<forall>u \<in> set (areas s xs). vm_end v \<le> vm_start u \<or> vm_end u \<le> vm_start v"
  shows "\<exists>ys zs s' mgr'. xs = ys @ zs \<and> vma_insert s mgr (Some a) = Some (0, s', mgr') \<and> chain s' (vma_list mgr') (ys @ a # zs) \<and>
    areas s' (ys @ a # zs) = areas s ys @ area v # areas s zs \<and> vs_name s' = vs_name s \<and> vm_used mgr' = vm_used mgr + length_of v \<and>
    vm_total mgr' = vm_total mgr \<and> unchanged_off (insert a (set xs)) (vs_vma s) (vs_vma s') \<and>
    (\<forall>x \<in> set ys. vm_start (the (vs_vma s x)) < vm_start v) \<and> (zs \<noteq> [] \<longrightarrow> vm_start v \<le> vm_start (the (vs_vma s (hd zs))))"
proof -
  obtain ys zs where p: "xs = ys @ zs" "insert_position (vs_vma s) (vm_start v) None (first_of xs) = Some (last_of ys, first_of zs)"
    "\<forall>x \<in> set ys. vm_start (the (vs_vma s x)) < vm_start v" "zs \<noteq> [] \<longrightarrow> vm_start v \<le> vm_start (the (vs_vma s (hd zs)))"
    using insert_position_spec [of s "vma_list mgr" "[]" xs "vm_start v"] assms(1) by (auto simp: last_of_def)
  have i: "vma_find_intersection s mgr (vm_start v) (vm_end v) = Some None"
    using intersect_loop_spec [of s "vma_list mgr" "[]" xs "vm_start v" "vm_end v"] assms(1,4) chain_first [OF assms(1)]
    unfolding vma_find_intersection_def by auto
  have c: "chain s (vma_list mgr) (ys @ zs)" "a \<notin> set (ys @ zs)" using assms(1,3) p(1) by simp_all
  note l = link_area [OF c(1) assms(2) c(2)]
  let ?h = "vl.link (vs_vma s) (last_of ys) (first_of zs) a (v\<lparr>vm_next := first_of zs, vm_prev := last_of ys\<rparr>)"
  let ?m = "mgr\<lparr>vma_list := if last_of ys = None then Some a else vma_list mgr\<rparr>"
  have r: "vma_insert s mgr (Some a) = Some (0, s\<lparr>vs_vma := ?h\<rparr>, ?m\<lparr>vm_used := vm_used mgr + (vm_end v - vm_start v)\<rparr>)"
    using l(3) i p(2) assms(2) chain_first [OF assms(1)] by (auto simp: vma_insert_def bind_eq_Some_conv split: if_splits)
  have "unchanged_off (insert a (set xs)) (vs_vma s) ?h"
    using vl.link_other unfolding unchanged_off_def p(1) by (auto dest!: last_of_cases first_of_cases)
  then show ?thesis using p r l(1,2) by - (rule exI [of _ ys], rule exI [of _ zs], auto simp: length_of_def)
qed

lemma view_append: "view (vs @ ws) a = (case view vs a of None \<Rightarrow> view ws a | Some r \<Rightarrow> Some r)"
  by (induction vs) auto

lemma view_above: "\<forall>v \<in> set vs. vm_end v \<le> a \<Longrightarrow> view vs a = None"
  by (induction vs) auto

lemma view_insert:
  "areas_ok (vs @ v # ws) \<Longrightarrow> view (vs @ v # ws) a = (if vm_start v \<le> a \<and> a < vm_end v then view [v] a else view (vs @ ws) a)"
proof (cases "vm_start v \<le> a \<and> a < vm_end v")
  case True
  assume "areas_ok (vs @ v # ws)"
  then have "view vs a = None" using True by (intro view_above) (auto simp: areas_ok_def sorted_wrt_append)
  then show ?thesis using True by (simp add: view_append)
qed (auto simp: view_append split: option.split)

lemma areas_ok_insert:
  assumes "areas_ok (vs @ ws)" "vm_start v < vm_end v" "\<forall>u \<in> set (vs @ ws). vm_end v \<le> vm_start u \<or> vm_end u \<le> vm_start v"
    and "\<forall>u \<in> set vs. vm_start u < vm_start v" "ws \<noteq> [] \<longrightarrow> vm_start v \<le> vm_start (hd ws)"
  shows "areas_ok (vs @ v # ws)"
proof -
  have "vm_end u \<le> vm_start v" if "u \<in> set vs" for u
  proof -
    have "vm_start u < vm_end v" using assms(2,4) that by force
    then show ?thesis using assms(3) that by force
  qed
  moreover have "vm_end v \<le> vm_start u" if u: "u \<in> set ws" for u
  proof -
    obtain w ws' where w: "ws = w # ws'" using u by (cases ws) auto
    have "vm_start v \<le> vm_start u"
    proof (cases "u = w")
      case False
      then have "vm_end w \<le> vm_start u" "vm_start w < vm_end w" using assms(1) u w by (auto simp: areas_ok_def sorted_wrt_append)
      then show ?thesis using assms(5) w by force
    qed (use assms(5) w in simp)
    moreover have "vm_start u < vm_end u" using assms(1) u by (auto simp: areas_ok_def)
    ultimately show ?thesis using assms(3) u by force
  qed
  ultimately show ?thesis using assms(1,2) by (auto simp: areas_ok_def sorted_wrt_append)
qed

lemma hd_areas: "zs \<noteq> [] \<Longrightarrow> hd (areas s zs) = area (the (vs_vma s (hd zs)))"
  by (cases zs) (simp_all add: payloads_Cons)

text \<open>A sample process: a file of two pages mapped at \<open>0x1000\<close>, an unnamed page at \<open>0x5000\<close>, and a page that is not in the list.\<close>

definition sample_areas :: vspace where
  "sample_areas = \<lparr>vs_vma = [
      1 \<mapsto> fresh_vma\<lparr>vm_start := 0x1000, vm_end := 0x3000, vm_type := VMA_TYPE_FILE, vm_fd := 3, vm_offset := 0x400, vm_name := Some 9, vm_next := Some 2\<rparr>,
      2 \<mapsto> fresh_vma\<lparr>vm_start := 0x5000, vm_end := 0x6000, vm_prev := Some 1\<rparr>,
      3 \<mapsto> fresh_vma\<lparr>vm_start := 0x3000, vm_end := 0x4000\<rparr>], vs_name = [9 \<mapsto> [0]]\<rparr>"

definition sample_manager :: vma_manager where
  "sample_manager = \<lparr>vma_list = Some 1, vm_total = 0, vm_used = 0x3000\<rparr>"

lemma sample_areas_ok: "vmas_at sample_areas sample_manager [1, 2]" "areas_ok (areas sample_areas [1, 2])"
proof -
  have "dll vm_next vm_prev (vs_vma sample_areas) (vma_list sample_manager) [1, 2] (Some 2)"
    by (simp add: dll_def sample_areas_def sample_manager_def fresh_vma_def)
  then show "vmas_at sample_areas sample_manager [1, 2]"
    unfolding vmas_at_def by (auto simp: names_ok_def payloads_Cons payloads_def sample_areas_def sample_manager_def fresh_vma_def area_def length_of_def)
  show "areas_ok (areas sample_areas [1, 2])" by (simp add: areas_ok_def payloads_def sample_areas_def fresh_vma_def)
qed

section \<open>Properties\<close>

text \<open>
  C6. \<open>vma_unmap_range\<close> on a sorted list of disjoint areas and a nonempty range. When the range lies strictly inside one
  area, the area is split, which needs memory for the second half and, when the area has a name, for a
  copy of the name. Without the first the call refuses with the state as it was; with the first and
  without the second it has no defined result, since \<open>strdup\<close> does not test its allocation. In every other
  case, for every outcome of the allocations, it returns 0, the list is again sorted and disjoint, the
  count of mapped bytes is again the sum of the areas, no address of the range is mapped any more, and
  every other address keeps its flags, its type, its descriptor and its position in the file.
\<close>

theorem vma_unmap_exact:
  assumes "vmas_at s mgr xs" "areas_ok (areas s xs)" "start < fin" "\<forall>b. block = Some b \<longrightarrow> vs_vma s b = None"
    and "\<forall>n. name_block = Some n \<longrightarrow> vs_name s n = None"
  shows "if block = None \<and> (\<exists>v \<in> set (areas s xs). vm_start v < start \<and> fin < vm_end v)
    then vma_unmap_range s (Some mgr) start fin block name_block = Some (- 1, s, Some mgr)
    else if name_block = None \<and> (\<exists>v \<in> set (areas s xs). vm_start v < start \<and> fin < vm_end v \<and> vm_name v \<noteq> None)
    then vma_unmap_range s (Some mgr) start fin block name_block = None
    else \<exists>s' mgr' xs'. vma_unmap_range s (Some mgr) start fin block name_block = Some (0, s', Some mgr') \<and>
      vmas_at s' mgr' xs' \<and> areas_ok (areas s' xs') \<and>
      (\<forall>a. view (areas s' xs') a = (if start \<le> a \<and> a < fin then None else view (areas s xs) a))"
proof -
  have c: "chain s (vma_list mgr) ([] @ xs)" "names_ok (vs_name s) (areas s ([] @ xs))" "vma_list mgr = first_of xs"
    using assms(1) chain_first unfolding vmas_at_def by auto
  have r: "vma_unmap_range s (Some mgr) start fin block name_block =
      do { (r, s, m) \<leftarrow> unmap_loop s mgr start fin (first_of xs) block name_block; Some (r, s, Some m) }"
    using assms(3) [folded not_le] c(3) by (simp add: vma_unmap_range_def)
  show ?thesis
  proof (cases "\<exists>v \<in> set (areas s xs). vm_start v < start \<and> fin < vm_end v \<and> (block = None \<or> vm_name v \<noteq> None \<and> name_block = None)")
    case True
    then obtain v where v: "v \<in> set (areas s xs)" "vm_start v < start" "fin < vm_end v" "block = None \<or> vm_name v \<noteq> None \<and> name_block = None"
      by blast
    then show ?thesis using r unmap_loop_fails [OF c(1) assms(2,3) v] by (cases "block = None") auto
  next
    case False
    then have "split_ready s block name_block start fin (areas s xs)"
      using assms(4,5) by (cases block; cases name_block) (auto simp: split_ready_def name_ready_def)
    from unmap_loop_spec [OF c(1,2) assms(3) this] obtain s' mgr' xs' where
      u: "unmap_loop s mgr start fin (first_of xs) block name_block = Some (0, s', mgr')" "chain s' (vma_list mgr') xs'"
      "areas s' xs' = unmap_areas name_block start fin (areas s xs)" "names_ok (vs_name s') (areas s' xs')"
      "vm_used mgr' = vm_used mgr - sum_list (map length_of (areas s xs)) + sum_list (map length_of (areas s' xs'))"
      unfolding unmapped_to_def by auto
    have "vmas_at s' mgr' xs'" using u(2,4,5) assms(1) by (simp add: vmas_at_def)
    then show ?thesis using r u(1,3) False view_unmap [OF assms(2,3)] areas_ok_unmap [OF assms(2,3)] by auto
  qed
qed

theorem vma_unmap_exact_witness:
  "\<exists>s' mgr' xs'. vma_unmap_range sample_areas (Some sample_manager) 0x1800 0x2800 (Some 5) (Some 7) = Some (0, s', Some mgr') \<and>
    vmas_at s' mgr' xs' \<and> view (areas s' xs') 0x2000 = None \<and> view (areas s' xs') 0x2900 = Some (0, VMA_TYPE_FILE, 3, - 1, 0x1d00)"
proof -
  have "\<forall>b. Some 5 = Some b \<longrightarrow> vs_vma sample_areas b = None" "\<forall>n. Some 7 = Some n \<longrightarrow> vs_name sample_areas n = None"
    by (simp_all add: sample_areas_def)
  moreover have "(0x1800 :: u64) < 0x2800" by simp
  ultimately obtain s' mgr' xs' where
    r: "vma_unmap_range sample_areas (Some sample_manager) 0x1800 0x2800 (Some 5) (Some 7) = Some (0, s', Some mgr')" "vmas_at s' mgr' xs'"
    "\<And>a. view (areas s' xs') a = (if 0x1800 \<le> a \<and> a < 0x2800 then None else view (areas sample_areas [1, 2]) a)"
    using vma_unmap_exact [OF sample_areas_ok, of "0x1800" "0x2800" "Some 5" "Some 7"] by auto
  have "view (areas sample_areas [1, 2]) 0x2900 = Some (0, VMA_TYPE_FILE, 3, - 1, 0x1d00)"
    by (simp add: payloads_def sample_areas_def fresh_vma_def position_def)
  then have "view (areas s' xs') 0x2000 = None" "view (areas s' xs') 0x2900 = Some (0, VMA_TYPE_FILE, 3, - 1, 0x1d00)" using r(3) by simp_all
  then show ?thesis using r(1,2) by blast
qed

text \<open>
  C27. \<open>vma_insert\<close> of an area that is not in the list always returns. It refuses, with the
  state as it was, exactly when the area overlaps one of the list. Otherwise the list stays sorted and
  disjoint and the count of mapped bytes stays exact; the addresses of the area are mapped to it and all
  others as before.
\<close>

theorem vma_insert_exact:
  assumes "vmas_at s mgr xs" "areas_ok (areas s xs)" "vs_vma s a = Some v" "a \<notin> set xs" "vm_start v < vm_end v"
    and "names_ok (vs_name s) (area v # areas s xs)"
  shows "if \<exists>u \<in> set (areas s xs). vm_start u < vm_end v \<and> vm_start v < vm_end u
    then vma_insert s mgr (Some a) = Some (- 1, s, mgr)
    else \<exists>s' mgr' xs'. vma_insert s mgr (Some a) = Some (0, s', mgr') \<and> vmas_at s' mgr' xs' \<and> areas_ok (areas s' xs') \<and>
      (\<forall>b. view (areas s' xs') b = (if vm_start v \<le> b \<and> b < vm_end v then view [v] b else view (areas s xs) b))"
proof (cases "\<exists>u \<in> set (areas s xs). vm_start u < vm_end v \<and> vm_start v < vm_end u")
  case True
  have c: "chain s (vma_list mgr) ([] @ xs)" "vma_list mgr = first_of xs" using assms(1) chain_first unfolding vmas_at_def by auto
  obtain r where "vma_find_intersection s mgr (vm_start v) (vm_end v) = Some r" "r \<noteq> None"
    using intersect_loop_spec [OF c(1), of "vm_start v" "vm_end v"] True c(2) unfolding vma_find_intersection_def by (fastforce simp: not_le)
  then show ?thesis using True assms(3) by (simp add: vma_insert_def)
next
  case False
  have d: "\<forall>u \<in> set (areas s xs). vm_end v \<le> vm_start u \<or> vm_end u \<le> vm_start v" using False by (force simp: not_less)
  have "chain s (vma_list mgr) xs" using assms(1) by (simp add: vmas_at_def)
  from insert_run [OF this assms(3,4) d] obtain ys zs s' mgr' where
    r: "xs = ys @ zs" "vma_insert s mgr (Some a) = Some (0, s', mgr')" "chain s' (vma_list mgr') (ys @ a # zs)"
    "areas s' (ys @ a # zs) = areas s ys @ area v # areas s zs" "vs_name s' = vs_name s" "vm_used mgr' = vm_used mgr + length_of v"
    "\<forall>x \<in> set ys. vm_start (the (vs_vma s x)) < vm_start v" "zs \<noteq> [] \<longrightarrow> vm_start v \<le> vm_start (the (vs_vma s (hd zs)))" by blast
  have ar: "areas s xs = areas s ys @ areas s zs" using r(1) by (simp add: payloads_append)
  have "\<forall>u \<in> set (areas s ys). vm_start u < vm_start v" using r(7) by (auto simp: payloads_def)
  moreover have "areas s zs \<noteq> [] \<longrightarrow> vm_start v \<le> vm_start (hd (areas s zs))" using r(8) hd_areas [of zs s] by (auto simp: payloads_def)
  ultimately have o: "areas_ok (areas s ys @ area v # areas s zs)" using areas_ok_insert [of "areas s ys" "areas s zs" "area v"] assms(2,5) d ar by simp
  have "names_ok (vs_name s) (areas s ys @ area v # areas s zs)" using assms(6) ar by (auto simp: names_ok_def split: option.splits)
  then have "vmas_at s' mgr' (ys @ a # zs)" using r assms(1) ar by (simp add: vmas_at_def length_of_def)
  moreover have "view [area v] = view [v]" by (auto simp: position_def)
  ultimately show ?thesis using False r(2,4) o view_insert [OF o] ar by auto
qed

theorem vma_insert_exact_witness:
  "\<exists>s' mgr' xs'. vma_insert sample_areas sample_manager (Some 3) = Some (0, s', mgr') \<and> vmas_at s' mgr' xs' \<and> areas_ok (areas s' xs') \<and>
    view (areas s' xs') 0x3800 = Some (0, VMA_TYPE_ANON, - 1, - 1, 0)"
proof -
  let ?v = "fresh_vma\<lparr>vm_start := 0x3000, vm_end := 0x4000\<rparr>"
  have h: "vs_vma sample_areas 3 = Some ?v" "3 \<notin> set [1, 2 :: addr]" "vm_start ?v < vm_end ?v" "names_ok (vs_name sample_areas) (area ?v # areas sample_areas [1, 2])"
    by (simp_all add: names_ok_def payloads_def sample_areas_def fresh_vma_def)
  have n: "\<not> (\<exists>u \<in> set (areas sample_areas [1, 2]). vm_start u < vm_end ?v \<and> vm_start ?v < vm_end u)"
    by (simp add: payloads_def sample_areas_def fresh_vma_def)
  have "view [?v] 0x3800 = Some (0, VMA_TYPE_ANON, - 1, - 1, 0)" "vm_start ?v \<le> 0x3800" "0x3800 < vm_end ?v" by (simp_all add: fresh_vma_def position_def)
  then show ?thesis using vma_insert_exact [OF sample_areas_ok h] unfolding if_not_P [OF n] by metis
qed

end
