(* ===== verification/Ipc.thy ===== *)
theory Ipc
  imports LockQueueSpec "HOL-Library.Multiset"
begin

text \<open>
  Messages between processes, \<^verbatim>\<open>kernel/task/ipc.cpp\<close>, on the locked queue. A message is an object in a
  heap of its own and the queue holds its address. The results of the \<open>malloc\<close> calls inside
  \<open>lock_queue_enqueue\<close> are a list; when it runs out, the calls fail. What other tasks do to the queue while
  a receiver sleeps is an argument of the waiting functions.
\<close>

section \<open>Structures\<close>

record ipc_message =
  im_pid :: int
  im_type :: u8
  im_data :: "u8 list"
  im_index :: u64

record ipc =
  ip_nodes :: node_heap
  ip_queue :: "lock_queue option"
  ip_messages :: "addr \<rightharpoonup> ipc_message"

fun next_block :: "ptr list \<Rightarrow> ptr" where
  "next_block [] = None"
| "next_block (m # ms) = m"

section \<open>Operations\<close>

text \<open>\<open>process\<close> says whether the process is not null; the queue of the state is its queue.\<close>

definition ipc_send :: "ipc \<Rightarrow> bool \<Rightarrow> ptr \<Rightarrow> ptr \<Rightarrow> ipc option" where
  "ipc_send s process message block =
     (if \<not> process \<or> message = None then Some s
      else if ip_queue s = None then Some s
      else do {
        (h, q, _) \<leftarrow> lock_queue_enqueue (ip_nodes s) (ip_queue s) message block;
        Some (s\<lparr>ip_nodes := h, ip_queue := q\<rparr>)
      })"

partial_function (option) ipc_free_loop :: "ipc \<Rightarrow> u8 \<Rightarrow> u64 \<Rightarrow> ptr list \<Rightarrow> (ipc \<times> ptr list) option" where
  "ipc_free_loop s type i ms = do {
     q \<leftarrow> ip_queue s;
     if i < lq_size q then do {
       (h, q, message) \<leftarrow> queue_dequeue (ip_nodes s) (Some q);
       let s = s\<lparr>ip_nodes := h, ip_queue := q\<rparr>;
       if message = None then Some (s, ms)
       else do {
         msg \<leftarrow> deref (ip_messages s) message;
         if im_type msg = type then do {
           messages \<leftarrow> release (ip_messages s) message;
           ipc_free_loop (s\<lparr>ip_messages := messages\<rparr>) type (i + 1) ms
         }
         else do {
           (h, q, _) \<leftarrow> lock_queue_enqueue (ip_nodes s) (ip_queue s) message (next_block ms);
           ipc_free_loop (s\<lparr>ip_nodes := h, ip_queue := q\<rparr>) type (i + 1) (tl ms)
         }
       }
     }
     else Some (s, ms)
   }"

definition ipc_free_type :: "ipc \<Rightarrow> u8 \<Rightarrow> ptr list \<Rightarrow> ipc option" where
  "ipc_free_type s type ms = do { (s, _) \<leftarrow> ipc_free_loop s type 0 ms; Some s }"

partial_function (option) ipc_recv_loop :: "ipc \<Rightarrow> u8 \<Rightarrow> u64 \<Rightarrow> ptr list \<Rightarrow> (ptr \<times> ipc) option" where
  "ipc_recv_loop s type i ms = do {
     q \<leftarrow> ip_queue s;
     if i < lq_size q then do {
       (h, q, message) \<leftarrow> queue_dequeue (ip_nodes s) (Some q);
       let s = s\<lparr>ip_nodes := h, ip_queue := q\<rparr>;
       if message = None then Some (None, s)
       else do {
         msg \<leftarrow> deref (ip_messages s) message;
         if im_type msg = type then Some (message, s)
         else do {
           (h, q, _) \<leftarrow> lock_queue_enqueue (ip_nodes s) (ip_queue s) message (next_block ms);
           ipc_recv_loop (s\<lparr>ip_nodes := h, ip_queue := q\<rparr>) type (i + 1) (tl ms)
         }
       }
     }
     else Some (None, s)
   }"

definition ipc_recv :: "ipc \<Rightarrow> u8 \<Rightarrow> ptr list \<Rightarrow> (ptr \<times> ipc) option" where
  "ipc_recv s type ms = ipc_recv_loop s type 0 ms"

text \<open>\<open>others k\<close> is what happens to the queue during the \<open>k\<close>th sleep, \<open>mss k\<close> the allocations of the \<open>k\<close>th \<open>ipc_recv\<close>.\<close>

partial_function (option) ipc_recv_wait_loop :: "(nat \<Rightarrow> ipc \<Rightarrow> ipc) \<Rightarrow> (nat \<Rightarrow> ptr list) \<Rightarrow> nat \<Rightarrow> ipc \<Rightarrow> u8 \<Rightarrow> (ptr \<times> ipc) option" where
  "ipc_recv_wait_loop others mss k s type = do {
     (message, s) \<leftarrow> ipc_recv (others k s) type (mss k);
     if message = None then ipc_recv_wait_loop others mss (k + 1) s type else Some (message, s)
   }"

definition ipc_recv_wait :: "(nat \<Rightarrow> ipc \<Rightarrow> ipc) \<Rightarrow> (nat \<Rightarrow> ptr list) \<Rightarrow> ipc \<Rightarrow> u8 \<Rightarrow> (ptr \<times> ipc) option" where
  "ipc_recv_wait others mss s type = ipc_recv_wait_loop others mss 0 s type"

partial_function (option) ipc_recv_wait2_loop :: "(nat \<Rightarrow> ipc \<Rightarrow> ipc) \<Rightarrow> (nat \<Rightarrow> ptr list) \<Rightarrow> nat \<Rightarrow> ipc \<Rightarrow> u8 \<times> u8 \<Rightarrow> (ptr \<times> ipc) option" where
  "ipc_recv_wait2_loop others mss k s types = do {
     (message, s) \<leftarrow> ipc_recv (others k s) (fst types) (mss (2 * k));
     (message, s) \<leftarrow> (if message = None then ipc_recv s (snd types) (mss (2 * k + 1)) else Some (message, s));
     if message = None then ipc_recv_wait2_loop others mss (k + 1) s types else Some (message, s)
   }"

definition ipc_recv_wait2 :: "(nat \<Rightarrow> ipc \<Rightarrow> ipc) \<Rightarrow> (nat \<Rightarrow> ptr list) \<Rightarrow> ipc \<Rightarrow> u8 \<Rightarrow> u8 \<Rightarrow> (ptr \<times> ipc) option" where
  "ipc_recv_wait2 others mss s type0 type1 = ipc_recv_wait2_loop others mss 0 s (type0, type1)"

section \<open>The queue of messages\<close>

text \<open>The messages in the queue, in order, and the next index of the queue.\<close>

definition holds :: "ipc \<Rightarrow> addr list \<Rightarrow> nat \<Rightarrow> bool" where
  "holds s cs nx \<longleftrightarrow> (\<exists>q xs. ip_queue s = Some q \<and> queue_at (ip_nodes s) q xs \<and> map snd (entries (ip_nodes s) xs) = map Some cs \<and>
     unat (lq_next_index q) = nx)"

definition blocks_ok :: "ipc \<Rightarrow> ptr list \<Rightarrow> bool" where
  "blocks_ok s ms \<longleftrightarrow> distinct ms \<and> (\<forall>m \<in> set ms. \<exists>a. m = Some a \<and> ip_nodes s a = None)"

lemma holds_size: "holds s cs nx \<Longrightarrow> \<exists>q. ip_queue s = Some q \<and> lq_size q = of_nat (length cs) \<and> length cs < 2 ^ 64"
proof -
  assume "holds s cs nx"
  then obtain q xs where q: "ip_queue s = Some q" "queue_at (ip_nodes s) q xs" "map snd (entries (ip_nodes s) xs) = map Some cs"
    unfolding holds_def by blast
  have "length xs = length cs" using arg_cong [OF q(3), of length] by (simp add: payloads_def)
  then show ?thesis using q by (auto simp: queue_at_def queue_links_def)
qed

lemma holds_messages [simp]: "holds (s\<lparr>ip_messages := ms\<rparr>) cs nx = holds s cs nx" "blocks_ok (s\<lparr>ip_messages := h\<rparr>) bs = blocks_ok s bs"
  by (simp_all add: holds_def blocks_ok_def)

lemma dequeue_holds:
  assumes "holds s (c # cs) nx" "blocks_ok s ms"
  shows "\<exists>h q. queue_dequeue (ip_nodes s) (ip_queue s) = Some (h, q, Some c) \<and> holds (s\<lparr>ip_nodes := h, ip_queue := q\<rparr>) cs nx \<and>
    blocks_ok (s\<lparr>ip_nodes := h, ip_queue := q\<rparr>) ms"
proof -
  obtain q x xs where q: "ip_queue s = Some q" "queue_at (ip_nodes s) q (x # xs)" "map snd (entries (ip_nodes s) (x # xs)) = map Some (c # cs)"
    "unat (lq_next_index q) = nx" using assms(1) unfolding holds_def payloads_def by (auto simp: map_eq_Cons_conv)
  obtain h' q' where r: "queue_dequeue (ip_nodes s) (Some q) = Some (h', Some q', ln_data (the (ip_nodes s x)))" "queue_at h' q' xs"
    "entries h' xs = entries (ip_nodes s) xs" "lq_next_index q' = lq_next_index q" "h' x = None" "unchanged_off (set (x # xs)) (ip_nodes s) h'"
    using queue_dequeue_spec [OF q(2)] by blast
  have d: "ln_data (the (ip_nodes s x)) = Some c" "map snd (entries (ip_nodes s) xs) = map Some cs" using q(3) by (simp_all add: payloads_Cons)
  have "a \<notin> set (x # xs)" if "ip_nodes s a = None" for a using queue_links_fresh q(2) that unfolding queue_at_def by blast
  then have "blocks_ok (s\<lparr>ip_nodes := h', ip_queue := Some q'\<rparr>) ms" using assms(2) r(6) by (auto simp: blocks_ok_def unchanged_off_def)
  then show ?thesis using q(1,4) r d by (auto simp: holds_def)
qed

lemma enqueue_holds:
  assumes "holds s cs nx" "blocks_ok s ms" "nx < 2 ^ 64 - 1" "ms \<noteq> []"
  shows "\<exists>h q i. lock_queue_enqueue (ip_nodes s) (ip_queue s) (Some c) (next_block ms) = Some (h, q, i) \<and>
    holds (s\<lparr>ip_nodes := h, ip_queue := q\<rparr>) (cs @ [c]) (nx + 1) \<and> blocks_ok (s\<lparr>ip_nodes := h, ip_queue := q\<rparr>) (tl ms)"
proof -
  obtain a bs where ms: "ms = Some a # bs" "ip_nodes s a = None" "Some a \<notin> set bs" using assms(2,4) by (cases ms) (auto simp: blocks_ok_def)
  obtain q xs where q: "ip_queue s = Some q" "queue_at (ip_nodes s) q xs" "map snd (entries (ip_nodes s) xs) = map Some cs" "unat (lq_next_index q) = nx"
    using assms(1) unfolding holds_def by blast
  have n: "lq_next_index q \<noteq> SIZE_MAX" using q(4) assms(3) by (auto simp: unsigned_minus_1_eq_mask mask_eq_exp_minus_1)
  obtain h' q' where r: "lock_queue_enqueue (ip_nodes s) (Some q) (Some c) (Some a) = Some (h', Some q', lq_next_index q)" "queue_at h' q' (xs @ [a])"
    "entries h' (xs @ [a]) = entries (ip_nodes s) xs @ [(lq_next_index q, Some c)]" "lq_next_index q' = lq_next_index q + 1" "unchanged_off (set (xs @ [a])) (ip_nodes s) h'"
    using queue_enqueue_spec [OF q(2) ms(2) n] unfolding lock_queue_enqueue_same by blast
  have "unat (lq_next_index q + 1) = nx + 1" using q(4) assms(3) by (simp add: unat_word_ariths)
  moreover have "b \<notin> set xs" if "ip_nodes s b = None" for b using queue_links_fresh q(2) that unfolding queue_at_def by blast
  then have "blocks_ok (s\<lparr>ip_nodes := h', ip_queue := Some q'\<rparr>) bs" using assms(2) ms r(5) by (auto simp: blocks_ok_def unchanged_off_def) metis
  ultimately show ?thesis using q r ms(1) by (auto simp: holds_def)
qed

section \<open>Receiving\<close>



lemma of_nat_less_u64: "a < 2 ^ 64 \<Longrightarrow> b < 2 ^ 64 \<Longrightarrow> (of_nat a :: u64) < of_nat b \<longleftrightarrow> a < b"
  by (simp add: word_less_nat_alt take_bit_nat_eq_self unat_of_nat)



definition taken :: "ptr \<Rightarrow> addr multiset" where
  "taken r = (case r of None \<Rightarrow> {#} | Some c \<Rightarrow> {#c#})"

lemma taken_simps [simp]: "taken None = {#}" "taken (Some c) = {#c#}"
  by (simp_all add: taken_def)







section \<open>Freeing by type\<close>

text \<open>What the loop of \<open>ipc_free_type\<close> does to the list: its bound is the size the queue has at that moment.\<close>

function freed :: "(addr \<Rightarrow> bool) \<Rightarrow> nat \<Rightarrow> addr list \<Rightarrow> addr list" where
  "freed P i cs = (if i < length cs then if P (hd cs) then freed P (i + 1) (tl cs) else freed P (i + 1) (tl cs @ [hd cs]) else cs)"
  by pat_completeness auto
termination by (relation "measure (\<lambda>(P, i, cs). length cs - i)") auto

declare freed.simps [simp del]

lemma freed_keeps: "filter_mset (\<lambda>c. \<not> P c) (mset (freed P i cs)) = filter_mset (\<lambda>c. \<not> P c) (mset cs) \<and> mset (freed P i cs) \<subseteq># mset cs"
proof (induction P i cs rule: freed.induct)
  case (1 P i cs)
  show ?case
  proof (cases "i < length cs")
    case True
    then obtain c ds where c: "cs = c # ds" by (cases cs) auto
    show ?thesis using True 1 c by (subst (1 2) freed.simps) (auto intro: subset_mset.order_trans simp: subset_mset.add_increasing2)
  qed (simp add: freed.simps)
qed

lemma freed_subset: "set (freed P i cs) \<subseteq> set cs"
  using freed_keeps [of P i cs] set_mset_mono by fastforce

text \<open>The message heap after the messages \<open>cs\<close> have been reduced to \<open>ds\<close>.\<close>

abbreviation dropped :: "ipc \<Rightarrow> addr list \<Rightarrow> addr list \<Rightarrow> addr \<rightharpoonup> ipc_message" where
  "dropped s cs ds \<equiv> ip_messages s |` (- (set cs - set ds))"

lemma free_loop_spec:
  assumes "holds s cs nx" "blocks_ok s ms" "length cs - i \<le> length ms" "nx + (length cs - i) < 2 ^ 64" "distinct cs" "i \<le> length cs + 1" "i < 2 ^ 64"
    and "\<forall>c \<in> set cs. \<exists>m. ip_messages s c = Some m \<and> P c = (im_type m = type)"
  shows "\<exists>s' ms' nx'. ipc_free_loop s type (of_nat i) ms = Some (s', ms') \<and> holds s' (freed P i cs) nx' \<and> ip_messages s' = dropped s cs (freed P i cs)"
  using assms
proof (induction P i cs arbitrary: s nx ms rule: freed.induct)
  case (1 P i cs)
  obtain q where q: "ip_queue s = Some q" "lq_size q = of_nat (length cs)" "length cs < 2 ^ 64" using holds_size [OF 1(3)] by auto
  note step = ipc_free_loop.simps [of s type "of_nat i" ms]
  have l: "of_nat i < lq_size q \<longleftrightarrow> i < length cs" using of_nat_less_u64 [OF 1(9) q(3)] q(2) by simp
  show ?case
  proof (cases "i < length cs")
    case False
    then show ?thesis unfolding step using q(1) l 1(3) by (auto simp: freed.simps [of P i cs] restrict_map_def)
  next
    case True
    then obtain c ds where c: "cs = c # ds" by (cases cs) auto
    obtain msg where msg: "ip_messages s c = Some msg" "P c = (im_type msg = type)" using 1(10) c by auto
    from dequeue_holds [OF 1(3) [unfolded c] 1(4)] obtain h1 q1 where d: "queue_dequeue (ip_nodes s) (ip_queue s) = Some (h1, q1, Some c)"
      "holds (s\<lparr>ip_nodes := h1, ip_queue := q1\<rparr>) ds nx" "blocks_ok (s\<lparr>ip_nodes := h1, ip_queue := q1\<rparr>) ms" by blast
    show ?thesis
    proof (cases "P c")
      case P: True
      let ?s = "s\<lparr>ip_nodes := h1, ip_queue := q1, ip_messages := (ip_messages s)(c := None)\<rparr>"
      have f: "freed P i cs = freed P (i + 1) ds" using True P unfolding c by (subst freed.simps) simp
      have run: "ipc_free_loop s type (of_nat i) ms = ipc_free_loop ?s type (of_nat (i + 1)) ms"
        unfolding step using q(1) l True d(1) msg P by (simp add: add.commute release_def)
      have "holds ?s ds nx" "blocks_ok ?s ms" using d(2,3) by (simp_all add: holds_def blocks_ok_def)
      moreover have "\<forall>b \<in> set ds. \<exists>m. ip_messages ?s b = Some m \<and> P b = (im_type m = type)" using 1(7,10) c by auto
      moreover have "length ds - (i + 1) \<le> length ms" "nx + (length ds - (i + 1)) < 2 ^ 64" "distinct ds" "i + 1 \<le> length ds + 1" "i + 1 < 2 ^ 64"
        using 1(5-7) c True q(3) by auto
      ultimately obtain s' ms' nx' where "ipc_free_loop ?s type (of_nat (i + 1)) ms = Some (s', ms')" "holds s' (freed P (i + 1) ds) nx'"
        "ip_messages s' = dropped ?s ds (freed P (i + 1) ds)"
        using "1.IH"(1) [unfolded c list.sel, OF True [unfolded c] P, of ?s nx ms] by blast
      moreover have "dropped ?s ds (freed P (i + 1) ds) = dropped s cs (freed P (i + 1) ds)"
        using freed_subset [of P "i + 1" ds] 1(7) c by (auto simp: restrict_map_def fun_eq_iff)
      ultimately show ?thesis unfolding run f by auto
    next
      case P: False
      have f: "freed P i cs = freed P (i + 1) (ds @ [c])" using True P unfolding c by (subst freed.simps) simp
      have "nx < 2 ^ 64 - 1" "ms \<noteq> []" using 1(5,6) True by auto
      from enqueue_holds [OF d(2,3) this, of c] obtain h2 q2 j where e: "lock_queue_enqueue h1 q1 (Some c) (next_block ms) = Some (h2, q2, j)"
        "holds (s\<lparr>ip_nodes := h2, ip_queue := q2\<rparr>) (ds @ [c]) (nx + 1)" "blocks_ok (s\<lparr>ip_nodes := h2, ip_queue := q2\<rparr>) (tl ms)" by auto
      let ?s = "s\<lparr>ip_nodes := h2, ip_queue := q2\<rparr>"
      have run: "ipc_free_loop s type (of_nat i) ms = ipc_free_loop ?s type (of_nat (i + 1)) (tl ms)"
        unfolding step using q(1) l True d(1) msg P e(1) by (simp add: add.commute)
      have "length (ds @ [c]) - (i + 1) \<le> length (tl ms)" "nx + 1 + (length (ds @ [c]) - (i + 1)) < 2 ^ 64" "distinct (ds @ [c])"
        "i + 1 \<le> length (ds @ [c]) + 1" "i + 1 < 2 ^ 64" "\<forall>b \<in> set (ds @ [c]). \<exists>m. ip_messages ?s b = Some m \<and> P b = (im_type m = type)"
        using 1(5-7,10) c True q(3) by auto
      then obtain s' ms' nx' where "ipc_free_loop ?s type (of_nat (i + 1)) (tl ms) = Some (s', ms')" "holds s' (freed P (i + 1) (ds @ [c])) nx'"
        "ip_messages s' = dropped ?s (ds @ [c]) (freed P (i + 1) (ds @ [c]))"
        using "1.IH"(2) [unfolded c list.sel, OF True [unfolded c] P, of ?s "nx + 1" "tl ms"] e(2,3) by blast
      then show ?thesis unfolding run f using c by auto
    qed
  qed
qed

lemma freed_all: "i \<le> length cs \<Longrightarrow> \<forall>c \<in> set cs. P c \<Longrightarrow> freed P i cs = drop ((length cs - i + 1) div 2) cs"
proof (induction P i cs rule: freed.induct)
  case (1 P i cs)
  show ?case
  proof (cases "i < length cs")
    case True
    then obtain c ds where c: "cs = c # ds" "i \<le> length ds" by (cases cs) auto
    have f: "freed P i cs = freed P (i + 1) ds" using True 1(4) unfolding c(1) by (subst freed.simps) simp
    show ?thesis
    proof (cases "i = length ds")
      case True
      then show ?thesis unfolding f using c by (subst freed.simps) simp
    next
      case False
      then have "freed P (i + 1) ds = drop ((length ds - (i + 1) + 1) div 2) ds" using 1(1) c 1(4) by simp
      moreover have "(length cs - i + 1) div 2 = Suc ((length ds - (i + 1) + 1) div 2)" using c False by auto
      ultimately show ?thesis unfolding f using c(1) by simp
    qed
  next
    case False
    then show ?thesis by (subst freed.simps) simp
  qed
qed

lemma free_type_spec:
  assumes "holds s cs nx" "blocks_ok s ms" "length cs \<le> length ms" "nx + length cs < 2 ^ 64" "distinct cs" "\<forall>c \<in> set cs. ip_messages s c \<noteq> None"
  shows "\<exists>s' nx'. ipc_free_type s type ms = Some s' \<and> holds s' (freed (\<lambda>c. im_type (the (ip_messages s c)) = type) 0 cs) nx' \<and>
    ip_messages s' = dropped s cs (freed (\<lambda>c. im_type (the (ip_messages s c)) = type) 0 cs)"
proof -
  let ?P = "\<lambda>c. im_type (the (ip_messages s c)) = type"
  have "\<forall>c \<in> set cs. \<exists>m. ip_messages s c = Some m \<and> ?P c = (im_type m = type)" using assms(6) by auto
  then show ?thesis using free_loop_spec [of s cs nx ms 0 ?P type] assms by (auto simp: ipc_free_type_def)
qed

text \<open>A process with two messages in the queue of the examples.\<close>

definition sample_ipc :: "u8 \<Rightarrow> ipc" where
  "sample_ipc t = \<lparr>ip_nodes = sample_heap, ip_queue = Some sample_queue, ip_messages =
     [70 \<mapsto> \<lparr>im_pid = 1, im_type = 3, im_data = [], im_index = 0\<rparr>, 71 \<mapsto> \<lparr>im_pid = 1, im_type = t, im_data = [], im_index = 0\<rparr>]\<rparr>"

lemma sample_ipc_holds: "holds (sample_ipc t) [70, 71] 4" "blocks_ok (sample_ipc t) [Some 20, Some 21]"
proof -
  show "holds (sample_ipc t) [70, 71] 4" unfolding holds_def using sample_queue_at sample_entries
    by (intro exI [of _ sample_queue] exI [of _ "[10, 11]"]) (simp add: sample_ipc_def, simp add: sample_queue_def)
  show "blocks_ok (sample_ipc t) [Some 20, Some 21]" by (simp add: blocks_ok_def sample_ipc_def sample_heap_def)
qed

section \<open>Properties\<close>



text \<open>
  C40. \<open>ipc_free_type\<close> compares its counter with the size of the queue, which shrinks with every
  message it frees: of a queue of \<open>n\<close> messages that all have the type it frees only the first half
  (rounded up), and the others stay in the queue.
\<close>

theorem ipc_free_type_half:
  assumes "holds s cs nx" "blocks_ok s ms" "length cs \<le> length ms" "nx + length cs < 2 ^ 64" "distinct cs"
    and "\<forall>c \<in> set cs. \<exists>m. ip_messages s c = Some m \<and> im_type m = type"
  shows "\<exists>s' nx'. ipc_free_type s type ms = Some s' \<and> holds s' (drop ((length cs + 1) div 2) cs) nx' \<and>
    ip_messages s' = ip_messages s |` (- set (take ((length cs + 1) div 2) cs))"
proof -
  let ?n = "(length cs + 1) div 2"
  have "\<forall>c \<in> set cs. im_type (the (ip_messages s c)) = type" "\<forall>c \<in> set cs. ip_messages s c \<noteq> None" using assms(6) by force+
  moreover have "set cs - set (drop ?n cs) = set (take ?n cs)"
    using assms(5) set_append [of "take ?n cs" "drop ?n cs"] distinct_append [of "take ?n cs" "drop ?n cs"] by auto
  ultimately show ?thesis using free_type_spec [OF assms(1-5), of type] freed_all [of 0 cs] by simp
qed

theorem ipc_free_type_half_witness: "\<exists>s' nx'. ipc_free_type (sample_ipc 3) 3 [Some 20, Some 21] = Some s' \<and> holds s' [71] nx'"
  using ipc_free_type_half [OF sample_ipc_holds [of 3], of 3] by (simp add: sample_ipc_def) blast

text \<open>
  \<open>ipc_free_type\<close> loses no message of another type and frees exactly the messages that
  left the queue.
\<close>

lemma ipc_free_type_keeps:
  assumes "holds s cs nx" "blocks_ok s ms" "length cs \<le> length ms" "nx + length cs < 2 ^ 64" "distinct cs" "\<forall>c \<in> set cs. ip_messages s c \<noteq> None"
  shows "\<exists>s' ds nx'. ipc_free_type s type ms = Some s' \<and> holds s' ds nx' \<and> mset ds \<subseteq># mset cs \<and> ip_messages s' = ip_messages s |` (- (set cs - set ds)) \<and>
    {#c \<in># mset ds. im_type (the (ip_messages s c)) \<noteq> type#} = {#c \<in># mset cs. im_type (the (ip_messages s c)) \<noteq> type#}"
  using free_type_spec [OF assms, of type] freed_keeps by metis

end
