(* ===== verification/Handoff.thy ===== *)
theory Handoff
  imports Prelude
begin

text \<open>
  The handoff from the boot loader to the installer, \<^verbatim>\<open>include/efi/installer_handoff.h\<close>: the parser of the
  firmware's device path, the check of a captured source, and the check of the whole structure. A device
  path is a byte list; a read behind its end has no result, nor has a write behind the end of an array.
  Offsets into a path are at most 512 and are natural numbers, the fields are words of their C width.
\<close>

section \<open>Constants and structures\<close>

definition XJ_INSTALLER_HANDOFF_MAGIC :: u32 where "XJ_INSTALLER_HANDOFF_MAGIC = 0x48494a58"
definition XJ_INSTALLER_HANDOFF_VERSION :: u32 where "XJ_INSTALLER_HANDOFF_VERSION = 1"
definition XJ_INSTALLER_PCI_MAX :: nat where "XJ_INSTALLER_PCI_MAX = 16"
definition XJ_INSTALLER_PATH_MAX :: nat where "XJ_INSTALLER_PATH_MAX = 512"
definition XJ_INSTALLER_PACKAGE_MAX :: u64 where "XJ_INSTALLER_PACKAGE_MAX = 2 * 1024 * 1024 * 1024"
definition XJ_INSTALLER_PACKAGES_MAX :: u64 where "XJ_INSTALLER_PACKAGES_MAX = 3 * 1024 * 1024 * 1024"
definition XJ_INSTALLER_SOURCE_SUPPORTED :: u32 where "XJ_INSTALLER_SOURCE_SUPPORTED = 1"
definition XJ_INSTALLER_SOURCE_UNSUPPORTED :: u32 where "XJ_INSTALLER_SOURCE_UNSUPPORTED = 2"
definition XJ_INSTALLER_SOURCE_MALFORMED :: u32 where "XJ_INSTALLER_SOURCE_MALFORMED = 3"
definition XJ_INSTALLER_SOURCE_AMBIGUOUS :: u32 where "XJ_INSTALLER_SOURCE_AMBIGUOUS = 4"
definition XJ_INSTALLER_SOURCE_AHCI :: u32 where "XJ_INSTALLER_SOURCE_AHCI = 1"
definition XJ_INSTALLER_SOURCE_NVME :: u32 where "XJ_INSTALLER_SOURCE_NVME = 2"
definition XJ_INSTALLER_SOURCE_IDE :: u32 where "XJ_INSTALLER_SOURCE_IDE = 3"
definition XJ_INSTALLER_SOURCE_READ_ONLY :: u32 where "XJ_INSTALLER_SOURCE_READ_ONLY = 1"
definition XJ_INSTALLER_VOLUME_WHOLE :: u32 where "XJ_INSTALLER_VOLUME_WHOLE = 1"
definition XJ_INSTALLER_VOLUME_HD :: u32 where "XJ_INSTALLER_VOLUME_HD = 2"
definition XJ_INSTALLER_VOLUME_CD :: u32 where "XJ_INSTALLER_VOLUME_CD = 3"
definition XJ_INSTALLER_FORMAT_PAK1 :: u32 where "XJ_INSTALLER_FORMAT_PAK1 = 1"
definition XJ_INSTALLER_PROFILE_FAT32_PAK1 :: u32 where "XJ_INSTALLER_PROFILE_FAT32_PAK1 = 1"
definition XJ_INSTALLER_PROFILE_EXT4_PAK2 :: u32 where "XJ_INSTALLER_PROFILE_EXT4_PAK2 = 2"

lemmas status_defs = XJ_INSTALLER_SOURCE_SUPPORTED_def XJ_INSTALLER_SOURCE_UNSUPPORTED_def XJ_INSTALLER_SOURCE_MALFORMED_def
  XJ_INSTALLER_SOURCE_AMBIGUOUS_def
lemmas kind_defs = XJ_INSTALLER_SOURCE_AHCI_def XJ_INSTALLER_SOURCE_NVME_def XJ_INSTALLER_SOURCE_IDE_def XJ_INSTALLER_VOLUME_WHOLE_def
  XJ_INSTALLER_VOLUME_HD_def XJ_INSTALLER_VOLUME_CD_def

record XJ_INSTALLER_PCI_LOCATION =
  pl_segment :: u16
  pl_bus :: u8
  pl_device :: u8
  pl_function :: u8
  pl_reserved :: "u8 list"

record XJ_INSTALLER_PACKAGE_SPAN =
  pk_physical :: u64
  pk_bytes :: u64
  pk_pages :: u64

record XJ_INSTALLER_SOURCE =
  is_status :: u32
  is_transport :: u32
  is_flags :: u32
  is_pci_count :: u32
  is_physical_block_size :: u32
  is_volume_block_size :: u32
  is_physical_bytes :: u64
  is_volume_offset :: u64
  is_volume_bytes :: u64
  is_sata_port :: u16
  is_sata_multiplier :: u16
  is_lun :: u16
  is_ide_channel :: u8
  is_ide_unit :: u8
  is_nvme_namespace :: u32
  is_nvme_eui64 :: "u8 list"
  is_volume_kind :: u32
  is_volume_index :: u32
  is_path_bytes :: u32
  is_controller_path_bytes :: u32
  is_reserved0 :: u32
  is_reserved :: "u64 list"
  is_pci :: "XJ_INSTALLER_PCI_LOCATION list"
  is_path :: "u8 list"

record XJ_INSTALLER_HANDOFF =
  ih_magic :: u32
  ih_version :: u32
  ih_bytes :: u32
  ih_root_format :: u32
  ih_system_profile :: u32
  ih_reserved0 :: u32
  ih_root :: XJ_INSTALLER_PACKAGE_SPAN
  ih_system :: XJ_INSTALLER_PACKAGE_SPAN
  ih_source :: XJ_INSTALLER_SOURCE
  ih_loader_image_physical :: u64
  ih_loader_image_bytes :: u64
  ih_reserved :: "u64 list"

record XJ_INSTALLER_PATH_INFO =
  pi_identity :: XJ_INSTALLER_SOURCE
  pi_pci_end :: "u32 list"
  pi_physical_path_bytes :: u32
  pi_media_start :: u64
  pi_media_blocks :: u64

text \<open>The cleared structures \<open>xj_installer_handoff_zero\<close> leaves.\<close>

definition zero_pci :: XJ_INSTALLER_PCI_LOCATION where
  "zero_pci = \<lparr>pl_segment = 0, pl_bus = 0, pl_device = 0, pl_function = 0, pl_reserved = [0, 0, 0]\<rparr>"

definition zero_source :: XJ_INSTALLER_SOURCE where
  "zero_source = \<lparr>is_status = 0, is_transport = 0, is_flags = 0, is_pci_count = 0, is_physical_block_size = 0, is_volume_block_size = 0,
     is_physical_bytes = 0, is_volume_offset = 0, is_volume_bytes = 0, is_sata_port = 0, is_sata_multiplier = 0, is_lun = 0,
     is_ide_channel = 0, is_ide_unit = 0, is_nvme_namespace = 0, is_nvme_eui64 = replicate 8 0, is_volume_kind = 0, is_volume_index = 0,
     is_path_bytes = 0, is_controller_path_bytes = 0, is_reserved0 = 0, is_reserved = replicate 4 0,
     is_pci = replicate XJ_INSTALLER_PCI_MAX zero_pci, is_path = replicate XJ_INSTALLER_PATH_MAX 0\<rparr>"

definition zero_info :: XJ_INSTALLER_PATH_INFO where
  "zero_info = \<lparr>pi_identity = zero_source, pi_pci_end = replicate XJ_INSTALLER_PCI_MAX 0, pi_physical_path_bytes = 0,
     pi_media_start = 0, pi_media_blocks = 0\<rparr>"

section \<open>Bytes\<close>

definition path_byte :: "u8 list \<Rightarrow> nat \<Rightarrow> u8 option" where
  "path_byte p i = (if i < length p then Some (p ! i) else None)"

definition put_at :: "'a list \<Rightarrow> nat \<Rightarrow> 'a \<Rightarrow> 'a list option" where
  "put_at xs i v = (if i < length xs then Some (xs[i := v]) else None)"

definition xj_installer_le16 :: "u8 list \<Rightarrow> nat \<Rightarrow> u16 option" where
  "xj_installer_le16 p i = do {
     a \<leftarrow> path_byte p i;
     b \<leftarrow> path_byte p (i + 1);
     Some (ucast a OR push_bit 8 (ucast b))
   }"

definition xj_installer_le32 :: "u8 list \<Rightarrow> nat \<Rightarrow> u32 option" where
  "xj_installer_le32 p i = do {
     a \<leftarrow> xj_installer_le16 p i;
     b \<leftarrow> xj_installer_le16 p (i + 2);
     Some (ucast a OR push_bit 16 (ucast b))
   }"

definition xj_installer_le64 :: "u8 list \<Rightarrow> nat \<Rightarrow> u64 option" where
  "xj_installer_le64 p i = do {
     a \<leftarrow> xj_installer_le32 p i;
     b \<leftarrow> xj_installer_le32 p (i + 4);
     Some (ucast a OR push_bit 32 (ucast b))
   }"

fun xj_installer_bytes_zero :: "u8 list \<Rightarrow> bool" where
  "xj_installer_bytes_zero [] = True"
| "xj_installer_bytes_zero (b # bs) = (if b \<noteq> 0 then False else xj_installer_bytes_zero bs)"

text \<open>The bytes of the structures in memory; they have no padding.\<close>

definition le_bytes :: "nat \<Rightarrow> 'a::len word \<Rightarrow> u8 list" where
  "le_bytes n v = map (\<lambda>i. ucast (drop_bit (8 * i) v)) [0..<n]"

definition pci_bytes :: "XJ_INSTALLER_PCI_LOCATION \<Rightarrow> u8 list" where
  "pci_bytes l = le_bytes 2 (pl_segment l) @ [pl_bus l, pl_device l, pl_function l] @ pl_reserved l"

definition source_bytes :: "XJ_INSTALLER_SOURCE \<Rightarrow> u8 list" where
  "source_bytes s =
     concat (map (le_bytes 4) [is_status s, is_transport s, is_flags s, is_pci_count s, is_physical_block_size s, is_volume_block_size s]) @
     concat (map (le_bytes 8) [is_physical_bytes s, is_volume_offset s, is_volume_bytes s]) @
     concat (map (le_bytes 2) [is_sata_port s, is_sata_multiplier s, is_lun s]) @ [is_ide_channel s, is_ide_unit s] @
     le_bytes 4 (is_nvme_namespace s) @ is_nvme_eui64 s @
     concat (map (le_bytes 4) [is_volume_kind s, is_volume_index s, is_path_bytes s, is_controller_path_bytes s, is_reserved0 s]) @
     concat (map (le_bytes 8) (is_reserved s)) @ concat (map pci_bytes (is_pci s)) @ is_path s"

definition xj_installer_package_span_valid :: "XJ_INSTALLER_PACKAGE_SPAN option \<Rightarrow> bool" where
  "xj_installer_package_span_valid span =
     (case span of None \<Rightarrow> False
      | Some s \<Rightarrow> pk_physical s \<noteq> 0 \<and> pk_physical s AND 4095 = 0 \<and> pk_bytes s \<noteq> 0 \<and> pk_bytes s \<le> XJ_INSTALLER_PACKAGE_MAX \<and>
          pk_pages s = (pk_bytes s + 4095) div 4096 \<and> pk_physical s \<le> NOT 0 - pk_pages s * 4096)"

section \<open>The device path parser\<close>

text \<open>
  Each branch of the loop body is a definition. \<open>Inl\<close> is a \<open>return\<close> with its status, \<open>Inr\<close> goes on; both carry the
  structure with the fields written so far.
\<close>

type_synonym node_result = "(u32 \<times> XJ_INSTALLER_PATH_INFO) + XJ_INSTALLER_PATH_INFO"

abbreviation malformed :: "XJ_INSTALLER_PATH_INFO \<Rightarrow> node_result option" where
  "malformed info \<equiv> Some (Inl (XJ_INSTALLER_SOURCE_MALFORMED, info))"

abbreviation unsupported :: "XJ_INSTALLER_PATH_INFO \<Rightarrow> node_result option" where
  "unsupported info \<equiv> Some (Inl (XJ_INSTALLER_SOURCE_UNSUPPORTED, info))"

fun copy_path :: "u8 list \<Rightarrow> u8 list \<Rightarrow> nat \<Rightarrow> nat \<Rightarrow> u8 list option" where
  "copy_path path target i 0 = Some target"
| "copy_path path target i (Suc n) = do {
     b \<leftarrow> path_byte path i;
     target \<leftarrow> put_at target i b;
     copy_path path target (i + 1) n
   }"

definition parse_end :: "u8 list \<Rightarrow> nat \<Rightarrow> u16 \<Rightarrow> bool \<Rightarrow> XJ_INSTALLER_PATH_INFO \<Rightarrow> node_result option" where
  "parse_end path offset bytes root_seen info = do {
     n1 \<leftarrow> path_byte path (offset + 1);
     if n1 \<noteq> 0xff then unsupported info
     else do {
       let s = pi_identity info;
       if bytes \<noteq> 4 \<or> \<not> root_seen \<or> is_transport s = 0 \<or> is_pci_count s = 0 then malformed info
       else do {
         let s = s\<lparr>is_path_bytes := of_nat (offset + 4)\<rparr>;
         let s = (if is_volume_kind s = 0 then s\<lparr>is_volume_kind := XJ_INSTALLER_VOLUME_WHOLE\<rparr> else s);
         p \<leftarrow> copy_path path (is_path s) 0 (unat (is_path_bytes s));
         let s = s\<lparr>is_path := p, is_status := XJ_INSTALLER_SOURCE_SUPPORTED\<rparr>;
         Some (Inl (is_status s, info\<lparr>pi_identity := s\<rparr>))
       }
     }
   }"

definition parse_root :: "u8 list \<Rightarrow> nat \<Rightarrow> u16 \<Rightarrow> XJ_INSTALLER_PATH_INFO \<Rightarrow> node_result option" where
  "parse_root path offset bytes info = do {
     n0 \<leftarrow> path_byte path offset;
     n1 \<leftarrow> path_byte path (offset + 1);
     if n0 \<noteq> 2 \<or> n1 \<noteq> 1 \<or> bytes \<noteq> 12 then unsupported info
     else do {
       hid \<leftarrow> xj_installer_le32 path (offset + 4);
       if hid \<noteq> 0x0a0341d0 \<and> hid \<noteq> 0x0a0841d0 then unsupported info else Some (Inr info)
     }
   }"

definition parse_pci :: "u8 list \<Rightarrow> nat \<Rightarrow> u16 \<Rightarrow> XJ_INSTALLER_PATH_INFO \<Rightarrow> node_result option" where
  "parse_pci path offset bytes info = do {
     let s = pi_identity info;
     if bytes \<noteq> 6 \<or> is_transport s \<noteq> 0 \<or> is_pci_count s = of_nat XJ_INSTALLER_PCI_MAX then malformed info
     else do {
       n4 \<leftarrow> path_byte path (offset + 4);
       n5 \<leftarrow> path_byte path (offset + 5);
       if n4 > 7 \<or> n5 > 31 then malformed info
       else do {
         let i = unat (is_pci_count s);
         let s = s\<lparr>is_pci_count := is_pci_count s + 1\<rparr>;
         pci \<leftarrow> put_at (is_pci s) i ((is_pci s ! i)\<lparr>pl_function := n4, pl_device := n5\<rparr>);
         ends \<leftarrow> put_at (pi_pci_end info) i (of_nat (offset + unat bytes));
         Some (Inr (info\<lparr>pi_identity := s\<lparr>is_pci := pci\<rparr>, pi_pci_end := ends\<rparr>))
       }
     }
   }"

fun copy_eui :: "u8 list \<Rightarrow> nat \<Rightarrow> nat \<Rightarrow> nat \<Rightarrow> u8 list \<Rightarrow> u8 list option" where
  "copy_eui path offset i 0 eui = Some eui"
| "copy_eui path offset i (Suc n) eui = do {
     b \<leftarrow> path_byte path (offset + 8 + i);
     eui \<leftarrow> put_at eui i b;
     copy_eui path offset (i + 1) n eui
   }"

definition parse_transport :: "u8 list \<Rightarrow> nat \<Rightarrow> u16 \<Rightarrow> XJ_INSTALLER_PATH_INFO \<Rightarrow> node_result option" where
  "parse_transport path offset bytes info = do {
     let s = pi_identity info;
     if is_pci_count s = 0 \<or> is_transport s \<noteq> 0 \<or> is_volume_kind s \<noteq> 0 then malformed info
     else do {
       let s = s\<lparr>is_controller_path_bytes := of_nat offset\<rparr>;
       let done = (\<lambda>s. Some (Inr (info\<lparr>pi_identity := s, pi_physical_path_bytes := of_nat (offset + unat bytes)\<rparr>)));
       n1 \<leftarrow> path_byte path (offset + 1);
       if n1 = 0x12 \<and> bytes = 10 then do {
         port \<leftarrow> xj_installer_le16 path (offset + 4);
         multiplier \<leftarrow> xj_installer_le16 path (offset + 6);
         lun \<leftarrow> xj_installer_le16 path (offset + 8);
         let s = s\<lparr>is_transport := XJ_INSTALLER_SOURCE_AHCI, is_sata_port := port, is_sata_multiplier := multiplier, is_lun := lun\<rparr>;
         if is_sata_port s \<ge> 32 \<or> is_sata_multiplier s \<noteq> 0xffff \<or> is_lun s \<noteq> 0 then unsupported (info\<lparr>pi_identity := s\<rparr>)
         else done s
       }
       else if n1 = 0x17 \<and> bytes = 16 then do {
         namespace \<leftarrow> xj_installer_le32 path (offset + 4);
         let s = s\<lparr>is_transport := XJ_INSTALLER_SOURCE_NVME, is_nvme_namespace := namespace\<rparr>;
         if is_nvme_namespace s = 0 \<or> is_nvme_namespace s = 0xffffffff then malformed (info\<lparr>pi_identity := s\<rparr>)
         else do {
           eui \<leftarrow> copy_eui path offset 0 8 (is_nvme_eui64 s);
           done (s\<lparr>is_nvme_eui64 := eui\<rparr>)
         }
       }
       else if n1 = 1 \<and> bytes = 8 then do {
         channel \<leftarrow> path_byte path (offset + 4);
         unit \<leftarrow> path_byte path (offset + 5);
         lun \<leftarrow> xj_installer_le16 path (offset + 6);
         let s = s\<lparr>is_transport := XJ_INSTALLER_SOURCE_IDE, is_ide_channel := channel, is_ide_unit := unit, is_lun := lun\<rparr>;
         if is_ide_channel s > 1 \<or> is_ide_unit s > 1 \<or> is_lun s \<noteq> 0 then unsupported (info\<lparr>pi_identity := s\<rparr>)
         else done s
       }
       else unsupported (info\<lparr>pi_identity := s\<rparr>)
     }
   }"

text \<open>The extent a media node names, and the test behind both kinds of it.\<close>

definition read_extent :: "u8 list \<Rightarrow> nat \<Rightarrow> XJ_INSTALLER_PATH_INFO \<Rightarrow> u32 \<Rightarrow> node_result option" where
  "read_extent path offset info kind = do {
     index \<leftarrow> xj_installer_le32 path (offset + 4);
     start \<leftarrow> xj_installer_le64 path (offset + 8);
     blocks \<leftarrow> xj_installer_le64 path (offset + 16);
     let info = info\<lparr>pi_identity := (pi_identity info)\<lparr>is_volume_kind := kind, is_volume_index := index\<rparr>,
                     pi_media_start := start, pi_media_blocks := blocks\<rparr>;
     if pi_media_start info = 0 \<or> pi_media_blocks info = 0 then malformed info else Some (Inr info)
   }"

definition parse_media :: "u8 list \<Rightarrow> nat \<Rightarrow> u16 \<Rightarrow> XJ_INSTALLER_PATH_INFO \<Rightarrow> node_result option" where
  "parse_media path offset bytes info = do {
     let s = pi_identity info;
     if is_transport s = 0 \<or> is_volume_kind s \<noteq> 0 then unsupported info
     else do {
       n1 \<leftarrow> path_byte path (offset + 1);
       if n1 = 1 \<and> bytes = 42 then do {
         index \<leftarrow> xj_installer_le32 path (offset + 4);
         n40 \<leftarrow> path_byte path (offset + 40);
         n41 \<leftarrow> path_byte path (offset + 41);
         if index = 0 \<or> (n40 \<noteq> 1 \<and> n40 \<noteq> 2) \<or> (n41 \<noteq> 1 \<and> n41 \<noteq> 2) then malformed info
         else read_extent path offset info XJ_INSTALLER_VOLUME_HD
       }
       else if n1 = 2 \<and> bytes = 24 then read_extent path offset info XJ_INSTALLER_VOLUME_CD
       else unsupported info
     }
   }"

definition parse_branch :: "u8 list \<Rightarrow> nat \<Rightarrow> u16 \<Rightarrow> bool \<Rightarrow> XJ_INSTALLER_PATH_INFO \<Rightarrow> (node_result \<times> bool) option" where
  "parse_branch path offset bytes root_seen info = do {
     n0 \<leftarrow> path_byte path offset;
     n1 \<leftarrow> path_byte path (offset + 1);
     if n0 = 0x7f then do { r \<leftarrow> parse_end path offset bytes root_seen info; Some (r, root_seen) }
     else if \<not> root_seen then do { r \<leftarrow> parse_root path offset bytes info; Some (r, True) }
     else if n0 = 1 \<and> n1 = 1 then do { r \<leftarrow> parse_pci path offset bytes info; Some (r, root_seen) }
     else if n0 = 3 then do { r \<leftarrow> parse_transport path offset bytes info; Some (r, root_seen) }
     else if n0 = 4 then do { r \<leftarrow> parse_media path offset bytes info; Some (r, root_seen) }
     else Some (Inl (XJ_INSTALLER_SOURCE_UNSUPPORTED, info), root_seen)
   }"

definition parse_node :: "u8 list \<Rightarrow> nat \<Rightarrow> nat \<Rightarrow> bool \<Rightarrow> XJ_INSTALLER_PATH_INFO \<Rightarrow> ((u32 \<times> XJ_INSTALLER_PATH_INFO) + (nat \<times> bool \<times> XJ_INSTALLER_PATH_INFO)) option" where
  "parse_node path limit offset root_seen info = do {
     bytes \<leftarrow> xj_installer_le16 path (offset + 2);
     if bytes < 4 \<or> unat bytes > limit - offset then Some (Inl (XJ_INSTALLER_SOURCE_MALFORMED, info))
     else do {
       (r, root_seen) \<leftarrow> parse_branch path offset bytes root_seen info;
       case r of Inl e \<Rightarrow> Some (Inl e) | Inr info \<Rightarrow> Some (Inr (unat bytes, root_seen, info))
     }
   }"

lemma parse_node_cases:
  "parse_node path limit offset root_seen info = Some z \<Longrightarrow> \<exists>bytes. xj_installer_le16 path (offset + 2) = Some bytes \<and>
    ((bytes < 4 \<or> unat bytes > limit - offset) \<and> z = Inl (XJ_INSTALLER_SOURCE_MALFORMED, info) \<or>
     4 \<le> unat bytes \<and> unat bytes \<le> limit - offset \<and>
     ((\<exists>e rs. parse_branch path offset bytes root_seen info = Some (Inl e, rs) \<and> z = Inl e) \<or>
      (\<exists>i rs. parse_branch path offset bytes root_seen info = Some (Inr i, rs) \<and> z = Inr (unat bytes, rs, i))))"
proof -
  assume z: "parse_node path limit offset root_seen info = Some z"
  then obtain bytes where b: "xj_installer_le16 path (offset + 2) = Some bytes" by (cases "xj_installer_le16 path (offset + 2)") (auto simp: parse_node_def)
  show ?thesis
  proof (cases "bytes < 4 \<or> unat bytes > limit - offset")
    case False
    then obtain r rs where r: "parse_branch path offset bytes root_seen info = Some (r, rs)"
      using z b by (cases "parse_branch path offset bytes root_seen info") (auto simp: parse_node_def)
    have "4 \<le> unat bytes" using False by (simp add: not_less word_le_nat_alt)
    then show ?thesis using False z b r by (cases r) (auto simp: parse_node_def)
  qed (use z b in \<open>auto simp: parse_node_def\<close>)
qed

lemma parse_node_bytes: "parse_node path limit offset root_seen info = Some (Inr (b, rs, info')) \<Longrightarrow> 4 \<le> b \<and> b \<le> limit - offset"
  by (drule parse_node_cases) auto

function parse_loop :: "u8 list \<Rightarrow> nat \<Rightarrow> nat \<Rightarrow> bool \<Rightarrow> XJ_INSTALLER_PATH_INFO \<Rightarrow> (u32 \<times> XJ_INSTALLER_PATH_INFO) option" where
  "parse_loop path limit offset root_seen info =
     (if offset \<le> limit \<and> limit - offset \<ge> 4 then
        (case parse_node path limit offset root_seen info of
           None \<Rightarrow> None
         | Some (Inl r) \<Rightarrow> Some r
         | Some (Inr (bytes, root_seen, info)) \<Rightarrow> parse_loop path limit (offset + bytes) root_seen info)
      else Some (XJ_INSTALLER_SOURCE_MALFORMED, info))"
  by pat_completeness auto
termination by (relation "measure (\<lambda>(path, limit, offset, rs, info). limit - offset)") (auto dest!: parse_node_bytes)

declare parse_loop.simps [simp del]

definition xj_installer_parse_device_path :: "u8 list option \<Rightarrow> nat \<Rightarrow> XJ_INSTALLER_PATH_INFO option \<Rightarrow> (u32 \<times> XJ_INSTALLER_PATH_INFO option) option" where
  "xj_installer_parse_device_path path limit info =
     (if info = None then Some (XJ_INSTALLER_SOURCE_MALFORMED, None)
      else case path of None \<Rightarrow> Some (XJ_INSTALLER_SOURCE_MALFORMED, Some zero_info)
      | Some p \<Rightarrow> do {
          let limit = (if limit > XJ_INSTALLER_PATH_MAX then XJ_INSTALLER_PATH_MAX else limit);
          (r, info) \<leftarrow> parse_loop p limit 0 False zero_info;
          Some (r, Some info)
        })"

section \<open>Checking a captured source\<close>

text \<open>The three groups of tests of \<open>xj_installer_source_valid\<close>: the numbers, the comparison with the reparsed path, the extent.\<close>

definition source_numbers_ok :: "XJ_INSTALLER_SOURCE \<Rightarrow> bool" where
  "source_numbers_ok s \<longleftrightarrow> \<not> (is_status s \<noteq> XJ_INSTALLER_SOURCE_SUPPORTED \<or> is_reserved0 s \<noteq> 0 \<or>
     is_flags s AND NOT XJ_INSTALLER_SOURCE_READ_ONLY \<noteq> 0 \<or> is_pci_count s > of_nat XJ_INSTALLER_PCI_MAX \<or>
     is_pci_count s = 0 \<or> is_physical_block_size s = 0 \<or> is_volume_block_size s = 0 \<or>
     is_physical_block_size s AND (is_physical_block_size s - 1) \<noteq> 0 \<or>
     is_volume_block_size s AND (is_volume_block_size s - 1) \<noteq> 0 \<or>
     is_physical_block_size s < 512 \<or> is_physical_block_size s > 65536 \<or>
     is_volume_block_size s < 512 \<or> is_volume_block_size s > 65536 \<or>
     is_physical_bytes s = 0 \<or> is_physical_bytes s mod ucast (is_physical_block_size s) \<noteq> 0 \<or> is_volume_bytes s = 0 \<or>
     is_volume_bytes s mod ucast (is_volume_block_size s) \<noteq> 0 \<or> is_volume_offset s > is_physical_bytes s \<or>
     is_volume_bytes s > is_physical_bytes s - is_volume_offset s \<or>
     is_path_bytes s < 4 \<or> is_path_bytes s > of_nat XJ_INSTALLER_PATH_MAX \<or>
     \<not> xj_installer_bytes_zero (concat (map (le_bytes 8) (is_reserved s))) \<or>
     \<not> xj_installer_bytes_zero (drop (unat (is_path_bytes s)) (is_path s)))"

definition same_identity :: "XJ_INSTALLER_SOURCE \<Rightarrow> XJ_INSTALLER_SOURCE \<Rightarrow> bool" where
  "same_identity p s \<longleftrightarrow> \<not> (is_path_bytes p \<noteq> is_path_bytes s \<or> is_controller_path_bytes p \<noteq> is_controller_path_bytes s \<or>
     is_pci_count p \<noteq> is_pci_count s \<or> is_transport p \<noteq> is_transport s \<or> is_sata_port p \<noteq> is_sata_port s \<or>
     is_sata_multiplier p \<noteq> is_sata_multiplier s \<or> is_lun p \<noteq> is_lun s \<or> is_ide_channel p \<noteq> is_ide_channel s \<or>
     is_ide_unit p \<noteq> is_ide_unit s \<or> is_nvme_namespace p \<noteq> is_nvme_namespace s \<or>
     is_volume_kind p \<noteq> is_volume_kind s \<or> is_volume_index p \<noteq> is_volume_index s) \<and>
     list_all (\<lambda>i. is_nvme_eui64 p ! i = is_nvme_eui64 s ! i) [0..<8]"

definition pci_ok :: "XJ_INSTALLER_SOURCE \<Rightarrow> XJ_INSTALLER_SOURCE \<Rightarrow> nat \<Rightarrow> bool" where
  "pci_ok p s i \<longleftrightarrow> \<not> (pl_device (is_pci s ! i) \<noteq> pl_device (is_pci p ! i) \<or> pl_function (is_pci s ! i) \<noteq> pl_function (is_pci p ! i) \<or>
     pl_segment (is_pci s ! i) \<noteq> pl_segment (is_pci s ! 0) \<or> \<not> xj_installer_bytes_zero (pl_reserved (is_pci s ! i))) \<and>
     list_all (\<lambda>j. pl_bus (is_pci s ! i) \<noteq> pl_bus (is_pci s ! j)) [0..<i]"

definition source_extent_ok :: "XJ_INSTALLER_PATH_INFO \<Rightarrow> XJ_INSTALLER_SOURCE \<Rightarrow> bool" where
  "source_extent_ok info s =
     (if is_volume_kind s = XJ_INSTALLER_VOLUME_WHOLE
      then is_volume_offset s = 0 \<and> is_volume_bytes s = is_physical_bytes s \<and> is_volume_block_size s = is_physical_block_size s
      else if pi_media_start info > NOT 0 div ucast (is_physical_block_size s) \<or>
              pi_media_blocks info > NOT 0 div ucast (is_physical_block_size s) then False
      else is_volume_offset s = pi_media_start info * ucast (is_physical_block_size s) \<and>
           is_volume_bytes s = pi_media_blocks info * ucast (is_physical_block_size s))"

definition xj_installer_source_valid :: "XJ_INSTALLER_SOURCE option \<Rightarrow> bool option" where
  "xj_installer_source_valid source =
     (case source of None \<Rightarrow> Some False
      | Some s \<Rightarrow>
          if \<not> source_numbers_ok s then Some False
          else do {
            (r, info) \<leftarrow> xj_installer_parse_device_path (Some (is_path s)) (unat (is_path_bytes s)) (Some zero_info);
            if r \<noteq> XJ_INSTALLER_SOURCE_SUPPORTED then Some False
            else do {
              info \<leftarrow> info;
              let p = pi_identity info;
              if \<not> same_identity p s then Some False
              else if \<not> list_all (pci_ok p s) [0..<unat (is_pci_count s)] then Some False
              else if \<not> xj_installer_bytes_zero (concat (map pci_bytes (drop (unat (is_pci_count s)) (is_pci s)))) then Some False
              else Some (source_extent_ok info s)
            }
          })"

section \<open>Checking the handoff\<close>

definition sizeof_handoff :: u32 where "sizeof_handoff = 880"

definition handoff_fields_ok :: "XJ_INSTALLER_HANDOFF \<Rightarrow> bool" where
  "handoff_fields_ok h \<longleftrightarrow> \<not> (ih_magic h \<noteq> XJ_INSTALLER_HANDOFF_MAGIC \<or> ih_version h \<noteq> XJ_INSTALLER_HANDOFF_VERSION \<or>
     ih_bytes h \<noteq> sizeof_handoff \<or> ih_root_format h \<noteq> XJ_INSTALLER_FORMAT_PAK1 \<or> ih_reserved0 h \<noteq> 0 \<or>
     ih_loader_image_physical h = 0 \<or> ih_loader_image_bytes h = 0 \<or>
     ih_loader_image_physical h > NOT 0 - ih_loader_image_bytes h \<or>
     (ih_system_profile h \<noteq> XJ_INSTALLER_PROFILE_FAT32_PAK1 \<and> ih_system_profile h \<noteq> XJ_INSTALLER_PROFILE_EXT4_PAK2) \<or>
     \<not> xj_installer_bytes_zero (concat (map (le_bytes 8) (ih_reserved h))) \<or>
     \<not> xj_installer_package_span_valid (Some (ih_root h)) \<or> \<not> xj_installer_package_span_valid (Some (ih_system h)) \<or>
     pk_bytes (ih_root h) + pk_bytes (ih_system h) > XJ_INSTALLER_PACKAGES_MAX)"

definition xj_installer_handoff_valid :: "XJ_INSTALLER_HANDOFF option \<Rightarrow> bool option" where
  "xj_installer_handoff_valid handoff =
     (case handoff of None \<Rightarrow> Some False
      | Some h \<Rightarrow>
          if \<not> handoff_fields_ok h then Some False
          else do {
            ok \<leftarrow> (if is_status (ih_source h) = XJ_INSTALLER_SOURCE_SUPPORTED then xj_installer_source_valid (Some (ih_source h))
                   else Some (\<not> (is_status (ih_source h) < XJ_INSTALLER_SOURCE_UNSUPPORTED \<or>
                        is_status (ih_source h) > XJ_INSTALLER_SOURCE_AMBIGUOUS \<or>
                        \<not> xj_installer_bytes_zero (drop 4 (source_bytes (ih_source h))))));
            if \<not> ok then Some False
            else do {
              let root_end = pk_physical (ih_root h) + pk_pages (ih_root h) * 4096;
              let system_end = pk_physical (ih_system h) + pk_pages (ih_system h) * 4096;
              Some (root_end \<le> pk_physical (ih_system h) \<or> system_end \<le> pk_physical (ih_root h))
            }
          })"

section \<open>The parser stays inside the path\<close>

definition info_ok :: "XJ_INSTALLER_PATH_INFO \<Rightarrow> bool" where
  "info_ok info \<longleftrightarrow> length (is_path (pi_identity info)) = 512 \<and> length (is_pci (pi_identity info)) = 16 \<and> length (pi_pci_end info) = 16 \<and>
     length (is_nvme_eui64 (pi_identity info)) = 8 \<and> unat (is_pci_count (pi_identity info)) \<le> 16"

lemma path_byte_Some [simp]: "i < length p \<Longrightarrow> path_byte p i = Some (p ! i)"
  by (simp add: path_byte_def)

lemma le16_Some: "i + 2 \<le> length p \<Longrightarrow> \<exists>v. xj_installer_le16 p i = Some v"
  by (simp add: xj_installer_le16_def)

lemma le32_Some: "i + 4 \<le> length p \<Longrightarrow> \<exists>v. xj_installer_le32 p i = Some v"
  using le16_Some [of i p] le16_Some [of "i + 2" p] by (auto simp: xj_installer_le32_def)

lemma le64_Some: "i + 8 \<le> length p \<Longrightarrow> \<exists>v. xj_installer_le64 p i = Some v"
  using le32_Some [of i p] le32_Some [of "i + 4" p] by (auto simp: xj_installer_le64_def)

lemma copy_path_spec:
  "i + n \<le> length path \<Longrightarrow> i + n \<le> length target \<Longrightarrow> copy_path path target i n = Some (take i target @ take n (drop i path) @ drop (i + n) target)"
proof (induction n arbitrary: i target)
  case (Suc n)
  have "copy_path path target i (Suc n) = copy_path path (target[i := path ! i]) (i + 1) n" using Suc.prems by (simp add: put_at_def)
  also have "\<dots> = Some (take (i + 1) (target[i := path ! i]) @ take n (drop (i + 1) path) @ drop (i + 1 + n) (target[i := path ! i]))"
    using Suc.IH [of "i + 1" "target[i := path ! i]"] Suc.prems by simp
  also have "\<dots> = Some (take i target @ take (Suc n) (drop i path) @ drop (i + Suc n) target)"
    using Suc.prems by (simp add: take_Suc_conv_app_nth Cons_nth_drop_Suc [symmetric])
  finally show ?case .
qed simp

lemma copy_eui_Some: "offset + 8 + i + n \<le> length p \<Longrightarrow> i + n \<le> length eui \<Longrightarrow> \<exists>e. copy_eui p offset i n eui = Some e \<and> length e = length eui"
proof (induction n arbitrary: i eui)
  case (Suc n)
  then show ?case using Suc.IH [of "i + 1" "eui[i := p ! (offset + 8 + i)]"] by (simp add: put_at_def)
qed simp

text \<open>Every branch is defined and keeps the sizes of the arrays when the node lies inside the path.\<close>

definition defined_node :: "node_result option \<Rightarrow> bool" where
  "defined_node r \<longleftrightarrow> (\<exists>z. r = Some z \<and> (case z of Inl (st, i) \<Rightarrow> st \<in> {1, 2, 3} \<and> info_ok i | Inr i \<Rightarrow> info_ok i))"

lemma unat_end: "offset + 4 \<le> 512 \<Longrightarrow> unat (of_nat offset + 4 :: u32) = offset + 4"
proof -
  assume "offset + 4 \<le> 512"
  then have "unat (of_nat (offset + 4) :: u32) = offset + 4" by (simp add: unat_of_nat take_bit_nat_eq_self del: of_nat_add)
  then show ?thesis by simp
qed

lemma parse_end_defined: "info_ok info \<Longrightarrow> offset + 4 \<le> length path \<Longrightarrow> offset + 4 \<le> 512 \<Longrightarrow> defined_node (parse_end path offset bytes root_seen info)"
  by (auto simp: defined_node_def parse_end_def Let_def info_ok_def status_defs unat_end copy_path_spec)

lemma parse_root_defined: "info_ok info \<Longrightarrow> offset + unat bytes \<le> length path \<Longrightarrow> 4 \<le> unat bytes \<Longrightarrow> defined_node (parse_root path offset bytes info)"
  using le32_Some [of "offset + 4" path] by (auto simp: defined_node_def parse_root_def info_ok_def status_defs)

lemma pci_count_next: "unat c \<le> 16 \<Longrightarrow> c \<noteq> of_nat XJ_INSTALLER_PCI_MAX \<Longrightarrow> unat c < 16 \<and> unat (c + 1) \<le> 16" for c :: u32
proof -
  assume c: "unat c \<le> 16" "c \<noteq> of_nat XJ_INSTALLER_PCI_MAX"
  have "unat c \<noteq> unat (16 :: u32)" using c(2) unfolding word_unat_eq_iff [symmetric] by (simp add: XJ_INSTALLER_PCI_MAX_def)
  then have "unat c < 16" using c(1) by simp
  then show ?thesis by (simp add: unat_word_ariths)
qed

lemma parse_pci_defined:
  assumes "info_ok info" "offset + unat bytes \<le> length path"
  shows "defined_node (parse_pci path offset bytes info)"
  using assms pci_count_next [of "is_pci_count (pi_identity info)"]
  by (auto simp: defined_node_def parse_pci_def Let_def info_ok_def status_defs put_at_def)

lemma parse_transport_defined:
  assumes "info_ok info" "offset + unat bytes \<le> length path" "4 \<le> unat bytes"
  shows "defined_node (parse_transport path offset bytes info)"
proof -
  let ?n1 = "path ! (offset + 1)"
  consider "?n1 = 0x12 \<and> bytes = 10" | "?n1 = 0x17 \<and> bytes = 16" | "?n1 = 1 \<and> bytes = 8" |
    "\<not> (?n1 = 0x12 \<and> bytes = 10)" "\<not> (?n1 = 0x17 \<and> bytes = 16)" "\<not> (?n1 = 1 \<and> bytes = 8)" by blast
  then show ?thesis
  proof cases
    case 1
    then obtain a b c where "xj_installer_le16 path (offset + 4) = Some a" "xj_installer_le16 path (offset + 6) = Some b" "xj_installer_le16 path (offset + 8) = Some c"
      using le16_Some [of "offset + 4" path] le16_Some [of "offset + 6" path] le16_Some [of "offset + 8" path] assms(2) by auto
    then show ?thesis using 1 assms by (auto simp: defined_node_def parse_transport_def Let_def info_ok_def status_defs)
  next
    case 2
    then obtain a e where "xj_installer_le32 path (offset + 4) = Some a" "copy_eui path offset 0 8 (is_nvme_eui64 (pi_identity info)) = Some e" "length e = 8"
      using le32_Some [of "offset + 4" path] copy_eui_Some [of offset 0 8 path "is_nvme_eui64 (pi_identity info)"] assms(1,2) by (auto simp: info_ok_def)
    then show ?thesis using 2 assms by (auto simp: defined_node_def parse_transport_def Let_def info_ok_def status_defs)
  next
    case 3
    then obtain a where "xj_installer_le16 path (offset + 6) = Some a" using le16_Some [of "offset + 6" path] assms(2) by auto
    then show ?thesis using 3 assms by (auto simp: defined_node_def parse_transport_def Let_def info_ok_def status_defs)
  next
    case 4
    then show ?thesis using assms by (auto simp: defined_node_def parse_transport_def Let_def info_ok_def status_defs)
  qed
qed

lemma read_extent_defined:
  assumes "info_ok info" "offset + 24 \<le> length path"
  shows "defined_node (read_extent path offset info kind)"
proof -
  obtain a b c where "xj_installer_le32 path (offset + 4) = Some a" "xj_installer_le64 path (offset + 8) = Some b" "xj_installer_le64 path (offset + 16) = Some c"
    using le32_Some [of "offset + 4" path] le64_Some [of "offset + 8" path] le64_Some [of "offset + 16" path] assms(2) by auto
  then show ?thesis using assms(1) by (auto simp: defined_node_def read_extent_def Let_def info_ok_def status_defs)
qed

lemma parse_media_defined:
  assumes "info_ok info" "offset + unat bytes \<le> length path" "4 \<le> unat bytes"
  shows "defined_node (parse_media path offset bytes info)"
proof -
  have d: "defined_node (malformed info)" "defined_node (unsupported info)" using assms(1) by (simp_all add: defined_node_def status_defs)
  have e: "bytes = 42 \<or> bytes = 24 \<Longrightarrow> defined_node (read_extent path offset info k)" for k using read_extent_defined [OF assms(1)] assms(2) by auto
  have "bytes = 42 \<Longrightarrow> \<exists>v. xj_installer_le32 path (offset + 4) = Some v" using le32_Some [of "offset + 4" path] assms(2) by auto
  then show ?thesis using d e assms by (auto simp: parse_media_def Let_def)
qed

lemma parse_node_defined:
  assumes "info_ok info" "offset + 4 \<le> limit" "limit \<le> length path" "limit \<le> 512"
  shows "\<exists>z. parse_node path limit offset root_seen info = Some z \<and> (case z of Inl (st, i) \<Rightarrow> st \<in> {1, 2, 3} \<and> info_ok i | Inr (b, rs, i) \<Rightarrow> info_ok i)"
proof -
  obtain bytes where b: "xj_installer_le16 path (offset + 2) = Some bytes" using le16_Some [of "offset + 2" path] assms by auto
  show ?thesis
  proof (cases "bytes < 4 \<or> unat bytes > limit - offset")
    case True
    then show ?thesis using b assms(1) by (auto simp: parse_node_def status_defs)
  next
    case False
    then have l: "4 \<le> unat bytes" "offset + unat bytes \<le> length path" using assms by (auto simp: not_less word_le_nat_alt)
    note d = parse_end_defined [OF assms(1), of offset path bytes root_seen] parse_root_defined [OF assms(1) l(2,1)] parse_pci_defined [OF assms(1) l(2)]
      parse_transport_defined [OF assms(1) l(2,1)] parse_media_defined [OF assms(1) l(2,1)]
    have "\<exists>r rs. parse_branch path offset bytes root_seen info = Some (r, rs) \<and> defined_node (Some r)"
      using d l assms by (auto simp: parse_branch_def defined_node_def status_defs)
    then obtain r rs where r: "parse_branch path offset bytes root_seen info = Some (r, rs)" "defined_node (Some r)" by blast
    then show ?thesis using b False by (cases r) (auto simp: parse_node_def defined_node_def)
  qed
qed

lemma parse_loop_defined:
  "info_ok info \<Longrightarrow> limit \<le> length path \<Longrightarrow> limit \<le> 512 \<Longrightarrow>
     \<exists>st i. parse_loop path limit offset root_seen info = Some (st, i) \<and> st \<in> {1, 2, 3} \<and> info_ok i"
proof (induction path limit offset root_seen info rule: parse_loop.induct)
  case (1 path limit offset root_seen info)
  show ?case
  proof (cases "offset \<le> limit \<and> limit - offset \<ge> 4")
    case True
    then obtain z where z: "parse_node path limit offset root_seen info = Some z" "case z of Inl (st, i) \<Rightarrow> st \<in> {1, 2, 3} \<and> info_ok i | Inr (b, rs, i) \<Rightarrow> info_ok i"
      using parse_node_defined [OF 1(2) _ 1(3,4), of offset root_seen] by force
    show ?thesis
    proof (cases z)
      case (Inl r)
      then show ?thesis using z True by (cases r) (auto simp: parse_loop.simps [of path limit offset])
    next
      case (Inr t)
      obtain b rs i where t: "t = (b, rs, i)" by (cases t)
      then have "\<exists>st j. parse_loop path limit (offset + b) rs i = Some (st, j) \<and> st \<in> {1, 2, 3} \<and> info_ok j"
        using "1.IH" [OF True z(1) Inr t [symmetric] refl] z(2) 1(3,4) Inr t by simp
      then show ?thesis using True z(1) Inr t by (simp add: parse_loop.simps [of path limit offset])
    qed
  next
    case False
    then show ?thesis using 1(2) by (subst parse_loop.simps) (auto simp: status_defs)
  qed
qed

section \<open>Reparsing the captured path\<close>

definition agree :: "nat \<Rightarrow> u8 list \<Rightarrow> u8 list \<Rightarrow> bool" where
  "agree m p p' \<longleftrightarrow> m \<le> length p \<and> m \<le> length p' \<and> take m p = take m p'"

lemma agree_byte: "agree m p p' \<Longrightarrow> i < m \<Longrightarrow> path_byte p' i = path_byte p i"
  using nth_take [of i m p] nth_take [of i m p'] by (simp add: agree_def path_byte_def)

lemma agree_words:
  assumes "agree m p p'"
  shows "i + 2 \<le> m \<Longrightarrow> xj_installer_le16 p' i = xj_installer_le16 p i" "i + 4 \<le> m \<Longrightarrow> xj_installer_le32 p' i = xj_installer_le32 p i"
    "i + 8 \<le> m \<Longrightarrow> xj_installer_le64 p' i = xj_installer_le64 p i"
  using agree_byte [OF assms] by (simp_all add: xj_installer_le64_def xj_installer_le32_def xj_installer_le16_def)

lemma agree_eui: "agree m p p' \<Longrightarrow> offset + 8 + i + n \<le> m \<Longrightarrow> copy_eui p' offset i n eui = copy_eui p offset i n eui"
proof (induction n arbitrary: i eui)
  case (Suc n)
  then have "copy_eui p' offset (i + 1) n = copy_eui p offset (i + 1) n" by (intro ext Suc.IH) auto
  then show ?case using agree_byte [OF Suc.prems(1), of "offset + 8 + i"] Suc.prems by simp
qed simp

lemma agree_extent: "agree m p p' \<Longrightarrow> offset + 24 \<le> m \<Longrightarrow> read_extent p' offset info kind = read_extent p offset info kind"
  by (simp add: read_extent_def agree_words [of m p p'])

lemma agree_copy: "agree m p p' \<Longrightarrow> n \<le> m \<Longrightarrow> n \<le> length t \<Longrightarrow> copy_path p' t 0 n = copy_path p t 0 n"
  using take_take [of n m p] take_take [of n m p'] by (auto simp: copy_path_spec agree_def min_def)

lemma agree_transport:
  assumes "agree m p p'" "offset + unat bytes \<le> m" "4 \<le> unat bytes"
  shows "parse_transport p' offset bytes info = parse_transport p offset bytes info"
proof -
  have b: "path_byte p' (Suc offset) = path_byte p (Suc offset)" using agree_byte [OF assms(1)] assms(2,3) by simp
  consider "bytes = 10" | "bytes = 16" | "bytes = 8" | "bytes \<noteq> 10" "bytes \<noteq> 16" "bytes \<noteq> 8" by blast
  then show ?thesis
    by cases (use assms(2) in \<open>simp_all add: parse_transport_def Let_def b agree_words [OF assms(1)] agree_byte [OF assms(1)] agree_eui [OF assms(1)] cong: if_cong\<close>)
qed

lemma agree_branch:
  assumes "agree m p p'" "offset + unat bytes \<le> m" "4 \<le> unat bytes" "info_ok info" "m \<le> 512"
  shows "parse_branch p' offset bytes rs info = parse_branch p offset bytes rs info"
proof -
  note b = agree_byte [OF assms(1)] and w = agree_words [OF assms(1)]
  have e: "parse_end p' offset bytes rs info = parse_end p offset bytes rs info"
    using assms agree_copy [OF assms(1), of "offset + 4" "is_path (pi_identity info)"]
    by (cases "is_volume_kind (pi_identity info) = 0") (simp_all add: parse_end_def b unat_end info_ok_def Let_def cong: if_cong)
  have r: "parse_root p' offset bytes info = parse_root p offset bytes info"
    using assms(2,3) by (cases "bytes = 12") (simp_all add: parse_root_def b w cong: if_cong)
  have c: "parse_pci p' offset bytes info = parse_pci p offset bytes info"
    using assms(2,3) by (cases "bytes = 6") (simp_all add: parse_pci_def b Let_def cong: if_cong)
  have "parse_media p' offset bytes info = parse_media p offset bytes info"
    using assms(2,3) by (cases "bytes = 42"; cases "bytes = 24") (simp_all add: parse_media_def b w agree_extent [OF assms(1)] Let_def cong: if_cong)
  then show ?thesis using assms(2,3) e r c agree_transport [OF assms(1-3)] by (simp add: parse_branch_def b cong: if_cong)
qed

text \<open>Only the end node answers \<open>XJ_INSTALLER_SOURCE_SUPPORTED\<close>; all others leave the captured path alone.\<close>

definition complete :: "u8 list \<Rightarrow> nat \<Rightarrow> XJ_INSTALLER_PATH_INFO \<Rightarrow> XJ_INSTALLER_PATH_INFO \<Rightarrow> bool" where
  "complete path m info i \<longleftrightarrow> unat (is_path_bytes (pi_identity i)) = m \<and>
     is_path (pi_identity i) = take m path @ drop m (is_path (pi_identity info)) \<and>
     is_transport (pi_identity i) \<noteq> 0 \<and> is_pci_count (pi_identity i) \<noteq> 0 \<and> is_volume_kind (pi_identity i) \<noteq> 0"

lemma parse_end_supported:
  assumes "parse_end path offset bytes rs info = Some (Inl (1, i))" "info_ok info" "offset + 4 \<le> length path" "offset + 4 \<le> 512"
  shows "bytes = 4 \<and> complete path (offset + 4) info i"
  using assms by (auto simp: parse_end_def Let_def status_defs complete_def info_ok_def unat_end copy_path_spec kind_defs split: if_splits)

definition plain :: "XJ_INSTALLER_PATH_INFO \<Rightarrow> node_result \<Rightarrow> bool" where
  "plain info r \<longleftrightarrow> (case r of Inl (st, i) \<Rightarrow> st \<noteq> 1 | Inr i \<Rightarrow> is_path (pi_identity i) = is_path (pi_identity info))"

lemma plain_simps [simp]:
  "plain info (Inl (XJ_INSTALLER_SOURCE_MALFORMED, i))" "plain info (Inl (XJ_INSTALLER_SOURCE_UNSUPPORTED, i))"
  "plain info (Inr i) \<longleftrightarrow> is_path (pi_identity i) = is_path (pi_identity info)"
  by (simp_all add: plain_def status_defs)

lemma plain_root: "parse_root path offset bytes info = Some r \<Longrightarrow> plain info r"
  unfolding parse_root_def by (elim bind_SomeE if_SomeE) auto

lemma plain_pci: "parse_pci path offset bytes info = Some r \<Longrightarrow> plain info r"
  unfolding parse_pci_def Let_def by (elim bind_SomeE if_SomeE) auto

lemma plain_transport: "parse_transport path offset bytes info = Some r \<Longrightarrow> plain info r"
  unfolding parse_transport_def Let_def by (elim bind_SomeE if_SomeE) auto

lemma plain_media: "parse_media path offset bytes info = Some r \<Longrightarrow> plain info r"
  unfolding parse_media_def read_extent_def Let_def by (elim bind_SomeE if_SomeE) auto

lemma end_returns: "parse_end path offset bytes rs info = Some r \<Longrightarrow> \<exists>e. r = Inl e"
  unfolding parse_end_def Let_def by (elim bind_SomeE if_SomeE) auto

lemma branch_cases:
  assumes "parse_branch path offset bytes rs info = Some (r, rs')" "info_ok info" "offset + 4 \<le> length path" "offset + 4 \<le> 512"
  shows "(\<exists>i. r = Inl (1, i) \<and> bytes = 4 \<and> complete path (offset + 4) info i) \<or> plain info r"
proof -
  have e: "(\<exists>i. r = Inl (1, i) \<and> bytes = 4 \<and> complete path (offset + 4) info i) \<or> plain info r"
    if "parse_end path offset bytes rs info = Some r"
    using that end_returns [OF that] parse_end_supported [OF _ assms(2-4)] by (auto simp: plain_def)
  show ?thesis using assms(1) e plain_root plain_pci plain_transport plain_media
    unfolding parse_branch_def by (elim bind_SomeE if_SomeE) auto
qed

lemma parse_loop_supported:
  assumes "parse_loop path limit offset rs info = Some (1, i)" "info_ok info" "limit \<le> length path" "limit \<le> 512"
  shows "\<exists>m. offset + 4 \<le> m \<and> m \<le> limit \<and> complete path m info i \<and> (\<forall>path'. agree m path path' \<longrightarrow> parse_loop path' m offset rs info = Some (1, i))"
  using assms
proof (induction path limit offset rs info rule: parse_loop.induct)
  case (1 path limit offset rs info)
  have g: "offset \<le> limit \<and> limit - offset \<ge> 4" using 1(2) by (rule contrapos_pp) (subst parse_loop.simps, auto simp: status_defs)
  then have l: "offset + 4 \<le> limit" "offset + 4 \<le> length path" "offset + 4 \<le> 512" using 1(4,5) by auto
  obtain z where z: "parse_node path limit offset rs info = Some z" using 1(2) g by (subst (asm) parse_loop.simps) (auto split: option.splits)
  obtain bytes where b: "xj_installer_le16 path (offset + 2) = Some bytes" using parse_node_cases [OF z] by blast
  have again: "parse_node path' m offset rs info = Some z"
    if "agree m path path'" "m \<le> 512" "4 \<le> unat bytes" "unat bytes \<le> limit - offset" "offset + unat bytes \<le> m" for m path'
  proof -
    have "\<not> (bytes < 4)" "\<not> m - offset < unat bytes" using that(3,5) by (simp_all add: word_less_nat_alt)
    then show ?thesis using z b that agree_branch [OF that(1,5,3) 1(3) that(2)] agree_words(1) [OF that(1), of "offset + 2"]
      by (simp add: parse_node_def)
  qed
  show ?case
  proof (cases z)
    case (Inl e)
    then have e: "e = (1, i)" using 1(2) g z by (subst (asm) parse_loop.simps) simp
    then obtain rs' where r: "parse_branch path offset bytes rs info = Some (Inl (1, i), rs')" "4 \<le> unat bytes" "unat bytes \<le> limit - offset"
      using parse_node_cases [OF z] b Inl by (auto simp: status_defs)
    then have c: "bytes = 4" "complete path (offset + 4) info i" using branch_cases [OF r(1) 1(3) l(2,3)] by (auto simp: plain_def)
    have "parse_loop path' (offset + 4) offset rs info = Some (1, i)" if "agree (offset + 4) path path'" for path'
      using again [OF that l(3) r(2,3)] c(1) Inl e by (subst parse_loop.simps) simp
    then show ?thesis using l c(2) by blast
  next
    case (Inr t)
    obtain k rs' i' where t: "t = (k, rs', i')" by (cases t)
    then have r: "parse_branch path offset bytes rs info = Some (Inr i', rs')" "4 \<le> unat bytes" "unat bytes \<le> limit - offset" "k = unat bytes"
      using parse_node_cases [OF z] b Inr by auto
    have p: "is_path (pi_identity i') = is_path (pi_identity info)" using branch_cases [OF r(1) 1(3) l(2,3)] by auto
    have ok: "info_ok i'" using parse_node_defined [OF 1(3) l(1) 1(4,5), of rs] z Inr t by auto
    have rec: "parse_loop path limit (offset + k) rs' i' = Some (1, i)" using 1(2) g z Inr t by (subst (asm) parse_loop.simps) simp
    from "1.IH" [OF g z Inr t [symmetric] refl rec ok 1(4,5)] obtain m where m: "offset + k + 4 \<le> m" "m \<le> limit" "complete path m i' i"
      "\<And>path'. agree m path path' \<Longrightarrow> parse_loop path' m (offset + k) rs' i' = Some (1, i)" by blast
    have "4 \<le> m - offset" using m(1) by linarith
    then have "parse_loop path' m offset rs info = Some (1, i)" if a: "agree m path path'" for path'
      using again [OF a _ r(2,3)] m r(4) 1(5) Inr t m(4) [OF a] by (subst parse_loop.simps) simp
    then show ?thesis using m r(4) p by (auto simp: complete_def)
  qed
qed

section \<open>Accepted handoffs\<close>

definition source_shape :: "XJ_INSTALLER_SOURCE \<Rightarrow> bool" where
  "source_shape s \<longleftrightarrow> length (is_path s) = 512 \<and> length (is_pci s) = 16 \<and> length (is_nvme_eui64 s) = 8 \<and> length (is_reserved s) = 4 \<and>
     (\<forall>l \<in> set (is_pci s). length (pl_reserved l) = 3)"

lemma bytes_zero_iff: "xj_installer_bytes_zero bs \<longleftrightarrow> (\<forall>b \<in> set bs. b = 0)"
  by (induction bs) auto

lemma le_bytes_zero: "n * 8 = LENGTH('a) \<Longrightarrow> (\<forall>b \<in> set (le_bytes n (v :: 'a::len word)). b = 0) \<longleftrightarrow> v = 0"
proof -
  assume n: "n * 8 = LENGTH('a)"
  have "v = 0" if z: "\<forall>i < n. (ucast (drop_bit (8 * i) v) :: u8) = 0"
  proof (rule bit_word_eqI)
    fix k assume "k < LENGTH('a)"
    then have k: "k div 8 < n" using n by auto
    have "bit (ucast (drop_bit (8 * (k div 8)) v) :: u8) (k mod 8) = bit v k" by (simp add: bit_ucast_iff bit_drop_bit_eq)
    then show "bit v k = bit 0 k" using z k by simp
  qed
  then show ?thesis by (auto simp: le_bytes_def)
qed

lemma zero_list: "(\<forall>b \<in> set bs. b = 0) \<Longrightarrow> length bs = n \<Longrightarrow> bs = replicate n 0"
  by (auto intro: replicate_eqI)

lemma pci_zero: "length (pl_reserved l) = 3 \<Longrightarrow> (\<forall>b \<in> set (pci_bytes l). b = 0) \<Longrightarrow> l = zero_pci"
proof -
  assume l: "length (pl_reserved l) = 3" and z: "\<forall>b \<in> set (pci_bytes l). b = 0"
  have "pl_segment l = 0" using z le_bytes_zero [of 2 "pl_segment l"] by (simp add: pci_bytes_def)
  moreover have "pl_reserved l = [0, 0, 0]" using z l zero_list [of "pl_reserved l" 3] by (simp add: pci_bytes_def eval_nat_numeral)
  ultimately show ?thesis using z by (cases l) (simp add: zero_pci_def pci_bytes_def)
qed

lemma source_zero:
  assumes "source_shape s" "xj_installer_bytes_zero (drop 4 (source_bytes s))"
  shows "s = zero_source\<lparr>is_status := is_status s\<rparr>"
proof -
  have "length (le_bytes 4 (is_status s)) = 4" by (simp add: le_bytes_def)
  then have z: "\<forall>b \<in> set (drop 4 (source_bytes s)). b = 0" "drop 4 (source_bytes s) = drop 4 (le_bytes 4 (is_status s)) @
      concat (map (le_bytes 4) [is_transport s, is_flags s, is_pci_count s, is_physical_block_size s, is_volume_block_size s]) @
      concat (map (le_bytes 8) [is_physical_bytes s, is_volume_offset s, is_volume_bytes s]) @
      concat (map (le_bytes 2) [is_sata_port s, is_sata_multiplier s, is_lun s]) @ [is_ide_channel s, is_ide_unit s] @
      le_bytes 4 (is_nvme_namespace s) @ is_nvme_eui64 s @
      concat (map (le_bytes 4) [is_volume_kind s, is_volume_index s, is_path_bytes s, is_controller_path_bytes s, is_reserved0 s]) @
      concat (map (le_bytes 8) (is_reserved s)) @ concat (map pci_bytes (is_pci s)) @ is_path s"
    using assms(2) by (simp_all add: bytes_zero_iff source_bytes_def)
  note w = le_bytes_zero [where 'a = 32, of 4] le_bytes_zero [where 'a = 64, of 8] le_bytes_zero [where 'a = 16, of 2]
  have parts: "\<forall>l \<in> set (is_pci s). \<forall>b \<in> set (pci_bytes l). b = 0" "\<forall>v \<in> set (is_reserved s). \<forall>b \<in> set (le_bytes 8 v). b = 0"
    "\<forall>b \<in> set (is_nvme_eui64 s). b = 0" "\<forall>b \<in> set (is_path s). b = 0" using z(1) unfolding z(2) by (simp_all add: ball_Un)
  have "\<forall>l \<in> set (is_pci s). l = zero_pci" using parts(1) assms(1) pci_zero by (auto simp: source_shape_def)
  then have "is_pci s = replicate 16 zero_pci" using assms(1) by (auto simp: source_shape_def intro: replicate_eqI)
  moreover have "is_reserved s = replicate 4 0" "is_nvme_eui64 s = replicate 8 0" "is_path s = replicate 512 0"
    using parts(2-4) assms(1) w(2) by (auto simp: source_shape_def intro!: replicate_eqI)
  moreover have "is_transport s = 0" "is_flags s = 0" "is_pci_count s = 0" "is_physical_block_size s = 0" "is_volume_block_size s = 0"
    "is_physical_bytes s = 0" "is_volume_offset s = 0" "is_volume_bytes s = 0" "is_sata_port s = 0" "is_sata_multiplier s = 0" "is_lun s = 0"
    "is_ide_channel s = 0" "is_ide_unit s = 0" "is_nvme_namespace s = 0" "is_volume_kind s = 0" "is_volume_index s = 0" "is_path_bytes s = 0"
    "is_controller_path_bytes s = 0" "is_reserved0 s = 0" using z(1) w unfolding z(2) by (simp_all add: ball_Un)
  ultimately show ?thesis by (cases s) (simp add: zero_source_def XJ_INSTALLER_PCI_MAX_def XJ_INSTALLER_PATH_MAX_def)
qed

lemma not_zero_max: "NOT (0 :: u64) = - 1"
  by simp

lemma and_4095: "(x :: u64) AND 4095 = 0 \<longleftrightarrow> 4096 dvd unat x"
proof -
  have "x AND 4095 = take_bit 12 x" by (simp add: take_bit_eq_mask mask_eq_exp_minus_1)
  then have "unat (x AND 4095) = unat x mod 4096" by (simp add: take_bit_eq_mod unat_mod)
  then show ?thesis by (metis mod_eq_0_iff_dvd unat_eq_zero)
qed

text \<open>What an accepted package span looks like in natural numbers.\<close>

definition span_ok :: "XJ_INSTALLER_PACKAGE_SPAN \<Rightarrow> bool" where
  "span_ok k \<longleftrightarrow> 0 < unat (pk_physical k) \<and> 4096 dvd unat (pk_physical k) \<and> 0 < unat (pk_bytes k) \<and> unat (pk_bytes k) \<le> 2 ^ 31 \<and>
     unat (pk_pages k) = (unat (pk_bytes k) + 4095) div 4096 \<and> unat (pk_physical k) + unat (pk_pages k) * 4096 < 2 ^ 64"

lemma span_valid: "xj_installer_package_span_valid (Some k) \<Longrightarrow> span_ok k"
proof -
  assume v: "xj_installer_package_span_valid (Some k)"
  have b: "unat (pk_bytes k) \<le> 2 ^ 31" using v by (simp add: xj_installer_package_span_valid_def XJ_INSTALLER_PACKAGE_MAX_def word_le_nat_alt)
  then have "unat (pk_bytes k + 4095) = unat (pk_bytes k) + 4095" by (subst unat_add_small) simp_all
  then have p: "unat (pk_pages k) = (unat (pk_bytes k) + 4095) div 4096" using v by (simp add: xj_installer_package_span_valid_def unat_div)
  then have "unat (pk_pages k) \<le> 524288" using b by auto
  then have m: "unat (pk_pages k * 4096) = unat (pk_pages k) * 4096" by (subst unat_mult_small) simp_all
  have "pk_physical k \<le> - 1 - pk_pages k * 4096"
    using v unfolding xj_installer_package_span_valid_def option.case by (elim conjE) (simp only: not_zero_max)
  then have "unat (pk_physical k) + unat (pk_pages k) * 4096 < 2 ^ 64" using m unfolding no_wrap_add by simp
  then show ?thesis using v b p by (auto simp: span_ok_def xj_installer_package_span_valid_def and_4095 unat_gt_0)
qed

lemma span_end: "span_ok k \<Longrightarrow> unat (pk_physical k + pk_pages k * 4096) = unat (pk_physical k) + unat (pk_pages k) * 4096"
  unfolding span_ok_def by (simp add: unat_add_small unat_mult_small)

lemma source_valid_defined:
  assumes "source_shape s"
  shows "\<exists>ok. xj_installer_source_valid (Some s) = Some ok \<and> (ok \<longrightarrow> source_numbers_ok s)"
proof (cases "source_numbers_ok s")
  case True
  then have "unat (is_path_bytes s) \<le> 512" by (simp add: source_numbers_ok_def XJ_INSTALLER_PATH_MAX_def word_le_nat_alt not_less)
  moreover have "info_ok zero_info" by (simp add: info_ok_def zero_info_def zero_source_def XJ_INSTALLER_PCI_MAX_def XJ_INSTALLER_PATH_MAX_def)
  ultimately obtain st i where "parse_loop (is_path s) (unat (is_path_bytes s)) 0 False zero_info = Some (st, i)"
    using parse_loop_defined [of zero_info "unat (is_path_bytes s)" "is_path s" 0 False] assms by (auto simp: source_shape_def)
  then have "xj_installer_parse_device_path (Some (is_path s)) (unat (is_path_bytes s)) (Some zero_info) = Some (st, Some i)"
    using \<open>unat (is_path_bytes s) \<le> 512\<close> by (simp add: xj_installer_parse_device_path_def XJ_INSTALLER_PATH_MAX_def)
  then show ?thesis using True by (auto simp: xj_installer_source_valid_def Let_def)
qed (auto simp: xj_installer_source_valid_def)

lemma source_numbers_volume: "source_numbers_ok s \<Longrightarrow> unat (is_volume_offset s) + unat (is_volume_bytes s) \<le> unat (is_physical_bytes s)"
  by (auto simp: source_numbers_ok_def not_less word_le_nat_alt unat_sub)

lemma handoff_fields:
  assumes "handoff_fields_ok h"
  shows "span_ok (ih_root h)" "span_ok (ih_system h)" "unat (pk_bytes (ih_root h)) + unat (pk_bytes (ih_system h)) \<le> 3 * 2 ^ 30"
    "unat (ih_loader_image_physical h) + unat (ih_loader_image_bytes h) < 2 ^ 64" "ih_system_profile h = 1 \<or> ih_system_profile h = 2"
    "ih_loader_image_bytes h \<noteq> 0"
proof -
  show s: "span_ok (ih_root h)" "span_ok (ih_system h)" using assms span_valid by (simp_all add: handoff_fields_ok_def)
  have "unat (pk_bytes (ih_root h) + pk_bytes (ih_system h)) = unat (pk_bytes (ih_root h)) + unat (pk_bytes (ih_system h))"
    using s by (intro unat_add_small) (auto simp: span_ok_def)
  then show "unat (pk_bytes (ih_root h)) + unat (pk_bytes (ih_system h)) \<le> 3 * 2 ^ 30"
    using assms by (simp add: handoff_fields_ok_def XJ_INSTALLER_PACKAGES_MAX_def word_le_nat_alt not_less)
  show "unat (ih_loader_image_physical h) + unat (ih_loader_image_bytes h) < 2 ^ 64"
    using assms unfolding no_wrap_add [symmetric] by (simp add: handoff_fields_ok_def not_less)
  show "ih_system_profile h = 1 \<or> ih_system_profile h = 2" "ih_loader_image_bytes h \<noteq> 0"
    using assms by (auto simp: handoff_fields_ok_def XJ_INSTALLER_PROFILE_FAT32_PAK1_def XJ_INSTALLER_PROFILE_EXT4_PAK2_def)
qed

text \<open>What is known of an accepted handoff.\<close>

definition handoff_ok :: "XJ_INSTALLER_HANDOFF \<Rightarrow> bool" where
  "handoff_ok h \<longleftrightarrow> span_ok (ih_root h) \<and> span_ok (ih_system h) \<and> unat (pk_bytes (ih_root h)) + unat (pk_bytes (ih_system h)) \<le> 3 * 2 ^ 30 \<and>
     (unat (pk_physical (ih_root h)) + unat (pk_pages (ih_root h)) * 4096 \<le> unat (pk_physical (ih_system h)) \<or>
      unat (pk_physical (ih_system h)) + unat (pk_pages (ih_system h)) * 4096 \<le> unat (pk_physical (ih_root h))) \<and>
     ih_loader_image_bytes h \<noteq> 0 \<and> unat (ih_loader_image_physical h) + unat (ih_loader_image_bytes h) < 2 ^ 64 \<and>
     (ih_system_profile h = 1 \<or> ih_system_profile h = 2)"

lemma handoff_valid_cases:
  assumes "source_shape (ih_source h)"
  shows "\<exists>ok. xj_installer_handoff_valid (Some h) = Some ok \<and> (ok \<longrightarrow> handoff_ok h \<and>
    (if is_status (ih_source h) = XJ_INSTALLER_SOURCE_SUPPORTED then xj_installer_source_valid (Some (ih_source h)) = Some True
     else is_status (ih_source h) \<in> {2, 3, 4} \<and> ih_source h = zero_source\<lparr>is_status := is_status (ih_source h)\<rparr>))"
proof (cases "handoff_fields_ok h")
  case True
  note f = handoff_fields [OF True]
  let ?supported = "is_status (ih_source h) = XJ_INSTALLER_SOURCE_SUPPORTED"
  let ?disjoint = "pk_physical (ih_root h) + pk_pages (ih_root h) * 4096 \<le> pk_physical (ih_system h) \<or>
    pk_physical (ih_system h) + pk_pages (ih_system h) * 4096 \<le> pk_physical (ih_root h)"
  have ok: "handoff_ok h" if ?disjoint using that f by (simp add: handoff_ok_def word_le_nat_alt span_end)
  obtain v where v: "xj_installer_source_valid (Some (ih_source h)) = Some v" using source_valid_defined [OF assms] by blast
  show ?thesis
  proof (cases ?supported)
    case True
    then show ?thesis using \<open>handoff_fields_ok h\<close> v ok by (auto simp: xj_installer_handoff_valid_def Let_def)
  next
    case False
    have "is_status (ih_source h) \<in> {2, 3, 4}" if "\<not> is_status (ih_source h) < 2" "\<not> is_status (ih_source h) > 4"
    proof -
      have "2 \<le> unat (is_status (ih_source h))" "unat (is_status (ih_source h)) \<le> 4" using that by (simp_all add: not_less word_le_nat_alt)
      then have "unat (is_status (ih_source h)) \<in> {unat (2 :: u32), unat (3 :: u32), unat (4 :: u32)}" by auto
      then show ?thesis by (auto simp only: word_unat_eq_iff insert_iff empty_iff)
    qed
    then show ?thesis using False \<open>handoff_fields_ok h\<close> ok source_zero [OF assms] by (auto simp: xj_installer_handoff_valid_def Let_def status_defs)
  qed
qed (auto simp: xj_installer_handoff_valid_def)

text \<open>A device path with a root bridge, one PCI function, a SATA port and the end node, and a handoff that boots from it.\<close>

definition sample_path :: "u8 list" where
  "sample_path = [2, 1, 12, 0, 0xd0, 0x41, 0x03, 0x0a, 0, 0, 0, 0, 1, 1, 6, 0, 0, 3, 3, 0x12, 10, 0, 2, 0, 0xff, 0xff, 0, 0, 0x7f, 0xff, 4, 0, 9, 9]"

definition sample_handoff :: XJ_INSTALLER_HANDOFF where
  "sample_handoff = \<lparr>ih_magic = 0x48494a58, ih_version = 1, ih_bytes = 880, ih_root_format = 1, ih_system_profile = 2, ih_reserved0 = 0,
     ih_root = \<lparr>pk_physical = 0x100000, pk_bytes = 5000, pk_pages = 2\<rparr>, ih_system = \<lparr>pk_physical = 0x102000, pk_bytes = 4096, pk_pages = 1\<rparr>,
     ih_source = zero_source\<lparr>is_status := 2\<rparr>, ih_loader_image_physical = 0x200000, ih_loader_image_bytes = 100, ih_reserved = [0, 0, 0, 0]\<rparr>"

section \<open>Properties\<close>

text \<open>
  C22. The device path parser returns for every byte string without reading behind the limit
  or writing behind an array. An accepted path ends within the limit, is captured byte for byte with
  zeros behind it, and names a transport, a PCI function and a volume; parsing the captured copy up to
  its recorded length gives exactly the same result again.
\<close>

theorem device_path_reparse:
  assumes "limit \<le> length path"
  shows "\<exists>st info. xj_installer_parse_device_path (Some path) limit (Some out) = Some (st, Some info) \<and> st \<in> {1, 2, 3} \<and>
    (st = XJ_INSTALLER_SOURCE_SUPPORTED \<longrightarrow>
      (let s = pi_identity info; m = unat (is_path_bytes s) in
        4 \<le> m \<and> m \<le> limit \<and> is_path s = take m path @ replicate (512 - m) 0 \<and>
        is_transport s \<noteq> 0 \<and> 1 \<le> unat (is_pci_count s) \<and> unat (is_pci_count s) \<le> 16 \<and> is_volume_kind s \<noteq> 0 \<and>
        xj_installer_parse_device_path (Some (is_path s)) m (Some out') = Some (st, Some info)))"
proof -
  let ?l = "if limit > XJ_INSTALLER_PATH_MAX then XJ_INSTALLER_PATH_MAX else limit"
  have l: "?l \<le> length path" "?l \<le> 512" "?l \<le> limit" using assms by (auto simp: XJ_INSTALLER_PATH_MAX_def)
  have z: "info_ok zero_info" "is_path (pi_identity zero_info) = replicate 512 0"
    by (simp_all add: info_ok_def zero_info_def zero_source_def XJ_INSTALLER_PCI_MAX_def XJ_INSTALLER_PATH_MAX_def)
  obtain st i where p: "parse_loop path ?l 0 False zero_info = Some (st, i)" "st \<in> {1, 2, 3}" "info_ok i"
    using parse_loop_defined [OF z(1) l(1,2)] by blast
  have r: "xj_installer_parse_device_path (Some path) limit (Some out) = Some (st, Some i)" using p(1) by (simp add: xj_installer_parse_device_path_def Let_def)
  have "let s = pi_identity i; m = unat (is_path_bytes s) in
        4 \<le> m \<and> m \<le> limit \<and> is_path s = take m path @ replicate (512 - m) 0 \<and>
        is_transport s \<noteq> 0 \<and> 1 \<le> unat (is_pci_count s) \<and> unat (is_pci_count s) \<le> 16 \<and> is_volume_kind s \<noteq> 0 \<and>
        xj_installer_parse_device_path (Some (is_path s)) m (Some out') = Some (st, Some i)" if st: "st = XJ_INSTALLER_SOURCE_SUPPORTED"
  proof -
    have st1: "st = 1" using st by (simp add: status_defs)
    obtain m where m: "4 \<le> m" "m \<le> ?l" "complete path m zero_info i" "\<And>path'. agree m path path' \<Longrightarrow> parse_loop path' m 0 False zero_info = Some (1, i)"
      using parse_loop_supported [OF p(1) [unfolded st1] z(1) l(1,2)] by auto
    have c: "unat (is_path_bytes (pi_identity i)) = m" "is_path (pi_identity i) = take m path @ replicate (512 - m) 0"
      "is_transport (pi_identity i) \<noteq> 0" "is_pci_count (pi_identity i) \<noteq> 0" "is_volume_kind (pi_identity i) \<noteq> 0"
      using m(3) z(2) by (simp_all add: complete_def)
    have "agree m path (is_path (pi_identity i))" using m(2) l c(2) by (simp add: agree_def)
    from m(4) [OF this] have "xj_installer_parse_device_path (Some (is_path (pi_identity i))) m (Some out') = Some (1, Some i)"
      using m(2) l(2) by (simp add: xj_installer_parse_device_path_def XJ_INSTALLER_PATH_MAX_def)
    then show ?thesis using c m(1,2) l(3) st1 p(3) by (simp add: Let_def info_ok_def Suc_le_eq unat_gt_0)
  qed
  then show ?thesis using r p(2) by blast
qed

theorem device_path_reparse_witness:
  "\<exists>info. xj_installer_parse_device_path (Some sample_path) 34 (Some zero_info) = Some (1, Some info) \<and> is_path_bytes (pi_identity info) = 32 \<and>
     is_sata_port (pi_identity info) = 2 \<and> xj_installer_parse_device_path (Some (is_path (pi_identity info))) 32 (Some zero_info) = Some (1, Some info)"
proof -
  have "case xj_installer_parse_device_path (Some sample_path) 34 (Some zero_info) of
      Some (st, Some info) \<Rightarrow> st = 1 \<and> is_path_bytes (pi_identity info) = 32 \<and> is_sata_port (pi_identity info) = 2 | _ \<Rightarrow> False" by code_simp
  then obtain info where "xj_installer_parse_device_path (Some sample_path) 34 (Some zero_info) = Some (1, Some info)"
    "is_path_bytes (pi_identity info) = 32" "is_sata_port (pi_identity info) = 2" by (auto split: option.splits)
  then show ?thesis using device_path_reparse [of 34 sample_path zero_info zero_info] by (auto simp: sample_path_def status_defs Let_def)
qed

text \<open>
  C21. The check of a handoff always returns. An accepted one names two packages that are page
  aligned, do not wrap, have the page count of their size, are within the size limits and do not
  overlap; a supported source has its volume inside the disk, and any other source carries nothing but
  its status.
\<close>

theorem handoff_valid_sound:
  assumes "source_shape (ih_source h)"
  shows "\<exists>ok. xj_installer_handoff_valid (Some h) = Some ok \<and> (ok \<longrightarrow> span_ok (ih_root h) \<and> span_ok (ih_system h) \<and>
    unat (pk_bytes (ih_root h)) + unat (pk_bytes (ih_system h)) \<le> 3 * 2 ^ 30 \<and>
    {unat (pk_physical (ih_root h))..<unat (pk_physical (ih_root h)) + unat (pk_pages (ih_root h)) * 4096} \<inter>
      {unat (pk_physical (ih_system h))..<unat (pk_physical (ih_system h)) + unat (pk_pages (ih_system h)) * 4096} = {} \<and>
    (if is_status (ih_source h) = XJ_INSTALLER_SOURCE_SUPPORTED
     then unat (is_volume_offset (ih_source h)) + unat (is_volume_bytes (ih_source h)) \<le> unat (is_physical_bytes (ih_source h))
     else ih_source h = zero_source\<lparr>is_status := is_status (ih_source h)\<rparr>))"
proof -
  have "xj_installer_source_valid (Some (ih_source h)) = Some True \<Longrightarrow>
      unat (is_volume_offset (ih_source h)) + unat (is_volume_bytes (ih_source h)) \<le> unat (is_physical_bytes (ih_source h))"
    using source_valid_defined [OF assms] source_numbers_volume by auto
  moreover obtain ok where "xj_installer_handoff_valid (Some h) = Some ok" "ok \<Longrightarrow> handoff_ok h"
    "ok \<Longrightarrow> if is_status (ih_source h) = XJ_INSTALLER_SOURCE_SUPPORTED then xj_installer_source_valid (Some (ih_source h)) = Some True
     else is_status (ih_source h) \<in> {2, 3, 4} \<and> ih_source h = zero_source\<lparr>is_status := is_status (ih_source h)\<rparr>"
    using handoff_valid_cases [OF assms] by blast
  ultimately show ?thesis by (intro exI [of _ ok]) (auto simp: handoff_ok_def split: if_splits)
qed

theorem handoff_valid_sound_witness: "xj_installer_handoff_valid (Some sample_handoff) = Some True \<and> span_ok (ih_root sample_handoff)"
proof -
  have "source_shape (ih_source sample_handoff)" by (simp add: source_shape_def sample_handoff_def zero_source_def zero_pci_def XJ_INSTALLER_PCI_MAX_def XJ_INSTALLER_PATH_MAX_def)
  moreover have "xj_installer_handoff_valid (Some sample_handoff) = Some True" by code_simp
  ultimately show ?thesis using handoff_valid_sound [of sample_handoff] by auto
qed

end
