(* ===== verification/BootProof.thy ===== *)
theory BootProof
  imports Handoff BootMemory
begin

text \<open>
  The installer's proof that the boot packages are its own, \<^verbatim>\<open>kernel/installer/boot_proof.cpp\<close>: the walk of
  the x86-64 page tables, the check that a physical span is mapped to itself in the direct map, the visit
  of all tables, and the combination with the handoff and the firmware memory map. The reader of table
  entries is a function pointer of the caller: a function that may refuse, \<open>None\<close> for a null pointer.
  A function that fills an output argument returns it behind its result.
\<close>

section \<open>Constants and structures\<close>

definition direct_map_base :: u64 where "direct_map_base = 0xffff800000000000"
definition direct_map_bytes :: u64 where "direct_map_bytes = push_bit 47 1"
definition address_mask :: u64 where "address_mask = 0x000ffffffffff000"
definition present :: u64 where "present = 1"
definition user :: u64 where "user = 4"
definition huge :: u64 where "huge = 128"
definition table_workspace_capacity :: nat where "table_workspace_capacity = 8192"

type_synonym entry_reader = "u64 \<Rightarrow> nat \<Rightarrow> u64 option"

record TableReader =
  tr_read_entry :: "entry_reader option"
  tr_physical_bits :: u8
  tr_nx_enabled :: bool
  tr_gigabyte_pages :: bool

record Mapping =
  mp_physical :: u64
  mp_remaining :: u64
  mp_supervisor :: bool

record TableWorkEntry =
  te_physical :: u64
  te_level :: nat

text \<open>The first \<open>count\<close> entries of the workspace array.\<close>

record TableWorkspace =
  tw_entries :: "TableWorkEntry list"

record BootPackageProof =
  bp_root :: PhysicalSpan
  bp_system :: PhysicalSpan
  bp_profile :: u32
  bp_valid :: bool

definition zero_Mapping :: Mapping where
  "zero_Mapping = \<lparr>mp_physical = 0, mp_remaining = 0, mp_supervisor = False\<rparr>"

definition zero_proof :: BootPackageProof where
  "zero_proof = \<lparr>bp_root = zero_PhysicalSpan, bp_system = zero_PhysicalSpan, bp_profile = 0, bp_valid = False\<rparr>"

section \<open>Table entries\<close>

definition canonical :: "u64 \<Rightarrow> bool" where
  "canonical address \<longleftrightarrow> address < push_bit 47 1 \<or> address \<ge> direct_map_base"

text \<open>\<open>None\<close> is \<open>false\<close>, otherwise the mask of physical addresses and the reader.\<close>

definition reader_root_valid :: "TableReader \<Rightarrow> u64 \<Rightarrow> (u64 \<times> entry_reader) option" where
  "reader_root_valid reader root_table =
     (case tr_read_entry reader of None \<Rightarrow> None
      | Some read \<Rightarrow>
          if tr_physical_bits reader < 32 \<or> tr_physical_bits reader > 52 \<or> root_table = 0 \<or> root_table AND NOT address_mask \<noteq> 0 then None
          else let physical_mask = (push_bit (unat (tr_physical_bits reader)) 1 - 1) AND address_mask in
               if root_table AND NOT physical_mask = 0 then Some (physical_mask, read) else None)"

definition level_shift :: "nat \<Rightarrow> nat" where
  "level_shift level = 12 + 9 * (level - 1)"

text \<open>\<open>None\<close> is \<open>false\<close>, otherwise whether the entry maps a page.\<close>

definition present_entry_valid :: "TableReader \<Rightarrow> u64 \<Rightarrow> nat \<Rightarrow> u64 \<Rightarrow> bool option" where
  "present_entry_valid reader physical_mask level entry =
     (if entry AND address_mask AND NOT physical_mask \<noteq> 0 \<or> (\<not> tr_nx_enabled reader \<and> drop_bit 63 entry \<noteq> 0) then None
      else if level = 4 \<and> entry AND huge \<noteq> 0 then None
      else if level = 3 \<and> entry AND huge \<noteq> 0 \<and> \<not> tr_gigabyte_pages reader then None
      else let leaf = (level = 1 \<or> entry AND huge \<noteq> 0) in
           if leaf \<and> level \<noteq> 1 \<and> entry AND address_mask AND (push_bit (level_shift level) 1 - 1) AND NOT (push_bit 12 1) \<noteq> 0 then None
           else Some leaf)"

section \<open>Walking and visiting\<close>

text \<open>The loop of \<open>resolve_mapping\<close> over the levels.\<close>

fun resolve_level :: "TableReader \<Rightarrow> entry_reader \<Rightarrow> u64 \<Rightarrow> u64 \<Rightarrow> u64 \<Rightarrow> bool \<Rightarrow> nat \<Rightarrow> Mapping option" where
  "resolve_level reader read physical_mask address table user_access 0 = None"
| "resolve_level reader read physical_mask address table user_access (Suc l) = do {
     let shift = level_shift (Suc l);
     entry \<leftarrow> read table (unat (drop_bit shift address AND 511));
     if entry AND present = 0 then None
     else do {
       leaf \<leftarrow> present_entry_valid reader physical_mask (Suc l) entry;
       let user_access = (user_access \<and> entry AND user \<noteq> 0);
       if leaf then
         let m = push_bit shift 1 - 1 in
         Some \<lparr>mp_physical = (entry AND address_mask AND NOT m) + (address AND m), mp_remaining = push_bit shift 1 - (address AND m),
               mp_supervisor = (\<not> user_access)\<rparr>
       else do {
         let table = entry AND address_mask;
         if table = 0 then None else resolve_level reader read physical_mask address table user_access l
       }
     }
   }"

definition resolve_mapping :: "TableReader \<Rightarrow> u64 \<Rightarrow> u64 \<Rightarrow> Mapping option \<Rightarrow> bool \<times> Mapping option" where
  "resolve_mapping reader root_table address output =
     (if output = None then (False, None)
      else case (if canonical address then reader_root_valid reader root_table else None) of
        None \<Rightarrow> (False, Some zero_Mapping)
      | Some (physical_mask, read) \<Rightarrow>
          (case resolve_level reader read physical_mask address root_table True 4 of
             None \<Rightarrow> (False, Some zero_Mapping)
           | Some mapping \<Rightarrow> (True, Some mapping)))"

text \<open>What a resolved address maps to; the local \<open>mapping\<close> of the callers is never null.\<close>

definition resolved :: "TableReader \<Rightarrow> u64 \<Rightarrow> u64 \<Rightarrow> Mapping option" where
  "resolved reader root_table address =
     (case resolve_mapping reader root_table address (Some zero_Mapping) of (ok, m) \<Rightarrow> if ok then m else None)"

text \<open>
  \<open>visit_table\<close> and its loop over the entries; \<open>None\<close> is \<open>false\<close>. A table below level 1 does not exist: every
  present entry of level 1 is a leaf.
\<close>

function visit_table :: "TableReader \<Rightarrow> entry_reader \<Rightarrow> u64 \<Rightarrow> u64 \<Rightarrow> nat \<Rightarrow> TableWorkEntry list \<Rightarrow> TableWorkEntry list option"
  and visit_entries :: "TableReader \<Rightarrow> entry_reader \<Rightarrow> u64 \<Rightarrow> u64 \<Rightarrow> nat \<Rightarrow> nat \<Rightarrow> TableWorkEntry list \<Rightarrow> TableWorkEntry list option" where
  "visit_table reader read physical_mask physical level ws =
     (if physical = 0 \<or> physical AND NOT physical_mask \<noteq> 0 then None
      else case find (\<lambda>e. te_physical e = physical) ws of
        Some e \<Rightarrow> if te_level e = level then Some ws else None
      | None \<Rightarrow>
          if length ws = table_workspace_capacity then None
          else visit_entries reader read physical_mask physical level 0 (ws @ [\<lparr>te_physical = physical, te_level = level\<rparr>]))"
| "visit_entries reader read physical_mask physical level index ws =
     (if index < 512 then
        (case read physical index of None \<Rightarrow> None
         | Some entry \<Rightarrow>
             if entry AND present = 0 then visit_entries reader read physical_mask physical level (index + 1) ws
             else (case present_entry_valid reader physical_mask level entry of None \<Rightarrow> None
               | Some leaf \<Rightarrow>
                   if leaf then visit_entries reader read physical_mask physical level (index + 1) ws
                   else if level = 0 then None
                   else (case visit_table reader read physical_mask (entry AND address_mask) (level - 1) ws of None \<Rightarrow> None
                     | Some ws \<Rightarrow> visit_entries reader read physical_mask physical level (index + 1) ws)))
      else Some ws)"
  by pat_completeness auto
termination
  by (relation "measures [\<lambda>x. case x of Inl (r, d, m, p, level, ws) \<Rightarrow> level | Inr (r, d, m, p, level, index, ws) \<Rightarrow> level,
      \<lambda>x. case x of Inl _ \<Rightarrow> 1 | Inr _ \<Rightarrow> 0, \<lambda>x. case x of Inl _ \<Rightarrow> 0 | Inr (r, d, m, p, level, index, ws) \<Rightarrow> 512 - index]") auto

declare visit_table.simps [simp del] visit_entries.simps [simp del]

definition verify_table_closure :: "TableReader \<Rightarrow> u64 \<Rightarrow> TableWorkspace option \<Rightarrow> bool \<times> TableWorkspace option" where
  "verify_table_closure reader root_table workspace =
     (case workspace of None \<Rightarrow> (False, None)
      | Some w \<Rightarrow>
          (case reader_root_valid reader root_table of None \<Rightarrow> (False, Some (w\<lparr>tw_entries := []\<rparr>))
           | Some (physical_mask, read) \<Rightarrow>
               (case visit_table reader read physical_mask root_table 4 [] of
                  None \<Rightarrow> (False, Some (w\<lparr>tw_entries := []\<rparr>))
                | Some ws \<Rightarrow> (True, Some (w\<lparr>tw_entries := ws\<rparr>)))))"

section \<open>Arithmetic of a page\<close>

lemma same_page:
  assumes "unat k < 2 ^ n - unat a mod 2 ^ n" "n \<le> 63"
  shows "unat (a + k :: u64) = unat a + unat k" "n \<le> t \<Longrightarrow> unat (a + k) div 2 ^ t = unat a div 2 ^ t"
    "unat (a + k) mod 2 ^ n = unat a mod 2 ^ n + unat k"
proof -
  have "(2 :: nat) ^ 64 = 2 ^ n * 2 ^ (64 - n)" using assms(2) by (simp only: power_add [symmetric]) simp
  then obtain d where d: "(2 :: nat) ^ 64 = 2 ^ n * d" by blast
  have "unat a < 2 ^ n * d" using unat_less_64 [of a] d by simp
  then have "unat a div 2 ^ n < d" by (simp add: less_mult_imp_div_less mult.commute)
  then have "unat a div 2 ^ n + 1 \<le> d" by simp
  then have "2 ^ n * (unat a div 2 ^ n + 1) \<le> 2 ^ n * d" by (rule mult_le_mono2)
  then have u: "2 ^ n * (unat a div 2 ^ n) + 2 ^ n \<le> (2 :: nat) ^ 64" unfolding d by (simp only: distrib_left mult_1_right)
  have a: "unat a = 2 ^ n * (unat a div 2 ^ n) + unat a mod 2 ^ n" by simp
  have "unat a + unat k < 2 ^ n * (unat a div 2 ^ n) + 2 ^ n" using a assms(1) by linarith
  then have "unat a + unat k < 2 ^ 64" using u by (rule less_le_trans)
  then show e: "unat (a + k) = unat a + unat k" by (rule unat_add_small)
  have c: "(m * q + r) div m = q \<and> (m * q + r) mod m = r" if "r < m" for m q r :: nat using that by simp
  have "unat a + unat k = 2 ^ n * (unat a div 2 ^ n) + (unat a mod 2 ^ n + unat k)" using a by linarith
  then have q: "(unat a + unat k) div 2 ^ n = unat a div 2 ^ n" "(unat a + unat k) mod 2 ^ n = unat a mod 2 ^ n + unat k"
    using c [of "unat a mod 2 ^ n + unat k" "2 ^ n" "unat a div 2 ^ n"] assms(1) by simp_all
  then show "unat (a + k) mod 2 ^ n = unat a mod 2 ^ n + unat k" using e by simp
  assume t: "n \<le> t"
  then have "(2 :: nat) ^ t = 2 ^ n * 2 ^ (t - n)" by (simp add: power_add [symmetric])
  then show "unat (a + k) div 2 ^ t = unat a div 2 ^ t" unfolding e by (simp add: div_mult2_eq q(1))
qed

lemma page_words:
  assumes "n \<le> 63"
  shows "unat (a AND (push_bit n 1 - 1) :: u64) = unat a mod 2 ^ n" "unat (push_bit n 1 - (a AND (push_bit n 1 - 1)) :: u64) = 2 ^ n - unat a mod 2 ^ n"
proof -
  have "push_bit n 1 - 1 = (mask n :: u64)" by (simp add: mask_eq_exp_minus_1)
  then have "a AND (push_bit n 1 - 1) = take_bit n a" by (simp add: take_bit_eq_mask)
  then show m: "unat (a AND (push_bit n 1 - 1) :: u64) = unat a mod 2 ^ n" by (simp only: unsigned_take_bit_eq) (simp add: take_bit_eq_mod)
  have p: "unat (push_bit n 1 :: u64) = 2 ^ n" using assms by (simp only: unsigned_push_bit_eq) (simp add: take_bit_nat_eq_self)
  have "unat a mod 2 ^ n \<le> 2 ^ n" by (simp add: less_imp_le)
  then show "unat (push_bit n 1 - (a AND (push_bit n 1 - 1)) :: u64) = 2 ^ n - unat a mod 2 ^ n"
    using m p by (subst unat_sub) (simp_all add: word_le_nat_alt)
qed

lemma same_page_words:
  assumes "unat k < 2 ^ n - unat a mod 2 ^ n" "n \<le> 63"
  shows "n \<le> t \<Longrightarrow> drop_bit t (a + k :: u64) = drop_bit t a" "(a + k) AND (push_bit n 1 - 1) = (a AND (push_bit n 1 - 1)) + k"
proof -
  show "drop_bit t (a + k) = drop_bit t a" if "n \<le> t"
    using same_page(2) [OF assms that] unfolding word_unat_eq_iff unat_drop_bit_eq by (simp add: drop_bit_eq_div)
  have "unat a mod 2 ^ n + unat k < 2 ^ 64" using assms power_increasing [of n 63 "2 :: nat"] by (simp add: less_diff_conv)
  then show "(a + k) AND (push_bit n 1 - 1) = (a AND (push_bit n 1 - 1)) + k"
    using same_page(3) [OF assms] page_words(1) [OF assms(2)] by (simp add: word_unat_eq_iff unat_add_small)
qed

section \<open>Translation within a page\<close>

text \<open>A resolved address fixes the translation of the rest of its page.\<close>

definition advance :: "u64 \<Rightarrow> Mapping \<Rightarrow> Mapping" where
  "advance k m = m\<lparr>mp_physical := mp_physical m + k, mp_remaining := mp_remaining m - k\<rparr>"

lemma level_shift_simps [simp]: "level_shift (Suc l) = 12 + 9 * l"
  by (simp add: level_shift_def)

lemma resolve_level_page:
  "resolve_level reader read mk a table ua n = Some m \<Longrightarrow> n \<le> 4 \<Longrightarrow>
    \<exists>s. s \<le> 3 + 9 * n \<and> unat (mp_remaining m) = 2 ^ s - unat a mod 2 ^ s \<and>
      (\<forall>k. unat k < unat (mp_remaining m) \<longrightarrow> resolve_level reader read mk (a + k) table ua n = Some (advance k m))"
proof (induction n arbitrary: table ua)
  case (Suc l)
  let ?s = "12 + 9 * l"
  obtain entry leaf where e: "read table (unat (drop_bit ?s a AND 511)) = Some entry" "entry AND present \<noteq> 0"
    "present_entry_valid reader mk (Suc l) entry = Some leaf"
    using Suc.prems(1) by (auto simp: Let_def bind_eq_Some_conv split: if_splits)
  have same: "read table (unat (drop_bit ?s (a + k) AND 511)) = Some entry" if "unat k < 2 ^ t - unat a mod 2 ^ t" "t \<le> ?s" for k t
    using same_page_words(1) [OF that(1) _ that(2)] that(2) Suc.prems(2) e(1) by simp
  show ?case
  proof (cases leaf)
    case True
    have s: "?s \<le> 63" using Suc.prems(2) by simp
    have m: "m = \<lparr>mp_physical = (entry AND address_mask AND NOT (push_bit ?s 1 - 1)) + (a AND (push_bit ?s 1 - 1)),
        mp_remaining = push_bit ?s 1 - (a AND (push_bit ?s 1 - 1)), mp_supervisor = (\<not> (ua \<and> entry AND user \<noteq> 0))\<rparr>"
      using Suc.prems(1) e True by (simp add: Let_def)
    have r: "unat (mp_remaining m) = 2 ^ ?s - unat a mod 2 ^ ?s" unfolding m Mapping.select_convs by (rule page_words(2) [OF s])
    have "resolve_level reader read mk (a + k) table ua (Suc l) = Some (advance k m)" if k: "unat k < unat (mp_remaining m)" for k
    proof -
      have k': "unat k < 2 ^ ?s - unat a mod 2 ^ ?s" using k r by simp
      show ?thesis using same [OF k'] e True same_page_words(2) [OF k' s] by (simp add: Let_def m advance_def algebra_simps)
    qed
    then show ?thesis using r by (intro exI [of _ ?s]) simp
  next
    case False
    have t: "entry AND address_mask \<noteq> 0" and rec: "resolve_level reader read mk a (entry AND address_mask) (ua \<and> entry AND user \<noteq> 0) l = Some m"
      using Suc.prems(1) e False by (simp_all add: Let_def split: if_splits)
    obtain s where s: "s \<le> 3 + 9 * l" "unat (mp_remaining m) = 2 ^ s - unat a mod 2 ^ s"
      "\<And>k. unat k < unat (mp_remaining m) \<Longrightarrow> resolve_level reader read mk (a + k) (entry AND address_mask) (ua \<and> entry AND user \<noteq> 0) l = Some (advance k m)"
      using Suc.IH [OF rec] Suc.prems(2) by auto
    have "resolve_level reader read mk (a + k) table ua (Suc l) = Some (advance k m)" if k: "unat k < unat (mp_remaining m)" for k
      using same [of k s] k s e(2,3) False t by (simp add: Let_def)
    then show ?thesis using s(1,2) by (intro exI [of _ s]) auto
  qed
qed simp

lemma resolved_eq:
  "resolved reader root a = (if canonical a then do { (mk, read) \<leftarrow> reader_root_valid reader root; resolve_level reader read mk a root True 4 } else None)"
  by (auto simp: resolved_def resolve_mapping_def split: option.splits bind_splits)

lemma resolved_page:
  assumes "resolved reader root a = Some m" "direct_map_base \<le> a"
  shows "0 < unat (mp_remaining m)" "unat k < unat (mp_remaining m) \<Longrightarrow> resolved reader root (a + k) = Some (advance k m)"
proof -
  obtain mk read where r: "reader_root_valid reader root = Some (mk, read)" "resolve_level reader read mk a root True 4 = Some m"
    using assms(1) by (auto simp: resolved_eq bind_eq_Some_conv split: if_splits)
  obtain s where s: "s \<le> 39" "unat (mp_remaining m) = 2 ^ s - unat a mod 2 ^ s"
    "\<And>k. unat k < unat (mp_remaining m) \<Longrightarrow> resolve_level reader read mk (a + k) root True 4 = Some (advance k m)"
    using resolve_level_page [OF r(2)] by auto
  show "0 < unat (mp_remaining m)" using s(2) by simp
  assume k: "unat k < unat (mp_remaining m)"
  then have "unat (a + k) = unat a + unat k" using same_page(1) [of k s a] s(1,2) by simp
  then have "direct_map_base \<le> a + k" using assms(2) by (simp add: word_le_nat_alt)
  then show "resolved reader root (a + k) = Some (advance k m)" using r(1) s(3) [OF k] by (simp add: resolved_eq canonical_def)
qed

lemma resolved_remaining: "resolved reader root a = Some m \<Longrightarrow> mp_remaining m \<noteq> 0"
proof -
  assume "resolved reader root a = Some m"
  then obtain mk read where "resolve_level reader read mk a root True 4 = Some m" by (auto simp: resolved_eq bind_eq_Some_conv split: if_splits)
  then obtain s where "unat (mp_remaining m) = 2 ^ s - unat a mod 2 ^ s" using resolve_level_page by blast
  then have "0 < unat (mp_remaining m)" by simp
  then show ?thesis by (auto simp: unat_gt_0)
qed

section \<open>The direct map\<close>

text \<open>The loop of \<open>verify_direct_span\<close>.\<close>

function verify_span_loop :: "TableReader \<Rightarrow> u64 \<Rightarrow> u64 \<Rightarrow> u64 \<Rightarrow> bool" where
  "verify_span_loop reader root_table physical bytes =
     (if bytes = 0 then True
      else case resolved reader root_table (direct_map_base + physical) of
        None \<Rightarrow> False
      | Some mapping \<Rightarrow>
          if \<not> mp_supervisor mapping \<or> mp_physical mapping \<noteq> physical then False
          else let step = (if bytes < mp_remaining mapping then bytes else mp_remaining mapping) in
               verify_span_loop reader root_table (physical + step) (bytes - step))"
  by pat_completeness auto
termination
proof (relation "measure (\<lambda>(reader, root, physical, bytes). unat bytes)", goal_cases)
  case (2 reader root physical bytes m step)
  then have "step \<noteq> 0" "step \<le> bytes" using resolved_remaining [OF 2(2)] by auto
  then have "unat step \<noteq> 0" "unat step \<le> unat bytes" by (simp_all add: unat_eq_zero word_le_nat_alt)
  then show ?case using \<open>step \<le> bytes\<close> by (simp add: unat_sub)
qed simp

declare verify_span_loop.simps [simp del]

definition verify_direct_span :: "TableReader \<Rightarrow> u64 \<Rightarrow> u64 \<Rightarrow> u64 \<Rightarrow> bool" where
  "verify_direct_span reader root_table physical bytes =
     (if physical = 0 \<or> bytes = 0 \<or> physical \<ge> direct_map_bytes \<or> bytes > direct_map_bytes - physical then False
      else verify_span_loop reader root_table physical bytes)"

text \<open>The byte at a physical address is mapped to itself in the direct map, for the supervisor only.\<close>

definition direct_byte :: "TableReader \<Rightarrow> u64 \<Rightarrow> u64 \<Rightarrow> bool" where
  "direct_byte reader root p \<longleftrightarrow> (\<exists>m. resolved reader root (direct_map_base + p) = Some m \<and> mp_supervisor m \<and> mp_physical m = p)"

lemma direct_address: "unat p < 2 ^ 47 \<Longrightarrow> unat (direct_map_base + p) = unat direct_map_base + unat p" "unat p < 2 ^ 47 \<Longrightarrow> direct_map_base \<le> direct_map_base + p"
proof -
  show e: "unat (direct_map_base + p) = unat direct_map_base + unat p" if "unat p < 2 ^ 47" using that by (intro unat_add_small) (simp add: direct_map_base_def)
  show "direct_map_base \<le> direct_map_base + p" if "unat p < 2 ^ 47" using e [OF that] by (simp add: word_le_nat_alt)
qed

lemma direct_page:
  assumes "resolved reader root (direct_map_base + p) = Some m" "mp_supervisor m" "mp_physical m = p" "unat p < 2 ^ 47" "unat k < unat (mp_remaining m)"
  shows "direct_byte reader root (p + k)"
  using resolved_page(2) [OF assms(1) direct_address(2) [OF assms(4)] assms(5)] assms(2,3)
  by (auto simp: direct_byte_def advance_def algebra_simps)

lemma all_below_split:
  fixes p step n :: u64
  assumes "unat step \<le> unat n" "\<forall>k < unat step. P (p + of_nat k)"
  shows "(\<forall>k < unat n. P (p + of_nat k)) \<longleftrightarrow> (\<forall>k < unat n - unat step. P (p + step + of_nat k))"
proof (intro iffI allI impI)
  fix k assume a: "\<forall>k < unat n. P (p + of_nat k)" "k < unat n - unat step"
  then have "P (p + of_nat (unat step + k))" using assms(1) by (simp del: of_nat_add)
  then show "P (p + step + of_nat k)" by (simp add: algebra_simps)
next
  fix k assume a: "\<forall>k < unat n - unat step. P (p + step + of_nat k)" "k < unat n"
  show "P (p + of_nat k)"
  proof (cases "k < unat step")
    case False
    then have "k - unat step < unat n - unat step" using a(2) by linarith
    then have "P (p + step + of_nat (k - unat step))" using a(1) by blast
    moreover have "step + of_nat (k - unat step) = of_nat k" using False by (simp add: of_nat_diff)
    ultimately show ?thesis by (simp add: add.assoc)
  qed (use assms(2) in blast)
qed

lemma verify_span_loop_spec:
  "unat p + unat n \<le> 2 ^ 47 \<Longrightarrow> verify_span_loop reader root p n \<longleftrightarrow> (\<forall>k < unat n. direct_byte reader root (p + of_nat k))"
proof (induction reader root p n rule: verify_span_loop.induct)
  case (1 reader root p n)
  show ?case
  proof (cases "n = 0")
    case True
    then show ?thesis by (simp add: verify_span_loop.simps)
  next
    case n: False
    then have n0: "0 < unat n" by (simp add: unat_gt_0)
    then have p: "unat p < 2 ^ 47" using 1(2) by simp
    show ?thesis
    proof (cases "direct_byte reader root p")
      case False
      then have "\<not> verify_span_loop reader root p n" using n by (subst verify_span_loop.simps) (auto simp: direct_byte_def split: option.splits)
      moreover have "\<not> direct_byte reader root (p + of_nat 0)" using False by simp
      ultimately show ?thesis using n0 by blast
    next
      case True
      then obtain m where m: "resolved reader root (direct_map_base + p) = Some m" "mp_supervisor m" "mp_physical m = p" by (auto simp: direct_byte_def)
      define step where "step = (if n < mp_remaining m then n else mp_remaining m)"
      have s: "step \<le> n" "step \<le> mp_remaining m" by (auto simp: step_def)
      have u: "unat (p + step) = unat p + unat step" "unat (n - step) = unat n - unat step"
        using s(1) 1(2) by (auto simp: word_le_nat_alt unat_sub intro: unat_add_small)
      have loop: "verify_span_loop reader root p n = verify_span_loop reader root (p + step) (n - step)"
        using n m by (subst verify_span_loop.simps) (simp add: step_def Let_def)
      have IH: "verify_span_loop reader root (p + step) (n - step) \<longleftrightarrow> (\<forall>k < unat n - unat step. direct_byte reader root (p + step + of_nat k))"
      proof -
        have h: "\<not> (\<not> mp_supervisor m \<or> mp_physical m \<noteq> p)" using m(2,3) by simp
        have "unat step \<le> unat n" using s(1) by (simp add: word_le_nat_alt)
        then have "unat (p + step) + unat (n - step) \<le> 2 ^ 47" using u 1(2) by linarith
        from "1.IH" [OF n m(1) h step_def this] show ?thesis unfolding u(2) .
      qed
      have first: "direct_byte reader root (p + of_nat k)" if "k < unat step" for k
      proof -
        have "k < 2 ^ 64" using that unat_less_64 [of step] by (rule less_trans)
        then have "unat (of_nat k :: u64) = k" by (simp add: unat_of_nat take_bit_nat_eq_self)
        then show ?thesis using direct_page [OF m p, of "of_nat k"] that s(2) by (simp add: word_le_nat_alt)
      qed
      have "unat step \<le> unat n" using s(1) by (simp add: word_le_nat_alt)
      with all_below_split [where P = "direct_byte reader root"] first
      have "(\<forall>k < unat n. direct_byte reader root (p + of_nat k)) \<longleftrightarrow> (\<forall>k < unat n - unat step. direct_byte reader root (p + step + of_nat k))" by blast
      then show ?thesis using loop IH by simp
    qed
  qed
qed

section \<open>The tables that are reached\<close>

text \<open>An entry that points to a table points to one of the list, one level below.\<close>

definition entry_ok :: "TableReader \<Rightarrow> entry_reader \<Rightarrow> u64 \<Rightarrow> TableWorkEntry list \<Rightarrow> u64 \<Rightarrow> nat \<Rightarrow> nat \<Rightarrow> bool" where
  "entry_ok reader read mk ws p level index \<longleftrightarrow> (\<exists>entry. read p index = Some entry \<and> (entry AND present \<noteq> 0 \<longrightarrow>
     (\<exists>leaf. present_entry_valid reader mk level entry = Some leaf \<and>
       (\<not> leaf \<longrightarrow> \<lparr>te_physical = entry AND address_mask, te_level = level - 1\<rparr> \<in> set ws))))"

definition table_ok :: "TableReader \<Rightarrow> entry_reader \<Rightarrow> u64 \<Rightarrow> TableWorkEntry list \<Rightarrow> TableWorkEntry \<Rightarrow> bool" where
  "table_ok reader read mk ws e \<longleftrightarrow> te_physical e \<noteq> 0 \<and> te_physical e AND NOT mk = 0 \<and> 1 \<le> te_level e \<and> te_level e \<le> 4 \<and>
     (\<forall>index < 512. entry_ok reader read mk ws (te_physical e) (te_level e) index)"

lemma entry_ok_mono: "entry_ok reader read mk ws p level index \<Longrightarrow> set ws \<subseteq> set ws' \<Longrightarrow> entry_ok reader read mk ws' p level index"
  unfolding entry_ok_def by blast

lemma table_ok_mono: "table_ok reader read mk ws e \<Longrightarrow> set ws \<subseteq> set ws' \<Longrightarrow> table_ok reader read mk ws' e"
  unfolding table_ok_def using entry_ok_mono by blast

text \<open>The visit adds tables, each once and each complete.\<close>

definition extends :: "TableReader \<Rightarrow> entry_reader \<Rightarrow> u64 \<Rightarrow> TableWorkEntry list \<Rightarrow> TableWorkEntry list \<Rightarrow> bool" where
  "extends reader read mk ws ws' \<longleftrightarrow> set ws \<subseteq> set ws' \<and> (distinct (map te_physical ws) \<longrightarrow> distinct (map te_physical ws')) \<and>
     (length ws \<le> table_workspace_capacity \<longrightarrow> length ws' \<le> table_workspace_capacity) \<and> (\<forall>e \<in> set ws' - set ws. table_ok reader read mk ws' e)"

lemma extends_refl: "extends reader read mk ws ws"
  by (simp add: extends_def)

lemma extends_trans: "extends reader read mk ws ws1 \<Longrightarrow> extends reader read mk ws1 ws2 \<Longrightarrow> extends reader read mk ws ws2"
  unfolding extends_def using table_ok_mono by blast

lemma visit_entries_step:
  assumes "visit_entries reader read mk p level index ws = Some ws'" "index < 512"
  obtains (skip) entry where "read p index = Some entry" "entry AND present = 0 \<or> present_entry_valid reader mk level entry = Some True"
      "visit_entries reader read mk p level (index + 1) ws = Some ws'"
  | (descend) entry ws1 where "read p index = Some entry" "entry AND present \<noteq> 0" "present_entry_valid reader mk level entry = Some False" "level \<noteq> 0"
      "visit_table reader read mk (entry AND address_mask) (level - 1) ws = Some ws1" "visit_entries reader read mk p level (index + 1) ws1 = Some ws'"
  using assms(1) [unfolded visit_entries.simps [of reader read mk p level index ws]] assms(2) skip descend
  by (auto split: option.split_asm if_split_asm)

lemma leaf_level_one: "present_entry_valid reader mk 1 entry = Some leaf \<Longrightarrow> leaf"
  by (auto simp: present_entry_valid_def Let_def split: if_splits)

lemma visit_extends:
  "visit_table reader read mk p level ws = Some ws' \<Longrightarrow> 1 \<le> level \<Longrightarrow> level \<le> 4 \<Longrightarrow>
     extends reader read mk ws ws' \<and> \<lparr>te_physical = p, te_level = level\<rparr> \<in> set ws'"
  "visit_entries reader read mk p level index ws = Some ws' \<Longrightarrow> 1 \<le> level \<Longrightarrow> level \<le> 4 \<Longrightarrow>
     extends reader read mk ws ws' \<and> (\<forall>i. index \<le> i \<and> i < 512 \<longrightarrow> entry_ok reader read mk ws' p level i)"
proof (induction reader read mk p level ws and reader read mk p level index ws arbitrary: ws' and ws' rule: visit_table_visit_entries.induct)
  case (1 reader read mk p level ws)
  let ?new = "\<lparr>te_physical = p, te_level = level\<rparr>"
  have p: "p \<noteq> 0" "p AND NOT mk = 0" using 1(2) by (auto simp: visit_table.simps split: if_splits)
  show ?case
  proof (cases "find (\<lambda>e. te_physical e = p) ws")
    case None
    then have c: "length ws \<noteq> table_workspace_capacity" "visit_entries reader read mk p level 0 (ws @ [?new]) = Some ws'"
      using 1(2) p by (auto simp: visit_table.simps split: if_splits)
    then have e: "extends reader read mk (ws @ [?new]) ws'" "\<forall>i < 512. entry_ok reader read mk ws' p level i"
      using "1.IH" p None 1(3,4) by auto
    have "te_physical ?new \<notin> te_physical ` set ws" using None by (auto simp: find_None_iff)
    moreover have "table_ok reader read mk ws' ?new" using p e(2) 1(3,4) by (simp add: table_ok_def)
    ultimately show ?thesis using e(1) c(1) by (auto simp: extends_def)
  next
    case (Some e)
    then have "te_level e = level" "ws' = ws" using 1(2) p by (auto simp: visit_table.simps split: if_splits)
    moreover have "te_physical e = p" "e \<in> set ws" using Some by (auto simp: find_Some_iff)
    ultimately have "?new \<in> set ws" by (cases e) auto
    then show ?thesis using \<open>ws' = ws\<close> extends_refl by blast
  qed
next
  case (2 reader read mk p level index ws)
  show ?case
  proof (cases "index < 512")
    case False
    then show ?thesis using 2(5) extends_refl by (subst (asm) visit_entries.simps) auto
  next
    case True
    have all: "\<forall>i. index \<le> i \<and> i < 512 \<longrightarrow> entry_ok reader read mk ws' p level i"
      if "entry_ok reader read mk ws' p level index" "\<forall>i. index + 1 \<le> i \<and> i < 512 \<longrightarrow> entry_ok reader read mk ws' p level i"
      using that by (metis Suc_eq_plus1 le_neq_implies_less Suc_leI)
    from 2(5) True show ?thesis
    proof (cases rule: visit_entries_step)
      case (skip entry)
      have "extends reader read mk ws ws' \<and> (\<forall>i. index + 1 \<le> i \<and> i < 512 \<longrightarrow> entry_ok reader read mk ws' p level i)"
      proof (cases "entry AND present = 0")
        case zero: True
        show ?thesis using 2(1) [OF True skip(1) zero skip(3) 2(6,7)] .
      next
        case False
        then have "present_entry_valid reader mk level entry = Some True" using skip(2) by simp
        from 2(2) [OF True skip(1) False this _ skip(3) 2(6,7)] show ?thesis by simp
      qed
      moreover have "entry_ok reader read mk ws' p level index" using skip(1,2) by (auto simp: entry_ok_def)
      ultimately show ?thesis using all by blast
    next
      case (descend entry ws1)
      have "level \<noteq> 1" using leaf_level_one [of reader mk entry False] descend(3) by auto
      then have l: "1 \<le> level - 1" "level - 1 \<le> 4" using 2(6,7) by simp_all
      have t: "extends reader read mk ws ws1" "\<lparr>te_physical = entry AND address_mask, te_level = level - 1\<rparr> \<in> set ws1"
        using 2(3) [OF True descend(1,2,3) _ descend(4,5) l] by simp_all
      have e: "extends reader read mk ws1 ws'" "\<forall>i. index + 1 \<le> i \<and> i < 512 \<longrightarrow> entry_ok reader read mk ws' p level i"
        using 2(4) [OF True descend(1,2,3) _ descend(4,5,6) 2(6,7)] by simp_all
      have "entry_ok reader read mk ws' p level index" using descend(1,3) t(2) e(1) by (auto simp: entry_ok_def extends_def)
      then show ?thesis using extends_trans [OF t(1) e(1)] all e(2) by blast
    qed
  qed
qed

section \<open>The packages\<close>

definition packages_overlap :: "BootPackageProof \<Rightarrow> u64 \<Rightarrow> u64 \<Rightarrow> bool" where
  "packages_overlap proof physical bytes =
     (if \<not> bp_valid proof \<or> bytes = 0 then False
      else if physical > - 1 - bytes then True
      else let fin = physical + bytes in
           (physical < ps_end (bp_root proof) \<and> ps_start (bp_root proof) < fin) \<or>
           (physical < ps_end (bp_system proof) \<and> ps_start (bp_system proof) < fin))"

text \<open>\<open>covered_span\<close> into a zeroed local span: \<open>None\<close> when it answers \<open>false\<close>.\<close>

definition span_of :: "memory \<Rightarrow> MapView \<Rightarrow> u64 \<Rightarrow> u64 \<Rightarrow> SpanPolicy \<Rightarrow> PhysicalSpan option option" where
  "span_of mem mv physical bytes policy = do {
     (ok, sp) \<leftarrow> covered_span mem mv physical bytes policy (Some zero_PhysicalSpan);
     Some (if ok then sp else None)
   }"

definition prove_boot_packages ::
  "memory \<Rightarrow> XJ_INSTALLER_HANDOFF \<Rightarrow> MapView \<Rightarrow> u64 \<Rightarrow> TableReader \<Rightarrow> u64 \<Rightarrow> BootPackageProof option \<Rightarrow> (int \<times> BootPackageProof option) option" where
  "prove_boot_packages mem handoff mv map_physical reader root_table output =
     (if output = None then Some (- 22, None)
      else do {
        ok \<leftarrow> xj_installer_handoff_valid (Some handoff);
        if \<not> ok then Some (- 22, Some zero_proof)
        else do {
          let fault = Some (- 14, Some zero_proof);
          root \<leftarrow> span_of mem mv (pk_physical (ih_root handoff)) (pk_pages (ih_root handoff) * 4096) loader_data_only;
          case root of None \<Rightarrow> fault
          | Some root \<Rightarrow> do {
              system \<leftarrow> span_of mem mv (pk_physical (ih_system handoff)) (pk_pages (ih_system handoff) * 4096) loader_data_only;
              case system of None \<Rightarrow> fault
              | Some system \<Rightarrow> do {
                  map_span \<leftarrow> span_of mem mv map_physical (mv_map_bytes mv) loader_and_boot_services;
                  case map_span of None \<Rightarrow> fault
                  | Some map_span \<Rightarrow> do {
                      loader_span \<leftarrow> span_of mem mv (ih_loader_image_physical handoff) (ih_loader_image_bytes handoff) loader_and_boot_services;
                      case loader_span of None \<Rightarrow> fault
                      | Some loader_span \<Rightarrow> do {
                          let proof = \<lparr>bp_root = root, bp_system = system, bp_profile = ih_system_profile handoff, bp_valid = True\<rparr>;
                          if packages_overlap proof (ps_start map_span) (ps_end map_span - ps_start map_span) \<or>
                             packages_overlap proof (ps_start loader_span) (ps_end loader_span - ps_start loader_span) \<or>
                             \<not> verify_direct_span reader root_table (ps_start root) (ps_end root - ps_start root) \<or>
                             \<not> verify_direct_span reader root_table (ps_start system) (ps_end system - ps_start system)
                          then fault
                          else Some (0, Some proof)
                        }
                    }
                }
            }
        }
      })"

text \<open>The bytes of a span, and what a successful \<open>covered_span\<close> says of them.\<close>

definition span_bytes :: "PhysicalSpan \<Rightarrow> nat set" where
  "span_bytes sp = {unat (ps_start sp)..<unat (ps_end sp)}"

lemma span_of_cases:
  assumes "readable mem mv"
  shows "\<exists>r. span_of mem mv physical bytes policy = Some r \<and> (\<forall>sp. r = Some sp \<longrightarrow>
    unat (ps_start sp) = page_start physical \<and> unat (ps_end sp) = page_end physical bytes \<and> page_start physical < page_end physical bytes \<and>
    (\<exists>ds. valid_map mem mv ds \<and> (\<forall>a \<in> span_bytes sp. covered ds policy a)))"
proof -
  obtain ok sp where c: "covered_span mem mv physical bytes policy (Some zero_PhysicalSpan) = Some (ok, Some sp)"
    "ok \<longleftrightarrow> (\<exists>ds. valid_map mem mv ds \<and> bytes \<noteq> 0 \<and> unat physical + unat bytes + 4095 < 2 ^ 64 \<and>
       (\<forall>a. page_start physical \<le> a \<and> a < page_end physical bytes \<longrightarrow> covered ds policy a))"
    "ok \<Longrightarrow> unat (ps_start sp) = page_start physical \<and> unat (ps_end sp) = page_end physical bytes"
    using covered_span_cases [OF assms] by blast
  have "page_start physical < page_end physical bytes" if "bytes \<noteq> 0"
  proof -
    have "0 < unat bytes" using that by (simp add: unat_gt_0)
    then have "(unat physical + 4096) div 4096 \<le> (unat physical + unat bytes + 4095) div 4096" by (intro div_le_mono) simp
    then show ?thesis by simp
  qed
  then show ?thesis using c by (cases ok) (auto simp: span_of_def span_bytes_def)
qed

lemma overlap_spans:
  assumes "bp_valid p" "unat (ps_start sp) < unat (ps_end sp)" "\<not> packages_overlap p (ps_start sp) (ps_end sp - ps_start sp)"
  shows "span_bytes sp \<inter> (span_bytes (bp_root p) \<union> span_bytes (bp_system p)) = {}"
proof -
  have "unat (ps_end sp - ps_start sp) = unat (ps_end sp) - unat (ps_start sp)" using assms(2) by (simp add: unat_sub word_le_nat_alt)
  then have "ps_end sp - ps_start sp \<noteq> 0" "ps_start sp + (ps_end sp - ps_start sp) = ps_end sp" using assms(2) by (auto simp: unat_eq_zero [symmetric])
  then show ?thesis using assms(1,3) by (force simp: packages_overlap_def span_bytes_def Let_def word_less_nat_alt split: if_splits)
qed

lemma verify_span_bytes:
  assumes "verify_direct_span reader root (ps_start sp) (ps_end sp - ps_start sp)" "unat (ps_start sp) < unat (ps_end sp)"
  shows "\<forall>a \<in> span_bytes sp. direct_byte reader root (of_nat a)"
proof
  fix a assume a: "a \<in> span_bytes sp"
  let ?n = "ps_end sp - ps_start sp"
  have n: "unat ?n = unat (ps_end sp) - unat (ps_start sp)" using assms(2) by (simp add: unat_sub word_le_nat_alt)
  have v: "ps_start sp < direct_map_bytes" "?n \<le> direct_map_bytes - ps_start sp" "verify_span_loop reader root (ps_start sp) ?n"
    using assms(1) by (auto simp: verify_direct_span_def not_le not_less split: if_splits)
  have "unat direct_map_bytes = 2 ^ 47" by (simp add: direct_map_bytes_def)
  then have "unat (ps_start sp) + unat ?n \<le> 2 ^ 47" using v(1,2) by (simp add: word_le_nat_alt word_less_nat_alt unat_sub)
  from verify_span_loop_spec [OF this] v(3) have "\<forall>k < unat ?n. direct_byte reader root (ps_start sp + of_nat k)" by blast
  moreover have "a - unat (ps_start sp) < unat ?n" using a n by (auto simp: span_bytes_def)
  ultimately have "direct_byte reader root (ps_start sp + of_nat (a - unat (ps_start sp)))" by blast
  then show "direct_byte reader root (of_nat a)" using a by (simp add: span_bytes_def of_nat_diff)
qed

lemma package_span:
  assumes "span_ok k" "unat (ps_start sp) = page_start (pk_physical k)" "unat (ps_end sp) = page_end (pk_physical k) (pk_pages k * 4096)"
  shows "ps_start sp = pk_physical k" "unat (ps_end sp) = unat (pk_physical k) + unat (pk_pages k) * 4096"
proof -
  obtain d where d: "unat (pk_physical k) = 4096 * d" using assms(1) by (auto simp: span_ok_def)
  have p: "unat (pk_pages k * 4096) = unat (pk_pages k) * 4096" using assms(1) by (subst unat_mult_small) (simp_all add: span_ok_def)
  show "ps_start sp = pk_physical k" using assms(2) d by (simp add: word_unat_eq_iff)
  have "(4096 * d + unat (pk_pages k) * 4096 + 4095) div 4096 = d + unat (pk_pages k)" by simp
  then show "unat (ps_end sp) = unat (pk_physical k) + unat (pk_pages k) * 4096" using assms(3) d p by simp
qed

definition accepted :: "TableReader \<Rightarrow> u64 \<Rightarrow> BootPackageProof \<Rightarrow> PhysicalSpan \<Rightarrow> PhysicalSpan \<Rightarrow> bool" where
  "accepted reader root q map_span loader_span \<longleftrightarrow>
     \<not> packages_overlap q (ps_start map_span) (ps_end map_span - ps_start map_span) \<and>
     \<not> packages_overlap q (ps_start loader_span) (ps_end loader_span - ps_start loader_span) \<and>
     verify_direct_span reader root (ps_start (bp_root q)) (ps_end (bp_root q) - ps_start (bp_root q)) \<and>
     verify_direct_span reader root (ps_start (bp_system q)) (ps_end (bp_system q) - ps_start (bp_system q))"

lemma prove_eq:
  assumes "xj_installer_handoff_valid (Some h) = Some ok"
    and "span_of mem mv (pk_physical (ih_root h)) (pk_pages (ih_root h) * 4096) loader_data_only = Some r1"
    and "span_of mem mv (pk_physical (ih_system h)) (pk_pages (ih_system h) * 4096) loader_data_only = Some r2"
    and "span_of mem mv map_physical (mv_map_bytes mv) loader_and_boot_services = Some r3"
    and "span_of mem mv (ih_loader_image_physical h) (ih_loader_image_bytes h) loader_and_boot_services = Some r4"
  shows "prove_boot_packages mem h mv map_physical reader root (Some out) = Some (if \<not> ok then (- 22, Some zero_proof)
    else case (r1, r2, r3, r4) of
      (Some a, Some b, Some c, Some d) \<Rightarrow>
        let q = \<lparr>bp_root = a, bp_system = b, bp_profile = ih_system_profile h, bp_valid = True\<rparr> in
        if accepted reader root q c d then (0, Some q) else (- 14, Some zero_proof)
    | _ \<Rightarrow> (- 14, Some zero_proof))"
  by (cases r1; cases r2; cases r3; cases r4) (auto simp: prove_boot_packages_def assms Let_def accepted_def)

lemma accepted_packages:
  assumes "readable mem mv" "handoff_ok h"
    and s: "span_of mem mv (pk_physical (ih_root h)) (pk_pages (ih_root h) * 4096) loader_data_only = Some (Some a)"
      "span_of mem mv (pk_physical (ih_system h)) (pk_pages (ih_system h) * 4096) loader_data_only = Some (Some b)"
      "span_of mem mv map_physical (mv_map_bytes mv) loader_and_boot_services = Some (Some c)"
      "span_of mem mv (ih_loader_image_physical h) (ih_loader_image_bytes h) loader_and_boot_services = Some (Some d)"
    and acc: "accepted reader root \<lparr>bp_root = a, bp_system = b, bp_profile = pr, bp_valid = True\<rparr> c d"
  shows "\<exists>ds. valid_map mem mv ds \<and> unat (ps_start c) = page_start map_physical \<and> unat (ps_end c) = page_end map_physical (mv_map_bytes mv) \<and>
    unat (ps_start d) = page_start (ih_loader_image_physical h) \<and> unat (ps_end d) = page_end (ih_loader_image_physical h) (ih_loader_image_bytes h) \<and>
    span_bytes a = {unat (pk_physical (ih_root h))..<unat (pk_physical (ih_root h)) + unat (pk_pages (ih_root h)) * 4096} \<and>
    span_bytes b = {unat (pk_physical (ih_system h))..<unat (pk_physical (ih_system h)) + unat (pk_pages (ih_system h)) * 4096} \<and>
    span_bytes a \<inter> span_bytes b = {} \<and> (span_bytes a \<union> span_bytes b) \<inter> (span_bytes c \<union> span_bytes d) = {} \<and>
    (\<forall>x \<in> span_bytes a \<union> span_bytes b. covered ds loader_data_only x \<and> direct_byte reader root (of_nat x))"
proof -
  note cases = span_of_cases [OF assms(1)]
  obtain ds where a: "unat (ps_start a) = page_start (pk_physical (ih_root h))" "unat (ps_end a) = page_end (pk_physical (ih_root h)) (pk_pages (ih_root h) * 4096)"
    "unat (ps_start a) < unat (ps_end a)" "valid_map mem mv ds" "\<forall>x \<in> span_bytes a. covered ds loader_data_only x"
    using cases [of "pk_physical (ih_root h)" "pk_pages (ih_root h) * 4096" loader_data_only] s(1) by auto
  obtain ds' where b: "unat (ps_start b) = page_start (pk_physical (ih_system h))" "unat (ps_end b) = page_end (pk_physical (ih_system h)) (pk_pages (ih_system h) * 4096)"
    "unat (ps_start b) < unat (ps_end b)" "valid_map mem mv ds'" "\<forall>x \<in> span_bytes b. covered ds' loader_data_only x"
    using cases [of "pk_physical (ih_system h)" "pk_pages (ih_system h) * 4096" loader_data_only] s(2) by auto
  have ds: "ds' = ds" using a(4) b(4) records_unique by (auto simp: valid_map_def)
  have c: "unat (ps_start c) = page_start map_physical" "unat (ps_end c) = page_end map_physical (mv_map_bytes mv)" "unat (ps_start c) < unat (ps_end c)"
    using cases [of map_physical "mv_map_bytes mv" loader_and_boot_services] s(3) by auto
  have d: "unat (ps_start d) = page_start (ih_loader_image_physical h)" "unat (ps_end d) = page_end (ih_loader_image_physical h) (ih_loader_image_bytes h)"
    "unat (ps_start d) < unat (ps_end d)" using cases [of "ih_loader_image_physical h" "ih_loader_image_bytes h" loader_and_boot_services] s(4) by auto
  have k: "span_ok (ih_root h)" "span_ok (ih_system h)" using assms(2) by (simp_all add: handoff_ok_def)
  have sa: "span_bytes a = {unat (pk_physical (ih_root h))..<unat (pk_physical (ih_root h)) + unat (pk_pages (ih_root h)) * 4096}"
    "span_bytes b = {unat (pk_physical (ih_system h))..<unat (pk_physical (ih_system h)) + unat (pk_pages (ih_system h)) * 4096}"
    using package_span [OF k(1) a(1,2)] package_span [OF k(2) b(1,2)] by (simp_all add: span_bytes_def)
  have "span_bytes a \<inter> span_bytes b = {}" using assms(2) unfolding sa by (auto simp: handoff_ok_def)
  moreover have "(span_bytes a \<union> span_bytes b) \<inter> (span_bytes c \<union> span_bytes d) = {}"
  proof -
    let ?q = "\<lparr>bp_root = a, bp_system = b, bp_profile = pr, bp_valid = True\<rparr>"
    have "span_bytes c \<inter> (span_bytes (bp_root ?q) \<union> span_bytes (bp_system ?q)) = {}" "span_bytes d \<inter> (span_bytes (bp_root ?q) \<union> span_bytes (bp_system ?q)) = {}"
      using overlap_spans [of ?q, OF _ c(3)] overlap_spans [of ?q, OF _ d(3)] acc by (simp_all add: accepted_def)
    then show ?thesis by auto
  qed
  moreover have "\<forall>x \<in> span_bytes a \<union> span_bytes b. direct_byte reader root (of_nat x)"
    using verify_span_bytes [OF _ a(3)] verify_span_bytes [OF _ b(3)] acc by (auto simp: accepted_def)
  ultimately show ?thesis using a(4,5) b(5) ds c(1,2) d(1,2) sa by blast
qed

text \<open>
  A small machine: a map with two pages of loader data and four of boot services code, a root table whose
  entries all lead to a table with one supervisor page of 1 GiB at physical address 0, and a handoff.
\<close>

definition proof_bytes :: "u8 list" where
  "proof_bytes = concat (map (le_bytes 8) ([2, 0x100000, 0, 2, 0, 3, 0x300000, 0, 4, 0] :: u64 list))"

definition proof_mem :: memory where
  "proof_mem a = (if 0x1000 \<le> a \<and> a < 0x1050 then Some (proof_bytes ! unat (a - 0x1000)) else None)"

definition proof_view :: MapView where
  "proof_view = \<lparr>mv_bytes = 0x1000, mv_buffer_bytes = 80, mv_map_bytes = 80, mv_descriptor_bytes = 40\<rparr>"

definition proof_reader :: TableReader where
  "proof_reader = \<lparr>tr_read_entry = Some (\<lambda>t i. if t = 0x1000 then Some 0x2001 else if t = 0x2000 \<and> i = 0 then Some 129 else None),
     tr_physical_bits = 40, tr_nx_enabled = True, tr_gigabyte_pages = True\<rparr>"

definition proof_handoff :: XJ_INSTALLER_HANDOFF where
  "proof_handoff = sample_handoff\<lparr>ih_root := \<lparr>pk_physical = 0x100000, pk_bytes = 4000, pk_pages = 1\<rparr>,
     ih_system := \<lparr>pk_physical = 0x101000, pk_bytes = 4096, pk_pages = 1\<rparr>, ih_loader_image_physical := 0x302000, ih_loader_image_bytes := 5000\<rparr>"

lemma proof_readable: "readable proof_mem proof_view"
  unfolding readable_def
proof (intro allI impI)
  fix k assume "k < unat (mv_buffer_bytes proof_view)"
  then have k: "k < 80" by (simp add: proof_view_def)
  then have "unat (0x1000 + of_nat k :: u64) = 0x1000 + k" by (subst unat_add_small) (simp_all add: unat_of_nat take_bit_nat_eq_self)
  then show "proof_mem (mv_bytes proof_view + of_nat k) \<noteq> None" using k by (simp add: proof_mem_def proof_view_def word_le_nat_alt word_less_nat_alt)
qed

lemma proof_shape: "source_shape (ih_source proof_handoff)"
  by (simp add: source_shape_def proof_handoff_def sample_handoff_def zero_source_def zero_pci_def XJ_INSTALLER_PCI_MAX_def XJ_INSTALLER_PATH_MAX_def)

lemma proof_root: "reader_root_valid proof_reader 0x1000 = Some (0xfffffff000, the (tr_read_entry proof_reader))"
  by (simp add: reader_root_valid_def proof_reader_def address_mask_def Let_def)

lemma proof_entries:
  "present_entry_valid proof_reader 0xfffffff000 4 0x2001 = Some False" "present_entry_valid proof_reader 0xfffffff000 3 129 = Some True"
  "the (tr_read_entry proof_reader) 0x1000 i = Some 0x2001" "the (tr_read_entry proof_reader) 0x2000 0 = Some 129"
  by (simp_all add: present_entry_valid_def proof_reader_def address_mask_def huge_def Let_def level_shift_def)

lemmas two_levels = resolve_level.simps(2) [where l = 3, unfolded Suc_numeral semiring_norm] resolve_level.simps(2) [where l = 2, unfolded Suc_numeral semiring_norm]

lemma proof_resolved:
  "resolved proof_reader 0x1000 0xffff800000100000 = Some \<lparr>mp_physical = 0x100000, mp_remaining = 0x3ff00000, mp_supervisor = True\<rparr>"
  "resolved proof_reader 0x1000 0xffff800000101000 = Some \<lparr>mp_physical = 0x101000, mp_remaining = 0x3feff000, mp_supervisor = True\<rparr>"
  unfolding resolved_eq proof_root two_levels
  by (simp_all add: canonical_def direct_map_base_def proof_entries address_mask_def present_def user_def Let_def level_shift_def)

definition proof_descriptors :: "Descriptor list" where
  "proof_descriptors = [\<lparr>d_type = 2, d_physical_start = 0x100000, d_virtual_start = 0, d_pages = 2, d_attributes = 0\<rparr>,
     \<lparr>d_type = 3, d_physical_start = 0x300000, d_virtual_start = 0, d_pages = 4, d_attributes = 0\<rparr>]"

lemma proof_valid: "valid_map proof_mem proof_view proof_descriptors"
proof -
  have c: "record_count proof_view = 2" by (simp add: proof_view_def)
  have "read_descriptor proof_mem proof_view 0 = Some (Some (proof_descriptors ! 0))" "read_descriptor proof_mem proof_view 1 = Some (Some (proof_descriptors ! 1))"
    by code_simp+
  then have "records proof_mem proof_view proof_descriptors" unfolding records_read c by (auto simp: proof_descriptors_def less_Suc_eq)
  then show ?thesis
    by (auto simp: valid_map_def structural_bounds_def proof_view_def descriptor_prefix_bytes_def maximum_descriptors_def
        disjoint_regions_def proof_descriptors_def region_def bytes_of_def less_Suc_eq)
qed

lemma span_of_covered:
  assumes "readable mem mv" "valid_map mem mv ds" "bytes \<noteq> 0" "unat physical + unat bytes + 4095 < 2 ^ 64"
    "\<forall>a. page_start physical \<le> a \<and> a < page_end physical bytes \<longrightarrow> covered ds policy a"
    "unat (ps_start sp) = page_start physical" "unat (ps_end sp) = page_end physical bytes"
  shows "span_of mem mv physical bytes policy = Some (Some sp)"
proof -
  obtain ok sp' where c: "covered_span mem mv physical bytes policy (Some zero_PhysicalSpan) = Some (ok, Some sp')"
    "ok \<longleftrightarrow> (\<exists>ds. valid_map mem mv ds \<and> bytes \<noteq> 0 \<and> unat physical + unat bytes + 4095 < 2 ^ 64 \<and>
       (\<forall>a. page_start physical \<le> a \<and> a < page_end physical bytes \<longrightarrow> covered ds policy a))"
    "ok \<Longrightarrow> unat (ps_start sp') = page_start physical \<and> unat (ps_end sp') = page_end physical bytes"
    using covered_span_cases [OF assms(1)] by blast
  have ok using c(2) assms(2-5) by blast
  then have "sp' = sp" using c(3) assms(6,7) by (cases sp; cases sp') (simp add: word_unat_eq_iff)
  then show ?thesis using c(1) \<open>ok\<close> by (simp add: span_of_def)
qed

lemma proof_spans:
  "span_of proof_mem proof_view 0x100000 4096 loader_data_only = Some (Some \<lparr>ps_start = 0x100000, ps_end = 0x101000\<rparr>)"
  "span_of proof_mem proof_view 0x101000 4096 loader_data_only = Some (Some \<lparr>ps_start = 0x101000, ps_end = 0x102000\<rparr>)"
  "span_of proof_mem proof_view 0x300000 80 loader_and_boot_services = Some (Some \<lparr>ps_start = 0x300000, ps_end = 0x301000\<rparr>)"
  "span_of proof_mem proof_view 0x302000 5000 loader_and_boot_services = Some (Some \<lparr>ps_start = 0x302000, ps_end = 0x304000\<rparr>)"
  by (rule span_of_covered [OF proof_readable proof_valid]; simp add: covered_def proof_descriptors_def region_def bytes_of_def)+

lemma proof_direct: "verify_direct_span proof_reader 0x1000 0x100000 0x1000" "verify_direct_span proof_reader 0x1000 0x101000 0x1000"
  using proof_resolved by (simp_all add: verify_direct_span_def direct_map_bytes_def verify_span_loop.simps direct_map_base_def)

text \<open>A root table without entries.\<close>

definition empty_reader :: TableReader where
  "empty_reader = proof_reader\<lparr>tr_read_entry := Some (\<lambda>t i. Some 0)\<rparr>"

lemma visit_nothing: "visit_entries reader (\<lambda>t i. Some 0) mk p level index ws = Some ws"
proof (induction "512 - index" arbitrary: index)
  case (Suc n)
  then show ?case using Suc.hyps(1) [of "index + 1"] by (subst visit_entries.simps) auto
qed (subst visit_entries.simps, simp)

lemma proof_run:
  "\<exists>q. prove_boot_packages proof_mem proof_handoff proof_view 0x300000 proof_reader 0x1000 (Some zero_proof) = Some (0, Some q)"
proof -
  have v: "xj_installer_handoff_valid (Some proof_handoff) = Some True" by code_simp
  have s: "span_of proof_mem proof_view (pk_physical (ih_root proof_handoff)) (pk_pages (ih_root proof_handoff) * 4096) loader_data_only = Some (Some \<lparr>ps_start = 0x100000, ps_end = 0x101000\<rparr>)"
    "span_of proof_mem proof_view (pk_physical (ih_system proof_handoff)) (pk_pages (ih_system proof_handoff) * 4096) loader_data_only = Some (Some \<lparr>ps_start = 0x101000, ps_end = 0x102000\<rparr>)"
    "span_of proof_mem proof_view 0x300000 (mv_map_bytes proof_view) loader_and_boot_services = Some (Some \<lparr>ps_start = 0x300000, ps_end = 0x301000\<rparr>)"
    "span_of proof_mem proof_view (ih_loader_image_physical proof_handoff) (ih_loader_image_bytes proof_handoff) loader_and_boot_services = Some (Some \<lparr>ps_start = 0x302000, ps_end = 0x304000\<rparr>)"
    using proof_spans by (simp_all add: proof_handoff_def proof_view_def)
  show ?thesis unfolding prove_eq [OF v s] using proof_direct by (simp add: accepted_def packages_overlap_def Let_def)
qed

section \<open>Properties\<close>

text \<open>
  C5. \<open>prove_boot_packages\<close> always returns, and any refusal leaves an empty proof. When it
  succeeds, the two packages of the proof are exactly the page spans of the handoff; they do not overlap
  each other, the storage of the memory map or the loader image; every byte of them lies in memory the
  firmware map gives to loader data, and the current page tables map its direct-map address to exactly
  that byte, for the supervisor only.
\<close>

theorem boot_packages_proved:
  assumes "readable mem mv" "source_shape (ih_source h)"
  shows "\<exists>r p. prove_boot_packages mem h mv map_physical reader root (Some out) = Some (r, Some p) \<and> (r \<noteq> 0 \<longrightarrow> p = zero_proof) \<and>
    (r = 0 \<longrightarrow> (\<exists>ds map_span loader_span. valid_map mem mv ds \<and>
      unat (ps_start map_span) = page_start map_physical \<and> unat (ps_end map_span) = page_end map_physical (mv_map_bytes mv) \<and>
      unat (ps_start loader_span) = page_start (ih_loader_image_physical h) \<and>
      unat (ps_end loader_span) = page_end (ih_loader_image_physical h) (ih_loader_image_bytes h) \<and>
      span_bytes (bp_root p) = {unat (pk_physical (ih_root h))..<unat (pk_physical (ih_root h)) + unat (pk_pages (ih_root h)) * 4096} \<and>
      span_bytes (bp_system p) = {unat (pk_physical (ih_system h))..<unat (pk_physical (ih_system h)) + unat (pk_pages (ih_system h)) * 4096} \<and>
      span_bytes (bp_root p) \<inter> span_bytes (bp_system p) = {} \<and>
      (span_bytes (bp_root p) \<union> span_bytes (bp_system p)) \<inter> (span_bytes map_span \<union> span_bytes loader_span) = {} \<and>
      (\<forall>a \<in> span_bytes (bp_root p) \<union> span_bytes (bp_system p). covered ds loader_data_only a \<and> direct_byte reader root (of_nat a))))"
proof -
  note c = span_of_cases [OF assms(1)]
  obtain ok where ok: "xj_installer_handoff_valid (Some h) = Some ok" "ok \<Longrightarrow> handoff_ok h" using handoff_valid_cases [OF assms(2)] by blast
  obtain r1 r2 r3 r4 where s: "span_of mem mv (pk_physical (ih_root h)) (pk_pages (ih_root h) * 4096) loader_data_only = Some r1"
    "span_of mem mv (pk_physical (ih_system h)) (pk_pages (ih_system h) * 4096) loader_data_only = Some r2"
    "span_of mem mv map_physical (mv_map_bytes mv) loader_and_boot_services = Some r3"
    "span_of mem mv (ih_loader_image_physical h) (ih_loader_image_bytes h) loader_and_boot_services = Some r4"
    using c by meson
  note run = prove_eq [OF ok(1) s, of reader root out]
  show ?thesis
  proof (cases "\<exists>a b c d. ok \<and> r1 = Some a \<and> r2 = Some b \<and> r3 = Some c \<and> r4 = Some d \<and>
      accepted reader root \<lparr>bp_root = a, bp_system = b, bp_profile = ih_system_profile h, bp_valid = True\<rparr> c d")
    case False
    then show ?thesis unfolding run by (cases ok; cases r1; cases r2; cases r3; cases r4) (simp_all add: Let_def)
  next
    case True
    then obtain a b c d where r: ok "r1 = Some a" "r2 = Some b" "r3 = Some c" "r4 = Some d"
      "accepted reader root \<lparr>bp_root = a, bp_system = b, bp_profile = ih_system_profile h, bp_valid = True\<rparr> c d" by blast
    let ?q = "\<lparr>bp_root = a, bp_system = b, bp_profile = ih_system_profile h, bp_valid = True\<rparr>"
    have "prove_boot_packages mem h mv map_physical reader root (Some out) = Some (0, Some ?q)" unfolding run using r by (simp add: Let_def)
    then show ?thesis using accepted_packages [OF assms(1) ok(2) [OF r(1)] s [unfolded r(2-5)] r(6)]
      unfolding BootPackageProof.select_convs by (intro exI [of _ "0 :: int"] exI [of _ ?q]) (simp, blast)
  qed
qed

theorem boot_packages_proved_witness:
  "\<exists>p. prove_boot_packages proof_mem proof_handoff proof_view 0x300000 proof_reader 0x1000 (Some zero_proof) = Some (0, Some p) \<and>
     direct_byte proof_reader 0x1000 0x101fff"
proof -
  obtain p where p: "prove_boot_packages proof_mem proof_handoff proof_view 0x300000 proof_reader 0x1000 (Some zero_proof) = Some (0, Some p)"
    "span_bytes (bp_system p) = {0x101000..<0x102000}" "\<forall>a \<in> span_bytes (bp_system p). direct_byte proof_reader 0x1000 (of_nat a)"
    using boot_packages_proved [OF proof_readable proof_shape, of "0x300000" proof_reader "0x1000" zero_proof] proof_run by (auto simp: proof_handoff_def)
  then have "direct_byte proof_reader 0x1000 (of_nat 0x101fff)" by (intro bspec [OF p(3)]) simp
  then show ?thesis using p(1) by auto
qed

text \<open>
  C24. \<open>verify_direct_span\<close> ends and accepts a span exactly when it is not empty, does not start
  at 0, lies below \<open>2 ^ 47\<close> and each of its bytes, and not only the first one of each page it looks at, is
  mapped to itself in the direct map for the supervisor only.
\<close>

theorem direct_span_exact:
  "verify_direct_span reader root physical bytes \<longleftrightarrow> physical \<noteq> 0 \<and> bytes \<noteq> 0 \<and> unat physical + unat bytes \<le> 2 ^ 47 \<and>
     (\<forall>k < unat bytes. direct_byte reader root (physical + of_nat k))"
proof -
  have b: "unat direct_map_bytes = 2 ^ 47" by (simp add: direct_map_bytes_def)
  show ?thesis
  proof (cases "physical \<noteq> 0 \<and> bytes \<noteq> 0 \<and> unat physical + unat bytes \<le> 2 ^ 47")
    case True
    then have "0 < unat bytes" by (simp add: unat_gt_0)
    then have "unat physical < 2 ^ 47" using True by linarith
    then have "\<not> direct_map_bytes \<le> physical" "\<not> direct_map_bytes - physical < bytes"
      using conjunct2 [OF conjunct2 [OF True]] b by (simp_all add: word_less_nat_alt word_le_nat_alt unat_sub)
    then show ?thesis using True verify_span_loop_spec [of physical bytes reader root] by (simp add: verify_direct_span_def)
  next
    case False
    have "\<not> verify_direct_span reader root physical bytes"
    proof
      assume "verify_direct_span reader root physical bytes"
      then have v: "physical \<noteq> 0" "bytes \<noteq> 0" "physical < direct_map_bytes" "bytes \<le> direct_map_bytes - physical"
        by (auto simp: verify_direct_span_def not_le not_less split: if_splits)
      then have "unat physical + unat bytes \<le> 2 ^ 47" using b by (simp add: word_less_nat_alt word_le_nat_alt unat_sub)
      then show False using False v(1,2) by blast
    qed
    then show ?thesis using False by blast
  qed
qed

theorem direct_span_exact_witness: "verify_direct_span proof_reader 0x1000 0x100000 0x1000 \<and> direct_byte proof_reader 0x1000 0x100fff"
proof -
  have "\<forall>k < unat (0x1000 :: u64). direct_byte proof_reader 0x1000 (0x100000 + of_nat k)"
    using proof_direct(1) direct_span_exact [of proof_reader "0x1000" "0x100000" "0x1000"] by blast
  then have "direct_byte proof_reader 0x1000 (0x100000 + of_nat 0xfff)" by (rule allE [of _ "0xfff"]) simp
  then show ?thesis using proof_direct(1) by simp
qed

text \<open>
  C23. The visit of the page tables ends. When it succeeds, the workspace lists the root
  table at level 4 and every table reached from it, each physical page once and at one level: all 512
  entries of a listed table could be read and are valid, and each one that points to a table points to
  a listed one on the level below. When it fails the workspace is empty.
\<close>

theorem table_closure_sound:
  "case verify_table_closure reader root (Some w) of
     (ok, Some w') \<Rightarrow> (if ok then \<exists>mk read. reader_root_valid reader root = Some (mk, read) \<and>
         \<lparr>te_physical = root, te_level = 4\<rparr> \<in> set (tw_entries w') \<and> length (tw_entries w') \<le> 8192 \<and> distinct (map te_physical (tw_entries w')) \<and>
         (\<forall>e \<in> set (tw_entries w'). table_ok reader read mk (tw_entries w') e)
       else tw_entries w' = [])
   | (ok, None) \<Rightarrow> False"
proof -
  have "extends reader read mk [] ws \<and> \<lparr>te_physical = root, te_level = 4\<rparr> \<in> set ws" if "visit_table reader read mk root 4 [] = Some ws" for read mk ws
    using visit_extends(1) [OF that] by simp
  then show ?thesis by (auto simp: verify_table_closure_def extends_def table_workspace_capacity_def split: option.splits)
qed

theorem table_closure_sound_witness:
  "\<exists>w. verify_table_closure empty_reader 0x1000 (Some \<lparr>tw_entries = []\<rparr>) = (True, Some w) \<and> \<lparr>te_physical = 0x1000, te_level = 4\<rparr> \<in> set (tw_entries w)"
proof -
  have "reader_root_valid empty_reader 0x1000 = Some (0xfffffff000, \<lambda>t i. Some 0)"
    by (simp add: empty_reader_def reader_root_valid_def proof_reader_def address_mask_def Let_def)
  then have "verify_table_closure empty_reader 0x1000 (Some \<lparr>tw_entries = []\<rparr>) = (True, Some \<lparr>tw_entries = [\<lparr>te_physical = 0x1000, te_level = 4\<rparr>]\<rparr>)"
    by (simp add: verify_table_closure_def visit_table.simps visit_nothing table_workspace_capacity_def)
  then show ?thesis using table_closure_sound [of empty_reader "0x1000" "\<lparr>tw_entries = []\<rparr>"] by auto
qed

end
