(* ===== verification/BlockAccess.thy ===== *)
theory BlockAccess
  imports Mutex
begin

text \<open>
  The registry of block devices, leases and running transfers, \<^verbatim>\<open>driver/block_access.cpp\<close>: three tables of
  fixed size under one lock. The running task is an argument, its address and its control block, \<open>None\<close>
  before the scheduler runs. Where the code follows the owner pointer of an entry, the heap of control
  blocks is an argument and a freed block has no result. The class \<open>Lock\<close> holds the lock bit from its
  construction to the end of the function; the saved interrupt flags are not modelled.
\<close>

section \<open>Structures\<close>

definition EIO :: int where "EIO = 5"
definition EEXIST :: int where "EEXIST = 17"
definition ENODEV :: int where "ENODEV = 19"
definition ENOSPC :: int where "ENOSPC = 28"
definition EOVERFLOW :: int where "EOVERFLOW = 75"
definition EOPNOTSUPP :: int where "EOPNOTSUPP = 95"

definition kDevices :: nat where "kDevices = 256"
definition kLeases :: nat where "kLeases = 64"
definition kTickets :: nat where "kTickets = 128"

record BlockExtent =
  be_device :: u32
  be_physical_device :: u32
  be_generation :: u64
  be_physical_generation :: u64
  be_start :: u64
  be_bytes :: u64

record Registration =
  rg_extent :: BlockExtent
  rg_valid :: bool
  rg_published :: bool
  rg_flush_supported :: bool

record Access =
  ac_extent :: BlockExtent
  ac_token :: u64
  ac_owner :: ptr
  ac_tid :: u64
  ac_exclusive :: bool
  ac_poisoned :: bool
  ac_scan :: bool

record registry =
  devices :: "Registration list"
  leases :: "Access list"
  tickets :: "Access list"
  management :: Access
  management_depth :: u32
  next_identity :: u64
  access_lock :: bool
  io_abandoned :: bool

type_synonym task = "(addr \<times> tcb) option"

definition zero_extent :: BlockExtent where
  "zero_extent = \<lparr>be_device = 0, be_physical_device = 0, be_generation = 0, be_physical_generation = 0, be_start = 0, be_bytes = 0\<rparr>"

definition zero_access :: Access where
  "zero_access = \<lparr>ac_extent = zero_extent, ac_token = 0, ac_owner = None, ac_tid = 0, ac_exclusive = False, ac_poisoned = False, ac_scan = False\<rparr>"

text \<open>The tables as the loader clears them.\<close>

definition initial_registry :: registry where
  "initial_registry = \<lparr>devices = replicate kDevices \<lparr>rg_extent = zero_extent, rg_valid = False, rg_published = False, rg_flush_supported = False\<rparr>,
     leases = replicate kLeases zero_access, tickets = replicate kTickets zero_access, management = zero_access, management_depth = 0,
     next_identity = 1, access_lock = False, io_abandoned = False\<rparr>"

section \<open>Helpers\<close>

definition locked :: "registry \<Rightarrow> (registry \<Rightarrow> ('r \<times> registry) option) \<Rightarrow> ('r \<times> registry) option" where
  "locked st f = do {
     l \<leftarrow> spin_lock (access_lock st);
     (r, st) \<leftarrow> f (st\<lparr>access_lock := l\<rparr>);
     Some (r, st\<lparr>access_lock := spin_unlock (access_lock st)\<rparr>)
   }"

definition new_identity :: "registry \<Rightarrow> u64 \<times> registry" where
  "new_identity st = (if next_identity st = - 1 then (0, st) else (next_identity st, st\<lparr>next_identity := next_identity st + 1\<rparr>))"

definition same_disk :: "BlockExtent \<Rightarrow> BlockExtent \<Rightarrow> bool" where
  "same_disk a b \<longleftrightarrow> be_physical_device a = be_physical_device b \<and> be_physical_generation a = be_physical_generation b"

definition extents_overlap :: "BlockExtent \<Rightarrow> BlockExtent \<Rightarrow> bool" where
  "extents_overlap a b \<longleftrightarrow> same_disk a b \<and> be_bytes a \<noteq> 0 \<and> be_bytes b \<noteq> 0 \<and> be_start a < be_start b + be_bytes b \<and> be_start b < be_start a + be_bytes a"

definition extent_contains :: "BlockExtent \<Rightarrow> BlockExtent \<Rightarrow> bool" where
  "extent_contains a b \<longleftrightarrow> same_disk a b \<and> be_start b \<ge> be_start a \<and> be_start b - be_start a \<le> be_bytes a \<and>
     be_bytes b \<le> be_bytes a - (be_start b - be_start a)"

definition task_tid :: "task \<Rightarrow> u64" where
  "task_tid task = (case task of None \<Rightarrow> 0 | Some (p, t) \<Rightarrow> t_tid t)"

definition access_owner :: "Access \<Rightarrow> task \<Rightarrow> bool" where
  "access_owner entry task \<longleftrightarrow> ac_owner entry = map_option fst task \<and> ac_tid entry = task_tid task"

definition owner_stopped :: "tasks \<Rightarrow> Access \<Rightarrow> bool option" where
  "owner_stopped ts entry =
     (if ac_token entry = 0 \<or> ac_poisoned entry then Some False
      else case ac_owner entry of None \<Rightarrow> Some False
      | Some a \<Rightarrow> do {
          t \<leftarrow> ts_tcb ts a;
          Some ((t_status t = DEATH \<or> t_status t = OUT) \<and> \<not> ts_referenced ts a)
        })"

definition device_at :: "registry \<Rightarrow> u32 \<Rightarrow> Registration option" where
  "device_at st d = (if unat d < length (devices st) then Some (devices st ! unat d) else None)"

definition resolve_device :: "registry \<Rightarrow> u32 \<Rightarrow> u64 \<Rightarrow> BlockExtent option option" where
  "resolve_device st device generation =
     (if device \<ge> of_nat kDevices then Some None
      else do {
        r \<leftarrow> device_at st device;
        if \<not> rg_valid r \<or> \<not> rg_published r then Some None
        else do {
          let entry = rg_extent r;
          if generation \<noteq> 0 \<and> be_generation entry \<noteq> generation then Some None
          else do {
            p \<leftarrow> device_at st (be_physical_device entry);
            if \<not> rg_valid p \<or> \<not> rg_published p \<or> be_generation (rg_extent p) \<noteq> be_physical_generation entry then Some None
            else Some (Some entry)
          }
        }
      })"

definition exact_extent :: "BlockExtent \<Rightarrow> BlockExtent \<Rightarrow> bool" where
  "exact_extent a b \<longleftrightarrow> be_device a = be_device b \<and> be_generation a = be_generation b \<and> same_disk a b \<and>
     be_start a = be_start b \<and> be_bytes a = be_bytes b"

text \<open>The two loops of \<open>available\<close>; 0 goes on.\<close>

fun available_leases :: "task \<Rightarrow> bool \<Rightarrow> BlockExtent \<Rightarrow> Access list \<Rightarrow> int" where
  "available_leases task registration extent [] = 0"
| "available_leases task registration extent (entry # es) =
     (if ac_token entry \<noteq> 0 \<and> extents_overlap (ac_extent entry) extent then
        if ac_poisoned entry then - EIO
        else if \<not> registration \<or> \<not> ac_scan entry \<or> \<not> access_owner entry task \<or> \<not> extent_contains (ac_extent entry) extent then - EBUSY
        else available_leases task registration extent es
      else available_leases task registration extent es)"

fun busy_tickets :: "BlockExtent \<Rightarrow> Access list \<Rightarrow> int" where
  "busy_tickets extent [] = 0"
| "busy_tickets extent (entry # es) =
     (if ac_token entry \<noteq> 0 \<and> extents_overlap (ac_extent entry) extent then (if ac_poisoned entry then - EIO else - EBUSY)
      else busy_tickets extent es)"

definition available :: "registry \<Rightarrow> task \<Rightarrow> BlockExtent \<Rightarrow> bool \<Rightarrow> int" where
  "available st task extent registration =
     (let r = available_leases task registration extent (leases st) in
      if r \<noteq> 0 then r else busy_tickets extent (tickets st))"

text \<open>The first loop of \<open>claim\<close>: the error it returns, or the first free slot.\<close>

fun claim_slot :: "BlockExtent \<Rightarrow> nat \<Rightarrow> nat option \<Rightarrow> Access list \<Rightarrow> int + nat option" where
  "claim_slot extent i slot [] = Inr slot"
| "claim_slot extent i slot (entry # es) =
     (let slot = (if ac_token entry = 0 \<and> slot = None then Some i else slot) in
      if ac_token entry = 0 \<or> \<not> extents_overlap (ac_extent entry) extent then claim_slot extent (i + 1) slot es
      else if ac_poisoned entry then Inl (- EIO)
      else Inl (- EBUSY))"

definition claim_lease :: "registry \<Rightarrow> task \<Rightarrow> BlockExtent \<Rightarrow> bool \<Rightarrow> bool \<Rightarrow> ((int \<times> u64) \<times> registry) option" where
  "claim_lease st task extent exclusive scan =
     (if io_abandoned st then Some ((- EIO, 0), st)
      else do {
        current \<leftarrow> resolve_device st (be_device extent) (be_generation extent);
        if (case current of None \<Rightarrow> True | Some c \<Rightarrow> \<not> exact_extent extent c) then Some ((- ENODEV, 0), st)
        else if exclusive \<and> \<not> scan \<and> task = None then Some ((- EPERM, 0), st)
        else case claim_slot extent 0 None (leases st) of
          Inl r \<Rightarrow> Some ((r, 0), st)
        | Inr slot \<Rightarrow> do {
            let busy = busy_tickets extent (tickets st);
            if busy \<noteq> 0 then Some ((busy, 0), st)
            else case slot of None \<Rightarrow> Some ((- ENOSPC, 0), st)
            | Some i \<Rightarrow> do {
                let (value, st) = new_identity st;
                if value = 0 then Some ((- EOVERFLOW, 0), st)
                else do {
                  let entry = \<lparr>ac_extent = extent, ac_token = value, ac_owner = (if exclusive then map_option fst task else None),
                               ac_tid = (if exclusive then task_tid task else 0), ac_exclusive = exclusive, ac_poisoned = False, ac_scan = scan\<rparr>;
                  Some ((0, value), st\<lparr>leases := (leases st)[i := entry]\<rparr>)
                }
              }
          }
      })"

section \<open>Registration\<close>

definition block_access_register_whole :: "registry \<Rightarrow> task \<Rightarrow> u32 \<Rightarrow> u64 \<Rightarrow> bool \<Rightarrow> (int \<times> registry) option" where
  "block_access_register_whole st task device bytes flush_supported =
     (if device \<ge> of_nat kDevices \<or> bytes = 0 then Some (- EINVAL, st)
      else locked st (\<lambda>st. do {
        r \<leftarrow> device_at st device;
        if rg_valid r then do {
          let error = available st task (rg_extent r) False;
          if error \<noteq> 0 then Some (error, st) else Some (- EEXIST, st)
        }
        else do {
          let (generation, st) = new_identity st;
          if generation = 0 then Some (- EOVERFLOW, st)
          else do {
            let extent = \<lparr>be_device = device, be_physical_device = device, be_generation = generation, be_physical_generation = generation,
                          be_start = 0, be_bytes = bytes\<rparr>;
            let entry = \<lparr>rg_extent = extent, rg_valid = True, rg_published = False, rg_flush_supported = flush_supported\<rparr>;
            Some (0, st\<lparr>devices := (devices st)[unat device := entry]\<rparr>)
          }
        }
      }))"

definition block_access_register_slice :: "registry \<Rightarrow> task \<Rightarrow> u32 \<Rightarrow> u32 \<Rightarrow> u64 \<Rightarrow> u64 \<Rightarrow> (int \<times> registry) option" where
  "block_access_register_slice st task device parent offset bytes =
     (if device \<ge> of_nat kDevices \<or> bytes = 0 then Some (- EINVAL, st)
      else locked st (\<lambda>st. do {
        r \<leftarrow> device_at st device;
        if rg_valid r then Some (- EEXIST, st)
        else do {
          base \<leftarrow> resolve_device st parent 0;
          case base of None \<Rightarrow> Some (- ENODEV, st)
          | Some base \<Rightarrow>
              if offset > be_bytes base \<or> bytes > be_bytes base - offset then Some (- EINVAL, st)
              else do {
                let extent = \<lparr>be_device = device, be_physical_device = be_physical_device base, be_generation = 0,
                              be_physical_generation = be_physical_generation base, be_start = be_start base + offset, be_bytes = bytes\<rparr>;
                let error = available st task extent True;
                if error \<noteq> 0 then Some (error, st)
                else do {
                  let (generation, st) = new_identity st;
                  let extent = extent\<lparr>be_generation := generation\<rparr>;
                  if generation = 0 then Some (- EOVERFLOW, st)
                  else do {
                    let entry = \<lparr>rg_extent = extent, rg_valid = True, rg_published = False, rg_flush_supported = False\<rparr>;
                    Some (0, st\<lparr>devices := (devices st)[unat device := entry]\<rparr>)
                  }
                }
              }
        }
      }))"

definition block_access_publish_device :: "registry \<Rightarrow> u32 \<Rightarrow> u64 \<Rightarrow> (int \<times> registry) option" where
  "block_access_publish_device st device generation =
     locked st (\<lambda>st.
       if device \<ge> of_nat kDevices then Some (- ENODEV, st)
       else do {
         r \<leftarrow> device_at st device;
         if \<not> rg_valid r \<or> be_generation (rg_extent r) \<noteq> generation then Some (- ENODEV, st)
         else Some (0, st\<lparr>devices := (devices st)[unat device := r\<lparr>rg_published := True\<rparr>]\<rparr>)
       })"

definition withdraw :: "Registration \<Rightarrow> Registration" where
  "withdraw r = r\<lparr>rg_valid := False, rg_published := False\<rparr>"

definition block_access_unregister :: "registry \<Rightarrow> task \<Rightarrow> u32 \<Rightarrow> (int \<times> registry) option" where
  "block_access_unregister st task device =
     locked st (\<lambda>st.
       if device \<ge> of_nat kDevices then Some (- ENODEV, st)
       else do {
         r \<leftarrow> device_at st device;
         if \<not> rg_valid r then Some (- ENODEV, st)
         else do {
           let extent = rg_extent r;
           let error = available st task extent False;
           if error \<noteq> 0 then Some (error, st)
           else do {
             let st = st\<lparr>devices := (devices st)[unat device := withdraw r]\<rparr>;
             let st = (if be_device extent = be_physical_device extent
                       then st\<lparr>devices := map (\<lambda>entry. if rg_valid entry \<and> same_disk (rg_extent entry) extent then withdraw entry else entry) (devices st)\<rparr>
                       else st);
             Some (0, st)
           }
         }
       })"

definition block_access_generation :: "registry \<Rightarrow> u32 \<Rightarrow> (u64 \<times> registry) option" where
  "block_access_generation st device =
     locked st (\<lambda>st.
       if device < of_nat kDevices then do {
         r \<leftarrow> device_at st device;
         Some (if rg_valid r then be_generation (rg_extent r) else 0, st)
       }
       else Some (0, st))"

definition block_access_resolve :: "registry \<Rightarrow> u32 \<Rightarrow> u64 \<Rightarrow> BlockExtent option \<Rightarrow> ((int \<times> BlockExtent option) \<times> registry) option" where
  "block_access_resolve st device generation extent =
     (if extent = None then Some ((- EINVAL, None), st)
      else locked st (\<lambda>st. do {
        e \<leftarrow> resolve_device st device generation;
        case e of None \<Rightarrow> Some ((- ENODEV, extent), st) | Some e \<Rightarrow> Some ((0, Some e), st)
      }))"

definition poisoned_over :: "BlockExtent \<Rightarrow> Access list \<Rightarrow> bool" where
  "poisoned_over extent es = list_ex (\<lambda>entry. ac_token entry \<noteq> 0 \<and> ac_poisoned entry \<and> extents_overlap (ac_extent entry) extent) es"

definition block_access_require_flush :: "registry \<Rightarrow> BlockExtent \<Rightarrow> (int \<times> registry) option" where
  "block_access_require_flush st extent =
     locked st (\<lambda>st.
       if io_abandoned st then Some (- EIO, st)
       else do {
         current \<leftarrow> resolve_device st (be_device extent) (be_generation extent);
         if (case current of None \<Rightarrow> True | Some c \<Rightarrow> \<not> exact_extent c extent) then Some (- ENODEV, st)
         else if poisoned_over extent (leases st) then Some (- EIO, st)
         else if poisoned_over extent (tickets st) then Some (- EIO, st)
         else do {
           p \<leftarrow> device_at st (be_physical_device extent);
           Some (if rg_flush_supported p then 0 else - EOPNOTSUPP, st)
         }
       })"

section \<open>Leases and transfers\<close>

text \<open>The token argument says whether the pointer is not null; the result carries the value written through it, 0 unless the claim succeeds.\<close>

definition block_access_claim :: "registry \<Rightarrow> task \<Rightarrow> BlockExtent \<Rightarrow> bool \<Rightarrow> bool \<Rightarrow> ((int \<times> u64) \<times> registry) option" where
  "block_access_claim st task extent exclusive token =
     (if \<not> token then Some ((- EINVAL, 0), st) else locked st (\<lambda>st. claim_lease st task extent exclusive False))"

fun release_lease :: "task \<Rightarrow> u64 \<Rightarrow> Access list \<Rightarrow> int \<times> Access list" where
  "release_lease task token [] = (- EINVAL, [])"
| "release_lease task token (entry # es) =
     (if ac_token entry = token \<and> token \<noteq> 0 then
        if ac_poisoned entry then (- EIO, entry # es)
        else if ac_exclusive entry \<and> \<not> access_owner entry task then (- EPERM, entry # es)
        else (0, zero_access # es)
      else case release_lease task token es of (r, es) \<Rightarrow> (r, entry # es))"

definition block_access_release :: "registry \<Rightarrow> task \<Rightarrow> u64 \<Rightarrow> (int \<times> registry) option" where
  "block_access_release st task token =
     locked st (\<lambda>st. case release_lease task token (leases st) of (r, es) \<Rightarrow> Some (r, st\<lparr>leases := es\<rparr>))"

definition poison_token :: "u64 \<Rightarrow> Access \<Rightarrow> Access" where
  "poison_token token entry = (if ac_token entry = token \<and> token \<noteq> 0 then entry\<lparr>ac_poisoned := True\<rparr> else entry)"

definition block_access_poison :: "registry \<Rightarrow> u64 \<Rightarrow> (unit \<times> registry) option" where
  "block_access_poison st token =
     locked st (\<lambda>st. Some ((), st\<lparr>leases := map (poison_token token) (leases st), tickets := map (poison_token token) (tickets st)\<rparr>))"

text \<open>The loop both validations have: an error, or the last entry with the token.\<close>

fun find_lease :: "BlockExtent \<Rightarrow> u64 \<Rightarrow> Access option \<Rightarrow> Access list \<Rightarrow> int + Access option" where
  "find_lease current token parent [] = Inr parent"
| "find_lease current token parent (entry # es) =
     (if ac_token entry \<noteq> 0 \<and> ac_poisoned entry \<and> extents_overlap (ac_extent entry) current then Inl (- EIO)
      else find_lease current token (if ac_token entry = token then Some entry else parent) es)"

definition block_access_validate_owned_exclusive :: "registry \<Rightarrow> task \<Rightarrow> u64 \<Rightarrow> BlockExtent \<Rightarrow> u64 \<Rightarrow> u64 \<Rightarrow> (int \<times> registry) option" where
  "block_access_validate_owned_exclusive st task token whole offset bytes =
     (if token = 0 \<or> bytes = 0 \<or> (offset OR bytes OR be_bytes whole) AND 511 \<noteq> 0 \<or> offset > be_bytes whole \<or> bytes > be_bytes whole - offset
      then Some (- EINVAL, st)
      else locked st (\<lambda>st.
        if io_abandoned st then Some (- EIO, st)
        else do {
          current \<leftarrow> resolve_device st (be_device whole) (be_generation whole);
          case current of None \<Rightarrow> Some (- ENODEV, st)
          | Some current \<Rightarrow>
              if \<not> exact_extent whole current then Some (- ENODEV, st)
              else if be_device current \<noteq> be_physical_device current \<or> be_start current \<noteq> 0 \<or>
                      be_generation current \<noteq> be_physical_generation current then Some (- EINVAL, st)
              else case find_lease current token None (leases st) of
                Inl r \<Rightarrow> Some (r, st)
              | Inr parent \<Rightarrow>
                  if poisoned_over current (tickets st) then Some (- EIO, st)
                  else case parent of None \<Rightarrow> Some (- EINVAL, st)
                  | Some parent \<Rightarrow>
                      if \<not> ac_exclusive parent \<or> ac_scan parent then Some (- EPERM, st)
                      else if \<not> exact_extent (ac_extent parent) current then Some (- EINVAL, st)
                      else case task of None \<Rightarrow> Some (- EPERM, st)
                      | Some (p, t) \<Rightarrow>
                          if \<not> access_owner parent task then Some (- EPERM, st)
                          else if t_status t = DEATH \<or> t_status t = OUT then Some (- EIO, st)
                          else Some (0, st)
        }))"

definition block_access_validate_retained_exclusive :: "registry \<Rightarrow> tasks \<Rightarrow> u64 \<Rightarrow> BlockExtent \<Rightarrow> (int \<times> registry) option" where
  "block_access_validate_retained_exclusive st ts token whole =
     (if token = 0 \<or> be_bytes whole = 0 \<or> be_device whole \<noteq> be_physical_device whole \<or> be_start whole \<noteq> 0 \<or>
         be_generation whole \<noteq> be_physical_generation whole then Some (- EINVAL, st)
      else locked st (\<lambda>st.
        if io_abandoned st then Some (- EIO, st)
        else do {
          current \<leftarrow> resolve_device st (be_device whole) (be_generation whole);
          case current of None \<Rightarrow> Some (- ENODEV, st)
          | Some current \<Rightarrow>
              if \<not> exact_extent whole current then Some (- ENODEV, st)
              else case find_lease current token None (leases st) of
                Inl r \<Rightarrow> Some (r, st)
              | Inr retained \<Rightarrow>
                  if poisoned_over current (tickets st) then Some (- EIO, st)
                  else case retained of None \<Rightarrow> Some (- EINVAL, st)
                  | Some retained \<Rightarrow>
                      if \<not> ac_exclusive retained \<or> ac_scan retained \<or> ac_owner retained = None then Some (- EPERM, st)
                      else if \<not> exact_extent (ac_extent retained) current then Some (- EINVAL, st)
                      else do {
                        t \<leftarrow> deref (ts_tcb ts) (ac_owner retained);
                        Some (if t_tid t \<noteq> ac_tid retained \<or> t_status t = DEATH \<or> t_status t = OUT then - EIO else 0, st)
                      }
        }))"

fun io_leases :: "task \<Rightarrow> BlockExtent \<Rightarrow> Access list \<Rightarrow> int" where
  "io_leases task extent [] = 0"
| "io_leases task extent (entry # es) =
     (if ac_token entry \<noteq> 0 \<and> extents_overlap (ac_extent entry) extent then
        if ac_poisoned entry then - EIO
        else if ac_exclusive entry \<and> (\<not> access_owner entry task \<or> \<not> extent_contains (ac_extent entry) extent) then - EBUSY
        else io_leases task extent es
      else io_leases task extent es)"

fun ticket_slot :: "BlockExtent \<Rightarrow> nat \<Rightarrow> nat option \<Rightarrow> Access list \<Rightarrow> int + nat option" where
  "ticket_slot extent i slot [] = Inr slot"
| "ticket_slot extent i slot (entry # es) =
     (let slot = (if ac_token entry = 0 \<and> slot = None then Some i else slot) in
      if ac_token entry \<noteq> 0 \<and> ac_poisoned entry \<and> extents_overlap (ac_extent entry) extent then Inl (- EIO)
      else ticket_slot extent (i + 1) slot es)"

definition block_access_io_begin :: "registry \<Rightarrow> task \<Rightarrow> u32 \<Rightarrow> u64 \<Rightarrow> u64 \<Rightarrow> u64 \<Rightarrow> bool \<Rightarrow> ((int \<times> u64) \<times> registry) option" where
  "block_access_io_begin st task device generation offset bytes token =
     (if \<not> token then Some ((- EINVAL, 0), st)
      else locked st (\<lambda>st.
        if io_abandoned st then Some ((- EIO, 0), st)
        else do {
          extent \<leftarrow> resolve_device st device generation;
          case extent of None \<Rightarrow> Some ((- ENODEV, 0), st)
          | Some extent \<Rightarrow>
              if offset > be_bytes extent \<or> bytes > be_bytes extent - offset then Some ((- EINVAL, 0), st)
              else do {
                let extent = extent\<lparr>be_start := be_start extent + offset, be_bytes := bytes\<rparr>;
                let r = io_leases task extent (leases st);
                if r \<noteq> 0 then Some ((r, 0), st)
                else case ticket_slot extent 0 None (tickets st) of
                  Inl r \<Rightarrow> Some ((r, 0), st)
                | Inr None \<Rightarrow> Some ((- ENOSPC, 0), st)
                | Inr (Some i) \<Rightarrow> do {
                    let (value, st) = new_identity st;
                    if value = 0 then Some ((- EOVERFLOW, 0), st)
                    else do {
                      let entry = \<lparr>ac_extent = extent, ac_token = value, ac_owner = map_option fst task, ac_tid = task_tid task,
                                   ac_exclusive = False, ac_poisoned = False, ac_scan = False\<rparr>;
                      Some ((0, value), st\<lparr>tickets := (tickets st)[i := entry]\<rparr>)
                    }
                  }
              }
        }))"

text \<open>Here the token is the value behind the pointer: a failed look-up returns before it is written.\<close>

definition block_access_flush_begin :: "registry \<Rightarrow> task \<Rightarrow> u32 \<Rightarrow> u64 \<Rightarrow> u64 option \<Rightarrow> ((int \<times> u64 option) \<times> registry) option" where
  "block_access_flush_begin st task device generation token = do {
     ((error, extent), st) \<leftarrow> block_access_resolve st device generation (Some zero_extent);
     extent \<leftarrow> extent;
     if error \<noteq> 0 then Some ((error, token), st)
     else do {
       ((error, value), st) \<leftarrow> block_access_io_begin st task device (be_generation extent) 0 (be_bytes extent) (token \<noteq> None);
       Some ((error, map_option (\<lambda>_. value) token), st)
     }
   }"

fun end_ticket :: "u64 \<Rightarrow> Access list \<Rightarrow> Access list" where
  "end_ticket token [] = []"
| "end_ticket token (entry # es) =
     (if ac_token entry = token \<and> token \<noteq> 0 \<and> \<not> ac_poisoned entry then zero_access # es else entry # end_ticket token es)"

definition block_access_io_end :: "registry \<Rightarrow> u64 \<Rightarrow> (unit \<times> registry) option" where
  "block_access_io_end st token = locked st (\<lambda>st. Some ((), st\<lparr>tickets := end_ticket token (tickets st)\<rparr>))"

section \<open>Abandoned owners\<close>

definition owned_by :: "addr \<Rightarrow> u64 \<Rightarrow> Access \<Rightarrow> bool" where
  "owned_by task tid entry \<longleftrightarrow> ac_token entry \<noteq> 0 \<and> ac_owner entry = Some task \<and> ac_tid entry = tid"

definition poison_if :: "(Access \<Rightarrow> bool) \<Rightarrow> Access \<Rightarrow> Access" where
  "poison_if p entry = (if p entry then entry\<lparr>ac_poisoned := True\<rparr> else entry)"

definition block_access_abandon_owner :: "registry \<Rightarrow> ptr \<Rightarrow> u64 \<Rightarrow> (unit \<times> registry) option" where
  "block_access_abandon_owner st task tid =
     (case task of None \<Rightarrow> Some ((), st)
      | Some a \<Rightarrow> locked st (\<lambda>st. do {
          let st = st\<lparr>leases := map (poison_if (\<lambda>e. ac_exclusive e \<and> owned_by a tid e)) (leases st)\<rparr>;
          let st = st\<lparr>io_abandoned := (io_abandoned st \<or> list_ex (owned_by a tid) (tickets st)), tickets := map (poison_if (owned_by a tid)) (tickets st)\<rparr>;
          Some ((), st\<lparr>management := poison_if (owned_by a tid) (management st)\<rparr>)
        }))"

text \<open>One table of \<open>block_access_reap_abandoned\<close>: the entries, and whether one of them was poisoned.\<close>

fun reap_entries :: "tasks \<Rightarrow> (Access \<Rightarrow> bool) \<Rightarrow> Access list \<Rightarrow> (Access list \<times> bool) option" where
  "reap_entries ts p [] = Some ([], False)"
| "reap_entries ts p (entry # es) = do {
     stop \<leftarrow> (if p entry then owner_stopped ts entry else Some False);
     (es, any) \<leftarrow> reap_entries ts p es;
     Some ((if stop then entry\<lparr>ac_poisoned := True\<rparr> else entry) # es, stop \<or> any)
   }"

definition block_access_reap_abandoned :: "registry \<Rightarrow> tasks \<Rightarrow> (unit \<times> registry) option" where
  "block_access_reap_abandoned st ts =
     locked st (\<lambda>st. do {
       (ls, _) \<leftarrow> reap_entries ts ac_exclusive (leases st);
       (tks, any) \<leftarrow> reap_entries ts (\<lambda>_. True) (tickets st);
       stop \<leftarrow> owner_stopped ts (management st);
       let m = (if stop then (management st)\<lparr>ac_poisoned := True\<rparr> else management st);
       Some ((), st\<lparr>leases := ls, tickets := tks, io_abandoned := (io_abandoned st \<or> any), management := m\<rparr>)
     })"

section \<open>Scans and management\<close>

definition block_access_scan_begin :: "registry \<Rightarrow> task \<Rightarrow> u32 \<Rightarrow> bool \<Rightarrow> ((int \<times> u64) \<times> registry) option" where
  "block_access_scan_begin st task device token =
     (if \<not> token then Some ((- EINVAL, 0), st)
      else locked st (\<lambda>st. do {
        extent \<leftarrow> resolve_device st device 0;
        case extent of None \<Rightarrow> Some ((- ENODEV, 0), st)
        | Some extent \<Rightarrow>
            if be_device extent \<noteq> be_physical_device extent then Some ((- EINVAL, 0), st)
            else claim_lease st task extent True True
      }))"

definition block_access_management_begin :: "registry \<Rightarrow> task \<Rightarrow> bool \<Rightarrow> ((int \<times> u64) \<times> registry) option" where
  "block_access_management_begin st task token =
     (if \<not> token then Some ((- EINVAL, 0), st)
      else locked st (\<lambda>st.
        if ac_poisoned (management st) then Some ((- EIO, 0), st)
        else if ac_token (management st) \<noteq> 0 then
          if \<not> access_owner (management st) task then Some ((- EBUSY, 0), st)
          else if management_depth st = - 1 then Some ((- EOVERFLOW, 0), st)
          else Some ((0, ac_token (management st)), st\<lparr>management_depth := management_depth st + 1\<rparr>)
        else do {
          let (value, st) = new_identity st;
          if value = 0 then Some ((- EOVERFLOW, 0), st)
          else do {
            let m = \<lparr>ac_extent = zero_extent, ac_token = value, ac_owner = map_option fst task, ac_tid = task_tid task,
                     ac_exclusive = True, ac_poisoned = False, ac_scan = False\<rparr>;
            Some ((0, value), st\<lparr>management := m, management_depth := 1\<rparr>)
          }
        }))"

definition block_access_management_end :: "registry \<Rightarrow> task \<Rightarrow> u64 \<Rightarrow> (unit \<times> registry) option" where
  "block_access_management_end st task token =
     locked st (\<lambda>st.
       if token \<noteq> 0 \<and> ac_token (management st) = token \<and> \<not> ac_poisoned (management st) \<and> access_owner (management st) task \<and> management_depth st \<noteq> 0
       then let st = st\<lparr>management_depth := management_depth st - 1\<rparr> in
            Some ((), if management_depth st = 0 then st\<lparr>management := zero_access\<rparr> else st)
       else Some ((), st))"

section \<open>A transfer as a scope\<close>

record BlockAccessIo =
  io_token :: u64
  io_result :: int

definition BlockAccessIo_begin :: "registry \<Rightarrow> task \<Rightarrow> u32 \<Rightarrow> u64 \<Rightarrow> u64 \<Rightarrow> u64 \<Rightarrow> bool \<Rightarrow> (BlockAccessIo \<times> registry) option" where
  "BlockAccessIo_begin st task device generation offset bytes enabled =
     (if enabled then do {
        ((r, k), st) \<leftarrow> block_access_io_begin st task device generation offset bytes True;
        Some (\<lparr>io_token = k, io_result = r\<rparr>, st)
      }
      else Some (\<lparr>io_token = 0, io_result = 0\<rparr>, st))"

definition BlockAccessIo_end :: "registry \<Rightarrow> BlockAccessIo \<Rightarrow> registry option" where
  "BlockAccessIo_end st io = (if io_token io \<noteq> 0 then map_option snd (block_access_io_end st (io_token io)) else Some st)"

definition ready :: "BlockAccessIo \<Rightarrow> bool" where
  "ready io \<longleftrightarrow> io_result io = 0"

section \<open>The operations as steps\<close>

datatype access_op =
    RegisterWhole task u32 u64 bool
  | RegisterSlice task u32 u32 u64 u64
  | Publish u32 u64
  | Unregister task u32
  | Claim task BlockExtent bool
  | Release task u64
  | Poison u64
  | IoBegin task u32 u64 u64 u64
  | FlushBegin task u32 u64
  | IoEnd u64
  | Abandon ptr u64
  | Reap tasks
  | ScanBegin task u32
  | ManagementBegin task
  | ManagementEnd task u64

fun access_step :: "access_op \<Rightarrow> registry \<Rightarrow> registry option" where
  "access_step (RegisterWhole task d n f) st = map_option snd (block_access_register_whole st task d n f)"
| "access_step (RegisterSlice task d p o' n) st = map_option snd (block_access_register_slice st task d p o' n)"
| "access_step (Publish d g) st = map_option snd (block_access_publish_device st d g)"
| "access_step (Unregister task d) st = map_option snd (block_access_unregister st task d)"
| "access_step (Claim task x e) st = map_option snd (block_access_claim st task x e True)"
| "access_step (Release task k) st = map_option snd (block_access_release st task k)"
| "access_step (Poison k) st = map_option snd (block_access_poison st k)"
| "access_step (IoBegin task d g o' n) st = map_option snd (block_access_io_begin st task d g o' n True)"
| "access_step (FlushBegin task d g) st = map_option snd (block_access_flush_begin st task d g (Some 0))"
| "access_step (IoEnd k) st = map_option snd (block_access_io_end st k)"
| "access_step (Abandon p tid) st = map_option snd (block_access_abandon_owner st p tid)"
| "access_step (Reap ts) st = map_option snd (block_access_reap_abandoned st ts)"
| "access_step (ScanBegin task d) st = map_option snd (block_access_scan_begin st task d True)"
| "access_step (ManagementBegin task) st = map_option snd (block_access_management_begin st task True)"
| "access_step (ManagementEnd task k) st = map_option snd (block_access_management_end st task k)"

inductive access_reachable :: "registry \<Rightarrow> bool" where
  start: "access_reachable initial_registry"
| step: "access_reachable st \<Longrightarrow> access_step op st = Some st' \<Longrightarrow> access_reachable st'"

section \<open>Extents\<close>

definition extent_fits :: "BlockExtent \<Rightarrow> bool" where
  "extent_fits x \<longleftrightarrow> be_bytes x \<noteq> 0 \<and> unat (be_start x) + unat (be_bytes x) < 2 ^ 64"

definition extent_bounded :: "BlockExtent \<Rightarrow> bool" where
  "extent_bounded x \<longleftrightarrow> unat (be_start x) + unat (be_bytes x) < 2 ^ 64"

definition extent_range :: "BlockExtent \<Rightarrow> nat set" where
  "extent_range x = {unat (be_start x) ..< unat (be_start x) + unat (be_bytes x)}"

lemma extents_overlap_iff:
  assumes "unat (be_start a) + unat (be_bytes a) < 2 ^ 64" "unat (be_start b) + unat (be_bytes b) < 2 ^ 64"
  shows "extents_overlap a b \<longleftrightarrow> same_disk a b \<and> extent_range a \<inter> extent_range b \<noteq> {}"
proof -
  have n: "x \<noteq> 0 \<longleftrightarrow> unat x > 0" for x :: u64
    by (simp add: word_neq_0_conv word_less_nat_alt)
  show ?thesis
    using assms by (auto simp: extents_overlap_def extent_range_def n word_less_nat_alt unat_add_small Int_atLeastLessThan)
qed

lemma extent_contains_iff:
  assumes "unat (be_start a) + unat (be_bytes a) < 2 ^ 64"
  shows "extent_contains a b \<longleftrightarrow> same_disk a b \<and> unat (be_start a) \<le> unat (be_start b) \<and>
    unat (be_start b) + unat (be_bytes b) \<le> unat (be_start a) + unat (be_bytes a)"
  using assms by (auto simp: extent_contains_def word_le_nat_alt unat_sub)

lemma extents_overlap_sym: "extents_overlap a b \<Longrightarrow> extents_overlap b a"
  by (auto simp: extents_overlap_def same_disk_def)

lemma extent_overlaps_self: "extent_fits x \<Longrightarrow> extents_overlap x x"
  by (auto simp: extents_overlap_def same_disk_def extent_fits_def word_less_nat_alt unat_add_small word_neq_0_conv)

lemma contained_overlaps: "extent_fits w \<Longrightarrow> extent_contains w x \<Longrightarrow> be_bytes x \<noteq> 0 \<Longrightarrow> extents_overlap x w"
  by (auto simp: extents_overlap_def extent_fits_def extent_contains_iff word_less_nat_alt unat_add_small same_disk_def word_neq_0_conv)

lemma contained_fits: "extent_fits w \<Longrightarrow> extent_contains w x \<Longrightarrow> be_bytes x \<noteq> 0 \<Longrightarrow> extent_fits x"
  by (auto simp: extent_fits_def extent_contains_iff)

lemma contains_trans: "extent_fits a \<Longrightarrow> extent_fits b \<Longrightarrow> extent_contains a b \<Longrightarrow> extent_contains b c \<Longrightarrow> extent_contains a c"
  by (auto simp: extent_fits_def extent_contains_iff same_disk_def)

lemma contains_window:
  assumes "extent_fits a" "offset \<le> be_bytes a" "n \<le> be_bytes a - offset"
  shows "extent_contains a (a\<lparr>be_start := be_start a + offset, be_bytes := n\<rparr>)"
proof -
  have le: "unat offset \<le> unat (be_bytes a)"
    using assms by (simp add: word_le_nat_alt)
  moreover have "unat n \<le> unat (be_bytes a) - unat offset"
    using assms by (simp add: word_le_nat_alt unat_sub)
  moreover have "unat (be_start a + offset) = unat (be_start a) + unat offset"
    using assms(1) le by (intro unat_add_small) (simp add: extent_fits_def)
  ultimately show ?thesis
    using assms(1) by (simp add: extent_contains_iff extent_fits_def same_disk_def)
qed

section \<open>The invariant\<close>

definition live :: "Access \<Rightarrow> bool" where
  "live e \<longleftrightarrow> ac_token e \<noteq> 0"

definition registered :: "Registration list \<Rightarrow> BlockExtent \<Rightarrow> bool" where
  "registered ds x \<longleftrightarrow> unat (be_device x) < length ds \<and> rg_valid (ds ! unat (be_device x)) \<and> rg_extent (ds ! unat (be_device x)) = x"

definition whole_disk :: "BlockExtent \<Rightarrow> bool" where
  "whole_disk w \<longleftrightarrow> be_physical_device w = be_device w \<and> be_physical_generation w = be_generation w \<and> be_start w = 0"

definition device_ok :: "Registration list \<Rightarrow> u64 \<Rightarrow> BlockExtent \<Rightarrow> bool" where
  "device_ok ds n x \<longleftrightarrow> extent_fits x \<and> 0 < be_generation x \<and> be_generation x < n \<and>
     (\<exists>w. registered ds w \<and> whole_disk w \<and> extent_fits w \<and> extent_contains w x)"

definition devices_ok :: "Registration list \<Rightarrow> u64 \<Rightarrow> bool" where
  "devices_ok ds n \<longleftrightarrow> length ds = kDevices \<and>
     (\<forall>i < length ds. rg_valid (ds ! i) \<longrightarrow> unat (be_device (rg_extent (ds ! i))) = i \<and> device_ok ds n (rg_extent (ds ! i)))"

definition leases_disjoint :: "Access list \<Rightarrow> bool" where
  "leases_disjoint ls \<longleftrightarrow> (\<forall>i < length ls. \<forall>j < length ls. i \<noteq> j \<longrightarrow> live (ls ! i) \<longrightarrow> live (ls ! j) \<longrightarrow>
     \<not> extents_overlap (ac_extent (ls ! i)) (ac_extent (ls ! j)))"

definition exclusive_holds :: "Access \<Rightarrow> Access \<Rightarrow> bool" where
  "exclusive_holds l t \<longleftrightarrow> (live l \<and> ac_exclusive l \<and> live t \<and> extents_overlap (ac_extent l) (ac_extent t) \<longrightarrow>
     ac_owner t = ac_owner l \<and> ac_tid t = ac_tid l \<and> extent_contains (ac_extent l) (ac_extent t))"

definition slots :: "registry \<Rightarrow> Access list" where
  "slots st = leases st @ tickets st @ [management st]"

definition tokens_ok :: "u64 \<Rightarrow> Access list \<Rightarrow> bool" where
  "tokens_ok n es \<longleftrightarrow> (\<forall>i < length es. live (es ! i) \<longrightarrow> ac_token (es ! i) < n \<and>
     (\<forall>j < length es. i \<noteq> j \<longrightarrow> ac_token (es ! j) \<noteq> ac_token (es ! i)))"

definition registry_inv :: "registry \<Rightarrow> bool" where
  "registry_inv st \<longleftrightarrow> devices_ok (devices st) (next_identity st) \<and>
     length (leases st) = kLeases \<and> length (tickets st) = kTickets \<and>
     (\<forall>l \<in> set (leases st). live l \<longrightarrow> registered (devices st) (ac_extent l)) \<and>
     leases_disjoint (leases st) \<and>
     (\<forall>l \<in> set (leases st). \<forall>t \<in> set (tickets st). exclusive_holds l t) \<and>
     (\<forall>t \<in> set (tickets st). live t \<longrightarrow> extent_bounded (ac_extent t)) \<and>
     0 < next_identity st \<and> tokens_ok (next_identity st) (slots st)"

lemma registry_inv_cong:
  "registry_inv st \<Longrightarrow> devices st' = devices st \<Longrightarrow> leases st' = leases st \<Longrightarrow> tickets st' = tickets st \<Longrightarrow>
   management st' = management st \<Longrightarrow> next_identity st' = next_identity st \<Longrightarrow> registry_inv st'"
  by (simp add: registry_inv_def slots_def)

lemma registry_inv_flags [simp]:
  "registry_inv (st\<lparr>access_lock := b\<rparr>) = registry_inv st"
  "registry_inv (st\<lparr>io_abandoned := b\<rparr>) = registry_inv st"
  "registry_inv (st\<lparr>management_depth := d\<rparr>) = registry_inv st"
  by (simp_all add: registry_inv_def slots_def)

lemma lockedE:
  assumes "locked st f = Some (r, st')"
  obtains st1 where "f (st\<lparr>access_lock := True\<rparr>) = Some (r, st1)" "st' = st1\<lparr>access_lock := False\<rparr>"
  using assms by (auto simp: locked_def spin_lock_def spin_unlock_def bind_eq_Some_conv split: if_splits)

subsection \<open>Entries that end or are poisoned\<close>

definition entry_shrinks :: "Access \<Rightarrow> Access \<Rightarrow> bool" where
  "entry_shrinks e e' \<longleftrightarrow> live e' \<longrightarrow> ac_token e' = ac_token e \<and> ac_extent e' = ac_extent e \<and> ac_owner e' = ac_owner e \<and>
     ac_tid e' = ac_tid e \<and> ac_exclusive e' = ac_exclusive e"

lemma entry_shrinks_live: "entry_shrinks e e' \<Longrightarrow> live e' \<Longrightarrow> live e"
  by (simp add: entry_shrinks_def live_def)

lemma entry_shrinks_simps [simp]:
  "entry_shrinks e e" "entry_shrinks e zero_access" "entry_shrinks e (e\<lparr>ac_poisoned := b\<rparr>)" "entry_shrinks e (poison_if p e)"
  "entry_shrinks e (poison_token k e)"
  by (simp_all add: entry_shrinks_def zero_access_def live_def poison_if_def poison_token_def)

lemma shrink_refl [simp]: "list_all2 entry_shrinks es es"
  by (simp add: list.rel_refl)

lemma shrink_map [simp]: "(\<And>e. entry_shrinks e (f e)) \<Longrightarrow> list_all2 entry_shrinks es (map f es)"
  by (simp add: list_all2_conv_all_nth)

lemma leases_disjoint_shrink:
  assumes "leases_disjoint ls" "list_all2 entry_shrinks ls ls'"
  shows "leases_disjoint ls'"
  using assms unfolding leases_disjoint_def list_all2_conv_all_nth by (metis entry_shrinks_def entry_shrinks_live)

lemma tokens_ok_shrink:
  assumes "tokens_ok n es" "list_all2 entry_shrinks es es'"
  shows "tokens_ok n es'"
  unfolding tokens_ok_def
proof (intro allI impI conjI)
  fix i assume i: "i < length es'" "live (es' ! i)"
  from assms(2) have len: "length es' = length es" and s: "\<And>j. j < length es \<Longrightarrow> entry_shrinks (es ! j) (es' ! j)"
    by (auto simp: list_all2_conv_all_nth)
  have ti: "ac_token (es' ! i) = ac_token (es ! i)" "live (es ! i)"
    using s [of i] i len by (auto simp: entry_shrinks_def live_def)
  then show "ac_token (es' ! i) < n"
    using assms(1) i len by (simp add: tokens_ok_def)
  fix j assume j: "j < length es'" "i \<noteq> j"
  show "ac_token (es' ! j) \<noteq> ac_token (es' ! i)"
  proof (cases "live (es' ! j)")
    case True
    then have "ac_token (es' ! j) = ac_token (es ! j)"
      using s [of j] j len by (simp add: entry_shrinks_def)
    then show ?thesis
      using assms(1) i j len ti by (simp add: tokens_ok_def)
  next
    case False
    then show ?thesis
      using i(2) by (auto simp: live_def)
  qed
qed

lemma shrink_in: "list_all2 entry_shrinks es es' \<Longrightarrow> e' \<in> set es' \<Longrightarrow> \<exists>e \<in> set es. entry_shrinks e e'"
  by (metis in_set_conv_nth list_all2_conv_all_nth)

lemma exclusive_holds_shrink: "exclusive_holds l t \<Longrightarrow> entry_shrinks l l' \<Longrightarrow> entry_shrinks t t' \<Longrightarrow> exclusive_holds l' t'"
  by (auto simp: exclusive_holds_def entry_shrinks_def live_def)

lemma registry_inv_shrink:
  assumes inv: "registry_inv st" and d: "devices st' = devices st" "next_identity st' = next_identity st"
    and s: "list_all2 entry_shrinks (leases st) (leases st')" "list_all2 entry_shrinks (tickets st) (tickets st')"
    "entry_shrinks (management st) (management st')"
  shows "registry_inv st'"
proof -
  have "list_all2 entry_shrinks (slots st) (slots st')"
    using s by (simp add: slots_def list_all2_appendI)
  then have "tokens_ok (next_identity st) (slots st')"
    using inv tokens_ok_shrink by (auto simp: registry_inv_def)
  moreover have "registered (devices st) (ac_extent l)" if "l \<in> set (leases st')" "live l" for l
    using shrink_in [OF s(1) that(1)] that(2) inv by (auto simp: registry_inv_def entry_shrinks_def live_def)
  moreover have "exclusive_holds l t" if "l \<in> set (leases st')" "t \<in> set (tickets st')" for l t
    using shrink_in [OF s(1) that(1)] shrink_in [OF s(2) that(2)] inv
    by (meson exclusive_holds_shrink registry_inv_def)
  moreover have "extent_bounded (ac_extent t)" if "t \<in> set (tickets st')" "live t" for t
    using shrink_in [OF s(2) that(1)] that(2) inv by (auto simp: registry_inv_def entry_shrinks_def live_def)
  ultimately show ?thesis
    using inv d leases_disjoint_shrink [OF _ s(1)] s list_all2_lengthD [OF s(1)] list_all2_lengthD [OF s(2)]
    by (simp add: registry_inv_def)
qed

lemma release_shrinks: "release_lease task k es = (r, es') \<Longrightarrow> list_all2 entry_shrinks es es'"
  by (induction es arbitrary: es') (auto split: if_splits prod.splits)

lemma end_shrinks: "list_all2 entry_shrinks es (end_ticket k es)"
  by (induction es) auto

lemma reap_shrinks: "reap_entries ts p es = Some (es', any) \<Longrightarrow> list_all2 entry_shrinks es es'"
  by (induction es arbitrary: es' any) (auto simp: bind_eq_Some_conv)

lemma release_inv: "registry_inv st \<Longrightarrow> block_access_release st task k = Some (r, st') \<Longrightarrow> registry_inv st'"
  unfolding block_access_release_def
  by (erule lockedE, erule registry_inv_shrink) (auto split: prod.splits dest: release_shrinks)

lemma poison_inv: "registry_inv st \<Longrightarrow> block_access_poison st k = Some (r, st') \<Longrightarrow> registry_inv st'"
  unfolding block_access_poison_def by (erule lockedE, erule registry_inv_shrink) auto

lemma io_end_inv: "registry_inv st \<Longrightarrow> block_access_io_end st k = Some (r, st') \<Longrightarrow> registry_inv st'"
  unfolding block_access_io_end_def by (erule lockedE, erule registry_inv_shrink) (auto simp: end_shrinks)

lemma abandon_inv: "registry_inv st \<Longrightarrow> block_access_abandon_owner st p tid = Some (r, st') \<Longrightarrow> registry_inv st'"
  unfolding block_access_abandon_owner_def
  by (auto split: option.splits elim!: lockedE elim: registry_inv_shrink simp: Let_def)

lemma reap_inv: "registry_inv st \<Longrightarrow> block_access_reap_abandoned st ts = Some (r, st') \<Longrightarrow> registry_inv st'"
  unfolding block_access_reap_abandoned_def
  by (erule lockedE, erule registry_inv_shrink) (auto simp: Let_def bind_eq_Some_conv dest: reap_shrinks)

lemma management_end_inv: "registry_inv st \<Longrightarrow> block_access_management_end st task k = Some (r, st') \<Longrightarrow> registry_inv st'"
  unfolding block_access_management_end_def
  by (erule lockedE, erule registry_inv_shrink) (auto simp: Let_def split: if_splits)

subsection \<open>Identities\<close>

lemma new_identityE:
  assumes "new_identity st = (v, st1)" "v \<noteq> 0"
  shows "v = next_identity st" "st1 = st\<lparr>next_identity := v + 1\<rparr>" "v < v + 1"
  using assms less_add_one_word by (auto simp: new_identity_def split: if_splits)

lemma devices_ok_mono: "devices_ok ds n \<Longrightarrow> n \<le> m \<Longrightarrow> devices_ok ds m"
  by (auto simp: devices_ok_def device_ok_def)

lemma tokens_ok_mono: "tokens_ok n es \<Longrightarrow> n \<le> m \<Longrightarrow> tokens_ok m es"
  by (auto simp: tokens_ok_def)

lemma next_identity_mono: "registry_inv st \<Longrightarrow> next_identity st \<le> m \<Longrightarrow> registry_inv (st\<lparr>next_identity := m\<rparr>)"
  by (auto simp: registry_inv_def slots_def intro: devices_ok_mono tokens_ok_mono)

lemma new_identity_inv:
  assumes "registry_inv st" "new_identity st = (v, st1)"
  shows "registry_inv st1"
proof (cases "v = 0")
  case True
  then show ?thesis
    using assms by (auto simp: new_identity_def intro: next_identity_mono split: if_splits)
next
  case False
  then show ?thesis
    using new_identityE [OF assms(2)] assms(1) by (auto intro: next_identity_mono less_imp_le)
qed

lemma tokens_ok_update:
  assumes "tokens_ok n es" "ac_token e = n" "n \<noteq> 0" "n < n + 1"
  shows "tokens_ok (n + 1) (es[i := e])"
proof -
  have old: "ac_token (es ! j) < n" "ac_token (es ! j) < n + 1" if "j < length es" "live (es ! j)" for j
    using assms that by (auto simp: tokens_ok_def)
  have ne: "ac_token (es ! j) \<noteq> n" if "j < length es" for j
    using old [OF that] assms(3) by (auto simp: live_def)
  show ?thesis
  proof (cases "i < length es")
    case True
    then show ?thesis
      using assms old ne by (auto simp: tokens_ok_def nth_list_update split: if_splits) blast
  next
    case False
    then show ?thesis
      using assms tokens_ok_mono [of n es "n + 1"] by (simp add: less_imp_le list_update_beyond)
  qed
qed

subsection \<open>The searches\<close>

abbreviation conflicts :: "BlockExtent \<Rightarrow> Access \<Rightarrow> bool" where
  "conflicts x e \<equiv> live e \<and> extents_overlap (ac_extent e) x"

definition conflict_error :: "Access \<Rightarrow> int" where
  "conflict_error e = (if ac_poisoned e then - EIO else - EBUSY)"

fun free_slot :: "Access list \<Rightarrow> nat option" where
  "free_slot [] = None"
| "free_slot (e # es) = (if live e then map_option Suc (free_slot es) else Some 0)"

lemma free_slot_Some: "free_slot es = Some i \<Longrightarrow> i < length es \<and> \<not> live (es ! i)"
  by (induction es arbitrary: i) (auto split: if_splits)

lemma free_slot_None: "free_slot es = None \<longleftrightarrow> (\<forall>e \<in> set es. live e)"
  by (induction es) auto

lemma conflict_error_neq [simp]: "conflict_error e \<noteq> 0" "EIO \<noteq> 0" "EBUSY \<noteq> 0"
  by (simp_all add: conflict_error_def EIO_def EBUSY_def)

lemma claim_slot_eq:
  "claim_slot x i s es = (case find (conflicts x) es of Some e \<Rightarrow> Inl (conflict_error e)
    | None \<Rightarrow> Inr (if s = None then map_option ((+) i) (free_slot es) else s))"
  by (induction es arbitrary: i s)
    (auto simp: Let_def live_def conflict_error_def map_option_case split: option.splits)

lemma busy_tickets_eq: "busy_tickets x es = (case find (conflicts x) es of Some e \<Rightarrow> conflict_error e | None \<Rightarrow> 0)"
  by (induction es) (auto simp: live_def conflict_error_def)

lemma ticket_slot_eq:
  "ticket_slot x i s es = (if poisoned_over x es then Inl (- EIO) else Inr (if s = None then map_option ((+) i) (free_slot es) else s))"
  by (induction es arbitrary: i s) (auto simp: Let_def live_def poisoned_over_def map_option_case split: option.splits)

lemma io_leases_0:
  "io_leases task x es = 0 \<longleftrightarrow> (\<forall>e \<in> set es. conflicts x e \<longrightarrow> \<not> ac_poisoned e \<and>
     (ac_exclusive e \<longrightarrow> access_owner e task \<and> extent_contains (ac_extent e) x))"
  by (induction es) (auto simp: live_def)

lemma available_leases_0:
  "available_leases task False x es = 0 \<longleftrightarrow> (\<forall>e \<in> set es. \<not> conflicts x e)"
  by (induction es) (auto simp: live_def)

lemma find_conflict_None: "find (conflicts x) es = None \<longleftrightarrow> (\<forall>e \<in> set es. \<not> conflicts x e)"
  by (auto simp: find_None_iff)

lemma available_0: "available st task x False = 0 \<longleftrightarrow> (\<forall>e \<in> set (leases st) \<union> set (tickets st). \<not> conflicts x e)"
  by (auto simp: available_def Let_def available_leases_0 busy_tickets_eq find_conflict_None ball_Un split: option.splits)
    (auto simp: find_Some_iff)

subsection \<open>Devices\<close>

lemma registered_ok: "devices_ok ds n \<Longrightarrow> registered ds x \<Longrightarrow> device_ok ds n x"
  by (auto simp: devices_ok_def registered_def)

lemma registered_unique: "registered ds x \<Longrightarrow> registered ds y \<Longrightarrow> be_device x = be_device y \<Longrightarrow> x = y"
  by (auto simp: registered_def)

lemma kDevices_le: "\<not> d \<ge> (of_nat kDevices :: u32) \<Longrightarrow> unat d < 256"
  by (simp add: kDevices_def word_le_nat_alt)

lemma device_at_Some: "device_at st d = Some r \<longleftrightarrow> unat d < length (devices st) \<and> r = devices st ! unat d"
  by (auto simp: device_at_def)

lemma device_registered: "devices_ok ds n \<Longrightarrow> i < length ds \<Longrightarrow> rg_valid (ds ! i) \<Longrightarrow> registered ds (rg_extent (ds ! i))"
  by (auto simp: devices_ok_def registered_def)

lemma resolve_registered:
  assumes "registry_inv st" "resolve_device st d g = Some (Some x)"
  shows "registered (devices st) x" "be_device x = d"
proof -
  have d: "unat d < length (devices st)" "rg_valid (devices st ! unat d)" "x = rg_extent (devices st ! unat d)"
    using assms(2) by (auto simp: resolve_device_def bind_eq_Some_conv device_at_Some Let_def split: if_splits)
  then show "registered (devices st) x"
    using assms(1) device_registered by (auto simp: registry_inv_def)
  show "be_device x = d"
    using d assms(1) by (auto simp: registry_inv_def devices_ok_def word_unat_eq_iff)
qed

lemma exact_extent_eq: "exact_extent x y \<longleftrightarrow> x = y"
  by (cases x; cases y) (auto simp: exact_extent_def same_disk_def)

lemma registered_update_other: "registered ds w \<Longrightarrow> \<not> rg_valid (ds ! d) \<Longrightarrow> registered (ds[d := r]) w"
  by (cases "unat (be_device w) = d") (auto simp: registered_def)

lemma device_ok_registered:
  "device_ok ds n x \<Longrightarrow> n \<le> m \<Longrightarrow> (\<And>w. registered ds w \<Longrightarrow> registered ds' w) \<Longrightarrow> device_ok ds' m x"
  by (fastforce simp: device_ok_def)

lemma devices_ok_add:
  assumes ok: "devices_ok ds n" "n \<le> m" and d: "unat (be_device (rg_extent r)) = d" "d < length ds" "\<not> rg_valid (ds ! d)"
    and new: "device_ok (ds[d := r]) m (rg_extent r)"
  shows "devices_ok (ds[d := r]) m"
proof -
  have "device_ok (ds[d := r]) m (rg_extent (ds ! i))" if "i < length ds" "rg_valid (ds ! i)" for i
    by (rule device_ok_registered [OF _ ok(2) registered_update_other [OF _ d(3)]]) (use ok(1) that in \<open>auto simp: devices_ok_def\<close>)
  then show ?thesis
    using ok(1) d new by (auto simp: devices_ok_def nth_list_update)
qed

lemma add_device_inv:
  assumes inv: "registry_inv st" and g: "new_identity st = (g, st1)" "g \<noteq> 0"
    and d: "unat (be_device (rg_extent r)) = d" "d < length (devices st)" "\<not> rg_valid (devices st ! d)"
    and ok: "device_ok ((devices st)[d := r]) (g + 1) (rg_extent r)"
  shows "registry_inv (st1\<lparr>devices := (devices st1)[d := r]\<rparr>)"
proof -
  have n: "g = next_identity st" "st1 = st\<lparr>next_identity := g + 1\<rparr>" "g \<le> g + 1"
    using new_identityE [OF g] by auto
  have "devices_ok ((devices st)[d := r]) (g + 1)"
    using inv n ok d by (intro devices_ok_add) (auto simp: registry_inv_def)
  moreover have "tokens_ok (g + 1) (slots st)"
    using inv n by (auto simp: registry_inv_def intro: tokens_ok_mono)
  moreover have "0 < g + 1"
    using inv n(1) less_le_trans [OF _ n(3)] by (simp add: registry_inv_def)
  ultimately show ?thesis
    using inv n(2) registered_update_other [OF _ d(3)] by (auto simp: registry_inv_def slots_def)
qed

lemma whole_device_ok:
  assumes "rg_extent r = \<lparr>be_device = d, be_physical_device = d, be_generation = g, be_physical_generation = g, be_start = 0, be_bytes = n\<rparr>"
    and "rg_valid r" "unat d < length ds" "n \<noteq> 0" "g < g + 1" "g \<noteq> 0"
  shows "device_ok (ds[unat d := r]) (g + 1) (rg_extent r)"
proof -
  have "registered (ds[unat d := r]) (rg_extent r)" "whole_disk (rg_extent r)" "extent_contains (rg_extent r) (rg_extent r)"
    using assms by (auto simp: registered_def whole_disk_def extent_contains_def same_disk_def)
  moreover have "extent_fits (rg_extent r)"
    using assms(1,4) unsigned_less [of n] by (simp add: extent_fits_def)
  ultimately show ?thesis
    using assms(1,5,6) unfolding device_ok_def by (auto simp: word_neq_0_conv)
qed

lemma identity_below: "new_identity st = (g, st1) \<Longrightarrow> g \<noteq> 0 \<Longrightarrow> g < g + 1"
  by (rule new_identityE)

lemma register_whole_inv:
  assumes inv: "registry_inv st" and run: "block_access_register_whole st task d n f = Some (r, st')"
  shows "registry_inv st'"
proof -
  have inv': "registry_inv (st\<lparr>access_lock := True\<rparr>)"
    using inv by simp
  show ?thesis
    using run inv unfolding block_access_register_whole_def
    by (auto simp: bind_eq_Some_conv device_at_Some Let_def elim!: lockedE split: if_splits prod.splits
        intro!: add_device_inv [OF inv'] whole_device_ok intro: new_identity_inv [OF inv'] identity_below)
qed

lemma slice_device_ok:
  assumes ok: "devices_ok ds n" "registered ds base" and le: "offset \<le> be_bytes base" "m \<le> be_bytes base - offset" "m \<noteq> 0"
    and d: "\<not> rg_valid (ds ! d)" and g: "g < g + 1" "g \<noteq> 0"
    and x: "x = \<lparr>be_device = e, be_physical_device = be_physical_device base, be_generation = g,
      be_physical_generation = be_physical_generation base, be_start = be_start base + offset, be_bytes = m\<rparr>"
  shows "device_ok (ds[d := r]) (g + 1) x"
proof -
  obtain w where w: "registered ds w" "whole_disk w" "extent_fits w" "extent_contains w base" "extent_fits base"
    using registered_ok [OF ok] by (auto simp: device_ok_def)
  have c: "extent_contains base x"
    using contains_window [OF w(5) le(1,2)] by (simp add: x extent_contains_def same_disk_def)
  have "extent_contains w x" "extent_fits x"
    using contains_trans [OF w(3,5,4) c] contained_fits [OF w(5) c] le(3) by (simp_all add: x)
  then show ?thesis
    using w g registered_update_other [OF w(1) d] unfolding device_ok_def by (auto simp: x word_neq_0_conv)
qed

lemma add_slice_inv:
  assumes inv: "registry_inv st" and base: "registered (devices st) base"
    and le: "offset \<le> be_bytes base" "m \<le> be_bytes base - offset" "m \<noteq> 0"
    and d: "unat d < length (devices st)" "\<not> rg_valid (devices st ! unat d)" and g: "new_identity st = (g, st1)" "g \<noteq> 0"
  shows "registry_inv (st1\<lparr>devices := (devices st1)[unat d := \<lparr>rg_extent = \<lparr>be_device = d, be_physical_device = be_physical_device base,
    be_generation = g, be_physical_generation = be_physical_generation base, be_start = be_start base + offset, be_bytes = m\<rparr>,
    rg_valid = True, rg_published = False, rg_flush_supported = False\<rparr>]\<rparr>)"
proof -
  have "devices_ok (devices st) (next_identity st)"
    using inv by (simp add: registry_inv_def)
  from slice_device_ok [OF this base le d(2) identity_below [OF g] g(2) refl] show ?thesis
    by (intro add_device_inv [OF inv g _ d]) simp_all
qed

lemma register_slice_inv:
  assumes inv: "registry_inv st" and run: "block_access_register_slice st task d p o' n = Some (r, st')"
  shows "registry_inv st'"
proof -
  have inv': "registry_inv (st\<lparr>access_lock := True\<rparr>)"
    using inv by simp
  show ?thesis
  proof (cases "\<exists>base. resolve_device (st\<lparr>access_lock := True\<rparr>) p 0 = Some (Some base)")
    case True
    then obtain base where base: "resolve_device (st\<lparr>access_lock := True\<rparr>) p 0 = Some (Some base)" ..
    have "registered (devices st) base"
      using resolve_registered [OF inv' base] by simp
    then show ?thesis
      using run inv unfolding block_access_register_slice_def
      by (auto simp: bind_eq_Some_conv device_at_Some Let_def not_less base elim!: lockedE split: if_splits prod.splits
          intro!: add_slice_inv [OF inv'] intro: new_identity_inv [OF inv'])
  next
    case False
    then show ?thesis
      using run inv unfolding block_access_register_slice_def
      by (auto simp: bind_eq_Some_conv device_at_Some elim!: lockedE split: if_splits option.splits)
  qed
qed

subsection \<open>Publishing and withdrawing\<close>

lemma registered_same:
  "length ds' = length ds \<Longrightarrow> (\<And>i. i < length ds \<Longrightarrow> rg_valid (ds' ! i) = rg_valid (ds ! i) \<and> rg_extent (ds' ! i) = rg_extent (ds ! i)) \<Longrightarrow>
   registered ds' = registered ds"
  by (auto simp: registered_def fun_eq_iff)

lemma publish_inv:
  assumes inv: "registry_inv st" and run: "block_access_publish_device st d g = Some (r, st')"
  shows "registry_inv st'"
proof -
  let ?p = "\<lambda>r. r\<lparr>rg_published := True\<rparr>" and ?ds = "devices st"
  have reg: "registered (?ds[i := ?p (?ds ! i)]) = registered ?ds" for i
    by (cases "i < length ?ds") (auto intro!: registered_same simp: nth_list_update split: if_splits)
  have "devices_ok (?ds[i := ?p (?ds ! i)]) (next_identity st)" for i
    using inv by (cases "i < length ?ds") (auto simp: registry_inv_def devices_ok_def device_ok_def reg nth_list_update split: if_splits)
  then show ?thesis
    using run inv unfolding block_access_publish_device_def
    by (auto simp: bind_eq_Some_conv device_at_Some registry_inv_def slots_def reg elim!: lockedE split: if_splits)
qed

definition withdrawn :: "registry \<Rightarrow> BlockExtent \<Rightarrow> Registration list \<Rightarrow> bool" where
  "withdrawn st x ds' \<longleftrightarrow> length ds' = length (devices st) \<and>
     (\<forall>i < length ds'. ds' ! i = devices st ! i \<and> i \<noteq> unat (be_device x) \<and>
          (be_device x = be_physical_device x \<longrightarrow> rg_valid (ds' ! i) \<longrightarrow> \<not> same_disk (rg_extent (ds' ! i)) x)
        \<or> \<not> rg_valid (ds' ! i) \<and> (i = unat (be_device x) \<or> be_device x = be_physical_device x \<and> same_disk (rg_extent (devices st ! i)) x))"

lemma unregister_withdraws:
  assumes inv: "registry_inv st" and run: "block_access_unregister st task d = Some (r, st')"
  shows "registry_inv st' \<or> (\<exists>x ds'. registered (devices st) x \<and> (\<forall>e \<in> set (leases st). \<not> conflicts x e) \<and> withdrawn st x ds' \<and>
    st' = st\<lparr>devices := ds', access_lock := False\<rparr>)"
proof -
  let ?r = "devices st ! unat d" and ?ds = "devices st"
  let ?ds1 = "?ds[unat d := withdraw ?r]"
  let ?ds2 = "map (\<lambda>e. if rg_valid e \<and> same_disk (rg_extent e) (rg_extent ?r) then withdraw e else e) ?ds1"
  have av: "available (st\<lparr>access_lock := True\<rparr>) task x False = 0 \<Longrightarrow> \<forall>e \<in> set (leases st). \<not> conflicts x e" for x
    using available_0 [of "st\<lparr>access_lock := True\<rparr>" task x] by simp
  have run: "registry_inv st' \<or> (unat d < length ?ds \<and> rg_valid ?r \<and> (\<forall>e \<in> set (leases st). \<not> conflicts (rg_extent ?r) e) \<and>
      st' = st\<lparr>devices := (if be_device (rg_extent ?r) = be_physical_device (rg_extent ?r) then ?ds2 else ?ds1), access_lock := False\<rparr>)"
    using run inv unfolding block_access_unregister_def
    by (elim lockedE) (auto simp: bind_eq_Some_conv device_at_Some Let_def dest!: av split: if_splits)
  have reg: "registered ?ds (rg_extent ?r)" "unat (be_device (rg_extent ?r)) = unat d" if "unat d < length ?ds" "rg_valid ?r"
    using inv that device_registered by (auto simp: registry_inv_def devices_ok_def)
  have wd: "withdrawn st (rg_extent ?r) (if be_device (rg_extent ?r) = be_physical_device (rg_extent ?r) then ?ds2 else ?ds1)"
    if "unat (be_device (rg_extent ?r)) = unat d" "unat d < length ?ds"
    using that by (auto simp: withdrawn_def nth_list_update withdraw_def)
  from run show ?thesis
  proof (elim disjE conjE)
    assume d: "unat d < length ?ds" "rg_valid ?r" and h: "\<forall>e \<in> set (leases st). \<not> conflicts (rg_extent ?r) e"
      "st' = st\<lparr>devices := (if be_device (rg_extent ?r) = be_physical_device (rg_extent ?r) then ?ds2 else ?ds1), access_lock := False\<rparr>"
    show ?thesis
      using reg(1) [OF d] h wd [OF reg(2) [OF d] d(1)] by blast
  qed simp
qed

lemma whole_is_physical:
  assumes "registered ds w" "whole_disk w" "registered ds x" "be_device x = be_physical_device x" "same_disk w x"
  shows "w = x"
  using assms by (intro registered_unique) (auto simp: whole_disk_def same_disk_def)

lemma withdrawn_registered:
  assumes "withdrawn st x ds'" "registered (devices st) y" "y \<noteq> x" "be_device x = be_physical_device x \<Longrightarrow> \<not> same_disk y x" "registered (devices st) x"
  shows "registered ds' y"
  using assms registered_unique [OF assms(2,5)] unfolding withdrawn_def registered_def by (metis word_unat_eq_iff)

lemma withdrawn_inv:
  assumes inv: "registry_inv st" and x: "registered (devices st) x" "\<forall>e \<in> set (leases st). \<not> conflicts x e" and w: "withdrawn st x ds'"
  shows "registry_inv (st\<lparr>devices := ds', access_lock := False\<rparr>)"
proof -
  have ok: "devices_ok (devices st) (next_identity st)"
    using inv by (simp add: registry_inv_def)
  note dev = registered_ok [OF ok]
  have keep: "registered ds' (ac_extent l)" if l: "l \<in> set (leases st)" "live l" for l
  proof (rule withdrawn_registered [OF w _ _ _ x(1)])
    show reg: "registered (devices st) (ac_extent l)"
      using inv l by (auto simp: registry_inv_def)
    show "ac_extent l \<noteq> x"
      using x l dev [OF x(1)] extent_overlaps_self by (auto simp: device_ok_def)
    show "\<not> same_disk (ac_extent l) x" if "be_device x = be_physical_device x"
    proof
      assume sd: "same_disk (ac_extent l) x"
      obtain v where v: "registered (devices st) v" "whole_disk v" "extent_fits v" "extent_contains v (ac_extent l)" "be_bytes (ac_extent l) \<noteq> 0"
        using dev [OF reg] by (auto simp: device_ok_def extent_fits_def)
      have "v = x"
        using whole_is_physical [OF v(1,2) x(1) that] sd v(4) by (auto simp: extent_contains_def same_disk_def)
      then show False
        using contained_overlaps [OF v(3-5)] x(2) l by auto
    qed
  qed
  have "device_ok ds' (next_identity st) y" if y: "i < length ds'" "rg_valid (ds' ! i)" "y = rg_extent (ds' ! i)" for i y
  proof -
    have i: "ds' ! i = devices st ! i" "i \<noteq> unat (be_device x)" "be_device x = be_physical_device x \<Longrightarrow> \<not> same_disk y x"
      using w y by (auto simp: withdrawn_def)
    have "device_ok (devices st) (next_identity st) y"
      using ok i(1) y w by (auto simp: devices_ok_def withdrawn_def)
    then obtain v where v: "registered (devices st) v" "whole_disk v" "extent_fits v" "extent_contains v y" and y': "extent_fits y" "0 < be_generation y" "be_generation y < next_identity st"
      by (auto simp: device_ok_def)
    have vy: "same_disk v y"
      using v(4) by (simp add: extent_contains_def)
    have "registered ds' v"
      using i(3) vy v(2) by (intro withdrawn_registered [OF w v(1) _ _ x(1)]) (auto simp: same_disk_def whole_disk_def)
    then show ?thesis
      using v y' unfolding device_ok_def by auto
  qed
  then have "devices_ok ds' (next_identity st)"
    using ok w unfolding devices_ok_def withdrawn_def by metis
  then show ?thesis
    using inv keep by (auto simp: registry_inv_def slots_def)
qed

lemma unregister_inv: "registry_inv st \<Longrightarrow> block_access_unregister st task d = Some (r, st') \<Longrightarrow> registry_inv st'"
  using unregister_withdraws withdrawn_inv by blast

subsection \<open>New leases and transfers\<close>

lemma leases_disjoint_update:
  assumes "leases_disjoint ls" "\<And>l. l \<in> set ls \<Longrightarrow> \<not> conflicts (ac_extent e) l"
  shows "leases_disjoint (ls[i := e])"
proof (cases "i < length ls")
  case True
  then show ?thesis
    using assms(1) assms(2) [OF nth_mem] unfolding leases_disjoint_def
    by (auto simp: nth_list_update dest: extents_overlap_sym)
next
  case False
  then show ?thesis
    using assms(1) by (simp add: list_update_beyond)
qed

lemma in_update: "x \<in> set (xs[i := y]) \<Longrightarrow> x = y \<or> x \<in> set xs"
  using set_update_subset_insert [of xs i y] by auto

lemma slots_update:
  "i < length (leases st) \<Longrightarrow> slots (st\<lparr>leases := (leases st)[i := e]\<rparr>) = (slots st)[i := e]"
  "i < length (tickets st) \<Longrightarrow> slots (st\<lparr>tickets := (tickets st)[i := e]\<rparr>) = (slots st)[length (leases st) + i := e]"
  "slots (st\<lparr>management := e\<rparr>) = (slots st)[length (leases st) + length (tickets st) := e]"
  by (simp_all add: slots_def list_update_append)

lemma add_lease_inv:
  assumes inv: "registry_inv st" and g: "new_identity st = (ac_token e, st1)" "ac_token e \<noteq> 0" and i: "i < length (leases st)"
    and reg: "registered (devices st) (ac_extent e)"
    and free: "\<And>l. l \<in> set (leases st) \<union> set (tickets st) \<Longrightarrow> \<not> conflicts (ac_extent e) l"
  shows "registry_inv (st1\<lparr>leases := (leases st1)[i := e]\<rparr>)"
proof -
  note n = new_identityE [OF g]
  have inv1: "registry_inv st1"
    by (rule new_identity_inv [OF inv g(1)])
  have "tokens_ok (ac_token e + 1) ((slots st)[i := e])"
    using inv n g(2) by (intro tokens_ok_update) (auto simp: registry_inv_def)
  then have "tokens_ok (ac_token e + 1) (slots (st1\<lparr>leases := (leases st1)[i := e]\<rparr>))"
    using n(2) slots_update(1) [OF i] by (simp add: slots_def)
  moreover have "exclusive_holds l t" if "l \<in> set ((leases st)[i := e])" "t \<in> set (tickets st)" for l t
  proof -
    have "exclusive_holds e t"
      using free [of t] that(2) by (auto simp: exclusive_holds_def dest: extents_overlap_sym)
    then show ?thesis
      using in_update [OF that(1)] that(2) inv by (auto simp: registry_inv_def)
  qed
  moreover have "registered (devices st) (ac_extent l)" if "l \<in> set ((leases st)[i := e])" "live l" for l
    using in_update [OF that(1)] that(2) inv reg by (auto simp: registry_inv_def)
  moreover have "leases_disjoint ((leases st)[i := e])"
    using inv free by (intro leases_disjoint_update) (auto simp: registry_inv_def)
  ultimately show ?thesis
    using inv1 n(2) by (simp add: registry_inv_def)
qed

lemma add_ticket_inv:
  assumes inv: "registry_inv st" and g: "new_identity st = (ac_token e, st1)" "ac_token e \<noteq> 0" and i: "i < length (tickets st)"
    and excl: "\<And>l. l \<in> set (leases st) \<Longrightarrow> exclusive_holds l e" "extent_bounded (ac_extent e)"
  shows "registry_inv (st1\<lparr>tickets := (tickets st1)[i := e]\<rparr>)"
proof -
  note n = new_identityE [OF g]
  have inv1: "registry_inv st1"
    by (rule new_identity_inv [OF inv g(1)])
  have "tokens_ok (ac_token e + 1) ((slots st)[length (leases st) + i := e])"
    using inv n g(2) by (intro tokens_ok_update) (auto simp: registry_inv_def)
  then have "tokens_ok (ac_token e + 1) (slots (st1\<lparr>tickets := (tickets st1)[i := e]\<rparr>))"
    using n(2) slots_update(2) [OF i] by (simp add: slots_def)
  moreover have "exclusive_holds l t" if "l \<in> set (leases st)" "t \<in> set ((tickets st)[i := e])" for l t
    using in_update [OF that(2)] that(1) inv excl by (auto simp: registry_inv_def)
  moreover have "extent_bounded (ac_extent t)" if "t \<in> set ((tickets st)[i := e])" "live t" for t
    using in_update [OF that(1)] that(2) inv excl by (auto simp: registry_inv_def)
  ultimately show ?thesis
    using inv1 n(2) by (simp add: registry_inv_def)
qed

lemma add_management_inv:
  assumes inv: "registry_inv st" and g: "new_identity st = (ac_token e, st1)" "ac_token e \<noteq> 0"
  shows "registry_inv (st1\<lparr>management := e\<rparr>)"
proof -
  note n = new_identityE [OF g]
  have "tokens_ok (ac_token e + 1) ((slots st)[length (leases st) + length (tickets st) := e])"
    using inv n g(2) by (intro tokens_ok_update) (auto simp: registry_inv_def)
  then have "tokens_ok (ac_token e + 1) (slots (st1\<lparr>management := e\<rparr>))"
    using n(2) slots_update(3) [where st = st and e = e] by (simp add: slots_def)
  then show ?thesis
    using new_identity_inv [OF inv g(1)] n(2) by (simp add: registry_inv_def)
qed

text \<open>The result of a claim on every branch.\<close>

definition claim_result :: "registry \<Rightarrow> task \<Rightarrow> BlockExtent \<Rightarrow> bool \<Rightarrow> bool \<Rightarrow> (int \<times> u64) \<times> registry" where
  "claim_result st task x exclusive scan =
     (if io_abandoned st then ((- EIO, 0), st)
      else if resolve_device st (be_device x) (be_generation x) \<noteq> Some (Some x) then ((- ENODEV, 0), st)
      else if exclusive \<and> \<not> scan \<and> task = None then ((- EPERM, 0), st)
      else case find (conflicts x) (leases st @ tickets st) of Some e \<Rightarrow> ((conflict_error e, 0), st)
      | None \<Rightarrow> (case free_slot (leases st) of None \<Rightarrow> ((- ENOSPC, 0), st)
        | Some i \<Rightarrow> (case new_identity st of (v, st1) \<Rightarrow> if v = 0 then ((- EOVERFLOW, 0), st1)
            else ((0, v), st1\<lparr>leases := (leases st1)[i := \<lparr>ac_extent = x, ac_token = v, ac_owner = (if exclusive then map_option fst task else None),
              ac_tid = (if exclusive then task_tid task else 0), ac_exclusive = exclusive, ac_poisoned = False, ac_scan = scan\<rparr>]\<rparr>))))"

lemma find_append: "find p (xs @ ys) = (case find p xs of None \<Rightarrow> find p ys | Some x \<Rightarrow> Some x)"
  by (induction xs) auto

lemma claim_lease_eq:
  assumes "resolve_device st (be_device x) (be_generation x) \<noteq> None"
  shows "claim_lease st task x exclusive scan = Some (claim_result st task x exclusive scan)"
proof -
  obtain c where c: "resolve_device st (be_device x) (be_generation x) = Some c"
    using assms by auto
  show ?thesis
    by (cases "find (conflicts x) (leases st)"; cases "free_slot (leases st)"; cases "find (conflicts x) (tickets st)")
      (auto simp: claim_lease_def claim_result_def c exact_extent_eq claim_slot_eq busy_tickets_eq find_append Let_def
        split: option.splits prod.splits)
qed

lemma resolve_defined:
  assumes "registry_inv st"
  shows "resolve_device st d g \<noteq> None"
proof (cases "\<not> d \<ge> of_nat kDevices \<and> rg_valid (devices st ! unat d)")
  case True
  have "length (devices st) = 256" and ok: "devices_ok (devices st) (next_identity st)"
    using assms by (auto simp: registry_inv_def devices_ok_def kDevices_def)
  then have d: "unat d < length (devices st)"
    using kDevices_le [of d] True by simp
  obtain w where "registered (devices st) w" "whole_disk w" "extent_contains w (rg_extent (devices st ! unat d))"
    using ok d True by (auto simp: devices_ok_def device_ok_def)
  then have "unat (be_physical_device (rg_extent (devices st ! unat d))) < length (devices st)"
    by (auto simp: registered_def whole_disk_def extent_contains_def same_disk_def)
  then show ?thesis
    using d by (simp add: resolve_device_def device_at_def Let_def)
next
  case False
  have "unat d < length (devices st)" if "\<not> d \<ge> of_nat kDevices"
    using assms kDevices_le [OF that] by (simp add: registry_inv_def devices_ok_def kDevices_def)
  then show ?thesis
    using False by (auto simp: resolve_device_def device_at_def)
qed

lemma claim_result_inv:
  assumes inv: "registry_inv st" and run: "claim_result st task x exclusive scan = (r, st')"
  shows "registry_inv st'"
proof (cases "resolve_device st (be_device x) (be_generation x) = Some (Some x) \<and> find (conflicts x) (leases st @ tickets st) = None")
  case True
  then have "registered (devices st) x" "\<And>l. l \<in> set (leases st) \<union> set (tickets st) \<Longrightarrow> \<not> conflicts x l"
    using resolve_registered [OF inv] find_conflict_None [of x "leases st @ tickets st"] by auto
  then show ?thesis
    using run inv True free_slot_Some [of "leases st"] unfolding claim_result_def
    by (auto split: if_splits option.splits prod.splits intro: new_identity_inv intro!: add_lease_inv [OF inv])
next
  case False
  then show ?thesis
    using run inv by (auto simp: claim_result_def split: if_splits option.splits)
qed

lemma claim_lease_inv:
  assumes "registry_inv st" "claim_lease st task x exclusive scan = Some (r, st')"
  shows "registry_inv st'"
proof -
  have "claim_result st task x exclusive scan = (r, st')"
    using claim_lease_eq [OF resolve_defined [OF assms(1)]] assms(2) by simp
  then show ?thesis
    by (rule claim_result_inv [OF assms(1)])
qed

lemma claim_inv: "registry_inv st \<Longrightarrow> block_access_claim st task x exclusive k = Some (r, st') \<Longrightarrow> registry_inv st'"
  unfolding block_access_claim_def by (elim if_SomeE lockedE) (auto dest!: claim_lease_inv [rotated])

lemma scan_begin_inv: "registry_inv st \<Longrightarrow> block_access_scan_begin st task d k = Some (r, st') \<Longrightarrow> registry_inv st'"
  unfolding block_access_scan_begin_def
  by (elim if_SomeE lockedE bind_SomeE case_option_SomeE) (auto dest!: claim_lease_inv [rotated])

lemma io_begin_inv:
  assumes inv: "registry_inv st" and run: "block_access_io_begin st task d g o' n k = Some (r, st')"
  shows "registry_inv st'"
proof -
  let ?st = "st\<lparr>access_lock := True\<rparr>"
  have inv': "registry_inv ?st"
    using inv by simp
  have excl: "exclusive_holds l e" if "io_leases task (ac_extent e) (leases st) = 0" "l \<in> set (leases st)"
    "ac_owner e = map_option fst task" "ac_tid e = task_tid task" for l e
    using that by (auto simp: io_leases_0 exclusive_holds_def access_owner_def)
  have slot: "ticket_slot x 0 None (tickets st) = Inr (Some i) \<Longrightarrow> i < length (tickets st)" for x i
    by (auto simp: ticket_slot_eq dest: free_slot_Some split: if_splits)
  have fits: "extent_bounded (x\<lparr>be_start := be_start x + o', be_bytes := n\<rparr>)"
    if "resolve_device ?st d g = Some (Some x)" "\<not> (be_bytes x < o' \<or> be_bytes x - o' < n)" for x
  proof -
    have "registered (devices st) x"
      using resolve_registered [OF inv' that(1)] by simp
    then have "extent_fits x"
      using inv registered_ok by (auto simp: registry_inv_def device_ok_def)
    then show ?thesis
      using contains_window [of x o' n] that(2) by (auto simp: extent_contains_iff extent_fits_def extent_bounded_def not_less)
  qed
  show ?thesis
    using run inv unfolding block_access_io_begin_def Let_def
    by (elim if_SomeE lockedE bind_SomeE case_option_SomeE)
      (auto simp: fits split: sum.splits option.splits prod.splits if_splits intro: new_identity_inv [OF inv'] excl dest: slot
        intro!: add_ticket_inv [OF inv'])
qed

lemma resolve_unchanged: "block_access_resolve st d g x = Some (r, st') \<Longrightarrow> st' = st \<or> st' = st\<lparr>access_lock := False\<rparr>"
  unfolding block_access_resolve_def by (elim if_SomeE lockedE bind_SomeE case_option_SomeE) auto

lemma flush_begin_inv:
  assumes inv: "registry_inv st" and run: "block_access_flush_begin st task d g k = Some (r, st')"
  shows "registry_inv st'"
proof -
  have keep: "registry_inv st1" if "block_access_resolve st d g x = Some (q, st1)" for x q st1
    using resolve_unchanged [OF that] inv by auto
  show ?thesis
    using run unfolding block_access_flush_begin_def
    by (auto elim!: bind_SomeE if_SomeE dest: keep io_begin_inv [OF keep])
qed

lemma management_begin_inv:
  assumes inv: "registry_inv st" and run: "block_access_management_begin st task k = Some (r, st')"
  shows "registry_inv st'"
proof -
  have inv': "registry_inv (st\<lparr>access_lock := True\<rparr>)"
    using inv by simp
  show ?thesis
    using run inv unfolding block_access_management_begin_def Let_def
    by (elim if_SomeE lockedE)
      (auto split: prod.splits if_splits intro: new_identity_inv [OF inv'] intro!: add_management_inv [OF inv'])
qed

lemma replicate_zero: "\<forall>e \<in> set (slots initial_registry). \<not> live e"
  by (auto simp: slots_def initial_registry_def live_def zero_access_def)

lemma initial_inv: "registry_inv initial_registry"
proof -
  have "devices_ok (devices initial_registry) (next_identity initial_registry)"
    by (simp add: initial_registry_def devices_ok_def)
  moreover have dead: "\<not> live e" if "e \<in> set (leases initial_registry) \<or> e \<in> set (slots initial_registry)" for e
    using that replicate_zero by (auto simp: slots_def)
  moreover have "leases_disjoint (leases initial_registry)" "tokens_ok (next_identity initial_registry) (slots initial_registry)"
    using dead [OF disjI1 [OF nth_mem]] dead [OF disjI2 [OF nth_mem]] by (auto simp: leases_disjoint_def tokens_ok_def)
  ultimately show ?thesis
    by (auto simp: registry_inv_def exclusive_holds_def initial_registry_def live_def zero_access_def)
qed

lemmas operations_inv = register_whole_inv register_slice_inv publish_inv unregister_inv claim_inv release_inv poison_inv io_begin_inv
  flush_begin_inv io_end_inv abandon_inv reap_inv scan_begin_inv management_begin_inv management_end_inv

lemma access_step_inv: "registry_inv st \<Longrightarrow> access_step op st = Some st' \<Longrightarrow> registry_inv st'"
  by (cases op) (auto dest: operations_inv)

lemma reachable_inv: "access_reachable st \<Longrightarrow> registry_inv st"
  by (induction rule: access_reachable.induct) (auto intro: initial_inv access_step_inv)

section \<open>Poisoned entries\<close>

text \<open>An operation keeps every poisoned entry where it is.\<close>

definition keeps_poisoned :: "Access \<Rightarrow> Access \<Rightarrow> bool" where
  "keeps_poisoned e e' \<longleftrightarrow> (live e \<and> ac_poisoned e \<longrightarrow> e' = e)"

definition tables_keep :: "registry \<Rightarrow> registry \<Rightarrow> bool" where
  "tables_keep st st' \<longleftrightarrow> list_all2 keeps_poisoned (leases st) (leases st') \<and> list_all2 keeps_poisoned (tickets st) (tickets st') \<and>
     keeps_poisoned (management st) (management st') \<and> (io_abandoned st \<longrightarrow> io_abandoned st')"

lemma keeps_poisoned_simps [simp]: "keeps_poisoned e e" "keeps_poisoned e (e\<lparr>ac_poisoned := True\<rparr>)" "\<not> ac_poisoned e \<Longrightarrow> keeps_poisoned e e'" "keeps_poisoned e (poison_if p e)"
  "keeps_poisoned e (poison_token k e)" "list_all2 keeps_poisoned es es"
  by (simp_all add: keeps_poisoned_def poison_if_def poison_token_def list.rel_refl)

lemma keeps_map [simp]: "(\<And>e. keeps_poisoned e (f e)) \<Longrightarrow> list_all2 keeps_poisoned es (map f es)"
  by (simp add: list_all2_conv_all_nth)

lemma keeps_update [simp]: "\<not> live (es ! i) \<Longrightarrow> list_all2 keeps_poisoned es (es[i := e])"
  by (cases "i < length es") (auto simp: list_all2_conv_all_nth nth_list_update keeps_poisoned_def)

lemma release_keeps: "release_lease task k es = (r, es') \<Longrightarrow> list_all2 keeps_poisoned es es'"
  by (induction es arbitrary: es') (auto split: if_splits prod.splits)

lemma end_keeps: "list_all2 keeps_poisoned es (end_ticket k es)"
  by (induction es) auto

lemma reap_keeps: "reap_entries ts p es = Some (es', any) \<Longrightarrow> list_all2 keeps_poisoned es es'"
  by (induction es arbitrary: es' any) (auto simp: bind_eq_Some_conv)

lemma new_identity_tables:
  "new_identity st = (v, st1) \<Longrightarrow> leases st1 = leases st \<and> tickets st1 = tickets st \<and> management st1 = management st \<and> io_abandoned st1 = io_abandoned st"
  by (auto simp: new_identity_def split: if_splits)

lemma tables_keep_refl [simp]: "tables_keep st st"
  by (simp add: tables_keep_def)

lemma claim_result_keeps: "claim_result st task x exclusive scan = (r, st') \<Longrightarrow> tables_keep st st'"
  unfolding claim_result_def tables_keep_def
  by (auto split: if_splits option.splits prod.splits dest!: new_identity_tables dest: free_slot_Some)

lemma locked_keeps:
  assumes "\<And>st1. f (st\<lparr>access_lock := True\<rparr>) = Some (r, st1) \<Longrightarrow> tables_keep st st1" "locked st f = Some (r, st')"
  shows "tables_keep st st'"
  using assms by (auto elim!: lockedE simp: tables_keep_def)

lemma claim_lease_keeps:
  assumes "registry_inv st" "claim_lease (st\<lparr>access_lock := True\<rparr>) task x exclusive scan = Some (r, st')"
  shows "tables_keep st st'"
proof -
  have "claim_result (st\<lparr>access_lock := True\<rparr>) task x exclusive scan = (r, st')"
    using claim_lease_eq [OF resolve_defined, of "st\<lparr>access_lock := True\<rparr>"] assms by simp
  from claim_result_keeps [OF this] show ?thesis
    by (simp add: tables_keep_def)
qed

lemma io_begin_keeps:
  assumes "block_access_io_begin st task d g o' n k = Some (r, st')"
  shows "tables_keep st st'"
proof -
  have "\<not> live (tickets st ! i)" if "ticket_slot x 0 None (tickets st) = Inr (Some i)" for x i
    using that by (auto simp: ticket_slot_eq dest: free_slot_Some split: if_splits)
  then show ?thesis
    using assms unfolding block_access_io_begin_def Let_def
    by (elim if_SomeE lockedE bind_SomeE case_option_SomeE)
      (auto simp: tables_keep_def split: sum.splits option.splits prod.splits if_splits dest!: new_identity_tables)
qed

lemma flush_begin_keeps:
  assumes "block_access_flush_begin st task d g k = Some (r, st')"
  shows "tables_keep st st'"
proof -
  have "tables_keep st st2" if "block_access_resolve st d g x = Some (q, st1)" "tables_keep st1 st2" for x q st1 st2
    using resolve_unchanged [OF that(1)] that(2) by (auto simp: tables_keep_def)
  then show ?thesis
    using assms unfolding block_access_flush_begin_def
    by (auto elim!: bind_SomeE if_SomeE dest!: io_begin_keeps)
qed

lemma release_operation_keeps:
  assumes "block_access_release st task k = Some (r, st')"
  shows "tables_keep st st'"
proof -
  obtain q es where es: "release_lease task k (leases st) = (q, es)"
    by fastforce
  show ?thesis
    using assms release_keeps [OF es] es by (auto simp: block_access_release_def tables_keep_def elim!: lockedE)
qed

lemma lease_operations_keep:
  "block_access_poison st k = Some (u, st') \<Longrightarrow> tables_keep st st'"
  "block_access_io_end st k = Some (u, st') \<Longrightarrow> tables_keep st st'"
  "block_access_abandon_owner st p tid = Some (u, st') \<Longrightarrow> tables_keep st st'"
  "block_access_reap_abandoned st ts = Some (u, st') \<Longrightarrow> tables_keep st st'"
  unfolding block_access_poison_def block_access_io_end_def block_access_abandon_owner_def
    block_access_reap_abandoned_def tables_keep_def Let_def
  by (auto elim!: lockedE bind_SomeE case_option_SomeE dest: reap_keeps intro: end_keeps split: option.splits)

lemma device_operations_keep:
  "block_access_register_whole st task d n f = Some (r, st') \<Longrightarrow> tables_keep st st'"
  "block_access_register_slice st task d d' o' n = Some (r, st') \<Longrightarrow> tables_keep st st'"
  "block_access_publish_device st d g = Some (r, st') \<Longrightarrow> tables_keep st st'"
  "block_access_unregister st task d = Some (r, st') \<Longrightarrow> tables_keep st st'"
  unfolding block_access_register_whole_def block_access_register_slice_def block_access_publish_device_def block_access_unregister_def Let_def
  by (elim if_SomeE lockedE bind_SomeE case_option_SomeE,
      auto simp: tables_keep_def split: prod.splits if_splits dest!: new_identity_tables)+

lemma claim_operations_keep:
  assumes "registry_inv st"
  shows "block_access_claim st task x e k = Some (q, st') \<Longrightarrow> tables_keep st st'"
    and "block_access_scan_begin st task d k = Some (q, st') \<Longrightarrow> tables_keep st st'"
  unfolding block_access_claim_def block_access_scan_begin_def
  by (elim if_SomeE lockedE bind_SomeE case_option_SomeE,
      auto dest!: claim_lease_keeps [OF assms] simp: tables_keep_def)+

lemma management_operations_keep:
  "block_access_management_begin st task b = Some (q, st') \<Longrightarrow> tables_keep st st'"
  "block_access_management_end st task k = Some (u, st') \<Longrightarrow> tables_keep st st'"
  unfolding block_access_management_begin_def block_access_management_end_def Let_def
  by (elim if_SomeE lockedE, auto simp: tables_keep_def keeps_poisoned_def live_def split: prod.splits if_splits dest!: new_identity_tables)+

lemmas operations_keep = io_begin_keeps flush_begin_keeps release_operation_keeps lease_operations_keep device_operations_keep management_operations_keep

lemma access_step_keeps: "registry_inv st \<Longrightarrow> access_step op st = Some st' \<Longrightarrow> tables_keep st st'"
  by (cases op) (auto dest: operations_keep claim_operations_keep)

subsection \<open>The lock is released\<close>

lemma locked_releases: "locked st f = Some (r, st') \<Longrightarrow> \<not> access_lock st'"
  by (auto elim!: lockedE)

lemmas access_defs = block_access_register_whole_def block_access_register_slice_def block_access_publish_device_def
  block_access_unregister_def block_access_claim_def block_access_release_def block_access_poison_def block_access_io_begin_def
  block_access_io_end_def block_access_abandon_owner_def block_access_reap_abandoned_def block_access_scan_begin_def
  block_access_management_begin_def block_access_management_end_def

lemma flush_begin_releases:
  "block_access_flush_begin st task d g k = Some (r, st') \<Longrightarrow> \<not> access_lock st \<Longrightarrow> \<not> access_lock st'"
  unfolding block_access_flush_begin_def block_access_io_begin_def
  by (auto elim!: bind_SomeE if_SomeE dest!: locked_releases resolve_unchanged)

lemma access_step_releases: "access_step op st = Some st' \<Longrightarrow> \<not> access_lock st \<Longrightarrow> \<not> access_lock st'"
  by (cases op) (auto simp: access_defs dest: locked_releases flush_begin_releases split: if_splits option.splits)

lemma reachable_unlocked: "access_reachable st \<Longrightarrow> \<not> access_lock st"
  by (induction rule: access_reachable.induct) (auto simp: initial_registry_def dest: access_step_releases)

section \<open>Generations\<close>

text \<open>A registration stays what it was, ends, or gives way to one with a later generation.\<close>

definition devices_advance :: "registry \<Rightarrow> registry \<Rightarrow> bool" where
  "devices_advance st st' \<longleftrightarrow> next_identity st \<le> next_identity st' \<and>
     (\<forall>i < kDevices. rg_valid (devices st' ! i) \<longrightarrow>
        rg_valid (devices st ! i) \<and> rg_extent (devices st' ! i) = rg_extent (devices st ! i) \<or>
        next_identity st \<le> be_generation (rg_extent (devices st' ! i)))"

lemma devices_advance_same: "devices st' = devices st \<Longrightarrow> next_identity st \<le> next_identity st' \<Longrightarrow> devices_advance st st'"
  by (simp add: devices_advance_def)

lemma devices_advance_trans: "devices_advance a b \<Longrightarrow> devices_advance b c \<Longrightarrow> devices_advance a c"
proof -
  assume ab: "devices_advance a b" and bc: "devices_advance b c"
  have "rg_valid (devices a ! i) \<and> rg_extent (devices c ! i) = rg_extent (devices a ! i) \<or> next_identity a \<le> be_generation (rg_extent (devices c ! i))"
    if "i < kDevices" "rg_valid (devices c ! i)" for i
  proof (cases "next_identity b \<le> be_generation (rg_extent (devices c ! i))")
    case True
    then show ?thesis
      using ab order_trans [of "next_identity a" "next_identity b"] by (simp add: devices_advance_def)
  next
    case False
    then have "rg_valid (devices b ! i)" "rg_extent (devices c ! i) = rg_extent (devices b ! i)"
      using bc that by (auto simp: devices_advance_def)
    then show ?thesis
      using ab that(1) by (auto simp: devices_advance_def)
  qed
  then show "devices_advance a c"
    using ab bc order_trans [of "next_identity a" "next_identity b"] by (simp add: devices_advance_def)
qed

lemma devices_advance_locked [simp]:
  "devices_advance (st\<lparr>access_lock := l\<rparr>) st' = devices_advance st st'" "devices_advance st (st'\<lparr>access_lock := l\<rparr>) = devices_advance st st'"
  by (simp_all add: devices_advance_def)

lemma identity_advances: "new_identity st = (v, st1) \<Longrightarrow> devices st1 = devices st \<and> (v \<noteq> 0 \<longrightarrow> v = next_identity st \<and> next_identity st \<le> next_identity st1) \<and>
    (0 < next_identity st \<longrightarrow> next_identity st \<le> next_identity st1)"
  using less_imp_le [OF less_add_one_word [of "next_identity st"]] by (auto simp: new_identity_def split: if_splits)

lemma claim_result_advances: "0 < next_identity st \<Longrightarrow> claim_result st task x e s = (r, st') \<Longrightarrow> devices_advance st st'"
  unfolding claim_result_def
  by (auto split: if_splits option.splits prod.splits dest!: identity_advances intro!: devices_advance_same)

lemma identity_devices_advance: "0 < next_identity st \<Longrightarrow> new_identity st = (v, st1) \<Longrightarrow> devices_advance st st1"
  using identity_advances by (auto intro: devices_advance_same)

lemma nth_update_within: "i < length xs \<Longrightarrow> xs[d := r] ! i = (if i = d then r else xs ! i)"
  by (simp add: nth_list_update)

lemma add_device_advances:
  assumes "length (devices st) = kDevices" "new_identity st = (g, st1)" "g \<noteq> 0" "be_generation (rg_extent r) = g"
  shows "devices_advance st (st1\<lparr>devices := (devices st1)[d := r]\<rparr>)"
  using identity_advances [OF assms(2)] assms by (auto simp: devices_advance_def nth_update_within)

lemma device_operations_advance:
  assumes len: "length (devices st) = kDevices" "0 < next_identity st"
  shows "block_access_register_whole st task d n f = Some (r, st') \<Longrightarrow> devices_advance st st'"
    and "block_access_register_slice st task d d' o' n = Some (r, st') \<Longrightarrow> devices_advance st st'"
proof -
  note new = add_device_advances [of "st\<lparr>access_lock := True\<rparr>", simplified] and
    same = identity_devices_advance [of "st\<lparr>access_lock := True\<rparr>", simplified]
  show "block_access_register_whole st task d n f = Some (r, st') \<Longrightarrow> devices_advance st st'"
    unfolding block_access_register_whole_def Let_def
    by (elim if_SomeE lockedE bind_SomeE) (auto split: prod.splits if_splits intro!: new intro: devices_advance_same same simp: len)
  show "block_access_register_slice st task d d' o' n = Some (r, st') \<Longrightarrow> devices_advance st st'"
    unfolding block_access_register_slice_def Let_def
    by (elim if_SomeE lockedE bind_SomeE case_option_SomeE)
      (auto split: prod.splits if_splits intro!: new intro: devices_advance_same same simp: len)
qed

lemma withdraw_operations_advance:
  assumes len: "length (devices st) = kDevices"
  shows "block_access_publish_device st d g = Some (r, st') \<Longrightarrow> devices_advance st st'"
    and "block_access_unregister st task d = Some (r, st') \<Longrightarrow> devices_advance st st'"
  unfolding block_access_publish_device_def block_access_unregister_def Let_def withdraw_def
  by (elim if_SomeE lockedE bind_SomeE,
      auto simp: devices_advance_def device_at_Some nth_update_within len split: if_splits)+

lemma lease_operations_advance:
  assumes "registry_inv st"
  shows "block_access_claim st task x e k = Some (q, st') \<Longrightarrow> devices_advance st st'"
    and "block_access_scan_begin st task d k = Some (q, st') \<Longrightarrow> devices_advance st st'"
proof -
  have n: "0 < next_identity st" "registry_inv (st\<lparr>access_lock := True\<rparr>)"
    using assms registry_inv_def [of st] by simp_all
  have claim: "devices_advance st st1" if "claim_lease (st\<lparr>access_lock := True\<rparr>) task x e scan = Some (q, st1)" for x e scan st1
    using claim_lease_eq [OF resolve_defined [OF n(2)]] that claim_result_advances [of "st\<lparr>access_lock := True\<rparr>"] n(1) by simp
  show "block_access_claim st task x e k = Some (q, st') \<Longrightarrow> devices_advance st st'"
    unfolding block_access_claim_def by (elim if_SomeE lockedE) (auto dest: claim simp: devices_advance_same)
  show "block_access_scan_begin st task d k = Some (q, st') \<Longrightarrow> devices_advance st st'"
    unfolding block_access_scan_begin_def
    by (elim if_SomeE lockedE bind_SomeE case_option_SomeE) (auto dest: claim simp: devices_advance_same)
qed

lemma io_begin_advances:
  assumes "0 < next_identity st" "block_access_io_begin st task d g o' n k = Some (q, st')"
  shows "devices_advance st st'"
  using assms unfolding block_access_io_begin_def Let_def
  by (elim if_SomeE lockedE bind_SomeE case_option_SomeE)
    (auto split: sum.splits option.splits prod.splits if_splits dest!: identity_advances intro!: devices_advance_same)

lemma flush_begin_advances:
  assumes "0 < next_identity st" "block_access_flush_begin st task d g k = Some (q, st')"
  shows "devices_advance st st'"
proof -
  have "devices_advance st st2" if "block_access_resolve st d g x = Some (u, st1)"
    "block_access_io_begin st1 task d g' o' n b = Some (v, st2)" for x u st1 g' o' n b v st2
    using resolve_unchanged [OF that(1)] io_begin_advances [OF _ that(2)] assms(1) by auto
  moreover have "devices_advance st st1" if "block_access_resolve st d g x = Some (u, st1)" for x u st1
    using resolve_unchanged [OF that] by (auto simp: devices_advance_same)
  ultimately show ?thesis
    using assms(2) unfolding block_access_flush_begin_def by (auto elim!: bind_SomeE if_SomeE)
qed

lemma other_operations_advance:
  "block_access_release st task k = Some (r, st') \<Longrightarrow> devices_advance st st'"
  "block_access_poison st k = Some (u, st') \<Longrightarrow> devices_advance st st'"
  "block_access_io_end st k = Some (u, st') \<Longrightarrow> devices_advance st st'"
  "block_access_abandon_owner st p tid = Some (u, st') \<Longrightarrow> devices_advance st st'"
  "block_access_reap_abandoned st ts = Some (u, st') \<Longrightarrow> devices_advance st st'"
  "block_access_management_end st task k = Some (u, st') \<Longrightarrow> devices_advance st st'"
  unfolding block_access_release_def block_access_poison_def block_access_io_end_def block_access_abandon_owner_def
    block_access_reap_abandoned_def block_access_management_end_def Let_def
  by (auto elim!: lockedE bind_SomeE case_option_SomeE if_SomeE intro!: devices_advance_same split: prod.splits option.splits)

lemma management_begin_advances:
  "0 < next_identity st \<Longrightarrow> block_access_management_begin st task b = Some (q, st') \<Longrightarrow> devices_advance st st'"
  unfolding block_access_management_begin_def Let_def
  by (elim if_SomeE lockedE) (auto split: prod.splits if_splits dest!: identity_advances intro!: devices_advance_same)

lemmas operations_advance = device_operations_advance withdraw_operations_advance io_begin_advances flush_begin_advances
  other_operations_advance management_begin_advances

lemma access_step_advances:
  assumes "registry_inv st" "access_step op st = Some st'"
  shows "devices_advance st st'"
proof -
  have "length (devices st) = kDevices" "0 < next_identity st"
    using assms(1) by (simp_all add: registry_inv_def devices_ok_def)
  then show ?thesis
    using assms by (cases op) (auto dest: operations_advance lease_operations_advance)
qed

section \<open>Sequences of operations\<close>

fun access_run :: "access_op list \<Rightarrow> registry \<Rightarrow> registry option" where
  "access_run [] st = Some st"
| "access_run (op # ops) st = access_step op st \<bind> access_run ops"

lemma access_run_reachable: "access_reachable st \<Longrightarrow> access_run ops st = Some st' \<Longrightarrow> access_reachable st'"
  by (induction ops arbitrary: st) (auto simp: bind_eq_Some_conv intro: access_reachable.step)

lemma access_run_advances: "access_reachable st \<Longrightarrow> access_run ops st = Some st' \<Longrightarrow> devices_advance st st'"
  by (induction ops arbitrary: st)
    (auto simp: bind_eq_Some_conv devices_advance_same intro: access_reachable.step devices_advance_trans access_step_advances [OF reachable_inv])

lemma resolve_Some:
  assumes "registry_inv st" "resolve_device st d g = Some (Some x)"
  shows "unat d < kDevices" "rg_valid (devices st ! unat d)" "rg_extent (devices st ! unat d) = x" "g \<noteq> 0 \<Longrightarrow> be_generation x = g"
    "0 < be_generation x" "be_generation x < next_identity st"
proof -
  have x: "unat d < kDevices \<and> rg_valid (devices st ! unat d) \<and> rg_extent (devices st ! unat d) = x \<and> (g \<noteq> 0 \<longrightarrow> be_generation x = g)"
    using assms by (auto simp: resolve_device_def bind_eq_Some_conv device_at_Some Let_def registry_inv_def devices_ok_def split: if_splits)
  then show "unat d < kDevices" "rg_valid (devices st ! unat d)" "rg_extent (devices st ! unat d) = x" "g \<noteq> 0 \<Longrightarrow> be_generation x = g"
    by auto
  show "0 < be_generation x" "be_generation x < next_identity st"
    using x assms(1) by (auto simp: registry_inv_def devices_ok_def device_ok_def)
qed

lemma resolve_again:
  assumes inv: "registry_inv st" "registry_inv st'" "devices_advance st st'"
    and x: "resolve_device st d g = Some (Some x)" and y: "resolve_device st' d (be_generation x) = Some (Some y)"
  shows "y = x"
proof -
  note x' = resolve_Some [OF inv(1) x] and y' = resolve_Some [OF inv(2) y]
  have "be_generation y = be_generation x"
    using y'(4) x'(5) by auto
  then have "\<not> next_identity st \<le> be_generation y"
    using x'(6) by simp
  then show ?thesis
    using inv(3) x'(1-3) y'(1-3) by (auto simp: devices_advance_def)
qed

lemma keeps_trans: "keeps_poisoned a b \<Longrightarrow> keeps_poisoned b c \<Longrightarrow> keeps_poisoned a c"
  by (auto simp: keeps_poisoned_def)

lemma tables_keep_trans: "tables_keep a b \<Longrightarrow> tables_keep b c \<Longrightarrow> tables_keep a c"
  unfolding tables_keep_def by (auto intro: list_all2_trans [of keeps_poisoned keeps_poisoned] keeps_trans)

lemma access_run_keeps: "access_reachable st \<Longrightarrow> access_run ops st = Some st' \<Longrightarrow> tables_keep st st'"
  by (induction ops arbitrary: st)
    (auto simp: bind_eq_Some_conv intro: access_reachable.step access_step_keeps [OF reachable_inv] tables_keep_trans)

lemma io_begin_avoids_poison:
  assumes "block_access_io_begin st task d g o' n True = Some ((0, k), st')" "e \<in> set (leases st) \<union> set (tickets st)" "live e" "ac_poisoned e"
  shows "\<exists>t \<in> set (tickets st'). ac_token t = k \<and> \<not> extents_overlap (ac_extent e) (ac_extent t)"
proof -
  have "\<not> extents_overlap (ac_extent e) x"
    if "io_leases task x (leases st) = 0" "ticket_slot x 0 None (tickets st) = Inr s" for x s
    using that assms(2-4) by (auto simp: io_leases_0 ticket_slot_eq poisoned_over_def list_ex_iff live_def split: if_splits)
  moreover have "i < length (tickets st)" if "ticket_slot x 0 None (tickets st) = Inr (Some i)" for x i
    using that by (auto simp: ticket_slot_eq dest: free_slot_Some split: if_splits)
  ultimately show ?thesis
    using assms(1) unfolding block_access_io_begin_def Let_def
    by (elim if_SomeE lockedE bind_SomeE case_option_SomeE)
      (auto simp: EINVAL_def EIO_def ENODEV_def ENOSPC_def EOVERFLOW_def EBUSY_def ticket_slot_eq split: sum.splits option.splits prod.splits if_splits
        dest!: new_identity_tables intro!: bexI [OF _ set_update_memI])
qed

lemma claim_exact:
  assumes "access_reachable st"
  shows "block_access_claim st task x exclusive True =
    (case claim_result (st\<lparr>access_lock := True\<rparr>) task x exclusive False of (r, st1) \<Rightarrow> Some (r, st1\<lparr>access_lock := False\<rparr>))"
proof -
  have "registry_inv (st\<lparr>access_lock := True\<rparr>)"
    using reachable_inv [OF assms] by simp
  from claim_lease_eq [OF resolve_defined [OF this]] show ?thesis
    using reachable_unlocked [OF assms]
    by (simp add: block_access_claim_def locked_def spin_lock_def spin_unlock_def split: prod.splits)
qed

lemma claim_conflict:
  assumes reach: "access_reachable st" and run: "block_access_claim st task x exclusive True = Some ((r, k), st')"
    and e: "e \<in> set (leases st) \<union> set (tickets st)" "live e" "extents_overlap (ac_extent e) x"
  shows "r < 0 \<and> k = 0"
proof -
  have "find (conflicts x) (leases st @ tickets st) \<noteq> None"
    unfolding find_conflict_None using e by auto
  then show ?thesis
    using run by (auto simp: claim_exact [OF reach] claim_result_def conflict_error_def EIO_def EBUSY_def ENODEV_def EPERM_def
        split: prod.splits if_splits)
qed

definition claimable :: "registry \<Rightarrow> task \<Rightarrow> BlockExtent \<Rightarrow> bool \<Rightarrow> bool" where
  "claimable st task x exclusive \<longleftrightarrow> \<not> io_abandoned st \<and> resolve_device st (be_device x) (be_generation x) = Some (Some x) \<and>
     (exclusive \<longrightarrow> task \<noteq> None) \<and> (\<forall>e \<in> set (leases st) \<union> set (tickets st). \<not> conflicts x e) \<and>
     (\<exists>e \<in> set (leases st). \<not> live e) \<and> next_identity st \<noteq> - 1"

definition new_lease :: "u64 \<Rightarrow> task \<Rightarrow> BlockExtent \<Rightarrow> bool \<Rightarrow> Access" where
  "new_lease k task x exclusive = \<lparr>ac_extent = x, ac_token = k, ac_owner = (if exclusive then map_option fst task else None),
     ac_tid = (if exclusive then task_tid task else 0), ac_exclusive = exclusive, ac_poisoned = False, ac_scan = False\<rparr>"

lemma device_at_unlocked [simp]: "device_at (st\<lparr>access_lock := b\<rparr>) = device_at st"
  by (simp add: device_at_def fun_eq_iff)

lemma resolve_unlocked [simp]: "resolve_device (st\<lparr>access_lock := b\<rparr>) = resolve_device st"
  by (intro ext, unfold resolve_device_def device_at_unlocked) (rule refl)

lemma unlocked_same: "\<not> access_lock st \<Longrightarrow> st\<lparr>access_lock := False\<rparr> = st"
  by (cases st) simp

lemma claim_result_claimable:
  assumes "registry_inv st" "claimable st task x exclusive"
  obtains i where "i < kLeases" "\<not> live (leases st ! i)" "next_identity st \<noteq> 0"
    "claim_result st task x exclusive False = ((0, next_identity st), st\<lparr>next_identity := next_identity st + 1,
      leases := (leases st)[i := new_lease (next_identity st) task x exclusive]\<rparr>)"
proof -
  obtain i where i: "free_slot (leases st) = Some i"
    using assms(2) free_slot_None [of "leases st"] by (cases "free_slot (leases st)") (auto simp: claimable_def)
  have "find (conflicts x) (leases st @ tickets st) = None"
    unfolding find_conflict_None using assms(2) by (auto simp: claimable_def)
  then show ?thesis
    using that [of i] free_slot_Some [OF i] i assms
    by (auto simp: claim_result_def claimable_def new_identity_def new_lease_def registry_inv_def)
qed

lemma claim_result_refused:
  assumes "registry_inv st" "\<not> claimable st task x exclusive"
  shows "case claim_result st task x exclusive False of ((r, k), st') \<Rightarrow> r < 0 \<and> k = 0 \<and> st' = st"
proof (cases "find (conflicts x) (leases st @ tickets st)")
  case None
  then have free: "\<forall>e \<in> set (leases st) \<union> set (tickets st). \<not> conflicts x e"
    unfolding find_conflict_None by auto
  have n: "next_identity st \<noteq> 0"
    using assms(1) by (auto simp: registry_inv_def)
  have "next_identity st = - 1" if "free_slot (leases st) = Some i" "\<not> io_abandoned st"
    "resolve_device st (be_device x) (be_generation x) = Some (Some x)" "exclusive \<longrightarrow> task \<noteq> None" for i
    using assms(2) that free free_slot_None [of "leases st"] unfolding claimable_def by auto
  then show ?thesis
    using None n by (auto simp: claim_result_def new_identity_def EIO_def ENODEV_def EPERM_def ENOSPC_def EOVERFLOW_def split: option.splits)
next
  case (Some e)
  then show ?thesis
    by (simp add: claim_result_def conflict_error_def EIO_def ENODEV_def EPERM_def EBUSY_def)
qed

lemma claimable_unlocked [simp]: "claimable (st\<lparr>access_lock := b\<rparr>) = claimable st"
  by (simp add: claimable_def fun_eq_iff)

lemma find_lease_Some:
  "find_lease cur k p es = Inr (Some l) \<Longrightarrow> (l \<in> set es \<and> ac_token l = k \<or> p = Some l) \<and>
     (\<forall>e \<in> set es. conflicts cur e \<longrightarrow> \<not> ac_poisoned e)"
  by (induction es arbitrary: p) (auto simp: live_def split: if_splits)

lemma find_lease_error: "find_lease cur k p es = Inl r \<Longrightarrow> r = - EIO"
  by (induction es arbitrary: p) (auto split: if_splits)

lemma validate_owned_0:
  assumes "block_access_validate_owned_exclusive st task k w o' n = Some (0, st')"
  obtains l where "l \<in> set (leases st)" "ac_token l = k" "k \<noteq> 0" "ac_exclusive l" "ac_extent l = w" "access_owner l task" "task \<noteq> None"
    "whole_disk w" "o' \<le> be_bytes w" "n \<le> be_bytes w - o'"
    "\<forall>e \<in> set (leases st). conflicts w e \<longrightarrow> \<not> ac_poisoned e" "\<forall>e \<in> set (tickets st). conflicts w e \<longrightarrow> \<not> ac_poisoned e"
proof -
  have "\<not> poisoned_over w (tickets st) \<longleftrightarrow> (\<forall>e \<in> set (tickets st). conflicts w e \<longrightarrow> \<not> ac_poisoned e)"
    by (auto simp: poisoned_over_def list_ex_iff live_def)
  then show ?thesis
    using assms that unfolding block_access_validate_owned_exclusive_def
    by (elim if_SomeE lockedE bind_SomeE case_option_SomeE)
      (auto simp: exact_extent_eq whole_disk_def not_less EINVAL_def EIO_def ENODEV_def EPERM_def split: sum.splits option.splits if_splits
        dest!: find_lease_Some find_lease_error)
qed

lemma claim_cases:
  assumes "access_reachable st"
  shows "case block_access_claim st task x exclusive True of None \<Rightarrow> False
    | Some ((r, k), st') \<Rightarrow> (r = 0) = claimable st task x exclusive \<and>
        (if r = 0 then k = next_identity st \<and> k \<noteq> 0 \<and> (\<exists>i < kLeases. \<not> live (leases st ! i) \<and>
             st' = st\<lparr>next_identity := k + 1, leases := (leases st)[i := new_lease k task x exclusive]\<rparr>)
         else r < 0 \<and> k = 0 \<and> st' = st)"
proof -
  let ?st = "st\<lparr>access_lock := True\<rparr>"
  have inv: "registry_inv ?st" and free: "\<not> access_lock st"
    using reachable_inv [OF assms] reachable_unlocked [OF assms] by auto
  show ?thesis
  proof (cases "claimable st task x exclusive")
    case True
    then have "claimable ?st task x exclusive"
      by simp
    from claim_result_claimable [OF inv this] obtain i where i: "i < kLeases" "\<not> live (leases st ! i)" "next_identity st \<noteq> 0"
      "claim_result ?st task x exclusive False = ((0, next_identity st), ?st\<lparr>next_identity := next_identity st + 1,
        leases := (leases st)[i := new_lease (next_identity st) task x exclusive]\<rparr>)"
      by auto
    have "st\<lparr>next_identity := m, leases := ls, access_lock := False\<rparr> = st\<lparr>next_identity := m, leases := ls\<rparr>" for ls m
      using free by (cases st) simp
    then show ?thesis
      using True i by (auto simp: claim_exact [OF assms])
  next
    case False
    then have "\<not> claimable ?st task x exclusive"
      by simp
    from claim_result_refused [OF inv this] obtain r where "r < 0" "claim_result ?st task x exclusive False = ((r, 0), ?st)"
      by (auto split: prod.splits)
    then show ?thesis
      using False free by (simp add: claim_exact [OF assms] unlocked_same)
  qed
qed

section \<open>A sample run\<close>

definition holder :: task where
  "holder = Some (0x1000, \<lparr>t_status = RUNNING, t_parent_group = None, t_tid = 7\<rparr>)"

definition sample_disk :: BlockExtent where
  "sample_disk = \<lparr>be_device = 0, be_physical_device = 0, be_generation = 1, be_physical_generation = 1, be_start = 0, be_bytes = 0x10000\<rparr>"

definition state_after :: "access_op list \<Rightarrow> registry" where
  "state_after ops = (case access_run ops initial_registry of Some st \<Rightarrow> st | None \<Rightarrow> initial_registry)"

definition published_state :: registry where
  "published_state = state_after [RegisterWhole None 0 0x10000 True, Publish 0 1]"

definition held_state :: registry where
  "held_state = state_after [RegisterWhole None 0 0x10000 True, Publish 0 1, Claim holder sample_disk True, IoBegin holder 0 0 0x200 0x400]"

definition poisoned_state :: registry where
  "poisoned_state = state_after [RegisterWhole None 0 0x10000 True, Publish 0 1, Claim holder sample_disk True, Poison 2]"

lemma state_after_reachable: "access_reachable (state_after ops)"
  by (auto simp: state_after_def intro: access_run_reachable access_reachable.start split: option.splits)

lemma sample_reachable: "access_reachable published_state" "access_reachable held_state" "access_reachable poisoned_state"
  by (simp_all add: published_state_def held_state_def poisoned_state_def state_after_reachable)

lemma state_afterI: "(case access_run ops initial_registry of None \<Rightarrow> False | Some st \<Rightarrow> P st) \<Longrightarrow> P (state_after ops)"
  by (auto simp: state_after_def split: option.splits)

lemma published_facts: "claimable published_state holder sample_disk True \<and> next_identity published_state = 2"
  unfolding published_state_def by (rule state_afterI) code_simp

lemma published_reuse:
  "resolve_device published_state 0 1 = Some (Some sample_disk) \<and>
   access_run [Unregister None 0, RegisterWhole None 0 0x20000 True, Publish 0 2] published_state \<noteq> None"
  unfolding published_state_def by (rule state_afterI) code_simp

lemma held_entries:
  "leases held_state ! 0 = new_lease 2 holder sample_disk True \<and>
   tickets held_state ! 0 = \<lparr>ac_extent = sample_disk\<lparr>be_start := 0x200, be_bytes := 0x400\<rparr>, ac_token = 3, ac_owner = Some 0x1000, ac_tid = 7,
     ac_exclusive = False, ac_poisoned = False, ac_scan = False\<rparr> \<and> length (tickets held_state) = 128"
  unfolding held_state_def by (rule state_afterI) code_simp

lemma held_valid: "map_option fst (block_access_validate_owned_exclusive held_state holder 2 sample_disk 0x200 0x400) = Some 0"
  unfolding held_state_def by (rule state_afterI) code_simp

definition no_tasks :: tasks where
  "no_tasks = \<lparr>ts_tcb = (\<lambda>_. None), ts_referenced = (\<lambda>_. False)\<rparr>"

lemma poisoned_facts:
  "live (leases poisoned_state ! 0) \<and> ac_poisoned (leases poisoned_state ! 0) \<and> length (leases poisoned_state) = 64 \<and>
   access_run [Release holder 2, Reap no_tasks] poisoned_state \<noteq> None"
  unfolding poisoned_state_def by (rule state_afterI) code_simp

section \<open>Properties\<close>

lemma reachable_fits:
  assumes "access_reachable st" "l \<in> set (leases st)" "live l"
  shows "registered (devices st) (ac_extent l)" "extent_fits (ac_extent l)"
  using reachable_inv [OF assms(1)] assms(2,3) registered_ok by (auto simp: registry_inv_def device_ok_def)

lemma leases_apart:
  assumes "access_reachable st" "i < kLeases" "j < kLeases" "i \<noteq> j" "live (leases st ! i)" "live (leases st ! j)"
    "same_disk (ac_extent (leases st ! i)) (ac_extent (leases st ! j))"
  shows "extent_range (ac_extent (leases st ! i)) \<inter> extent_range (ac_extent (leases st ! j)) = {}"
proof -
  note inv = reachable_inv [OF assms(1), unfolded registry_inv_def]
  have "\<not> extents_overlap (ac_extent (leases st ! i)) (ac_extent (leases st ! j))"
    using inv assms by (auto simp: leases_disjoint_def)
  moreover have "extent_fits (ac_extent (leases st ! i))" "extent_fits (ac_extent (leases st ! j))"
    using inv assms by (auto intro!: reachable_fits(2) [OF assms(1)])
  ultimately show ?thesis
    using assms(7) by (simp add: extents_overlap_iff extent_fits_def)
qed

lemma exclusive_ticket:
  assumes "access_reachable st" "l \<in> set (leases st)" "live l" "ac_exclusive l" "t \<in> set (tickets st)" "live t"
    "same_disk (ac_extent l) (ac_extent t)" "extent_range (ac_extent l) \<inter> extent_range (ac_extent t) \<noteq> {}"
  shows "ac_owner t = ac_owner l \<and> ac_tid t = ac_tid l \<and> extent_range (ac_extent t) \<subseteq> extent_range (ac_extent l)"
proof -
  note inv = reachable_inv [OF assms(1), unfolded registry_inv_def]
  have f: "extent_fits (ac_extent l)" "extent_bounded (ac_extent t)"
    using reachable_fits(2) [OF assms(1-3)] inv assms(5,6) by auto
  then have "extents_overlap (ac_extent l) (ac_extent t)"
    using assms(7,8) by (simp add: extents_overlap_iff extent_fits_def extent_bounded_def)
  then have "ac_owner t = ac_owner l \<and> ac_tid t = ac_tid l \<and> extent_contains (ac_extent l) (ac_extent t)"
    using inv assms(2-6) by (auto simp: exclusive_holds_def)
  then show ?thesis
    using f(1) by (auto simp: extent_contains_iff extent_fits_def extent_range_def)
qed

text \<open>
  C3. In every state the operations can reach, a live lease names a registered device by its exact extent, no
  other live lease shares a byte of a disk with it, and when it is exclusive every running transfer that
  touches it belongs to its owner and stays inside it.
\<close>

theorem block_exclusion:
  assumes "access_reachable st" "i < kLeases" "live (leases st ! i)"
  shows "registered (devices st) (ac_extent (leases st ! i)) \<and>
    (\<forall>j < kLeases. i \<noteq> j \<longrightarrow> live (leases st ! j) \<longrightarrow> same_disk (ac_extent (leases st ! i)) (ac_extent (leases st ! j)) \<longrightarrow>
      extent_range (ac_extent (leases st ! i)) \<inter> extent_range (ac_extent (leases st ! j)) = {}) \<and>
    (ac_exclusive (leases st ! i) \<longrightarrow> (\<forall>t \<in> set (tickets st). live t \<longrightarrow> same_disk (ac_extent (leases st ! i)) (ac_extent t) \<longrightarrow>
      extent_range (ac_extent (leases st ! i)) \<inter> extent_range (ac_extent t) \<noteq> {} \<longrightarrow>
      ac_owner t = ac_owner (leases st ! i) \<and> ac_tid t = ac_tid (leases st ! i) \<and>
      extent_range (ac_extent t) \<subseteq> extent_range (ac_extent (leases st ! i))))"
proof -
  have "leases st ! i \<in> set (leases st)"
    using reachable_inv [OF assms(1)] assms(2) by (simp add: registry_inv_def)
  then show ?thesis
    using reachable_fits(1) [OF assms(1) _ assms(3)] leases_apart [OF assms(1,2) _ _ assms(3)] exclusive_ticket [OF assms(1) _ assms(3)]
    by blast
qed

theorem block_exclusion_witness:
  "registered (devices held_state) sample_disk \<and> live (tickets held_state ! 0) \<and>
   ac_owner (tickets held_state ! 0) = ac_owner (leases held_state ! 0) \<and>
   extent_range (ac_extent (tickets held_state ! 0)) \<subseteq> extent_range (ac_extent (leases held_state ! 0))"
proof -
  have t: "tickets held_state ! 0 \<in> set (tickets held_state)"
    using held_entries by (intro nth_mem) simp
  have l: "live (leases held_state ! 0)" "ac_exclusive (leases held_state ! 0)" "live (tickets held_state ! 0)"
    "ac_extent (leases held_state ! 0) = sample_disk" "same_disk (ac_extent (leases held_state ! 0)) (ac_extent (tickets held_state ! 0))"
    using held_entries by (simp_all add: live_def new_lease_def same_disk_def sample_disk_def)
  have "0x200 \<in> extent_range (ac_extent (leases held_state ! 0)) \<inter> extent_range (ac_extent (tickets held_state ! 0))"
    using held_entries by (simp add: extent_range_def new_lease_def sample_disk_def)
  then show ?thesis
    using block_exclusion [OF sample_reachable(2), of 0] t l by (auto simp: kLeases_def)
qed

text \<open>
  C9. A poisoned lease or transfer stays in its slot through every later sequence of operations, and from
  then on no claim and no transfer that overlaps its extent succeeds.
\<close>

theorem block_poison_permanent:
  assumes "access_reachable st" "e = (leases st @ tickets st) ! i" "i < kLeases + kTickets" "live e" "ac_poisoned e"
    "access_run ops st = Some st'"
  shows "(leases st' @ tickets st') ! i = e \<and>
    (\<forall>task x excl r k st''. extents_overlap (ac_extent e) x \<longrightarrow> block_access_claim st' task x excl True = Some ((r, k), st'') \<longrightarrow> r < 0 \<and> k = 0) \<and>
    (\<forall>task d g o' n k st''. block_access_io_begin st' task d g o' n True = Some ((0, k), st'') \<longrightarrow>
      (\<exists>t \<in> set (tickets st''). ac_token t = k \<and> \<not> extents_overlap (ac_extent e) (ac_extent t)))"
proof -
  have reach: "access_reachable st'"
    by (rule access_run_reachable [OF assms(1,6)])
  note inv = reachable_inv [OF assms(1), unfolded registry_inv_def] reachable_inv [OF reach, unfolded registry_inv_def]
  have keep: "list_all2 keeps_poisoned (leases st @ tickets st) (leases st' @ tickets st')"
    using access_run_keeps [OF assms(1,6)] by (auto simp: tables_keep_def intro: list_all2_appendI)
  have len: "i < length (leases st @ tickets st)"
    using inv(1) assms(3) by simp
  have same: "(leases st' @ tickets st') ! i = e"
    using list_all2_nthD [OF keep len] assms(2,4,5) by (simp add: keeps_poisoned_def)
  have "e \<in> set (leases st' @ tickets st')"
    unfolding same [symmetric] by (rule nth_mem) (use inv assms(3) in simp)
  then have mem: "e \<in> set (leases st') \<union> set (tickets st')"
    by simp
  have "r < 0 \<and> k = 0" if "extents_overlap (ac_extent e) x" "block_access_claim st' task x excl True = Some ((r, k), st'')" for task x excl r k st''
    by (rule claim_conflict [OF reach that(2) mem assms(4) that(1)])
  then show ?thesis
    using same io_begin_avoids_poison [OF _ mem assms(4,5)] by blast
qed

theorem block_poison_permanent_witness:
  "case access_run [Release holder 2, Reap no_tasks] poisoned_state of None \<Rightarrow> False
   | Some st' \<Rightarrow> (leases st' @ tickets st') ! 0 = (leases poisoned_state @ tickets poisoned_state) ! 0"
proof -
  obtain st' where st': "access_run [Release holder 2, Reap no_tasks] poisoned_state = Some st'"
    using poisoned_facts by blast
  have "live ((leases poisoned_state @ tickets poisoned_state) ! 0)" "ac_poisoned ((leases poisoned_state @ tickets poisoned_state) ! 0)"
    using poisoned_facts by (simp_all add: nth_append)
  from block_poison_permanent [OF sample_reachable(3) refl _ this st'] show ?thesis
    unfolding st' by (simp add: kLeases_def)
qed

text \<open>
  C18. A claim always returns. It returns 0 exactly when no transfer was abandoned, the extent is that of a
  published device of the same generation, an exclusive claim has a task, no live lease or transfer overlaps
  it, and a slot and an identity are left; then one free slot holds the lease and nothing else changed but
  the identity counter. Otherwise the result is negative and nothing changed.
\<close>

theorem block_claim_exact:
  assumes "access_reachable st"
  shows "case block_access_claim st task x exclusive True of None \<Rightarrow> False
    | Some ((r, k), st') \<Rightarrow> (r = 0) = claimable st task x exclusive \<and>
        (if r = 0 then k = next_identity st \<and> k \<noteq> 0 \<and> (\<exists>i < kLeases. \<not> live (leases st ! i) \<and>
             st' = st\<lparr>next_identity := k + 1, leases := (leases st)[i := new_lease k task x exclusive]\<rparr>)
         else r < 0 \<and> k = 0 \<and> st' = st)"
  by (rule claim_cases [OF assms])

theorem block_claim_exact_witness:
  "claimable published_state holder sample_disk True \<and>
   (case block_access_claim published_state holder sample_disk True True of None \<Rightarrow> False | Some ((r, k), st') \<Rightarrow> r = 0 \<and> k = 2 \<and> next_identity st' = 3)"
  using block_claim_exact [OF sample_reachable(1), of holder sample_disk True] published_facts by (auto split: option.splits prod.splits)

text \<open>
  C16. A captured generation names one registration for ever: when a device is looked up with the generation it
  had in an earlier reachable state, the look-up fails or gives the very extent of that time, whatever operations ran between.
\<close>

theorem block_generation_names_one:
  assumes "access_reachable st" "resolve_device st d g = Some (Some x)" "access_run ops st = Some st'"
  shows "resolve_device st' d (be_generation x) \<in> {Some None, Some (Some x)}"
proof -
  have reach: "access_reachable st'"
    by (rule access_run_reachable [OF assms(1,3)])
  obtain y where y: "resolve_device st' d (be_generation x) = Some y"
    using resolve_defined [OF reachable_inv [OF reach]] by blast
  then show ?thesis
    using resolve_again [OF reachable_inv [OF assms(1)] reachable_inv [OF reach] access_run_advances [OF assms(1,3)] assms(2)]
    by (cases y) auto
qed

theorem block_generation_names_one_witness:
  "case access_run [Unregister None 0, RegisterWhole None 0 0x20000 True, Publish 0 2] published_state of None \<Rightarrow> False
   | Some st' \<Rightarrow> resolve_device st' 0 (be_generation sample_disk) \<in> {Some None, Some (Some sample_disk)}"
proof -
  obtain st' where st': "access_run [Unregister None 0, RegisterWhole None 0 0x20000 True, Publish 0 2] published_state = Some st'"
    using published_reuse by blast
  show ?thesis
    unfolding st' using block_generation_names_one [OF sample_reachable(1) _ st', of 0 1 sample_disk] published_reuse by simp
qed

text \<open>
  C17. When the authority of a whole-device token is confirmed, the token names a live exclusive lease of the
  running task over exactly that device, no other live lease overlaps the device, every transfer running on it
  belongs to the running task, none of them is poisoned, and the window lies inside the device.
\<close>

theorem block_owned_valid:
  assumes "access_reachable st" "block_access_validate_owned_exclusive st task k w o' n = Some (0, st')"
  shows "whole_disk w \<and> {unat o' ..< unat o' + unat n} \<subseteq> extent_range w \<and>
    (\<exists>i < kLeases. ac_token (leases st ! i) = k \<and> ac_exclusive (leases st ! i) \<and> \<not> ac_poisoned (leases st ! i) \<and>
       ac_extent (leases st ! i) = w \<and> access_owner (leases st ! i) task \<and>
       (\<forall>j < kLeases. conflicts w (leases st ! j) \<longrightarrow> j = i)) \<and>
    (\<forall>t \<in> set (tickets st). conflicts w t \<longrightarrow> access_owner t task \<and> \<not> ac_poisoned t)"
proof -
  note inv = reachable_inv [OF assms(1), unfolded registry_inv_def]
  obtain l where l: "l \<in> set (leases st)" "ac_token l = k" "k \<noteq> 0" "ac_exclusive l" "ac_extent l = w" "access_owner l task" "task \<noteq> None"
    and w: "whole_disk w" "o' \<le> be_bytes w" "n \<le> be_bytes w - o'"
    and clean: "\<forall>e \<in> set (leases st). conflicts w e \<longrightarrow> \<not> ac_poisoned e" "\<forall>e \<in> set (tickets st). conflicts w e \<longrightarrow> \<not> ac_poisoned e"
    using validate_owned_0 [OF assms(2)] by metis
  have live: "live l"
    using l by (simp add: live_def)
  have self: "extents_overlap w w"
    using reachable_fits(2) [OF assms(1) l(1) live] l(5) extent_overlaps_self by simp
  obtain i where i: "i < kLeases" "leases st ! i = l"
    using l(1) inv by (auto simp: in_set_conv_nth)
  have only: "j = i" if "j < kLeases" "conflicts w (leases st ! j)" for j
    using inv i that live l(5) unfolding leases_disjoint_def by metis
  have own: "access_owner t task" if "t \<in> set (tickets st)" "conflicts w t" for t
    using inv l that live by (auto simp: exclusive_holds_def access_owner_def dest: extents_overlap_sym)
  have "unat o' + unat n \<le> unat (be_bytes w)"
    using w(2,3) by (simp add: word_le_nat_alt unat_sub)
  then have "{unat o' ..< unat o' + unat n} \<subseteq> extent_range w"
    using w(1) by (auto simp: extent_range_def whole_disk_def)
  then show ?thesis
    using w(1) i l live self clean only own by blast
qed

theorem block_owned_valid_witness:
  "whole_disk sample_disk \<and> (\<exists>i < kLeases. ac_token (leases held_state ! i) = 2 \<and> access_owner (leases held_state ! i) holder)"
proof -
  obtain st' where "block_access_validate_owned_exclusive held_state holder 2 sample_disk 0x200 0x400 = Some (0, st')"
    using held_valid by auto
  from block_owned_valid [OF sample_reachable(2) this] show ?thesis
    by auto
qed

end
