(* ===== verification/Devfs.thy ===== *)
theory Devfs
  imports BlockAccess
begin

text \<open>
  The device file system as the block devices are reached through it: the captured node of a registration,
  \<open>devfs_retain_block\<close> and \<open>block_access_resolve_node\<close> of \<^verbatim>\<open>driver/fs/vfs/dev.cpp\<close>, and the reference counts behind them,
  \<open>vfs_node_retiring_locked\<close> and the counting part of \<open>vfs_close\<close> in \<^verbatim>\<open>driver/fs/vfs/vfs.cpp\<close>. Nodes and handles are heaps of
  their own; the list of the children of a node is the list of its data pointers. What \<open>vfs_close\<close> does with
  the last reference or with a pipe or a terminal, which goes through the callbacks of the file systems, is an
  argument. Between the sections of a call other tasks run: \<open>o' k\<close> is what they do before section \<open>k\<close>.
\<close>

section \<open>Nodes and devices\<close>

definition E2BIG :: int where "E2BIG = 7"
definition ESTALE :: int where "ESTALE = 116"

definition file_dir :: u16 where "file_dir = 0x2"
definition file_block :: u16 where "file_block = 0x4"
definition file_pipe :: u16 where "file_pipe = 0x100"
definition file_ptmx :: u16 where "file_ptmx = 0x800"
definition file_pts :: u16 where "file_pts = 0x1000"
definition file_delete :: u16 where "file_delete = 0x4000"
definition file_unlinked :: u16 where "file_unlinked = 0x8000"

definition devfs_capture_nodes :: u32 where "devfs_capture_nodes = 4096"
definition devfs_capture_depth :: nat where "devfs_capture_depth = 32"

datatype device_flag_t = DEVICE_BLOCK | DEVICE_STREAM | DEVICE_FB

text \<open>The fields the code reads.\<close>

record device_t =
  dv_write :: ptr
  dv_flag :: int
  dv_size :: u64
  dv_sector_size :: u64
  dv_type :: device_flag_t
  dv_vdiskid :: u64

record RegisteredDeviceHandle =
  rh_device :: ptr
  rh_is_dir :: bool
  rh_generation :: u64

record vfs_node =
  vn_parent :: ptr
  vn_realsize :: u64
  vn_size :: u64
  vn_type :: u16
  vn_refcount :: u32
  vn_fsid :: u16
  vn_handle :: ptr
  vn_child :: "ptr list"
  vn_root :: ptr

record files =
  fs_nodes :: "addr \<rightharpoonup> vfs_node"
  fs_handles :: "addr \<rightharpoonup> RegisteredDeviceHandle"
  fs_device_ctl :: "device_t list"
  fs_devfs_id :: int
  fs_devfs_root :: ptr
  fs_rootdir :: ptr
  fs_readonly_unmounting :: "u16 \<Rightarrow> ptr"
  fs_retiring_subtrees :: "ptr list"

text \<open>
  The address of \<open>device_ctl\<close>, the size of one entry, the address of the function \<open>empty\<close>, and the rest of
  \<open>vfs_close\<close>.
\<close>

record devfs_env =
  de_device_ctl :: nat
  de_sizeof_device :: nat
  de_empty :: addr
  de_last_close :: "addr \<Rightarrow> files \<Rightarrow> int \<times> files"

text \<open>The tables of the system: those of the clients, the registry of block devices and the nodes.\<close>

record 't system =
  sy_table :: 't
  sy_registry :: registry
  sy_files :: files

definition device_address :: "devfs_env \<Rightarrow> nat \<Rightarrow> addr" where
  "device_address env d = de_device_ctl env + d * de_sizeof_device env"

definition device_ctl_at :: "files \<Rightarrow> nat \<Rightarrow> device_t option" where
  "device_ctl_at fs d = (if d < length (fs_device_ctl fs) then Some (fs_device_ctl fs ! d) else None)"

section \<open>Reference counts\<close>

function retiring_loop :: "files \<Rightarrow> ptr \<Rightarrow> nat \<Rightarrow> bool option" where
  "retiring_loop fs node depth =
     (case node of None \<Rightarrow> Some False
      | Some a \<Rightarrow>
          if depth > 128 then Some True
          else do {
            n \<leftarrow> fs_nodes fs a;
            if vn_fsid n < 256 \<and> fs_readonly_unmounting fs (vn_fsid n) = vn_root n then Some True
            else if node \<in> set (fs_retiring_subtrees fs) then Some True
            else retiring_loop fs (vn_parent n) (depth + 1)
          })"
  by auto
termination by (relation "measure (\<lambda>(fs, node, depth). 129 - depth)") auto

declare retiring_loop.simps [simp del]

definition vfs_node_retiring_locked :: "files \<Rightarrow> ptr \<Rightarrow> bool option" where
  "vfs_node_retiring_locked fs node = retiring_loop fs node 0"

definition vfs_close :: "devfs_env \<Rightarrow> files \<Rightarrow> ptr \<Rightarrow> (int \<times> files) option" where
  "vfs_close env fs node =
     (case node of None \<Rightarrow> Some (- 1, fs)
      | Some a \<Rightarrow>
          if node = fs_rootdir fs then Some (0, fs)
          else do {
            n \<leftarrow> fs_nodes fs a;
            let n = (if vn_refcount n > 0 then n\<lparr>vn_refcount := vn_refcount n - 1\<rparr> else n);
            let fs = fs\<lparr>fs_nodes := (fs_nodes fs)(a \<mapsto> n)\<rparr>;
            let endpoint = (vn_type n AND (file_pipe OR file_ptmx OR file_pts) \<noteq> 0);
            if \<not> endpoint \<and> vn_refcount n > 0 then Some (0, fs)
            else Some (de_last_close env a fs)
          })"

section \<open>The node of a registration\<close>

text \<open>The place of the device in \<open>device_ctl\<close>, \<open>None\<close> when the pointer is no entry of it.\<close>

definition device_index :: "devfs_env \<Rightarrow> addr \<Rightarrow> nat option" where
  "device_index env value =
     (let first = de_device_ctl env in
      if value < first \<or> value - first \<ge> 256 * de_sizeof_device env \<or> (value - first) mod de_sizeof_device env \<noteq> 0 then None
      else Some ((value - first) div de_sizeof_device env))"

definition block_access_resolve_node :: "devfs_env \<Rightarrow> files \<Rightarrow> registry \<Rightarrow> ptr \<Rightarrow> BlockExtent \<Rightarrow> (int \<times> BlockExtent) option" where
  "block_access_resolve_node env fs st node extent =
     (case node of None \<Rightarrow> Some (- ENODEV, extent)
      | Some a \<Rightarrow> do {
          n \<leftarrow> fs_nodes fs a;
          if uint (vn_fsid n) \<noteq> fs_devfs_id fs \<or> vn_type n AND file_block = 0 \<or> vn_handle n = None then Some (- ENODEV, extent)
          else do {
            handle \<leftarrow> deref (fs_handles fs) (vn_handle n);
            case rh_device handle of None \<Rightarrow> Some (- ENODEV, extent)
            | Some value \<Rightarrow>
                if rh_is_dir handle \<or> rh_generation handle = 0 then Some (- ENODEV, extent)
                else case device_index env value of None \<Rightarrow> Some (- ENODEV, extent)
                | Some d \<Rightarrow> do {
                    device \<leftarrow> device_ctl_at fs d;
                    if dv_type device \<noteq> DEVICE_BLOCK then Some (- ENODEV, extent)
                    else do {
                      ((result, extent), _) \<leftarrow> block_access_resolve st (of_nat d) (rh_generation handle) (Some extent);
                      extent \<leftarrow> extent;
                      Some (result, extent)
                    }
                  }
          }
        })"

record DevfsCapture =
  cp_device :: addr
  cp_generation :: u64
  cp_match :: ptr
  cp_visited :: u32
  cp_error :: int

text \<open>The test of one node: it may be the match, and must be the only one.\<close>

definition capture_node :: "files \<Rightarrow> addr \<Rightarrow> vfs_node \<Rightarrow> DevfsCapture \<Rightarrow> DevfsCapture option" where
  "capture_node fs a n capture =
     (if uint (vn_fsid n) = fs_devfs_id fs \<and> vn_handle n \<noteq> None \<and> vn_type n AND file_dir = 0 then do {
        handle \<leftarrow> deref (fs_handles fs) (vn_handle n);
        Some (if \<not> rh_is_dir handle \<and> rh_device handle = Some (cp_device capture) \<and> rh_generation handle = cp_generation capture
              then if cp_match capture \<noteq> None then capture\<lparr>cp_error := - EEXIST\<rparr> else capture\<lparr>cp_match := Some a\<rparr>
              else capture)
      }
      else Some capture)"

text \<open>The walk of the tree, and its loop over the children.\<close>

function devfs_capture_tree :: "files \<Rightarrow> ptr \<Rightarrow> nat \<Rightarrow> DevfsCapture \<Rightarrow> DevfsCapture option"
  and devfs_capture_children :: "files \<Rightarrow> ptr list \<Rightarrow> nat \<Rightarrow> DevfsCapture \<Rightarrow> DevfsCapture option" where
  "devfs_capture_tree fs node depth capture =
     (if cp_error capture \<noteq> 0 then Some capture
      else case node of None \<Rightarrow> Some (capture\<lparr>cp_error := - E2BIG\<rparr>)
      | Some a \<Rightarrow>
          if depth > devfs_capture_depth then Some (capture\<lparr>cp_error := - E2BIG\<rparr>)
          else let capture = capture\<lparr>cp_visited := cp_visited capture + 1\<rparr> in
            if cp_visited capture > devfs_capture_nodes then Some (capture\<lparr>cp_error := - E2BIG\<rparr>)
            else do {
              n \<leftarrow> fs_nodes fs a;
              retiring \<leftarrow> vfs_node_retiring_locked fs node;
              if retiring \<or> vn_type n AND (file_delete OR file_unlinked) \<noteq> 0 then Some capture
              else do {
                capture \<leftarrow> capture_node fs a n capture;
                devfs_capture_children fs (vn_child n) (depth + 1) capture
              }
            })"
| "devfs_capture_children fs [] depth capture = Some capture"
| "devfs_capture_children fs (entry # es) depth capture =
     (if cp_error capture \<noteq> 0 then Some capture
      else do {
        capture \<leftarrow> devfs_capture_tree fs entry depth capture;
        devfs_capture_children fs es depth capture
      })"
  by pat_completeness auto
termination
  by (relation "inv_image (less_than <*lex*> less_than) (\<lambda>x. case x of
        Inl (fs, node, depth, capture) \<Rightarrow> (Suc devfs_capture_depth - depth, 0 :: nat)
      | Inr (fs, es, depth, capture) \<Rightarrow> (Suc devfs_capture_depth - depth, Suc (length es)))") auto

declare devfs_capture_tree.simps [simp del]

section \<open>Retaining the node\<close>

record DevfsBlockReference =
  rf_node :: ptr
  rf_extent :: BlockExtent
  rf_bytes :: u64
  rf_sector_size :: u32
  rf_writable :: bool
  rf_quarantined :: bool

definition zero_reference :: DevfsBlockReference where
  "zero_reference = \<lparr>rf_node = None, rf_extent = zero_extent, rf_bytes = 0, rf_sector_size = 0, rf_writable = False, rf_quarantined = False\<rparr>"

definition devfs_same_extent :: "BlockExtent \<Rightarrow> BlockExtent \<Rightarrow> bool" where
  "devfs_same_extent a b \<longleftrightarrow> be_device a = be_device b \<and> be_physical_device a = be_physical_device b \<and> be_generation a = be_generation b \<and>
     be_physical_generation a = be_physical_generation b \<and> be_start a = be_start b \<and> be_bytes a = be_bytes b"

type_synonym 't others = "nat \<Rightarrow> 't system \<Rightarrow> 't system"

text \<open>The section under the child lock: the only node of the registration, with one more reference.\<close>

definition capture_match :: "files \<Rightarrow> addr \<Rightarrow> u64 \<Rightarrow> (int \<times> ptr \<times> files) option" where
  "capture_match fs hardware generation = do {
     unusable \<leftarrow> (case fs_devfs_root fs of None \<Rightarrow> Some True
       | Some a \<Rightarrow> do {
           n \<leftarrow> fs_nodes fs a;
           if uint (vn_fsid n) \<noteq> fs_devfs_id fs then Some True else vfs_node_retiring_locked fs (Some a)
         });
     if unusable then Some (- ENODEV, None, fs)
     else do {
       capture \<leftarrow> devfs_capture_tree fs (fs_devfs_root fs) 0
         \<lparr>cp_device = hardware, cp_generation = generation, cp_match = None, cp_visited = 0, cp_error = 0\<rparr>;
       if cp_error capture \<noteq> 0 then Some (cp_error capture, None, fs)
       else case cp_match capture of None \<Rightarrow> Some (- ENODEV, None, fs)
       | Some a \<Rightarrow> do {
           n \<leftarrow> fs_nodes fs a;
           if vn_refcount n = - 1 then Some (- EOVERFLOW, None, fs)
           else Some (0, Some a, fs\<lparr>fs_nodes := (fs_nodes fs)(a \<mapsto> n\<lparr>vn_refcount := vn_refcount n + 1\<rparr>)\<rparr>)
         }
     }
   }"

text \<open>The device is no longer the one of the extent; what is captured of it.\<close>

definition hardware_stale :: "device_t \<Rightarrow> u32 \<Rightarrow> BlockExtent \<Rightarrow> bool" where
  "hardware_stale hardware device before \<longleftrightarrow>
     dv_flag hardware = 0 \<or> dv_type hardware \<noteq> DEVICE_BLOCK \<or> dv_vdiskid hardware \<noteq> ucast device \<or> dv_size hardware = 0 \<or>
     dv_size hardware \<noteq> be_bytes before \<or> dv_sector_size hardware = 0 \<or> dv_sector_size hardware > 0xffffffff \<or>
     dv_size hardware mod dv_sector_size hardware \<noteq> 0"

definition captured_block :: "devfs_env \<Rightarrow> device_t \<Rightarrow> BlockExtent \<Rightarrow> DevfsBlockReference" where
  "captured_block env hardware before = zero_reference\<lparr>rf_extent := before, rf_bytes := dv_size hardware,
     rf_sector_size := ucast (dv_sector_size hardware), rf_writable := (dv_write hardware \<noteq> None \<and> dv_write hardware \<noteq> Some (de_empty env))\<rparr>"

text \<open>The capture: the extent is looked up, then the device is compared with it and the node is taken.\<close>

definition capture_block :: "devfs_env \<Rightarrow> 't others \<Rightarrow> nat \<Rightarrow> 't system \<Rightarrow> u32 \<Rightarrow> u64 \<Rightarrow> ((int \<times> DevfsBlockReference) \<times> 't system) option" where
  "capture_block env o' k sys device generation = do {
     let sys = o' k sys;
     ((result, before), _) \<leftarrow> block_access_resolve (sy_registry sys) device generation (Some zero_extent);
     before \<leftarrow> before;
     if result \<noteq> 0 then Some ((result, zero_reference), sys)
     else do {
       let sys = o' (k + 1) sys;
       let fs = sy_files sys;
       hardware \<leftarrow> device_ctl_at fs (unat device);
       if hardware_stale hardware device before then Some ((- ESTALE, zero_reference), sys)
       else do {
         (result, node, fs) \<leftarrow> capture_match fs (device_address env (unat device)) generation;
         Some ((result, (captured_block env hardware before)\<lparr>rf_node := node\<rparr>), sys\<lparr>sy_files := fs\<rparr>)
       }
     }
   }"

text \<open>The second look, when the node is held.\<close>

definition capture_again :: "devfs_env \<Rightarrow> 't others \<Rightarrow> nat \<Rightarrow> 't system \<Rightarrow> u32 \<Rightarrow> u64 \<Rightarrow> DevfsBlockReference \<Rightarrow> (int \<times> 't system) option" where
  "capture_again env o' k sys device generation captured = do {
     let sys = o' k sys;
     ((result, current), _) \<leftarrow> block_access_resolve (sy_registry sys) device generation (Some zero_extent);
     current \<leftarrow> current;
     if result \<noteq> 0 then Some (result, sys)
     else do {
       let sys = o' (k + 1) sys;
       (result, from_node) \<leftarrow> block_access_resolve_node env (sy_files sys) (sy_registry sys) (rf_node captured) zero_extent;
       if result \<noteq> 0 then Some (result, sys)
       else do {
         n \<leftarrow> deref (fs_nodes (sy_files sys)) (rf_node captured);
         Some (if \<not> devfs_same_extent (rf_extent captured) current \<or> \<not> devfs_same_extent (rf_extent captured) from_node \<or>
                  vn_size n \<noteq> rf_bytes captured \<or> vn_realsize n \<noteq> ucast (rf_sector_size captured) then - ESTALE else 0, sys)
       }
     }
   }"

text \<open>
  The sections are \<open>k\<close>, where the publication of devices is held back, \<open>k + 1\<close> and \<open>k + 2\<close> of the capture,
  \<open>k + 3\<close> and \<open>k + 4\<close> of the second look, \<open>k + 5\<close>, where publication goes on, and \<open>k + 6\<close>, where the node is closed.
\<close>

definition devfs_retain_block ::
  "devfs_env \<Rightarrow> 't others \<Rightarrow> nat \<Rightarrow> 't system \<Rightarrow> task \<Rightarrow> u32 \<Rightarrow> u64 \<Rightarrow> DevfsBlockReference option \<Rightarrow> ((int \<times> DevfsBlockReference option) \<times> 't system) option" where
  "devfs_retain_block env o' k sys task device generation output =
     (if output = None then Some ((- EINVAL, None), sys)
      else if device \<ge> 256 \<or> generation = 0 then Some ((- EINVAL, Some zero_reference), sys)
      else do {
        let sys = o' k sys;
        ((result, publication), st) \<leftarrow> block_access_management_begin (sy_registry sys) task True;
        let sys = sys\<lparr>sy_registry := st\<rparr>;
        if result \<noteq> 0 then Some ((result, Some zero_reference), sys)
        else do {
          ((result, captured), sys) \<leftarrow> capture_block env o' (k + 1) sys device generation;
          (result, sys) \<leftarrow> (if result = 0 then capture_again env o' (k + 3) sys device generation captured else Some (result, sys));
          let sys = o' (k + 5) sys;
          (_, st) \<leftarrow> block_access_management_end (sy_registry sys) task publication;
          let sys = sys\<lparr>sy_registry := st\<rparr>;
          if result \<noteq> 0 \<and> rf_node captured \<noteq> None then do {
            let sys = o' (k + 6) sys;
            (closed, fs) \<leftarrow> vfs_close env (sy_files sys) (rf_node captured);
            let sys = sys\<lparr>sy_files := fs\<rparr>;
            if closed \<noteq> 0 then Some ((if closed < 0 then closed else - EIO, Some (captured\<lparr>rf_quarantined := True\<rparr>)), sys)
            else Some ((result, Some zero_reference), sys)
          }
          else Some ((result, Some (if result = 0 then captured else zero_reference)), sys)
        }
      })"

section \<open>The leases of a task\<close>

definition same_task :: "task \<Rightarrow> task \<Rightarrow> bool" where
  "same_task a b \<longleftrightarrow> map_option fst a = map_option fst b \<and> task_tid a = task_tid b"

definition own :: "task \<Rightarrow> Access list \<Rightarrow> u64 set" where
  "own me es = ac_token ` {e \<in> set es. live e \<and> ac_exclusive e \<and> access_owner e me}"

text \<open>An operation another task runs: it claims and releases in the name of that task.\<close>

fun foreign :: "task \<Rightarrow> access_op \<Rightarrow> bool" where
  "foreign me (Claim task x e) = (\<not> same_task task me)"
| "foreign me (ScanBegin task d) = (\<not> same_task task me)"
| "foreign me (Release task k) = (\<not> same_task task me)"
| "foreign me _ = True"

definition same_holder :: "Access \<Rightarrow> Access \<Rightarrow> bool" where
  "same_holder e e' \<longleftrightarrow> ac_token e' = ac_token e \<and> ac_exclusive e' = ac_exclusive e \<and> ac_owner e' = ac_owner e \<and> ac_tid e' = ac_tid e"

lemma own_Cons [simp]: "own me (e # es) = (if live e \<and> ac_exclusive e \<and> access_owner e me then insert (ac_token e) (own me es) else own me es)"
  by (auto simp: own_def)

lemma own_Nil [simp]: "own me [] = {}"
  by (simp add: own_def)

lemma not_live_zero [simp]: "\<not> live zero_access"
  by (simp add: live_def zero_access_def)

lemma own_same_holder: "list_all2 same_holder es es' \<Longrightarrow> own me es' = own me es"
  by (induction rule: list_all2_induct) (auto simp: same_holder_def live_def access_owner_def)

lemma same_holder_simps [simp]: "same_holder e e" "same_holder e (poison_token k e)" "same_holder e (poison_if p e)" "same_holder e (e\<lparr>ac_poisoned := b\<rparr>)"
  by (simp_all add: same_holder_def poison_token_def poison_if_def)

lemma own_map: "(\<And>e. same_holder e (f e)) \<Longrightarrow> own me (map f es) = own me es"
  by (intro own_same_holder) (simp add: list_all2_conv_all_nth)

lemma own_update: "i < length es \<Longrightarrow> \<not> live (es ! i) \<Longrightarrow>
    own me (es[i := e]) = own me es \<union> (if live e \<and> ac_exclusive e \<and> access_owner e me then {ac_token e} else {})"
  by (induction es arbitrary: i) (auto split: nat.splits)

lemma reap_same_holder: "reap_entries ts p es = Some (es', any) \<Longrightarrow> list_all2 same_holder es es'"
  by (induction es arbitrary: es' any) (auto elim!: bind_SomeE split: if_splits prod.splits)

lemma release_foreign: "release_lease task k es = (r, es') \<Longrightarrow> \<not> same_task task me \<Longrightarrow> own me es' = own me es"
proof (induction es arbitrary: es')
  case (Cons e es)
  obtain q ds where ds: "release_lease task k es = (q, ds)" by fastforce
  show ?case
  proof (cases "ac_token e = k \<and> k \<noteq> 0")
    case True
    have "\<not> (access_owner e task \<and> access_owner e me)" using Cons.prems(2) by (auto simp: same_task_def access_owner_def)
    then show ?thesis using True Cons.prems(1) by (auto split: if_splits)
  next
    case False
    then have "es' = e # ds" "q = r" using Cons.prems(1) ds by auto
    then show ?thesis using Cons.IH [of ds] ds Cons.prems(2) by auto
  qed
qed simp

lemma own_live: "t \<in> own me es \<Longrightarrow> t \<in> ac_token ` set (filter live es)"
  by (auto simp: own_def)

lemma release_own:
  "release_lease task k es = (0, es') \<Longrightarrow> distinct (map ac_token (filter live es)) \<Longrightarrow> own me es' = own me es - {k} \<and> k \<notin> ac_token ` set (filter live es')"
proof (induction es arbitrary: es')
  case (Cons e es)
  obtain q ds where ds: "release_lease task k es = (q, ds)" by fastforce
  show ?case
  proof (cases "ac_token e = k \<and> k \<noteq> 0")
    case True
    then have "live e" "es' = zero_access # es" using Cons.prems(1) by (auto simp: live_def EPERM_def EIO_def split: if_splits)
    moreover have "k \<notin> ac_token ` set (filter live es)" using Cons.prems(2) True \<open>live e\<close> by auto
    ultimately show ?thesis using True own_live [of k me es] by auto
  next
    case False
    then have e: "es' = e # ds" "q = 0" using Cons.prems(1) ds by auto
    have "distinct (map ac_token (filter live es))" using Cons.prems(2) by (auto split: if_splits)
    then have "own me ds = own me es - {k}" "k \<notin> ac_token ` set (filter live ds)" using Cons.IH [of ds] ds e by auto
    moreover have "live e \<Longrightarrow> ac_token e \<noteq> k" using False by (auto simp: live_def)
    ultimately show ?thesis using e(1) by auto
  qed
qed (simp add: EINVAL_def)

abbreviation own_tokens :: "task \<Rightarrow> registry \<Rightarrow> u64 set" where
  "own_tokens me st \<equiv> own me (leases st)"

lemma tokens_distinct: "registry_inv st \<Longrightarrow> distinct (map ac_token (filter live (leases st)))"
proof -
  assume "registry_inv st"
  then have t: "tokens_ok (next_identity st) (slots st)" by (simp add: registry_inv_def)
  have "i < length (leases st) \<Longrightarrow> slots st ! i = leases st ! i \<and> i < length (slots st)" for i by (simp add: slots_def nth_append)
  then have "\<forall>i < length (leases st). \<forall>j < length (leases st). i \<noteq> j \<longrightarrow> live (leases st ! i) \<longrightarrow> ac_token (leases st ! j) \<noteq> ac_token (leases st ! i)"
    using t unfolding tokens_ok_def by metis
  moreover have "distinct (map ac_token (filter live es))"
    if "\<forall>i < length es. \<forall>j < length es. i \<noteq> j \<longrightarrow> live (es ! i) \<longrightarrow> ac_token (es ! j) \<noteq> ac_token (es ! i)" for es
    using that
  proof (induction es)
    case (Cons e es)
    have "\<forall>i < length es. \<forall>j < length es. i \<noteq> j \<longrightarrow> live (es ! i) \<longrightarrow> ac_token (es ! j) \<noteq> ac_token (es ! i)"
      using Cons.prems by (metis Suc_less_eq length_Cons nat.inject nth_Cons_Suc)
    moreover have "ac_token e \<noteq> ac_token d" if "live e" "d \<in> set es" for d
      using Cons.prems [rule_format, of 0 "Suc _"] that by (fastforce simp: in_set_conv_nth)
    ultimately show ?case using Cons.IH by auto
  qed simp
  ultimately show ?thesis by blast
qed

lemma leases_unlocked [simp]: "leases (st\<lparr>access_lock := b\<rparr>) = leases st"
  by simp

lemma same_leases:
  "block_access_register_whole st task d n f = Some (r, st') \<Longrightarrow> leases st' = leases st"
  "block_access_register_slice st task d d' o' n = Some (r, st') \<Longrightarrow> leases st' = leases st"
  "block_access_publish_device st d g = Some (r, st') \<Longrightarrow> leases st' = leases st"
  "block_access_unregister st task d = Some (r, st') \<Longrightarrow> leases st' = leases st"
  unfolding block_access_register_whole_def block_access_register_slice_def block_access_publish_device_def block_access_unregister_def Let_def
  by (elim if_SomeE lockedE bind_SomeE case_option_SomeE, auto split: prod.splits if_splits dest!: new_identity_tables)+

lemma same_leases_management:
  "block_access_management_begin st task b = Some (q, st') \<Longrightarrow> leases st' = leases st"
  "block_access_management_end st task k = Some (u, st') \<Longrightarrow> leases st' = leases st"
  "block_access_io_end st k = Some (u, st') \<Longrightarrow> leases st' = leases st"
  unfolding block_access_management_begin_def block_access_management_end_def block_access_io_end_def Let_def
  by (elim if_SomeE lockedE, auto split: prod.splits if_splits dest!: new_identity_tables)+

lemma same_leases_io: "block_access_io_begin st task d g o' n k = Some (r, st') \<Longrightarrow> leases st' = leases st"
  unfolding block_access_io_begin_def Let_def
  by (elim if_SomeE lockedE bind_SomeE case_option_SomeE) (auto split: sum.splits option.splits prod.splits if_splits dest!: new_identity_tables)

lemma same_leases_flush: "block_access_flush_begin st task d g k = Some (r, st') \<Longrightarrow> leases st' = leases st"
  unfolding block_access_flush_begin_def
  by (auto elim!: bind_SomeE if_SomeE dest!: same_leases_io resolve_unchanged)

lemma poisoning_own:
  "block_access_poison st k = Some (u, st') \<Longrightarrow> own_tokens me st' = own_tokens me st"
  "block_access_abandon_owner st p tid = Some (u, st') \<Longrightarrow> own_tokens me st' = own_tokens me st"
  "block_access_reap_abandoned st ts = Some (u, st') \<Longrightarrow> own_tokens me st' = own_tokens me st"
  unfolding block_access_poison_def block_access_abandon_owner_def block_access_reap_abandoned_def Let_def
  by (auto elim!: lockedE bind_SomeE case_option_SomeE simp: own_map dest!: reap_same_holder own_same_holder split: option.splits)

lemma claim_foreign:
  assumes "registry_inv st" "\<not> same_task task me" "me \<noteq> None" "claim_lease (st\<lparr>access_lock := True\<rparr>) task x e scan = Some (r, st')"
  shows "own_tokens me st' = own_tokens me st"
proof -
  have "claim_result (st\<lparr>access_lock := True\<rparr>) task x e scan = (r, st')"
    using claim_lease_eq [OF resolve_defined, of "st\<lparr>access_lock := True\<rparr>"] assms(1,4) by simp
  then show ?thesis
    using assms(2,3) unfolding claim_result_def
    by (auto split: if_splits option.splits prod.splits dest!: new_identity_tables free_slot_Some simp: own_update same_task_def access_owner_def)
qed

lemma foreign_keeps_own:
  assumes "registry_inv st" "foreign me op" "me \<noteq> None" "access_step op st = Some st'"
  shows "own_tokens me st' = own_tokens me st"
proof (cases op)
  case (Claim task x e)
  then show ?thesis using assms claim_foreign [OF assms(1) _ assms(3)] by (auto simp: block_access_claim_def elim!: lockedE)
next
  case (ScanBegin task d)
  then show ?thesis using assms claim_foreign [OF assms(1) _ assms(3)]
    by (auto simp: block_access_scan_begin_def elim!: lockedE bind_SomeE case_option_SomeE if_SomeE)
next
  case (Release task k)
  then obtain q es where "release_lease task k (leases st) = (q, es)" by fastforce
  then show ?thesis using Release assms release_foreign by (auto simp: block_access_release_def elim!: lockedE)
qed (use assms same_leases same_leases_management same_leases_io same_leases_flush poisoning_own in auto)

section \<open>Other tasks and the references\<close>

definition registry_next :: "registry \<Rightarrow> registry \<Rightarrow> bool" where
  "registry_next a b \<longleftrightarrow> (\<exists>op. access_step op a = Some b)"

definition foreign_next :: "task \<Rightarrow> registry \<Rightarrow> registry \<Rightarrow> bool" where
  "foreign_next me a b \<longleftrightarrow> (\<exists>op. foreign me op \<and> access_step op a = Some b)"

text \<open>The reference count and the type of every node, and the root of the tree of files.\<close>

definition pinned :: "files \<Rightarrow> (addr \<rightharpoonup> u32 \<times> u16) \<times> ptr" where
  "pinned fs = (\<lambda>a. map_option (\<lambda>n. (vn_refcount n, vn_type n)) (fs_nodes fs a), fs_rootdir fs)"

definition endpoint_type :: "u16 \<Rightarrow> bool" where
  "endpoint_type ty \<longleftrightarrow> ty AND (file_pipe OR file_ptmx OR file_pts) \<noteq> 0"

text \<open>
  The tree holds a reference to each node of a block device, and such a node is no pipe, no terminal and not the root.
\<close>

definition device_nodes_ok :: "devfs_env \<Rightarrow> files \<Rightarrow> bool" where
  "device_nodes_ok env fs \<longleftrightarrow> (\<forall>a n ha h d dev. fs_nodes fs a = Some n \<longrightarrow> vn_handle n = Some ha \<longrightarrow> fs_handles fs ha = Some h \<longrightarrow>
     device_ctl_at fs d = Some dev \<longrightarrow> dv_type dev = DEVICE_BLOCK \<longrightarrow> rh_device h = Some (device_address env d) \<longrightarrow>
     0 < vn_refcount n \<and> \<not> endpoint_type (vn_type n) \<and> fs_rootdir fs \<noteq> Some a)"

text \<open>
  What other tasks may do between two sections: steps \<open>T\<close> on the tables of the client, operations of theirs on the block
  devices, and any change of the tree of files that leaves the counts and types of the nodes alone.
\<close>

definition interferes :: "('t \<Rightarrow> 't \<Rightarrow> bool) \<Rightarrow> devfs_env \<Rightarrow> task \<Rightarrow> 't system \<Rightarrow> 't system \<Rightarrow> bool" where
  "interferes T env me s t \<longleftrightarrow> rtranclp T (sy_table s) (sy_table t) \<and> rtranclp (foreign_next me) (sy_registry s) (sy_registry t) \<and>
     pinned (sy_files t) = pinned (sy_files s) \<and> (device_nodes_ok env (sy_files s) \<longrightarrow> device_nodes_ok env (sy_files t))"

text \<open>
  Nothing is left behind: the exclusive leases of the task and all reference counts are those of before. One reference is
  left: the same but for one node.
\<close>

definition quiet :: "('t \<Rightarrow> 't \<Rightarrow> bool) \<Rightarrow> devfs_env \<Rightarrow> task \<Rightarrow> 't system \<Rightarrow> 't system \<Rightarrow> bool" where
  "quiet T env me s t \<longleftrightarrow> rtranclp T (sy_table s) (sy_table t) \<and> rtranclp registry_next (sy_registry s) (sy_registry t) \<and>
     own_tokens me (sy_registry t) = own_tokens me (sy_registry s) \<and>
     pinned (sy_files t) = pinned (sy_files s) \<and> (device_nodes_ok env (sy_files s) \<longrightarrow> device_nodes_ok env (sy_files t))"

definition one_more :: "addr \<Rightarrow> files \<Rightarrow> files \<Rightarrow> bool" where
  "one_more a fs fs' \<longleftrightarrow> (\<exists>c ty. fst (pinned fs) a = Some (c, ty) \<and> 0 < c \<and> c \<noteq> - 1 \<and> \<not> endpoint_type ty \<and> snd (pinned fs) \<noteq> Some a \<and>
     pinned fs' = ((fst (pinned fs))(a \<mapsto> (c + 1, ty)), snd (pinned fs)))"

definition took :: "('t \<Rightarrow> 't \<Rightarrow> bool) \<Rightarrow> devfs_env \<Rightarrow> task \<Rightarrow> addr \<Rightarrow> 't system \<Rightarrow> 't system \<Rightarrow> bool" where
  "took T env me a s t \<longleftrightarrow> rtranclp T (sy_table s) (sy_table t) \<and> rtranclp registry_next (sy_registry s) (sy_registry t) \<and>
     own_tokens me (sy_registry t) = own_tokens me (sy_registry s) \<and>
     one_more a (sy_files s) (sy_files t) \<and> (device_nodes_ok env (sy_files s) \<longrightarrow> device_nodes_ok env (sy_files t))"

lemma quiet_refl [simp]: "quiet T env me s s"
  by (simp add: quiet_def)

lemma quiet_trans: "quiet T env me s t \<Longrightarrow> quiet T env me t u \<Longrightarrow> quiet T env me s u"
  unfolding quiet_def by (auto intro: rtranclp_trans)

lemma quiet_took: "quiet T env me s t \<Longrightarrow> took T env me a t u \<Longrightarrow> took T env me a s u"
  unfolding quiet_def took_def one_more_def by (auto intro: rtranclp_trans)

lemma took_quiet: "took T env me a s t \<Longrightarrow> quiet T env me t u \<Longrightarrow> took T env me a s u"
  unfolding quiet_def took_def one_more_def by (auto intro: rtranclp_trans)

lemma steps_reachable: "rtranclp registry_next a b \<Longrightarrow> access_reachable a \<Longrightarrow> access_reachable b"
  by (induction rule: rtranclp_induct) (auto simp: registry_next_def intro: access_reachable.step)

lemma quiet_reachable: "quiet T env me s t \<Longrightarrow> access_reachable (sy_registry s) \<Longrightarrow> access_reachable (sy_registry t)"
  using steps_reachable unfolding quiet_def by blast

lemma took_reachable: "took T env me a s t \<Longrightarrow> access_reachable (sy_registry s) \<Longrightarrow> access_reachable (sy_registry t)"
  using steps_reachable unfolding took_def by blast

lemma foreign_steps:
  assumes "rtranclp (foreign_next me) a b" "access_reachable a" "me \<noteq> None"
  shows "rtranclp registry_next a b \<and> own_tokens me b = own_tokens me a"
  using assms(1)
proof (induction rule: rtranclp_induct)
  case (step b c)
  then obtain op where op: "foreign me op" "access_step op b = Some c" by (auto simp: foreign_next_def)
  have "registry_inv b" using step.IH steps_reachable assms(2) reachable_inv by blast
  then have "own_tokens me c = own_tokens me b" by (rule foreign_keeps_own [OF _ op(1) assms(3) op(2)])
  then show ?case using step.IH op(2) by (auto simp: registry_next_def intro: rtranclp.rtrancl_into_rtrancl)
qed simp

lemma interferes_quiet: "interferes T env me s t \<Longrightarrow> access_reachable (sy_registry s) \<Longrightarrow> me \<noteq> None \<Longrightarrow> quiet T env me s t"
  using foreign_steps [of me "sy_registry s" "sy_registry t"] unfolding interferes_def quiet_def by blast

lemma own_step_quiet:
  "access_step op (sy_registry s) = Some st \<Longrightarrow> own_tokens me st = own_tokens me (sy_registry s) \<Longrightarrow> quiet T env me s (s\<lparr>sy_registry := st\<rparr>)"
  unfolding quiet_def by (auto simp: registry_next_def intro!: r_into_rtranclp)

section \<open>The captured node\<close>

text \<open>The match is a node whose handle names the device and the generation.\<close>

definition handle_names :: "files \<Rightarrow> addr \<Rightarrow> addr \<Rightarrow> u64 \<Rightarrow> bool" where
  "handle_names fs a hardware generation \<longleftrightarrow> (\<exists>n ha h. fs_nodes fs a = Some n \<and> vn_handle n = Some ha \<and> fs_handles fs ha = Some h \<and>
     rh_device h = Some hardware \<and> rh_generation h = generation)"

definition capture_ok :: "files \<Rightarrow> DevfsCapture \<Rightarrow> DevfsCapture \<Rightarrow> bool" where
  "capture_ok fs c c' \<longleftrightarrow> cp_device c' = cp_device c \<and> cp_generation c' = cp_generation c \<and>
     (\<forall>a. cp_match c' = Some a \<longrightarrow> cp_match c = Some a \<or> handle_names fs a (cp_device c) (cp_generation c))"

lemma capture_ok_trans: "capture_ok fs a b \<Longrightarrow> capture_ok fs b c \<Longrightarrow> capture_ok fs a c"
  by (auto simp: capture_ok_def)

lemma capture_node_ok: "fs_nodes fs a = Some n \<Longrightarrow> capture_node fs a n c = Some c' \<Longrightarrow> capture_ok fs c c'"
  by (auto simp: capture_node_def capture_ok_def handle_names_def deref_def elim!: bind_SomeE split: if_splits option.splits)

lemma capture_tree_ok:
  "devfs_capture_tree fs node depth c = Some c' \<Longrightarrow> capture_ok fs c c'"
  "devfs_capture_children fs nodes depth c = Some c' \<Longrightarrow> capture_ok fs c c'"
proof (induction fs node depth c and fs nodes depth c arbitrary: c' and c' rule: devfs_capture_tree_devfs_capture_children.induct)
  case (1 fs node depth c)
  let ?c = "c\<lparr>cp_visited := cp_visited c + 1\<rparr>"
  show ?case
  proof (cases "cp_error c = 0 \<and> node \<noteq> None \<and> depth \<le> devfs_capture_depth \<and> cp_visited ?c \<le> devfs_capture_nodes")
    case False
    then show ?thesis using "1.prems" by (subst (asm) devfs_capture_tree.simps) (auto simp: Let_def capture_ok_def split: if_splits option.splits)
  next
    case True
    then obtain a where a: "node = Some a" by auto
    from "1.prems" True a obtain n r where n: "fs_nodes fs a = Some n" "vfs_node_retiring_locked fs node = Some r"
      by (subst (asm) devfs_capture_tree.simps) (auto simp: Let_def elim!: bind_SomeE split: if_splits)
    show ?thesis
    proof (cases "r \<or> vn_type n AND (file_delete OR file_unlinked) \<noteq> 0")
      case r: True
      then show ?thesis using "1.prems" True a n by (subst (asm) devfs_capture_tree.simps) (auto simp: Let_def capture_ok_def split: if_splits)
    next
      case r: False
      then obtain d where d: "capture_node fs a n ?c = Some d" "devfs_capture_children fs (vn_child n) (depth + 1) d = Some c'"
        using "1.prems" True a n by (subst (asm) devfs_capture_tree.simps) (auto simp: Let_def elim!: bind_SomeE split: if_splits)
      have "capture_ok fs d c'" by (rule "1.IH") (use True a n r d in \<open>auto simp: not_less\<close>)
      moreover have "capture_ok fs c d" using capture_node_ok [OF n(1) d(1)] by (simp add: capture_ok_def)
      ultimately show ?thesis using capture_ok_trans by blast
    qed
  qed
next
  case (2 fs depth c)
  then show ?case by (simp add: capture_ok_def)
next
  case (3 fs entry es depth c)
  show ?case
  proof (cases "cp_error c = 0")
    case True
    then obtain d where "devfs_capture_tree fs entry depth c = Some d" "devfs_capture_children fs es depth d = Some c'"
      using "3.prems" by (auto elim!: bind_SomeE)
    then show ?thesis using "3.IH" True capture_ok_trans by blast
  qed (use "3.prems" in \<open>simp add: capture_ok_def\<close>)
qed

lemma capture_match_cases:
  assumes "capture_match fs hardware generation = Some (r, node, fs')"
  shows "r \<noteq> 0 \<and> node = None \<and> fs' = fs \<or>
    r = 0 \<and> (\<exists>a n. node = Some a \<and> fs_nodes fs a = Some n \<and> vn_refcount n \<noteq> - 1 \<and> handle_names fs a hardware generation \<and>
      fs' = fs\<lparr>fs_nodes := (fs_nodes fs)(a \<mapsto> n\<lparr>vn_refcount := vn_refcount n + 1\<rparr>)\<rparr>)"
proof (cases "r = 0")
  case False
  then show ?thesis using assms unfolding capture_match_def by (auto elim!: bind_SomeE split: if_splits option.splits)
next
  case True
  then obtain c a n where c: "devfs_capture_tree fs (fs_devfs_root fs) 0
      \<lparr>cp_device = hardware, cp_generation = generation, cp_match = None, cp_visited = 0, cp_error = 0\<rparr> = Some c" "cp_match c = Some a"
    "fs_nodes fs a = Some n" "vn_refcount n \<noteq> - 1" "node = Some a" "fs' = fs\<lparr>fs_nodes := (fs_nodes fs)(a \<mapsto> n\<lparr>vn_refcount := vn_refcount n + 1\<rparr>)\<rparr>"
    using assms unfolding capture_match_def by (auto elim!: bind_SomeE simp: ENODEV_def EOVERFLOW_def split: if_splits option.splits)
  then have "handle_names fs a hardware generation" using capture_tree_ok(1) [OF c(1)] by (simp add: capture_ok_def)
  then show ?thesis using c True by blast
qed

section \<open>What a call leaves behind\<close>

definition others_ok :: "('t \<Rightarrow> 't \<Rightarrow> bool) \<Rightarrow> devfs_env \<Rightarrow> task \<Rightarrow> 't others \<Rightarrow> bool" where
  "others_ok T env me o' \<longleftrightarrow> (\<forall>k s. interferes T env me s (o' k s))"

lemma other_quiet: "others_ok T env me o' \<Longrightarrow> access_reachable (sy_registry s) \<Longrightarrow> me \<noteq> None \<Longrightarrow> quiet T env me s (o' k s)"
  using interferes_quiet unfolding others_ok_def by blast

lemma count_up:
  assumes "fs_nodes fs a = Some n" "vn_refcount n \<noteq> - 1" "handle_names fs a (device_address env d) g" "device_nodes_ok env fs"
    and "device_ctl_at fs d = Some dev" "dv_type dev = DEVICE_BLOCK"
  defines "fs' \<equiv> fs\<lparr>fs_nodes := (fs_nodes fs)(a \<mapsto> n\<lparr>vn_refcount := vn_refcount n + 1\<rparr>)\<rparr>"
  shows "one_more a fs fs' \<and> device_nodes_ok env fs'"
proof -
  have n: "0 < vn_refcount n" "\<not> endpoint_type (vn_type n)" "fs_rootdir fs \<noteq> Some a"
    using assms(1,3-6) unfolding device_nodes_ok_def handle_names_def by fastforce+
  have "0 < vn_refcount n + 1" using assms(2) by (metis add.commute add_eq_0_iff word_neq_0_conv)
  then have "device_nodes_ok env fs'"
    using assms(4) n unfolding device_nodes_ok_def fs'_def by (auto simp: device_ctl_at_def) (metis assms(1))+
  moreover have "one_more a fs fs'" using n assms(1,2) by (auto simp: one_more_def pinned_def fs'_def)
  ultimately show ?thesis by blast
qed

lemma close_took:
  assumes "took T env me a s t"
  obtains fs where "vfs_close env (sy_files t) (Some a) = Some (0, fs)" "quiet T env me s (t\<lparr>sy_files := fs\<rparr>)"
proof -
  let ?fs = "sy_files t"
  obtain c ty where c: "fst (pinned (sy_files s)) a = Some (c, ty)" "0 < c" "c \<noteq> - 1" "\<not> endpoint_type ty" "snd (pinned (sy_files s)) \<noteq> Some a"
    "pinned ?fs = ((fst (pinned (sy_files s)))(a \<mapsto> (c + 1, ty)), snd (pinned (sy_files s)))"
    using assms by (auto simp: took_def one_more_def)
  then obtain n where n: "fs_nodes ?fs a = Some n" "vn_refcount n = c + 1" "vn_type n = ty" "fs_rootdir ?fs \<noteq> Some a"
    by (auto simp: pinned_def fun_eq_iff split: if_splits)
  have up: "0 < c + 1" using c(3) by (metis add.commute add_eq_0_iff word_neq_0_conv)
  let ?fs' = "?fs\<lparr>fs_nodes := (fs_nodes ?fs)(a \<mapsto> n\<lparr>vn_refcount := c\<rparr>)\<rparr>"
  have "vfs_close env ?fs (Some a) = Some (0, ?fs')"
    using n c(2,4) up by (auto simp: vfs_close_def endpoint_type_def)
  moreover have "pinned ?fs' = pinned (sy_files s)"
    using c(1,6) n(3) by (auto simp: pinned_def fun_eq_iff split: if_splits)
  moreover have "device_nodes_ok env ?fs \<longrightarrow> device_nodes_ok env ?fs'"
    using n c(2,4) unfolding device_nodes_ok_def by (auto simp: device_ctl_at_def)
  ultimately show ?thesis using that [of ?fs'] assms unfolding took_def quiet_def by simp
qed

lemma resolve_reachable: "access_reachable st \<Longrightarrow> block_access_resolve st d g x = Some (q, st') \<Longrightarrow> st' = st"
  using resolve_unchanged reachable_unlocked unlocked_same by metis

lemma capture_block_cases:
  assumes run: "capture_block env o' k s device generation = Some ((r, c), t)"
  obtains (none) "r \<noteq> 0" "c = zero_reference" "t = o' k s \<or> t = o' (k + 1) (o' k s)"
  | (capture) hw node fs where "device_ctl_at (sy_files (o' (k + 1) (o' k s))) (unat device) = Some hw" "dv_type hw = DEVICE_BLOCK"
      "capture_match (sy_files (o' (k + 1) (o' k s))) (device_address env (unat device)) generation = Some (r, node, fs)"
      "rf_node c = node" "\<not> rf_quarantined c" "t = (o' (k + 1) (o' k s))\<lparr>sy_files := fs\<rparr>"
proof -
  let ?s1 = "o' k s" and ?s2 = "o' (k + 1) (o' k s)"
  obtain q x st where q: "block_access_resolve (sy_registry ?s1) device generation (Some zero_extent) = Some ((q, Some x), st)"
    using run unfolding capture_block_def Let_def by (auto elim!: bind_SomeE)
  show ?thesis
  proof (cases "q = 0")
    case False
    then show ?thesis using run q none unfolding capture_block_def Let_def by auto
  next
    case True
    then obtain hw where hw: "device_ctl_at (sy_files ?s2) (unat device) = Some hw"
      using run q unfolding capture_block_def Let_def by (auto elim!: bind_SomeE)
    show ?thesis
    proof (cases "hardware_stale hw device x")
      case st: True
      then show ?thesis using run q True hw none unfolding capture_block_def Let_def by (auto simp: ESTALE_def)
    next
      case st: False
      then obtain node fs where "capture_match (sy_files ?s2) (device_address env (unat device)) generation = Some (r, node, fs)"
        "c = (captured_block env hw x)\<lparr>rf_node := node\<rparr>" "t = ?s2\<lparr>sy_files := fs\<rparr>"
        using run q True hw unfolding capture_block_def Let_def by (auto elim!: bind_SomeE)
      moreover have "dv_type hw = DEVICE_BLOCK" using st by (simp add: hardware_stale_def)
      ultimately show ?thesis using capture hw by (auto simp: captured_block_def zero_reference_def)
    qed
  qed
qed

lemma capture_block_outcome:
  assumes "others_ok T env me o'" "me \<noteq> None" "access_reachable (sy_registry s)" "device_nodes_ok env (sy_files s)"
    and run: "capture_block env o' k s device generation = Some ((r, c), t)"
  shows "\<not> rf_quarantined c \<and> (if r = 0 then \<exists>a. rf_node c = Some a \<and> took T env me a s t else rf_node c = None \<and> quiet T env me s t)"
proof -
  let ?s1 = "o' k s" and ?s2 = "o' (k + 1) (o' k s)"
  have q1: "quiet T env me s ?s1" by (rule other_quiet [OF assms(1,3,2)])
  have q2: "quiet T env me s ?s2"
    using quiet_trans [OF q1 other_quiet [OF assms(1) quiet_reachable [OF q1 assms(3)] assms(2)]] .
  have ok2: "device_nodes_ok env (sy_files ?s2)" using q2 assms(4) by (simp add: quiet_def)
  from run show ?thesis
  proof (cases rule: capture_block_cases)
    case none
    then show ?thesis using q1 q2 by (auto simp: zero_reference_def)
  next
    case h: (capture hw node fs)
    show ?thesis
    proof (cases "r = 0")
      case True
      then obtain a n where a: "node = Some a" "fs_nodes (sy_files ?s2) a = Some n" "vn_refcount n \<noteq> - 1"
        "handle_names (sy_files ?s2) a (device_address env (unat device)) generation"
        "fs = (sy_files ?s2)\<lparr>fs_nodes := (fs_nodes (sy_files ?s2))(a \<mapsto> n\<lparr>vn_refcount := vn_refcount n + 1\<rparr>)\<rparr>"
        using capture_match_cases [OF h(3)] by auto
      from count_up [OF a(2-4) ok2 h(1,2)] a(5) have "took T env me a ?s2 t" unfolding took_def h(6) by simp
      then show ?thesis using quiet_took [OF q2] h(4,5) a(1) True by auto
    next
      case False
      then have "fs = sy_files ?s2" "node = None" using capture_match_cases [OF h(3)] by auto
      then show ?thesis using q2 h False by simp
    qed
  qed
qed

lemma capture_again_quiet:
  assumes "others_ok T env me o'" "me \<noteq> None" "access_reachable (sy_registry s)"
    and "capture_again env o' k s device generation c = Some (r, t)"
  shows "quiet T env me s t"
proof -
  have q1: "quiet T env me s (o' k s)" by (rule other_quiet [OF assms(1,3,2)])
  then have q2: "quiet T env me s (o' (k + 1) (o' k s))"
    using quiet_trans other_quiet [OF assms(1) quiet_reachable [OF _ assms(3)] assms(2)] by blast
  have "t = o' k s \<or> t = o' (k + 1) (o' k s)"
    using assms(4) unfolding capture_again_def Let_def by (auto elim!: bind_SomeE split: if_splits prod.splits)
  then show ?thesis using q1 q2 by auto
qed

lemma management_quiet:
  "block_access_management_begin (sy_registry s) task True = Some (q, st) \<Longrightarrow> quiet T env me s (s\<lparr>sy_registry := st\<rparr>)"
  "block_access_management_end (sy_registry s) task p = Some (u, st) \<Longrightarrow> quiet T env me s (s\<lparr>sy_registry := st\<rparr>)"
  using own_step_quiet [of "ManagementBegin task" s st] own_step_quiet [of "ManagementEnd task p" s st] same_leases_management by auto

text \<open>Both looks at the device: with a node its reference is held, without one the result is an error.\<close>

definition captured_held :: "('t \<Rightarrow> 't \<Rightarrow> bool) \<Rightarrow> devfs_env \<Rightarrow> task \<Rightarrow> ptr \<Rightarrow> int \<Rightarrow> 't system \<Rightarrow> 't system \<Rightarrow> bool" where
  "captured_held T env me n r s t \<longleftrightarrow> (case n of None \<Rightarrow> r \<noteq> 0 \<and> quiet T env me s t | Some a \<Rightarrow> took T env me a s t)"

lemma captured_quiet:
  "captured_held T env me n r s t \<Longrightarrow> quiet T env me t u \<Longrightarrow> captured_held T env me n r s u"
  "quiet T env me s t \<Longrightarrow> captured_held T env me n r t u \<Longrightarrow> captured_held T env me n r s u"
  by (auto simp: captured_held_def split: option.splits intro: quiet_trans took_quiet quiet_took)

lemma captured_reachable: "captured_held T env me n r s t \<Longrightarrow> access_reachable (sy_registry s) \<Longrightarrow> access_reachable (sy_registry t)"
  by (auto simp: captured_held_def split: option.splits intro: quiet_reachable took_reachable)

lemma both_looks:
  assumes "others_ok T env me o'" "me \<noteq> None" "access_reachable (sy_registry s)" "device_nodes_ok env (sy_files s)"
    and "capture_block env o' k s device generation = Some ((r1, c), s2)"
    and again: "(if r1 = 0 then capture_again env o' j s2 device generation c else Some (r1, s2)) = Some (r2, s3)"
  shows "\<not> rf_quarantined c \<and> captured_held T env me (rf_node c) r2 s s3"
proof -
  note out = capture_block_outcome [OF assms(1-5)]
  show ?thesis
  proof (cases "r1 = 0")
    case True
    then obtain a where a: "rf_node c = Some a" "took T env me a s s2" using out by auto
    have "quiet T env me s2 s3"
      using capture_again_quiet [OF assms(1,2) took_reachable [OF a(2) assms(3)]] again True by simp
    then show ?thesis using took_quiet [OF a(2)] a(1) out by (auto simp: captured_held_def)
  next
    case False
    then show ?thesis using out again by (auto simp: captured_held_def)
  qed
qed

text \<open>
  Retaining a node takes one reference to the node it returns; after an error no reference is left, and the output is cleared.
\<close>

lemma devfs_retain_outcome:
  assumes others: "others_ok T env me o'" "me \<noteq> None" and reach: "access_reachable (sy_registry s)" and ok: "device_nodes_ok env (sy_files s)"
    and run: "devfs_retain_block env o' k s me device generation (Some y) = Some ((r, out), t)"
  shows "\<exists>rf. out = Some rf \<and> \<not> rf_quarantined rf \<and>
    (if r = 0 then \<exists>a. rf_node rf = Some a \<and> took T env me a s t else rf = zero_reference \<and> quiet T env me s t)"
proof (cases "device \<ge> 256 \<or> generation = 0")
  case True
  then show ?thesis using run by (auto simp: devfs_retain_block_def EINVAL_def zero_reference_def)
next
  case args: False
  note go = run [unfolded devfs_retain_block_def Let_def]
  obtain q p st where b: "block_access_management_begin (sy_registry (o' k s)) me True = Some ((q, p), st)"
    using args go by (auto elim!: bind_SomeE)
  let ?s1 = "(o' k s)\<lparr>sy_registry := st\<rparr>"
  have q1: "quiet T env me s ?s1" by (rule quiet_trans [OF other_quiet [OF others(1) reach others(2)] management_quiet(1) [OF b]])
  show ?thesis
  proof (cases "q = 0")
    case False
    then show ?thesis using args go b q1 by (auto simp: zero_reference_def)
  next
    case True
    obtain r1 c s2 r2 s3 where c: "capture_block env o' (k + 1) ?s1 device generation = Some ((r1, c), s2)"
      and again: "(if r1 = 0 then capture_again env o' (k + 3) s2 device generation c else Some (r1, s2)) = Some (r2, s3)"
      using args go b True by (auto elim!: bind_SomeE cong: if_cong)
    have reach1: "access_reachable (sy_registry ?s1)" and ok1: "device_nodes_ok env (sy_files ?s1)"
      using quiet_reachable [OF q1 reach] q1 ok by (simp_all add: quiet_def)
    have nq: "\<not> rf_quarantined c" and held: "captured_held T env me (rf_node c) r2 s s3"
      using both_looks [OF others reach1 ok1 c again] captured_quiet(2) [OF q1] by auto
    obtain u st4 where e: "block_access_management_end (sy_registry (o' (k + 5) s3)) me p = Some (u, st4)"
      using args go b True c again by (auto elim!: bind_SomeE cong: if_cong)
    let ?s4 = "(o' (k + 5) s3)\<lparr>sy_registry := st4\<rparr>"
    have held4: "captured_held T env me (rf_node c) r2 s ?s4"
      using captured_quiet(1) [OF held quiet_trans [OF other_quiet [OF others(1) captured_reachable [OF held reach] others(2)] management_quiet(2) [OF e]]] .
    show ?thesis
    proof (cases "r2 \<noteq> 0 \<and> rf_node c \<noteq> None")
      case r2: False
      then have "(r, out) = (r2, Some (if r2 = 0 then c else zero_reference)) \<and> t = ?s4"
        using args go b True c again e by (auto cong: if_cong)
      then show ?thesis using r2 held4 nq by (auto simp: zero_reference_def captured_held_def split: if_splits option.splits)
    next
      case r2: True
      then obtain a where a: "rf_node c = Some a" "took T env me a s ?s4" using held4 by (auto simp: captured_held_def)
      have "took T env me a s (o' (k + 6) ?s4)"
        by (rule took_quiet [OF a(2) other_quiet [OF others(1) took_reachable [OF a(2) reach] others(2)]])
      from close_took [OF this] obtain fs where fs: "vfs_close env (sy_files (o' (k + 6) ?s4)) (Some a) = Some (0, fs)"
        "quiet T env me s ((o' (k + 6) ?s4)\<lparr>sy_files := fs\<rparr>)" .
      then have "(r, out) = (r2, Some zero_reference) \<and> t = (o' (k + 6) ?s4)\<lparr>sy_files := fs\<rparr>"
        using args go b True c again e r2 a(1) by (auto cong: if_cong)
      then show ?thesis using r2 fs(2) by (auto simp: zero_reference_def)
    qed
  qed
qed

end
