(* ===== verification/BootSource.thy ===== *)
theory BootSource
  imports Devfs Handoff
begin

text \<open>
  The boot source of the installer: which block device the firmware booted from
  (\<^verbatim>\<open>driver/block_source.cpp\<close>), the exclusive hold on it (\<^verbatim>\<open>kernel/installer/source_lifetime.cpp\<close>) and the write
  policy of a session (\<^verbatim>\<open>kernel/installer/session_policy.cpp\<close>), on the models of the handoff, of the block
  device access and of the device file system. The PCI configuration space and the ECAM table are arguments. The
  sections of \<open>block_source_match\<close> under a lock may see different states, because other tasks run between them: the
  states are a function of the number of the section. The functions of the lifetime are given what other tasks do,
  \<open>o' k\<close> before their section \<open>k\<close>, and pass the tables of the system from section to section.
\<close>

section \<open>Hardware\<close>

definition kSourceDevices :: nat where "kSourceDevices = 256"
definition PCI_MCFG_MAX_ENTRIES_LEN :: u64 where "PCI_MCFG_MAX_ENTRIES_LEN = 1024"

record MCFG_ENTRY =
  mc_segment_group :: u16
  mc_start_bus :: u8
  mc_end_bus :: u8

text \<open>The fields of a PCI function that the code reads.\<close>

record pci_device =
  pd_class_code :: u32
  pd_segment :: u16
  pd_bus :: u8
  pd_slot :: u8
  pd_func :: u8
  pd_op :: ptr

text \<open>
  The addresses of the two accessor tables, the \<open>read\<close> entry of the table at an address (\<open>None\<close> for a null
  entry), and the array of ECAM entries with its length.
\<close>

record pci_env =
  pe_pci_device_op :: addr
  pe_pcie_device_op :: addr
  pe_read :: "addr \<Rightarrow> (u32 \<Rightarrow> u32 \<Rightarrow> u32 \<Rightarrow> u32 \<Rightarrow> u32 \<Rightarrow> u32) option"
  pe_mcfg_entries :: "MCFG_ENTRY option list"
  pe_mcfg_entries_len :: u64

record BlockSourceHardware =
  bh_controller :: "pci_device option"
  bh_transport :: u32
  bh_block_size :: u32
  bh_bytes :: u64
  bh_read_only :: bool
  bh_sata_port :: u16
  bh_sata_multiplier :: u16
  bh_lun :: u16
  bh_ide_channel :: u8
  bh_ide_unit :: u8
  bh_nvme_namespace :: u32
  bh_nvme_eui64 :: "u8 list"

record SourceRegistration =
  sr_hardware :: BlockSourceHardware
  sr_generation :: u64
  sr_valid :: bool

record source_table =
  source_devices :: "SourceRegistration list"
  source_revision :: u64

text \<open>The loop of \<open>config_available\<close>: \<open>None\<close> when two entries have the segment.\<close>

fun mcfg_entry :: "u16 \<Rightarrow> MCFG_ENTRY option \<Rightarrow> MCFG_ENTRY option list \<Rightarrow> MCFG_ENTRY option option" where
  "mcfg_entry segment entry [] = Some entry"
| "mcfg_entry segment entry (e # es) =
     (case e of None \<Rightarrow> mcfg_entry segment entry es
      | Some m \<Rightarrow>
          if mc_segment_group m \<noteq> segment then mcfg_entry segment entry es
          else if entry \<noteq> None then None
          else mcfg_entry segment (Some m) es)"

definition config_available :: "pci_env \<Rightarrow> pci_device \<Rightarrow> u16 \<Rightarrow> u8 \<Rightarrow> bool" where
  "config_available env controller segment bus =
     (if pd_op controller = Some (pe_pci_device_op env) then segment = 0
      else if pd_op controller \<noteq> Some (pe_pcie_device_op env) \<or> pe_mcfg_entries_len env > PCI_MCFG_MAX_ENTRIES_LEN then False
      else case mcfg_entry segment None (take (unat (pe_mcfg_entries_len env)) (pe_mcfg_entries env)) of
        Some (Some m) \<Rightarrow> mc_start_bus m \<le> bus \<and> bus \<le> mc_end_bus m
      | _ \<Rightarrow> False)"

definition valid_transport :: "pci_device \<Rightarrow> BlockSourceHardware \<Rightarrow> bool" where
  "valid_transport c h =
     (if bh_transport h = XJ_INSTALLER_SOURCE_AHCI then
        pd_class_code c = 0x010601 \<and> bh_sata_port h < 32 \<and> bh_sata_multiplier h = 0xffff \<and> bh_lun h = 0 \<and> bh_ide_channel h = 0 \<and>
        bh_ide_unit h = 0 \<and> bh_nvme_namespace h = 0 \<and> xj_installer_bytes_zero (bh_nvme_eui64 h)
      else if bh_transport h = XJ_INSTALLER_SOURCE_NVME then
        drop_bit 8 (pd_class_code c) = 0x0108 \<and> bh_nvme_namespace h \<noteq> 0 \<and> bh_nvme_namespace h \<noteq> 0xffffffff \<and> bh_sata_port h = 0 \<and>
        bh_sata_multiplier h = 0 \<and> bh_lun h = 0 \<and> bh_ide_channel h = 0 \<and> bh_ide_unit h = 0
      else if bh_transport h = XJ_INSTALLER_SOURCE_IDE then
        drop_bit 8 (pd_class_code c) = 0x0101 \<and> bh_ide_channel h \<le> 1 \<and> bh_ide_unit h \<le> 1 \<and> bh_sata_port h = 0 \<and>
        bh_sata_multiplier h = 0 \<and> bh_lun h = 0 \<and> bh_nvme_namespace h = 0 \<and> xj_installer_bytes_zero (bh_nvme_eui64 h)
      else False)"

definition valid_hardware :: "pci_env \<Rightarrow> BlockSourceHardware \<Rightarrow> bool" where
  "valid_hardware env h =
     (case bh_controller h of None \<Rightarrow> False
      | Some c \<Rightarrow>
          if (case pd_op c of None \<Rightarrow> True | Some a \<Rightarrow> pe_read env a = None) \<or> pd_slot c > 31 \<or> pd_func c > 7 \<or>
             bh_block_size h < 512 \<or> bh_block_size h > 65536 \<or> bh_block_size h AND (bh_block_size h - 1) \<noteq> 0 \<or>
             bh_bytes h = 0 \<or> bh_bytes h mod ucast (bh_block_size h) \<noteq> 0 \<or> \<not> config_available env c (pd_segment c) (pd_bus c)
          then False
          else valid_transport c h)"

definition pci_at :: "XJ_INSTALLER_SOURCE \<Rightarrow> nat \<Rightarrow> XJ_INSTALLER_PCI_LOCATION option" where
  "pci_at s i = (if i < length (is_pci s) then Some (is_pci s ! i) else None)"

definition same_hardware :: "BlockSourceHardware \<Rightarrow> XJ_INSTALLER_SOURCE \<Rightarrow> bool option" where
  "same_hardware h s =
     (case bh_controller h of None \<Rightarrow> Some False
      | Some c \<Rightarrow> do {
          leaf \<leftarrow> pci_at s (unat (is_pci_count s - 1));
          Some (pd_segment c = pl_segment leaf \<and> pd_bus c = pl_bus leaf \<and> pd_slot c = pl_device leaf \<and> pd_func c = pl_function leaf \<and>
            bh_transport h = is_transport s \<and> bh_sata_port h = is_sata_port s \<and> bh_sata_multiplier h = is_sata_multiplier s \<and>
            bh_lun h = is_lun s \<and> bh_ide_channel h = is_ide_channel s \<and> bh_ide_unit h = is_ide_unit s \<and>
            bh_nvme_namespace h = is_nvme_namespace s)
        })"

text \<open>One bridge of the path: what its configuration space must say.\<close>

definition bridge_ok :: "(u32 \<Rightarrow> u32) \<Rightarrow> XJ_INSTALLER_PCI_LOCATION \<Rightarrow> XJ_INSTALLER_PCI_LOCATION \<Rightarrow> bool" where
  "bridge_ok read parent child =
     (let id = read 0; class_revision = read 8; header = read 12; buses = read 24 in
      \<not> (id AND 0xffff = 0xffff \<or> drop_bit 16 class_revision \<noteq> 0x0604 \<or> drop_bit 16 header AND 0x7f \<noteq> 1 \<or>
         buses AND 0xff \<noteq> ucast (pl_bus parent) \<or> drop_bit 8 buses AND 0xff \<noteq> ucast (pl_bus child) \<or>
         drop_bit 16 buses AND 0xff < ucast (pl_bus child)))"

fun authentic_edges :: "pci_env \<Rightarrow> pci_device \<Rightarrow> XJ_INSTALLER_SOURCE \<Rightarrow> nat list \<Rightarrow> bool option" where
  "authentic_edges env c s [] = Some True"
| "authentic_edges env c s (i # is) = do {
     parent \<leftarrow> pci_at s i;
     child \<leftarrow> pci_at s (i + 1);
     if \<not> config_available env c (pl_segment parent) (pl_bus parent) then Some False
     else do {
       a \<leftarrow> pd_op c;
       read \<leftarrow> pe_read env a;
       if bridge_ok (read (ucast (pl_bus parent)) (ucast (pl_device parent)) (ucast (pl_function parent)) (ucast (pl_segment parent))) parent child
       then authentic_edges env c s is
       else Some False
     }
   }"

definition authentic_pci_path :: "pci_env \<Rightarrow> BlockSourceHardware \<Rightarrow> XJ_INSTALLER_SOURCE \<Rightarrow> bool option" where
  "authentic_pci_path env h s =
     (if is_pci_count s \<le> 1 then Some True
      else do {
        c \<leftarrow> bh_controller h;
        authentic_edges env c s [0..<unat (is_pci_count s) - 1]
      })"

section \<open>Registration and match\<close>

definition source_at :: "source_table \<Rightarrow> nat \<Rightarrow> SourceRegistration option" where
  "source_at tbl d = (if d < length (source_devices tbl) then Some (source_devices tbl ! d) else None)"

text \<open>The registry is the one the look-up sees, the table the one of the section under \<open>source_lock\<close>.\<close>

definition block_source_register :: "pci_env \<Rightarrow> registry \<Rightarrow> source_table \<Rightarrow> u32 \<Rightarrow> BlockSourceHardware \<Rightarrow> (int \<times> source_table) option" where
  "block_source_register env st tbl device hardware =
     (if device \<ge> of_nat kSourceDevices \<or> \<not> valid_hardware env hardware then Some (- EINVAL, tbl)
      else do {
        ((result, whole), _) \<leftarrow> block_access_resolve st device 0 (Some zero_extent);
        whole \<leftarrow> whole;
        if result \<noteq> 0 then Some (result, tbl)
        else if be_device whole \<noteq> device \<or> be_physical_device whole \<noteq> device \<or> be_start whole \<noteq> 0 \<or>
                be_generation whole \<noteq> be_physical_generation whole \<or> be_bytes whole \<noteq> bh_bytes hardware then Some (- EINVAL, tbl)
        else if source_revision tbl = - 1 then Some (- EOVERFLOW, tbl)
        else do {
          entry \<leftarrow> source_at tbl (unat device);
          if sr_valid entry \<and> sr_generation entry = be_generation whole then Some (- EEXIST, tbl)
          else do {
            let entry = \<lparr>sr_hardware = hardware, sr_generation = be_generation whole, sr_valid = True\<rparr>;
            Some (0, tbl\<lparr>source_devices := (source_devices tbl)[unat device := entry], source_revision := source_revision tbl + 1\<rparr>)
          }
        }
      })"

fun eui_equal :: "u8 list \<Rightarrow> u8 list \<Rightarrow> bool" where
  "eui_equal (a # as) (b # bs) = (if a \<noteq> b then False else eui_equal as bs)"
| "eui_equal _ _ = True"

text \<open>The tests on the one matching entry: whether it is accepted.\<close>

definition accept_match :: "pci_env \<Rightarrow> BlockSourceHardware \<Rightarrow> XJ_INSTALLER_SOURCE \<Rightarrow> BlockExtent \<Rightarrow> bool option" where
  "accept_match env h source extent =
     (if bh_block_size h \<noteq> is_physical_block_size source \<or> bh_bytes h \<noteq> is_physical_bytes source \<or> be_bytes extent \<noteq> is_physical_bytes source \<or>
         bh_read_only h \<noteq> (is_flags source AND XJ_INSTALLER_SOURCE_READ_ONLY \<noteq> 0) then Some False
      else do {
        path \<leftarrow> authentic_pci_path env h source;
        if \<not> path then Some False
        else Some (\<not> (is_transport source = XJ_INSTALLER_SOURCE_NVME \<and> \<not> xj_installer_bytes_zero (is_nvme_eui64 source) \<and>
                     \<not> eui_equal (is_nvme_eui64 source) (bh_nvme_eui64 h)))
      })"

text \<open>
  The states seen: \<open>w 0\<close> when the revision is read, \<open>w (2 * d + 1)\<close> and \<open>w (2 * d + 2)\<close> when the entry of device
  \<open>d\<close> is copied and looked up, \<open>w 513\<close> when the revision is compared and \<open>w 514\<close> at the last look-up.
\<close>

type_synonym world = "nat \<Rightarrow> source_table \<times> registry"

fun match_devices :: "pci_env \<Rightarrow> world \<Rightarrow> XJ_INSTALLER_SOURCE \<Rightarrow> nat \<Rightarrow> BlockExtent \<Rightarrow> nat list \<Rightarrow> (int + nat \<times> BlockExtent) option" where
  "match_devices env w source matches candidate [] = Some (Inr (matches, candidate))"
| "match_devices env w source matches candidate (device # ds) = do {
     entry \<leftarrow> source_at (fst (w (2 * device + 1))) device;
     same \<leftarrow> (if \<not> sr_valid entry then Some False else same_hardware (sr_hardware entry) source);
     if \<not> same then match_devices env w source matches candidate ds
     else do {
       ((result, extent), _) \<leftarrow> block_access_resolve (snd (w (2 * device + 2))) (of_nat device) (sr_generation entry) (Some zero_extent);
       extent \<leftarrow> extent;
       if result \<noteq> 0 \<or> be_device extent \<noteq> be_physical_device extent \<or> be_start extent \<noteq> 0 \<or>
          be_generation extent \<noteq> be_physical_generation extent then Some (Inl (- ESTALE))
       else if matches + 1 > 1 then Some (Inl (- EEXIST))
       else do {
         ok \<leftarrow> accept_match env (sr_hardware entry) source extent;
         if \<not> ok then Some (Inl (- ESTALE)) else match_devices env w source (matches + 1) extent ds
       }
     }
   }"

definition block_source_match :: "pci_env \<Rightarrow> world \<Rightarrow> XJ_INSTALLER_SOURCE \<Rightarrow> bool \<Rightarrow> (int \<times> BlockExtent) option" where
  "block_source_match env w source whole =
     (if \<not> whole then Some (- EINVAL, zero_extent)
      else do {
        valid \<leftarrow> xj_installer_source_valid (Some source);
        if \<not> valid then Some (- EOPNOTSUPP, zero_extent)
        else do {
          let revision = source_revision (fst (w 0));
          r \<leftarrow> match_devices env w source 0 zero_extent [0..<kSourceDevices];
          case r of Inl e \<Rightarrow> Some (e, zero_extent)
          | Inr (matches, candidate) \<Rightarrow>
              if revision \<noteq> source_revision (fst (w 513)) then Some (- ESTALE, zero_extent)
              else if matches \<noteq> 1 then Some (- ENODEV, zero_extent)
              else do {
                ((result, current), _) \<leftarrow> block_access_resolve (snd (w 514)) (be_device candidate) (be_generation candidate) (Some zero_extent);
                current \<leftarrow> current;
                if result \<noteq> 0 \<or> be_physical_generation current \<noteq> be_physical_generation candidate then Some (- ESTALE, zero_extent)
                else Some (0, current)
              }
        }
      })"

section \<open>The lifetime of the source\<close>

datatype SourceState = st_empty | st_retaining | st_retained | st_published | st_quarantined

record SourceLifetime =
  sl_identity :: XJ_INSTALLER_SOURCE
  sl_reference :: DevfsBlockReference
  sl_lease :: u64
  sl_owner :: ptr
  sl_owner_tid :: u64
  sl_state :: SourceState

definition same_extent :: "BlockExtent \<Rightarrow> BlockExtent \<Rightarrow> bool" where
  "same_extent a b \<longleftrightarrow> be_device a = be_device b \<and> be_physical_device a = be_physical_device b \<and> be_generation a = be_generation b \<and>
     be_physical_generation a = be_physical_generation b \<and> be_start a = be_start b \<and> be_bytes a = be_bytes b"

definition boot_owner :: "task \<Rightarrow> SourceLifetime \<Rightarrow> bool" where
  "boot_owner task source = (case task of None \<Rightarrow> False | Some (p, t) \<Rightarrow> sl_owner source = Some p \<and> sl_owner_tid source = t_tid t)"

text \<open>The states a call sees that only reads, from its section \<open>k\<close> on.\<close>

fun states_seen :: "(nat \<Rightarrow> 'a \<Rightarrow> 'a) \<Rightarrow> nat \<Rightarrow> 'a \<Rightarrow> nat \<Rightarrow> 'a" where
  "states_seen o' k s 0 = o' k s"
| "states_seen o' k s (Suc i) = o' (k + Suc i) (states_seen o' k s i)"

type_synonym tables = "source_table system"

definition tables_view :: "tables \<Rightarrow> source_table \<times> registry" where
  "tables_view sys = (sy_table sys, sy_registry sys)"

type_synonym lifetime_result = "((int \<times> SourceLifetime) \<times> tables) option"

definition quarantine_source :: "source_table others \<Rightarrow> nat \<Rightarrow> tables \<Rightarrow> SourceLifetime option \<Rightarrow> (SourceLifetime option \<times> tables) option" where
  "quarantine_source o' k sys source =
     (case source of None \<Rightarrow> Some (None, sys)
      | Some s \<Rightarrow> do {
          let sys = o' k sys;
          st \<leftarrow> (if sl_lease s \<noteq> 0 then map_option snd (block_access_poison (sy_registry sys) (sl_lease s)) else Some (sy_registry sys));
          Some (Some (s\<lparr>sl_state := st_quarantined\<rparr>), sys\<lparr>sy_registry := st\<rparr>)
        })"

definition quarantined_with :: "source_table others \<Rightarrow> nat \<Rightarrow> tables \<Rightarrow> SourceLifetime \<Rightarrow> int \<Rightarrow> lifetime_result" where
  "quarantined_with o' k sys s r = do {
     (s, sys) \<leftarrow> quarantine_source o' k sys (Some s);
     s \<leftarrow> s;
     Some ((r, s), sys)
   }"

text \<open>The second half of \<open>cleanup_unpublished\<close>, when the node is closed.\<close>

definition cleanup_lease :: "source_table others \<Rightarrow> nat \<Rightarrow> tables \<Rightarrow> task \<Rightarrow> SourceLifetime \<Rightarrow> int \<Rightarrow> lifetime_result" where
  "cleanup_lease o' k sys task s failure = do {
     let sys = o' k sys;
     (result, st) \<leftarrow> (if sl_lease s \<noteq> 0 then block_access_release (sy_registry sys) task (sl_lease s) else Some (0, sy_registry sys));
     let sys = sys\<lparr>sy_registry := st\<rparr>;
     if result \<noteq> 0 then quarantined_with o' (k + 1) sys s result
     else Some ((failure, s\<lparr>sl_lease := 0, sl_identity := zero_source, sl_owner := None, sl_owner_tid := 0, sl_state := st_empty\<rparr>), sys)
   }"

definition cleanup_unpublished :: "devfs_env \<Rightarrow> source_table others \<Rightarrow> nat \<Rightarrow> tables \<Rightarrow> task \<Rightarrow> SourceLifetime \<Rightarrow> int \<Rightarrow> lifetime_result" where
  "cleanup_unpublished denv o' k sys task s failure =
     (if rf_node (sl_reference s) \<noteq> None then do {
        let sys = o' k sys;
        (result, fs) \<leftarrow> vfs_close denv (sy_files sys) (rf_node (sl_reference s));
        let sys = sys\<lparr>sy_files := fs\<rparr>;
        if result \<noteq> 0 then quarantined_with o' (k + 1) sys s (if result < 0 then result else - EIO)
        else cleanup_lease o' (k + 1) sys task (s\<lparr>sl_reference := zero_reference\<rparr>) failure
      }
      else cleanup_lease o' (k + 1) sys task s failure)"

text \<open>
  The part \<open>retain_source\<close> and \<open>validate_source\<close> have in common: the hardware and the node still name the extent. The
  match has the sections \<open>k\<close> to \<open>k + 514\<close>, the node is looked up in section \<open>k + 515\<close>.
\<close>

definition recheck :: "pci_env \<Rightarrow> devfs_env \<Rightarrow> source_table others \<Rightarrow> nat \<Rightarrow> tables \<Rightarrow> SourceLifetime \<Rightarrow> BlockExtent \<Rightarrow> XJ_INSTALLER_SOURCE \<Rightarrow>
    (int \<times> tables) option" where
  "recheck env denv o' k sys s extent identity = do {
     (result, matched) \<leftarrow> block_source_match env (tables_view \<circ> states_seen o' k sys) (sl_identity s) True;
     let sys = states_seen o' k sys 514;
     if result \<noteq> 0 then Some (result, sys)
     else do {
       let sys = o' (k + 515) sys;
       (result, from_node) \<leftarrow> block_access_resolve_node denv (sy_files sys) (sy_registry sys) (rf_node (sl_reference s)) zero_extent;
       if result \<noteq> 0 then Some (result, sys)
       else if \<not> same_extent matched extent \<or> \<not> same_extent from_node extent \<or> rf_bytes (sl_reference s) \<noteq> is_physical_bytes identity \<or>
               rf_sector_size (sl_reference s) \<noteq> is_physical_block_size identity then Some (- ESTALE, sys)
       else Some (0, sys)
     }
   }"

definition validate_lease :: "source_table others \<Rightarrow> nat \<Rightarrow> tasks \<Rightarrow> tables \<Rightarrow> u64 \<Rightarrow> BlockExtent \<Rightarrow> (int \<times> tables) option" where
  "validate_lease o' k ts sys lease extent = do {
     let sys = o' k sys;
     (result, st) \<leftarrow> block_access_validate_retained_exclusive (sy_registry sys) ts lease extent;
     Some (result, sys\<lparr>sy_registry := st\<rparr>)
   }"

text \<open>
  \<open>retain_source\<close> from the claim on: sections \<open>k\<close> to \<open>k + 6\<close> retain the node, \<open>k + 7\<close> to \<open>k + 522\<close> match again,
  \<open>k + 523\<close> confirms the lease.
\<close>

definition retain_node :: "pci_env \<Rightarrow> devfs_env \<Rightarrow> source_table others \<Rightarrow> nat \<Rightarrow> tasks \<Rightarrow> tables \<Rightarrow> task \<Rightarrow> SourceLifetime \<Rightarrow> BlockExtent \<Rightarrow>
    XJ_INSTALLER_SOURCE \<Rightarrow> lifetime_result" where
  "retain_node env denv o' k ts sys task s expected identity = do {
     ((result, reference), sys) \<leftarrow> devfs_retain_block denv o' k sys task (be_device expected) (be_generation expected) (Some (sl_reference s));
     reference \<leftarrow> reference;
     let s = s\<lparr>sl_reference := reference\<rparr>;
     if result \<noteq> 0 then
       if rf_quarantined reference then quarantined_with o' (k + 7) sys s result
       else cleanup_unpublished denv o' (k + 7) sys task s result
     else if \<not> same_extent expected (rf_extent reference) then cleanup_unpublished denv o' (k + 7) sys task s (- ESTALE)
     else do {
       (result, sys) \<leftarrow> recheck env denv o' (k + 7) sys s expected identity;
       (result, sys) \<leftarrow> (if result = 0 then validate_lease o' (k + 523) ts sys (sl_lease s) expected else Some (result, sys));
       if result \<noteq> 0 then cleanup_unpublished denv o' (k + 524) sys task s result
       else Some ((0, s\<lparr>sl_state := st_retained\<rparr>), sys)
     }
   }"

text \<open>The first match has the sections 0 to 514, the claim is section 515.\<close>

definition retain_source :: "pci_env \<Rightarrow> devfs_env \<Rightarrow> source_table others \<Rightarrow> tasks \<Rightarrow> tables \<Rightarrow> task \<Rightarrow> XJ_INSTALLER_SOURCE \<Rightarrow> SourceLifetime option \<Rightarrow>
    ((int \<times> SourceLifetime option) \<times> tables) option" where
  "retain_source env denv o' ts sys task identity source =
     (case source of None \<Rightarrow> Some ((- EINVAL, None), sys)
      | Some s \<Rightarrow>
          (case task of None \<Rightarrow> Some ((- EPERM, source), sys)
           | Some (p, t) \<Rightarrow>
               if t_status t = DEATH \<or> t_status t = OUT then Some ((- EPERM, source), sys)
               else if sl_state s \<noteq> st_empty then Some ((- EBUSY, source), sys)
               else do {
                 let s = s\<lparr>sl_state := st_retaining, sl_identity := identity, sl_owner := Some p, sl_owner_tid := t_tid t\<rparr>;
                 (result, expected) \<leftarrow> block_source_match env (tables_view \<circ> states_seen o' 0 sys) (sl_identity s) True;
                 let sys = states_seen o' 0 sys 514;
                 ((result, s), sys) \<leftarrow>
                   (if result \<noteq> 0 then cleanup_unpublished denv o' 515 sys task s result
                    else do {
                      let sys = o' 515 sys;
                      ((result, token), st) \<leftarrow> block_access_claim (sy_registry sys) task expected True True;
                      let sys = sys\<lparr>sy_registry := st\<rparr>;
                      let s = s\<lparr>sl_lease := token\<rparr>;
                      if result \<noteq> 0 then cleanup_unpublished denv o' 516 sys task s result
                      else retain_node env denv o' 516 ts sys task s expected identity
                    });
                 Some ((result, Some s), sys)
               }))"

definition validate_source :: "pci_env \<Rightarrow> devfs_env \<Rightarrow> source_table others \<Rightarrow> tasks \<Rightarrow> tables \<Rightarrow> SourceLifetime \<Rightarrow> (int \<times> tables) option" where
  "validate_source env denv o' ts sys s =
     (if sl_state s = st_quarantined then Some (- EIO, sys)
      else if (sl_state s \<noteq> st_retained \<and> sl_state s \<noteq> st_published) \<or> rf_quarantined (sl_reference s) \<or>
              rf_node (sl_reference s) = None \<or> sl_lease s = 0 then Some (- ENODEV, sys)
      else do {
        (result, sys) \<leftarrow> validate_lease o' 0 ts sys (sl_lease s) (rf_extent (sl_reference s));
        if result \<noteq> 0 then Some (result, sys)
        else recheck env denv o' 1 sys s (rf_extent (sl_reference s)) (sl_identity s)
      })"

definition publish_source :: "pci_env \<Rightarrow> devfs_env \<Rightarrow> source_table others \<Rightarrow> tasks \<Rightarrow> tables \<Rightarrow> task \<Rightarrow> SourceLifetime option \<Rightarrow>
    ((int \<times> SourceLifetime option) \<times> tables) option" where
  "publish_source env denv o' ts sys task source =
     (case source of None \<Rightarrow> Some ((- EINVAL, None), sys)
      | Some s \<Rightarrow>
          if \<not> boot_owner task s then Some ((- EPERM, source), sys)
          else do {
            (result, sys) \<leftarrow> validate_source env denv o' ts sys s;
            if result \<noteq> 0 then Some ((result, source), sys)
            else if sl_state s \<noteq> st_retained then Some ((- EBUSY, source), sys)
            else Some ((0, Some (s\<lparr>sl_state := st_published\<rparr>)), sys)
          })"

definition release_source_boot_only :: "devfs_env \<Rightarrow> source_table others \<Rightarrow> tables \<Rightarrow> task \<Rightarrow> SourceLifetime option \<Rightarrow>
    ((int \<times> SourceLifetime option) \<times> tables) option" where
  "release_source_boot_only denv o' sys task source =
     (case source of None \<Rightarrow> Some ((- EINVAL, None), sys)
      | Some s \<Rightarrow>
          if \<not> boot_owner task s then Some ((- EPERM, source), sys)
          else if sl_state s \<noteq> st_retained then Some ((- EPERM, source), sys)
          else do {
            ((result, s), sys) \<leftarrow> cleanup_unpublished denv o' 0 sys task (s\<lparr>sl_state := st_retaining\<rparr>) 0;
            Some ((result, Some s), sys)
          })"

definition source_node :: "pci_env \<Rightarrow> devfs_env \<Rightarrow> source_table others \<Rightarrow> tasks \<Rightarrow> tables \<Rightarrow> SourceLifetime \<Rightarrow> (ptr \<times> tables) option" where
  "source_node env denv o' ts sys s = do {
     (result, sys) \<leftarrow> validate_source env denv o' ts sys s;
     Some (if result \<noteq> 0 then None else rf_node (sl_reference s), sys)
   }"

section \<open>The write policy\<close>

datatype EntryOperation = legacy_start | legacy_rescue_boot | native_fresh | other_operation u32

record WritePolicyRequest =
  wp_operation :: EntryOperation
  wp_mode :: u32
  wp_language :: u32
  wp_components :: u64
  wp_session_epoch :: u64

record SessionSnapshot =
  ss_epoch :: u64
  ss_components :: u64
  ss_profile :: u32
  ss_language :: u32
  ss_ready :: bool

definition evaluate_write_policy :: "SessionSnapshot \<Rightarrow> WritePolicyRequest \<Rightarrow> int" where
  "evaluate_write_policy session request =
     (if \<not> ss_ready session \<or> ss_epoch session = 0 then - 19
      else case wp_operation request of
        legacy_start \<Rightarrow> - 95
      | legacy_rescue_boot \<Rightarrow> - 95
      | native_fresh \<Rightarrow> if wp_session_epoch request \<noteq> ss_epoch session then - 116 else - 95
      | other_operation _ \<Rightarrow> - 95)"

text \<open>The snapshot \<open>session_snapshot\<close> takes is an argument.\<close>

definition session_write_policy :: "SessionSnapshot \<Rightarrow> WritePolicyRequest \<Rightarrow> int" where
  "session_write_policy snapshot request = evaluate_write_policy snapshot request"

text \<open>Whatever the session and the request say, no write is allowed yet.\<close>

lemma write_policy_refuses: "session_write_policy snapshot request < 0"
  by (cases "wp_operation request") (simp_all add: session_write_policy_def evaluate_write_policy_def)

section \<open>Other tasks between the sections\<close>

inductive world_step :: "pci_env \<Rightarrow> source_table \<times> registry \<Rightarrow> source_table \<times> registry \<Rightarrow> bool" for env where
  register: "block_source_register env st0 tbl d h = Some (r, tbl') \<Longrightarrow> world_step env (tbl, st) (tbl', st)"
| access: "access_step op st = Some st' \<Longrightarrow> world_step env (tbl, st) (tbl, st')"

definition history :: "pci_env \<Rightarrow> world \<Rightarrow> bool" where
  "history env w \<longleftrightarrow> (\<forall>i. rtranclp (world_step env) (w i) (w (Suc i)))"

definition tables_grow :: "source_table \<Rightarrow> source_table \<Rightarrow> bool" where
  "tables_grow a b \<longleftrightarrow> source_revision a \<le> source_revision b \<and> (source_revision a = source_revision b \<longrightarrow> a = b)"

lemma tables_grow_refl [simp]: "tables_grow a a"
  by (simp add: tables_grow_def)

lemma tables_grow_next: "source_revision a \<noteq> - 1 \<Longrightarrow> tables_grow a (a\<lparr>source_devices := ds, source_revision := source_revision a + 1\<rparr>)"
  using less_add_one_word [of "source_revision a"] by (auto simp: tables_grow_def)

lemma register_grows: "block_source_register env st tbl d h = Some (r, tbl') \<Longrightarrow> tables_grow tbl tbl'"
  unfolding block_source_register_def
  by (auto elim!: if_SomeE bind_SomeE simp: Let_def tables_grow_next)

lemma tables_grow_trans: "tables_grow a b \<Longrightarrow> tables_grow b c \<Longrightarrow> tables_grow a c"
  by (auto simp: tables_grow_def)

lemma world_step_grows: "world_step env a b \<Longrightarrow> access_reachable (snd a) \<Longrightarrow>
    tables_grow (fst a) (fst b) \<and> access_reachable (snd b) \<and> devices_advance (snd a) (snd b)"
  by (induction rule: world_step.induct)
    (auto simp: register_grows devices_advance_same intro: access_reachable.step access_step_advances [OF reachable_inv])

lemma world_steps_grow: "rtranclp (world_step env) a b \<Longrightarrow> access_reachable (snd a) \<Longrightarrow>
    tables_grow (fst a) (fst b) \<and> access_reachable (snd b) \<and> devices_advance (snd a) (snd b)"
  by (induction rule: rtranclp_induct)
    (auto simp: devices_advance_same dest!: world_step_grows intro: devices_advance_trans tables_grow_trans)

lemma history_grows:
  assumes "history env w" "access_reachable (snd (w 0))" "i \<le> j"
  shows "tables_grow (fst (w i)) (fst (w j)) \<and> access_reachable (snd (w j)) \<and> devices_advance (snd (w i)) (snd (w j))"
proof -
  have reach: "access_reachable (snd (w k))" for k
  proof (induction k)
    case (Suc k)
    then show ?case
      using world_steps_grow [of env "w k" "w (Suc k)"] assms(1) by (simp add: history_def)
  qed (rule assms(2))
  have "rtranclp (world_step env) (w i) (w j)"
    using assms(3)
  proof (induction rule: dec_induct)
    case (step n)
    then show ?case
      using assms(1) by (auto simp: history_def intro: rtranclp_trans)
  qed simp
  then show ?thesis
    using world_steps_grow reach by blast
qed

lemma history_fixed:
  assumes "history env w" "access_reachable (snd (w 0))" "source_revision (fst (w 0)) = source_revision (fst (w n))" "i \<le> n"
  shows "fst (w i) = fst (w 0)"
proof -
  have "tables_grow (fst (w 0)) (fst (w i))" "tables_grow (fst (w i)) (fst (w n))"
    using history_grows [OF assms(1,2)] assms(4) by auto
  then show ?thesis
    using assms(3) by (auto simp: tables_grow_def)
qed

section \<open>The match\<close>

definition names_source :: "source_table \<Rightarrow> XJ_INSTALLER_SOURCE \<Rightarrow> nat \<Rightarrow> bool" where
  "names_source tbl s d \<longleftrightarrow> (\<exists>e. source_at tbl d = Some e \<and> sr_valid e \<and> same_hardware (sr_hardware e) s = Some True)"

definition matched_at :: "pci_env \<Rightarrow> world \<Rightarrow> XJ_INSTALLER_SOURCE \<Rightarrow> nat \<Rightarrow> BlockExtent \<Rightarrow> bool" where
  "matched_at env w s d x \<longleftrightarrow> (\<exists>e. source_at (fst (w (2 * d + 1))) d = Some e \<and> sr_valid e \<and> same_hardware (sr_hardware e) s = Some True \<and>
     resolve_device (snd (w (2 * d + 2))) (of_nat d) (sr_generation e) = Some (Some x) \<and> whole_disk x \<and>
     accept_match env (sr_hardware e) s x = Some True)"

lemma block_resolve_0:
  assumes "block_access_resolve st d g (Some y) = Some ((0, x), st')"
  shows "\<exists>z. x = Some z \<and> resolve_device st d g = Some (Some z)"
  using assms unfolding block_access_resolve_def
  by (auto elim!: lockedE if_SomeE bind_SomeE case_option_SomeE simp: ENODEV_def)

lemma match_devices_spec:
  "match_devices env w s m c ds = Some (Inr (m', c')) \<Longrightarrow> m \<le> 1 \<Longrightarrow>
     m' = m \<and> c' = c \<and> (\<forall>d \<in> set ds. \<not> names_source (fst (w (2 * d + 1))) s d) \<or>
     m = 0 \<and> m' = 1 \<and> (\<exists>xs d ys. ds = xs @ d # ys \<and> matched_at env w s d c' \<and>
       (\<forall>e \<in> set xs \<union> set ys. \<not> names_source (fst (w (2 * e + 1))) s e))"
proof (induction ds arbitrary: m c)
  case (Cons d ds)
  obtain e same where e: "source_at (fst (w (2 * d + 1))) d = Some e"
    "(if \<not> sr_valid e then Some False else same_hardware (sr_hardware e) s) = Some same"
    using Cons.prems(1) by (auto elim!: bind_SomeE)
  show ?case
  proof (cases same)
    case False
    then have no: "\<not> names_source (fst (w (2 * d + 1))) s d"
      using e by (auto simp: names_source_def split: if_splits)
    have run: "match_devices env w s m c ds = Some (Inr (m', c'))"
      using Cons.prems(1) e False by simp
    from Cons.IH [OF run Cons.prems(2)] show ?thesis
    proof (elim disjE conjE exE)
      fix xs d' ys assume "m = 0" "m' = 1" "ds = xs @ d' # ys" "matched_at env w s d' c'"
        "\<forall>e \<in> set xs \<union> set ys. \<not> names_source (fst (w (2 * e + 1))) s e"
      then show ?thesis
        using no by (intro disjI2 conjI, simp, simp, intro exI [of _ "d # xs"], intro exI [of _ d'], intro exI [of _ ys], simp)
    qed (use no in simp)
  next
    case True
    then have v: "sr_valid e" "same_hardware (sr_hardware e) s = Some True"
      using e(2) by (auto split: if_splits)
    have "m = 0 \<and> (\<exists>x. matched_at env w s d x \<and> match_devices env w s 1 x ds = Some (Inr (m', c')))"
      using Cons.prems(1) e(1) v
      by (auto elim!: bind_SomeE if_SomeE dest!: block_resolve_0 simp: matched_at_def whole_disk_def split: if_splits)
    then obtain x where x: "m = 0" "matched_at env w s d x" "match_devices env w s 1 x ds = Some (Inr (m', c'))"
      by auto
    then have "m' = 1 \<and> c' = x \<and> (\<forall>d \<in> set ds. \<not> names_source (fst (w (2 * d + 1))) s d)"
      using Cons.IH [OF x(3)] by auto
    then show ?thesis
      using x by (auto intro!: exI [of _ "[]"])
  qed
qed simp

lemma match_devices_error: "match_devices env w s m c ds = Some (Inl r) \<Longrightarrow> r \<noteq> 0"
  by (induction ds arbitrary: m c) (auto elim!: bind_SomeE if_SomeE simp: ESTALE_def EEXIST_def)

lemma block_match_0:
  assumes "block_source_match env w s True = Some (0, x)"
  obtains xs d ys c where "[0..<kSourceDevices] = xs @ d # ys" "matched_at env w s d c"
    "\<forall>e \<in> set xs \<union> set ys. \<not> names_source (fst (w (2 * e + 1))) s e"
    "source_revision (fst (w 0)) = source_revision (fst (w 513))"
    "resolve_device (snd (w 514)) (be_device c) (be_generation c) = Some (Some x)"
proof -
  obtain r where r: "match_devices env w s 0 zero_extent [0..<kSourceDevices] = Some r" and tail:
    "(case r of Inl e \<Rightarrow> Some (e, zero_extent)
      | Inr (matches, candidate) \<Rightarrow>
          if source_revision (fst (w 0)) \<noteq> source_revision (fst (w 513)) then Some (- ESTALE, zero_extent)
          else if matches \<noteq> 1 then Some (- ENODEV, zero_extent)
          else do {
            ((result, current), _) \<leftarrow> block_access_resolve (snd (w 514)) (be_device candidate) (be_generation candidate) (Some zero_extent);
            current \<leftarrow> current;
            if result \<noteq> 0 \<or> be_physical_generation current \<noteq> be_physical_generation candidate then Some (- ESTALE, zero_extent)
            else Some (0, current)
          }) = Some (0, x)"
    using assms unfolding block_source_match_def Let_def
    by (auto elim!: if_SomeE bind_SomeE simp: EOPNOTSUPP_def)
  show ?thesis
  proof (cases r)
    case (Inl e)
    then show ?thesis
      using match_devices_error r tail by auto
  next
    case (Inr mc)
    obtain m c where mc: "mc = (m, c)"
      by (cases mc)
    have "source_revision (fst (w 0)) = source_revision (fst (w 513)) \<and> m = 1 \<and>
      resolve_device (snd (w 514)) (be_device c) (be_generation c) = Some (Some x)"
      using tail Inr mc by (auto elim!: if_SomeE bind_SomeE dest!: block_resolve_0 simp: ESTALE_def ENODEV_def)
    then show ?thesis
      using match_devices_spec [OF r [unfolded Inr mc]] that by auto
  qed
qed

lemma accept_match_sizes:
  "accept_match env h s x = Some True \<Longrightarrow> bh_block_size h = is_physical_block_size s \<and> bh_bytes h = is_physical_bytes s \<and>
     be_bytes x = is_physical_bytes s \<and> authentic_pci_path env h s = Some True"
  unfolding accept_match_def by (auto elim!: if_SomeE bind_SomeE)

lemma match_facts:
  assumes "history env w" "access_reachable (snd (w 0))" "block_source_match env w s True = Some (0, x)"
  shows "\<exists>d < kSourceDevices. \<exists>e. source_at (fst (w 0)) d = Some e \<and> (\<forall>k < kSourceDevices. names_source (fst (w 0)) s k \<longleftrightarrow> k = d) \<and>
    be_device x = of_nat d \<and> registered (devices (snd (w 514))) x \<and> whole_disk x \<and> be_bytes x = is_physical_bytes s \<and>
    bh_block_size (sr_hardware e) = is_physical_block_size s \<and> authentic_pci_path env (sr_hardware e) s = Some True"
proof -
  obtain xs d ys c where ds: "[0..<kSourceDevices] = xs @ d # ys" and m: "matched_at env w s d c"
    and others: "\<forall>e \<in> set xs \<union> set ys. \<not> names_source (fst (w (2 * e + 1))) s e"
    and rev: "source_revision (fst (w 0)) = source_revision (fst (w 513))"
    and last: "resolve_device (snd (w 514)) (be_device c) (be_generation c) = Some (Some x)"
    by (rule block_match_0 [OF assms(3)])
  have mem: "k < kSourceDevices \<longleftrightarrow> k = d \<or> k \<in> set xs \<union> set ys" for k
    using arg_cong [OF ds, of "\<lambda>l. k \<in> set l"] by auto
  then have d: "d < kSourceDevices" and split: "k < kSourceDevices \<Longrightarrow> k = d \<or> k \<in> set xs \<union> set ys" for k
    by simp_all
  have fixed: "fst (w (2 * k + 1)) = fst (w 0)" if "k < kSourceDevices" for k
    by (rule history_fixed [OF assms(1,2) rev]) (use that in \<open>simp add: kSourceDevices_def\<close>)
  obtain e where e: "source_at (fst (w 0)) d = Some e" "sr_valid e" "same_hardware (sr_hardware e) s = Some True"
    "resolve_device (snd (w (2 * d + 2))) (of_nat d) (sr_generation e) = Some (Some c)" "whole_disk c" "accept_match env (sr_hardware e) s c = Some True"
    using m fixed [OF d] by (auto simp: matched_at_def)
  have le: "2 * d + 2 \<le> 514"
    using d by (simp add: kSourceDevices_def)
  have inv: "registry_inv (snd (w (2 * d + 2)))" "registry_inv (snd (w 514))" "devices_advance (snd (w (2 * d + 2))) (snd (w 514))"
    using history_grows [OF assms(1,2), of 0 "2 * d + 2"] history_grows [OF assms(1,2) le] reachable_inv by auto
  have dev: "be_device c = of_nat d"
    using resolve_registered(2) [OF inv(1) e(4)] .
  have x: "x = c"
    using resolve_again [OF inv e(4)] last dev by simp
  have nd: "names_source (fst (w 0)) s d"
    using e(1-3) by (auto simp: names_source_def)
  have "names_source (fst (w 0)) s k \<longleftrightarrow> k = d" if "k < kSourceDevices" for k
    using split [OF that] others fixed [OF that] nd by metis
  moreover have "registered (devices (snd (w 514))) x"
    using resolve_registered(1) [OF inv(2) last] .
  ultimately show ?thesis
    using d e(1,5) accept_match_sizes [OF e(6)] dev unfolding x by blast
qed

section \<open>Outcomes of a retention\<close>

definition lease_poisoned :: "registry \<Rightarrow> u64 \<Rightarrow> bool" where
  "lease_poisoned st k \<longleftrightarrow> (\<forall>e \<in> set (leases st). ac_token e = k \<longrightarrow> ac_poisoned e)"

definition emptied :: "SourceLifetime \<Rightarrow> bool" where
  "emptied s \<longleftrightarrow> sl_state s = st_empty \<and> sl_lease s = 0 \<and> rf_node (sl_reference s) = None \<and> sl_owner s = None"

definition register_next :: "pci_env \<Rightarrow> source_table \<Rightarrow> source_table \<Rightarrow> bool" where
  "register_next env a b \<longleftrightarrow> (\<exists>st d h r. block_source_register env st a d h = Some (r, b))"

text \<open>After the claim: the caller has one lease more, with a token that is not in use.\<close>

definition claimed :: "pci_env \<Rightarrow> devfs_env \<Rightarrow> task \<Rightarrow> u64 \<Rightarrow> tables \<Rightarrow> tables \<Rightarrow> bool" where
  "claimed env denv me k s t \<longleftrightarrow> k \<noteq> 0 \<and> k \<notin> own_tokens me (sy_registry s) \<and> k < next_identity (sy_registry t) \<and>
     rtranclp (register_next env) (sy_table s) (sy_table t) \<and> rtranclp registry_next (sy_registry s) (sy_registry t) \<and>
     own_tokens me (sy_registry t) = insert k (own_tokens me (sy_registry s)) \<and>
     pinned (sy_files t) = pinned (sy_files s) \<and> (device_nodes_ok denv (sy_files s) \<longrightarrow> device_nodes_ok denv (sy_files t))"

text \<open>What the caller holds: \<open>l\<close> is the token of its lease, 0 for none, and \<open>n\<close> its node.\<close>

definition holding :: "pci_env \<Rightarrow> devfs_env \<Rightarrow> task \<Rightarrow> u64 \<Rightarrow> ptr \<Rightarrow> tables \<Rightarrow> tables \<Rightarrow> bool" where
  "holding env denv me l n s t \<longleftrightarrow> (\<exists>u. (if l = 0 then quiet (register_next env) denv me s u else claimed env denv me l s u) \<and>
     (case n of None \<Rightarrow> quiet (register_next env) denv me u t | Some a \<Rightarrow> took (register_next env) denv me a u t))"

text \<open>
  A quarantine: the lease of the caller is still there and poisoned, because its release was refused with \<open>- EIO\<close>; the reference
  to the node is given back.
\<close>

definition quarantined_ok :: "pci_env \<Rightarrow> devfs_env \<Rightarrow> task \<Rightarrow> tables \<Rightarrow> int \<Rightarrow> SourceLifetime \<Rightarrow> tables \<Rightarrow> bool" where
  "quarantined_ok env denv me sys r s sys' \<longleftrightarrow> r = - EIO \<and> sl_state s = st_quarantined \<and> rf_node (sl_reference s) = None \<and>
     claimed env denv me (sl_lease s) sys sys' \<and> lease_poisoned (sy_registry sys') (sl_lease s) \<and>
     (\<exists>st st'. rtranclp registry_next (sy_registry sys) st \<and> block_access_release st me (sl_lease s) = Some (- EIO, st'))"

lemma identities_grow: "rtranclp registry_next a b \<Longrightarrow> access_reachable a \<Longrightarrow> next_identity a \<le> next_identity b"
proof (induction rule: rtranclp_induct)
  case (step b c)
  then have "registry_inv b" using steps_reachable reachable_inv by blast
  then have "devices_advance b c" using step.hyps(2) access_step_advances by (auto simp: registry_next_def)
  then show ?case using step.IH step.prems unfolding devices_advance_def by (meson order_trans)
qed simp

lemma claimed_quiet:
  assumes "claimed env denv me k s t" "quiet (register_next env) denv me t u" "access_reachable (sy_registry s)"
  shows "claimed env denv me k s u"
proof -
  have "next_identity (sy_registry t) \<le> next_identity (sy_registry u)"
    using assms identities_grow steps_reachable unfolding claimed_def quiet_def by blast
  then show ?thesis using assms(1,2) unfolding claimed_def quiet_def by (auto intro: rtranclp_trans)
qed

lemma holding_quiet:
  assumes "holding env denv me l n s t" "quiet (register_next env) denv me t u"
  shows "holding env denv me l n s u"
  using assms unfolding holding_def by (cases n) (fastforce intro: quiet_trans took_quiet)+

lemma holding_reachable:
  assumes "holding env denv me l n s t" "access_reachable (sy_registry s)"
  shows "access_reachable (sy_registry t)"
proof -
  obtain u where u: "if l = 0 then quiet (register_next env) denv me s u else claimed env denv me l s u"
    "case n of None \<Rightarrow> quiet (register_next env) denv me u t | Some a \<Rightarrow> took (register_next env) denv me a u t"
    using assms(1) unfolding holding_def by blast
  have "access_reachable (sy_registry u)"
    using u(1) assms(2) quiet_reachable steps_reachable by (auto simp: claimed_def split: if_splits)
  then show ?thesis using u(2) quiet_reachable took_reachable by (cases n) auto
qed

lemma holding_close:
  assumes "holding env denv me l (Some a) s t"
  obtains fs where "vfs_close denv (sy_files t) (Some a) = Some (0, fs)" "holding env denv me l None s (t\<lparr>sy_files := fs\<rparr>)"
proof -
  obtain u where u: "if l = 0 then quiet (register_next env) denv me s u else claimed env denv me l s u" "took (register_next env) denv me a u t"
    using assms unfolding holding_def by auto
  from close_took [OF u(2)] obtain fs where "vfs_close denv (sy_files t) (Some a) = Some (0, fs)" "quiet (register_next env) denv me u (t\<lparr>sy_files := fs\<rparr>)" .
  then show ?thesis using that [of fs] u(1) unfolding holding_def by auto
qed

lemma holding_claimed: "holding env denv me l None s t \<Longrightarrow> access_reachable (sy_registry s) \<Longrightarrow> l \<noteq> 0 \<Longrightarrow> claimed env denv me l s t"
  using claimed_quiet unfolding holding_def by auto

lemma release_next: "block_access_release st me l = Some (r, st') \<Longrightarrow> rtranclp registry_next st st'"
  by (intro r_into_rtranclp) (auto simp: registry_next_def intro!: exI [of _ "Release me l"])

lemma holding_release:
  assumes "holding env denv me l None s t" "access_reachable (sy_registry s)" "l \<noteq> 0" "block_access_release (sy_registry t) me l = Some (0, st)"
  shows "quiet (register_next env) denv me s (t\<lparr>sy_registry := st\<rparr>)"
proof -
  have c: "claimed env denv me l s t" by (rule holding_claimed [OF assms(1-3)])
  have "registry_inv (sy_registry t)" using holding_reachable [OF assms(1,2)] reachable_inv by blast
  note distinct = tokens_distinct [OF this]
  obtain es where "release_lease me l (leases (sy_registry t)) = (0, es)" "leases st = es"
    using assms(4) by (auto simp: block_access_release_def elim!: lockedE split: prod.splits)
  then have "own_tokens me st = own_tokens me (sy_registry t) - {l}" using release_own [OF _ distinct] by blast
  then show ?thesis using c release_next [OF assms(4)] unfolding claimed_def quiet_def by (auto intro: rtranclp_trans)
qed

text \<open>The release of an own lease is refused only when the lease is poisoned, and changes nothing then.\<close>

lemma release_refused:
  "release_lease me l es = (r, es') \<Longrightarrow> r \<noteq> 0 \<Longrightarrow> distinct (map ac_token (filter live es)) \<Longrightarrow> l \<in> own me es \<Longrightarrow> r = - EIO \<and> es' = es"
proof (induction es arbitrary: es')
  case (Cons e es)
  show ?case
  proof (cases "ac_token e = l \<and> l \<noteq> 0")
    case True
    then have "live e" by (simp add: live_def)
    then have "l \<notin> own me es" using Cons.prems(3) True own_live [of l me es] by auto
    then have "access_owner e me" using Cons.prems(4) by (auto split: if_splits)
    then show ?thesis using True Cons.prems(1,2) by (auto split: if_splits)
  next
    case False
    then obtain ds where ds: "release_lease me l es = (r, ds)" "es' = e # ds" using Cons.prems(1) by (auto split: prod.splits)
    have "l \<in> own me es" using Cons.prems(4) False by (auto simp: live_def split: if_splits)
    moreover have "distinct (map ac_token (filter live es))" using Cons.prems(3) by (auto split: if_splits)
    ultimately show ?thesis using Cons.IH [OF ds(1) Cons.prems(2)] ds(2) by simp
  qed
qed simp

lemma holding_refused:
  assumes "holding env denv me l None s t" "access_reachable (sy_registry s)" "l \<noteq> 0" "block_access_release (sy_registry t) me l = Some (r, st)" "r \<noteq> 0"
  shows "r = - EIO \<and> claimed env denv me l s (t\<lparr>sy_registry := st\<rparr>)"
proof -
  have c: "claimed env denv me l s t" by (rule holding_claimed [OF assms(1-3)])
  have inv: "registry_inv (sy_registry t)" using holding_reachable [OF assms(1,2)] reachable_inv by blast
  have l: "l \<in> own_tokens me (sy_registry t)" using c unfolding claimed_def by blast
  obtain es where es: "release_lease me l (leases (sy_registry t)) = (r, es)" "leases st = es"
    using assms(4) by (auto simp: block_access_release_def elim!: lockedE split: prod.splits)
  from release_refused [OF es(1) assms(5) tokens_distinct [OF inv] l] have "r = - EIO" "leases st = leases (sy_registry t)" using es(2) by auto
  then show ?thesis using claimed_quiet [OF c _ assms(2)] release_next [OF assms(4)] unfolding quiet_def by simp
qed

lemma poison_poisons: "block_access_poison st k = Some (u, st') \<Longrightarrow> k \<noteq> 0 \<Longrightarrow> lease_poisoned st' k"
proof -
  assume "block_access_poison st k = Some (u, st')" and k: "k \<noteq> 0"
  then have "leases st' = map (poison_token k) (leases st)"
    by (auto simp: block_access_poison_def elim!: lockedE)
  moreover have "ac_token (poison_token k e) = k \<Longrightarrow> ac_poisoned (poison_token k e)" for e
    using k by (cases "ac_token e = k") (auto simp: poison_token_def)
  ultimately show "lease_poisoned st' k"
    by (auto simp: lease_poisoned_def)
qed

lemma quarantined_with_outcome:
  assumes "others_ok (register_next env) denv me o'" "me \<noteq> None" "access_reachable (sy_registry s)"
    and "claimed env denv me (sl_lease src) s t" and run: "quarantined_with o' k t src r0 = Some ((r, src'), t')"
  shows "r = r0 \<and> src' = src\<lparr>sl_state := st_quarantined\<rparr> \<and> claimed env denv me (sl_lease src) s t' \<and> lease_poisoned (sy_registry t') (sl_lease src)"
proof -
  let ?t = "o' k t"
  have l: "sl_lease src \<noteq> 0" and reach: "access_reachable (sy_registry t)"
    using assms(3,4) steps_reachable unfolding claimed_def by auto
  have c: "claimed env denv me (sl_lease src) s ?t" by (rule claimed_quiet [OF assms(4) other_quiet [OF assms(1) reach assms(2)] assms(3)])
  obtain st where st: "block_access_poison (sy_registry ?t) (sl_lease src) = Some ((), st)"
    "r = r0" "src' = src\<lparr>sl_state := st_quarantined\<rparr>" "t' = ?t\<lparr>sy_registry := st\<rparr>"
    using run l by (auto simp: quarantined_with_def quarantine_source_def Let_def elim!: bind_SomeE)
  have "quiet (register_next env) denv me ?t t'"
    unfolding st(4) by (rule own_step_quiet [of "Poison (sl_lease src)"]) (use st(1) poisoning_own(1) [OF st(1)] in simp_all)
  then show ?thesis using st poison_poisons [OF st(1) l] claimed_quiet [OF c _ assms(3)] by simp
qed

lemma cleanup_lease_outcome:
  assumes "others_ok (register_next env) denv me o'" "me \<noteq> None" "access_reachable (sy_registry s)"
    and "holding env denv me (sl_lease src) None s t" "rf_node (sl_reference src) = None"
    and run: "cleanup_lease o' k t me src f = Some ((r, src'), t')"
  shows "r = f \<and> emptied src' \<and> quiet (register_next env) denv me s t' \<or> quarantined_ok env denv me s r src' t'"
proof -
  have h: "holding env denv me (sl_lease src) None s (o' k t)"
    using holding_quiet [OF assms(4) other_quiet [OF assms(1) holding_reachable [OF assms(4,3)] assms(2)]] .
  obtain q st where q: "(if sl_lease src \<noteq> 0 then block_access_release (sy_registry (o' k t)) me (sl_lease src) else Some (0, sy_registry (o' k t))) = Some (q, st)"
    using run by (auto simp: cleanup_lease_def Let_def elim!: bind_SomeE)
  show ?thesis
  proof (cases "q = 0")
    case True
    then have "quiet (register_next env) denv me s ((o' k t)\<lparr>sy_registry := st\<rparr>)"
      using q h holding_release [OF h assms(3)] unfolding holding_def by (auto split: if_splits intro: quiet_trans)
    then show ?thesis using run q True assms(5) by (auto simp: cleanup_lease_def Let_def emptied_def)
  next
    case False
    then have l: "sl_lease src \<noteq> 0" and rel: "block_access_release (sy_registry (o' k t)) me (sl_lease src) = Some (q, st)" using q by (auto split: if_splits)
    note refused = holding_refused [OF h assms(3) l rel False]
    have "quarantined_with o' (k + 1) ((o' k t)\<lparr>sy_registry := st\<rparr>) src q = Some ((r, src'), t')"
      using run rel l False by (simp add: cleanup_lease_def Let_def)
    note outcome = quarantined_with_outcome [OF assms(1-3) conjunct2 [OF refused] this]
    have "rtranclp registry_next (sy_registry s) (sy_registry (o' k t))" using holding_claimed [OF h assms(3) l] unfolding claimed_def by blast
    then show ?thesis using outcome refused rel assms(5) unfolding quarantined_ok_def by auto
  qed
qed

lemma cleanup_outcome:
  assumes "others_ok (register_next env) denv me o'" "me \<noteq> None" "access_reachable (sy_registry s)"
    and "holding env denv me (sl_lease src) (rf_node (sl_reference src)) s t"
    and run: "cleanup_unpublished denv o' k t me src f = Some ((r, src'), t')"
  shows "r = f \<and> emptied src' \<and> quiet (register_next env) denv me s t' \<or> quarantined_ok env denv me s r src' t'"
proof (cases "rf_node (sl_reference src)")
  case None
  then show ?thesis using cleanup_lease_outcome [OF assms(1-3)] assms(4) run by (simp add: cleanup_unpublished_def)
next
  case (Some a)
  have "holding env denv me (sl_lease src) (Some a) s (o' k t)"
    using holding_quiet [OF assms(4) other_quiet [OF assms(1) holding_reachable [OF assms(4,3)] assms(2)]] Some by simp
  from holding_close [OF this] obtain fs where fs: "vfs_close denv (sy_files (o' k t)) (Some a) = Some (0, fs)"
    "holding env denv me (sl_lease src) None s ((o' k t)\<lparr>sy_files := fs\<rparr>)" .
  have run2: "cleanup_lease o' (k + 1) ((o' k t)\<lparr>sy_files := fs\<rparr>) me (src\<lparr>sl_reference := zero_reference\<rparr>) f = Some ((r, src'), t')"
    using run Some fs(1) by (simp add: cleanup_unpublished_def Let_def)
  show ?thesis
    by (rule cleanup_lease_outcome [OF assms(1-3) _ _ run2]) (use fs(2) in \<open>simp_all add: zero_reference_def\<close>)
qed

lemma validate_retained_state:
  "block_access_validate_retained_exclusive st ts k w = Some (r, st') \<Longrightarrow> \<not> access_lock st \<Longrightarrow> st' = st"
  unfolding block_access_validate_retained_exclusive_def
  by (elim if_SomeE lockedE bind_SomeE case_option_SomeE)
    (auto elim!: bind_SomeE simp: unlocked_same split: sum.splits option.splits if_splits)

lemma validate_retained_0:
  assumes "block_access_validate_retained_exclusive st ts k w = Some (0, st')"
  obtains l where "l \<in> set (leases st)" "ac_token l = k" "k \<noteq> 0" "ac_exclusive l" "ac_extent l = w"
    "resolve_device st (be_device w) (be_generation w) = Some (Some w)" "\<forall>e \<in> set (leases st). conflicts w e \<longrightarrow> \<not> ac_poisoned e"
  using assms that unfolding block_access_validate_retained_exclusive_def
  by (elim if_SomeE lockedE bind_SomeE case_option_SomeE)
    (auto simp: exact_extent_eq EINVAL_def EIO_def ENODEV_def EPERM_def elim!: bind_SomeE split: sum.splits option.splits if_splits
      dest!: find_lease_Some find_lease_error)

lemma lease_confirmed:
  assumes inv: "registry_inv st" and v: "block_access_validate_retained_exclusive st ts k w = Some (0, st')" and own: "k \<in> own_tokens me st"
  shows "registered (devices st) w \<and> (\<exists>l \<in> set (leases st). ac_token l = k \<and> ac_extent l = w \<and> ac_exclusive l \<and> \<not> ac_poisoned l \<and> access_owner l me)"
proof -
  from v obtain l where l: "l \<in> set (leases st)" "ac_token l = k" "k \<noteq> 0" "ac_exclusive l" "ac_extent l = w"
    "resolve_device st (be_device w) (be_generation w) = Some (Some w)" "\<forall>e \<in> set (leases st). conflicts w e \<longrightarrow> \<not> ac_poisoned e"
    by (rule validate_retained_0)
  have r: "registered (devices st) w" by (rule resolve_registered(1) [OF inv l(6)])
  then have "extent_fits w" using inv registered_ok by (auto simp: registry_inv_def device_ok_def)
  then have "conflicts w l" using l(2,3,5) extent_overlaps_self by (auto simp: live_def)
  then have np: "\<not> ac_poisoned l" using l(1,7) by blast
  obtain e where e: "e \<in> set (leases st)" "ac_token e = k" "live e" "access_owner e me" using own by (auto simp: own_def)
  have "e = l"
    using tokens_distinct [OF inv] e l(1-3) unfolding distinct_map by (auto simp: inj_on_def live_def)
  then show ?thesis using r l np e(4) by blast
qed

section \<open>What other tasks do during a retention\<close>

lemma steps_world: "rtranclp (register_next env) a b \<Longrightarrow> rtranclp registry_next r r' \<Longrightarrow> rtranclp (world_step env) (a, r) (b, r')"
proof -
  assume "rtranclp registry_next r r'"
  then have 1: "rtranclp (world_step env) (a, r) (a, r')"
    by (induction rule: rtranclp_induct) (auto simp: registry_next_def intro: world_step.access rtranclp.rtrancl_into_rtrancl)
  assume "rtranclp (register_next env) a b"
  then have "rtranclp (world_step env) (a, r') (b, r')"
    by (induction rule: rtranclp_induct) (auto simp: register_next_def intro: world_step.register rtranclp.rtrancl_into_rtrancl)
  with 1 show ?thesis by (rule rtranclp_trans)
qed

lemma quiet_world: "quiet (register_next env) denv me s t \<Longrightarrow> rtranclp (world_step env) (tables_view s) (tables_view t)"
  unfolding quiet_def tables_view_def using steps_world by blast

lemma holding_world: "holding env denv me l n s t \<Longrightarrow> rtranclp (world_step env) (tables_view s) (tables_view t)"
  unfolding holding_def claimed_def quiet_def took_def tables_view_def
  by (auto split: option.splits if_splits intro: steps_world rtranclp_trans)

lemma seen_quiet:
  assumes "others_ok (register_next env) denv me o'" "me \<noteq> None" "access_reachable (sy_registry s)"
  shows "quiet (register_next env) denv me s (states_seen o' k s i)"
proof (induction i)
  case (Suc i)
  then show ?case using quiet_trans [OF Suc other_quiet [OF assms(1) quiet_reachable [OF Suc assms(3)] assms(2)]] by simp
qed (simp add: other_quiet [OF assms(1,3,2)])

lemma seen_history:
  assumes "others_ok (register_next env) denv me o'" "me \<noteq> None" "access_reachable (sy_registry s)"
  shows "history env (tables_view \<circ> states_seen o' k s)"
  unfolding history_def
proof
  fix i
  have "quiet (register_next env) denv me (states_seen o' k s i) (states_seen o' k s (Suc i))"
    using other_quiet [OF assms(1) quiet_reachable [OF seen_quiet [OF assms] assms(3)] assms(2)] by simp
  then show "rtranclp (world_step env) ((tables_view \<circ> states_seen o' k s) i) ((tables_view \<circ> states_seen o' k s) (Suc i))"
    using quiet_world by simp
qed

text \<open>
  The hardware and the node named the extent after the lease was claimed: a match on the states \<open>w\<close>, all later than the claim, and
  after it a look-up of the node in a state \<open>u\<close> in which the reference was held.
\<close>

definition confirmed :: "pci_env \<Rightarrow> devfs_env \<Rightarrow> tables \<Rightarrow> tables \<Rightarrow> SourceLifetime \<Rightarrow> BlockExtent \<Rightarrow> bool" where
  "confirmed env denv sys sys' s x \<longleftrightarrow> (\<exists>w u. history env w \<and> rtranclp (world_step env) (tables_view sys) (w 0) \<and> access_reachable (snd (w 0)) \<and>
     sl_lease s < next_identity (snd (w 0)) \<and> block_source_match env w (sl_identity s) True = Some (0, x) \<and>
     rtranclp (world_step env) (w 514) (tables_view u) \<and> rtranclp (world_step env) (tables_view u) (tables_view sys') \<and>
     pinned (sy_files u) = pinned (sy_files sys') \<and>
     block_access_resolve_node denv (sy_files u) (sy_registry u) (rf_node (sl_reference s)) zero_extent = Some (0, x))"

text \<open>What a call leaves behind: the source held, everything undone, or a quarantine.\<close>

definition source_held :: "pci_env \<Rightarrow> devfs_env \<Rightarrow> task \<Rightarrow> XJ_INSTALLER_SOURCE \<Rightarrow> tables \<Rightarrow> tables \<Rightarrow> SourceLifetime \<Rightarrow> bool" where
  "source_held env denv task identity sys sys' s \<longleftrightarrow> sl_state s = st_retained \<and> sl_identity s = identity \<and>
     (let x = rf_extent (sl_reference s); st = sy_registry sys; st' = sy_registry sys' in
        whole_disk x \<and> registered (devices st') x \<and> be_bytes x = is_physical_bytes identity \<and>
        rf_bytes (sl_reference s) = be_bytes x \<and> rf_sector_size (sl_reference s) = is_physical_block_size identity \<and>
        sl_lease s \<notin> own_tokens task st \<and> own_tokens task st' = insert (sl_lease s) (own_tokens task st) \<and>
        (\<exists>l \<in> set (leases st'). ac_token l = sl_lease s \<and> ac_extent l = x \<and> ac_exclusive l \<and> \<not> ac_poisoned l \<and> access_owner l task) \<and>
        (\<exists>a. rf_node (sl_reference s) = Some a \<and> one_more a (sy_files sys) (sy_files sys')) \<and> confirmed env denv sys sys' s x)"

definition retention_outcome :: "pci_env \<Rightarrow> devfs_env \<Rightarrow> task \<Rightarrow> XJ_INSTALLER_SOURCE \<Rightarrow> tables \<Rightarrow> int \<Rightarrow> SourceLifetime \<Rightarrow> tables \<Rightarrow> bool" where
  "retention_outcome env denv task identity sys r s' sys' \<longleftrightarrow>
     (if r = 0 then source_held env denv task identity sys sys' s'
      else emptied s' \<and> quiet (register_next env) denv task sys sys' \<or> quarantined_ok env denv task sys r s' sys')"

lemma same_extent_eq: "same_extent a b \<longleftrightarrow> a = b"
  by (cases a; cases b) (auto simp: same_extent_def)

lemma recheck_quiet:
  assumes "others_ok (register_next env) denv me o'" "me \<noteq> None" "access_reachable (sy_registry t)"
    and run: "recheck env denv o' k t src x identity = Some (r, t')"
  shows "quiet (register_next env) denv me t t'"
proof -
  have q: "quiet (register_next env) denv me t (states_seen o' k t 514)" by (rule seen_quiet [OF assms(1-3)])
  then have "quiet (register_next env) denv me t (o' (k + 515) (states_seen o' k t 514))"
    using quiet_trans other_quiet [OF assms(1) quiet_reachable [OF _ assms(3)] assms(2)] by blast
  moreover have "t' = states_seen o' k t 514 \<or> t' = o' (k + 515) (states_seen o' k t 514)"
    using run unfolding recheck_def Let_def by (auto elim!: bind_SomeE split: if_splits)
  ultimately show ?thesis using q by auto
qed

lemma recheck_0:
  assumes "recheck env denv o' k t src x identity = Some (0, t')"
  shows "block_source_match env (tables_view \<circ> states_seen o' k t) (sl_identity src) True = Some (0, x) \<and> t' = o' (k + 515) (states_seen o' k t 514) \<and>
    block_access_resolve_node denv (sy_files t') (sy_registry t') (rf_node (sl_reference src)) zero_extent = Some (0, x) \<and>
    rf_bytes (sl_reference src) = is_physical_bytes identity \<and> rf_sector_size (sl_reference src) = is_physical_block_size identity"
  using assms unfolding recheck_def Let_def
  by (auto elim!: bind_SomeE simp: same_extent_eq ESTALE_def split: if_splits)

lemma validate_lease_quiet:
  assumes "others_ok (register_next env) denv me o'" "me \<noteq> None" "access_reachable (sy_registry t)"
    and run: "validate_lease o' k ts t lease x = Some (r, t')"
  shows "quiet (register_next env) denv me t t' \<and> block_access_validate_retained_exclusive (sy_registry t') ts lease x = Some (r, sy_registry t')"
proof -
  have q: "quiet (register_next env) denv me t (o' k t)" by (rule other_quiet [OF assms(1,3,2)])
  obtain st where st: "block_access_validate_retained_exclusive (sy_registry (o' k t)) ts lease x = Some (r, st)" "t' = (o' k t)\<lparr>sy_registry := st\<rparr>"
    using run unfolding validate_lease_def Let_def by (auto elim!: bind_SomeE)
  then have "st = sy_registry (o' k t)"
    using validate_retained_state reachable_unlocked [OF quiet_reachable [OF q assms(3)]] by blast
  then show ?thesis using st q by simp
qed

lemma holding_node:
  assumes "holding env denv me l n s t" "l \<noteq> 0" "access_reachable (sy_registry s)"
  shows "l \<notin> own_tokens me (sy_registry s) \<and> own_tokens me (sy_registry t) = insert l (own_tokens me (sy_registry s)) \<and>
    l < next_identity (sy_registry t) \<and> (\<forall>a. n = Some a \<longrightarrow> one_more a (sy_files s) (sy_files t))"
proof -
  obtain u where u: "claimed env denv me l s u"
    "case n of None \<Rightarrow> quiet (register_next env) denv me u t | Some a \<Rightarrow> took (register_next env) denv me a u t"
    using assms(1,2) unfolding holding_def by auto
  have "rtranclp registry_next (sy_registry u) (sy_registry t)" using u(2) by (auto simp: quiet_def took_def split: option.splits)
  then have "next_identity (sy_registry u) \<le> next_identity (sy_registry t)"
    using identities_grow steps_reachable u(1) assms(3) unfolding claimed_def by blast
  then have "l < next_identity (sy_registry t)" using u(1) unfolding claimed_def by (meson order.strict_trans2)
  moreover have "pinned (sy_files u) = pinned (sy_files s)" using u(1) by (simp add: claimed_def)
  ultimately show ?thesis using u unfolding claimed_def by (auto simp: quiet_def took_def one_more_def split: option.splits)
qed

lemma cleanup_retention:
  assumes "others_ok (register_next env) denv me o'" "me \<noteq> None" "access_reachable (sy_registry sys)"
    and "holding env denv me (sl_lease src) (rf_node (sl_reference src)) sys t" "f \<noteq> 0"
    and "cleanup_unpublished denv o' k t me src f = Some ((r, src'), t')"
  shows "retention_outcome env denv me identity sys r src' t'"
  using cleanup_outcome [OF assms(1-4,6)] assms(5) by (auto simp: retention_outcome_def quarantined_ok_def EIO_def)

lemma held_outcome:
  assumes others: "others_ok (register_next env) denv me o'" "me \<noteq> None" and reach: "access_reachable (sy_registry sys)"
    and h: "holding env denv me (sl_lease src) (Some a) sys t" "sl_lease src \<noteq> 0" "rf_node (sl_reference src) = Some a" "sl_identity src = identity"
    and again: "recheck env denv o' k t src (rf_extent (sl_reference src)) identity = Some (0, t1)"
    and valid: "validate_lease o' j ts t1 (sl_lease src) (rf_extent (sl_reference src)) = Some (0, t2)"
  shows "source_held env denv me identity sys t2 (src\<lparr>sl_state := st_retained\<rparr>)"
proof -
  let ?x = "rf_extent (sl_reference src)" and ?w = "tables_view \<circ> states_seen o' k t"
  have reach0: "access_reachable (sy_registry t)" by (rule holding_reachable [OF h(1) reach])
  have q1: "quiet (register_next env) denv me t t1" by (rule recheck_quiet [OF others reach0 again])
  note v = validate_lease_quiet [OF others quiet_reachable [OF q1 reach0] valid]
  have h2: "holding env denv me (sl_lease src) (Some a) sys t2" using holding_quiet [OF h(1)] quiet_trans [OF q1] v by blast
  note held = holding_node [OF h2 h(2) reach]
  have m: "block_source_match env ?w (sl_identity src) True = Some (0, ?x)"
    "block_access_resolve_node denv (sy_files t1) (sy_registry t1) (rf_node (sl_reference src)) zero_extent = Some (0, ?x)"
    "rf_bytes (sl_reference src) = is_physical_bytes identity" "rf_sector_size (sl_reference src) = is_physical_block_size identity"
    and t1: "t1 = o' (k + 515) (states_seen o' k t 514)"
    using recheck_0 [OF again] by blast+
  have hist: "history env ?w" by (rule seen_history [OF others reach0])
  have q0: "quiet (register_next env) denv me t (states_seen o' k t 0)" by (rule seen_quiet [OF others reach0])
  have reach_w: "access_reachable (snd (?w 0))" using quiet_reachable [OF q0 reach0] by (simp add: tables_view_def)
  have facts: "whole_disk ?x \<and> be_bytes ?x = is_physical_bytes identity"
    using match_facts [OF hist reach_w] m h(4) by blast
  have lease: "sl_lease src < next_identity (snd (?w 0))"
    using holding_node [OF holding_quiet [OF h(1) q0] h(2) reach] by (simp add: tables_view_def)
  have last: "quiet (register_next env) denv me (states_seen o' k t 514) t1"
    using other_quiet [OF others(1) quiet_reachable [OF seen_quiet [OF others reach0] reach0] others(2)] t1 by simp
  have "confirmed env denv sys t2 (src\<lparr>sl_state := st_retained\<rparr>) ?x"
    unfolding confirmed_def
    by (rule exI [of _ ?w], rule exI [of _ t1])
      (use hist reach_w lease m h(4) v quiet_world [OF last] quiet_world [of env denv me t1 t2]
        rtranclp_trans [OF holding_world [OF h(1)] quiet_world [OF q0]] in \<open>simp add: quiet_def\<close>)
  moreover have "registry_inv (sy_registry t2)" using holding_reachable [OF h2 reach] reachable_inv by blast
  from lease_confirmed [OF this] have "registered (devices (sy_registry t2)) ?x \<and> (\<exists>l \<in> set (leases (sy_registry t2)).
      ac_token l = sl_lease src \<and> ac_extent l = ?x \<and> ac_exclusive l \<and> \<not> ac_poisoned l \<and> access_owner l me)" using v held by blast
  ultimately show ?thesis using facts held m h(3,4) by (auto simp: source_held_def Let_def)
qed

lemma retain_node_outcome:
  assumes others: "others_ok (register_next env) denv me o'" "me \<noteq> None" and reach: "access_reachable (sy_registry sys)"
    and ok: "device_nodes_ok denv (sy_files sys)" and c: "claimed env denv me (sl_lease src) sys t" and id: "sl_identity src = identity"
    and run: "retain_node env denv o' k ts t me src x identity = Some ((r, src'), t')"
  shows "retention_outcome env denv me identity sys r src' t'"
proof -
  have reach0: "access_reachable (sy_registry t)" and ok0: "device_nodes_ok denv (sy_files t)" and l: "sl_lease src \<noteq> 0"
    using c ok steps_reachable [OF _ reach] by (auto simp: claimed_def)
  obtain q out t1 where rb: "devfs_retain_block denv o' k t me (be_device x) (be_generation x) (Some (sl_reference src)) = Some ((q, out), t1)"
    using run by (auto simp: retain_node_def elim!: bind_SomeE)
  from devfs_retain_outcome [OF others reach0 ok0 rb] obtain rf where rf: "out = Some rf" "\<not> rf_quarantined rf"
    "if q = 0 then \<exists>a. rf_node rf = Some a \<and> took (register_next env) denv me a t t1 else rf = zero_reference \<and> quiet (register_next env) denv me t t1" by blast
  let ?src = "src\<lparr>sl_reference := rf\<rparr>"
  have h: "holding env denv me (sl_lease ?src) (rf_node (sl_reference ?src)) sys t1"
    using rf(3) c l unfolding holding_def by (auto simp: zero_reference_def split: if_splits)
  note undo = cleanup_retention [OF others reach]
  show ?thesis
  proof (cases "q = 0 \<and> same_extent x (rf_extent rf)")
    case False
    then show ?thesis
      using run rb rf(1,2) by (auto simp: retain_node_def Let_def split: if_splits intro!: undo [OF h]) (simp_all add: ESTALE_def)
  next
    case True
    then obtain a where a: "rf_node rf = Some a" using rf(3) by auto
    have x: "rf_extent rf = x" using True by (simp add: same_extent_eq)
    obtain q2 t2 where again: "recheck env denv o' (k + 7) t1 ?src x identity = Some (q2, t2)"
      using run rb rf(1) True by (auto simp: retain_node_def Let_def elim!: bind_SomeE)
    obtain q3 t3 where valid: "(if q2 = 0 then validate_lease o' (k + 523) ts t2 (sl_lease src) x else Some (q2, t2)) = Some (q3, t3)"
      using run rb rf(1) True again by (auto simp: retain_node_def Let_def elim!: bind_SomeE cong: if_cong)
    have reach1: "access_reachable (sy_registry t1)" by (rule holding_reachable [OF h reach])
    have quiet2: "quiet (register_next env) denv me t1 t2" by (rule recheck_quiet [OF others reach1 again])
    have "quiet (register_next env) denv me t1 t3"
      using valid quiet2 quiet_trans [OF quiet2] validate_lease_quiet [OF others quiet_reachable [OF quiet2 reach1]] by (auto split: if_splits)
    then have h3: "holding env denv me (sl_lease ?src) (rf_node (sl_reference ?src)) sys t3" by (rule holding_quiet [OF h])
    show ?thesis
    proof (cases "q3 = 0")
      case False
      then show ?thesis using run rb rf(1) True again valid undo [OF h3 False] by (auto simp: retain_node_def Let_def cong: if_cong)
    next
      case q3: True
      then have q2: "q2 = 0" using valid by (auto split: if_splits)
      have "r = 0" "src' = ?src\<lparr>sl_state := st_retained\<rparr>" "t' = t3"
        using run rb rf(1) True again valid q3 by (auto simp: retain_node_def Let_def cong: if_cong)
      moreover have again0: "recheck env denv o' (k + 7) t1 ?src (rf_extent (sl_reference ?src)) identity = Some (0, t2)"
        and valid0: "validate_lease o' (k + 523) ts t2 (sl_lease ?src) (rf_extent (sl_reference ?src)) = Some (0, t3)"
        using again valid q2 q3 x by simp_all
      moreover have "holding env denv me (sl_lease ?src) (Some a) sys t1" "sl_lease ?src \<noteq> 0" "rf_node (sl_reference ?src) = Some a"
        "sl_identity ?src = identity" using h a l id by simp_all
      from held_outcome [OF others reach this again0 valid0] have "source_held env denv me identity sys t3 (?src\<lparr>sl_state := st_retained\<rparr>)" .
      ultimately show ?thesis by (simp add: retention_outcome_def)
    qed
  qed
qed

lemma tokens_below: "registry_inv st \<Longrightarrow> k \<in> own_tokens me st \<Longrightarrow> k < next_identity st"
proof -
  assume inv: "registry_inv st" and "k \<in> own_tokens me st"
  then obtain j where j: "j < length (leases st)" "live (leases st ! j)" "ac_token (leases st ! j) = k" by (auto simp: own_def in_set_conv_nth)
  then have "slots st ! j = leases st ! j" "j < length (slots st)" by (auto simp: slots_def nth_append)
  then show "k < next_identity st" using inv j unfolding registry_inv_def tokens_ok_def by metis
qed

lemma claim_claimed:
  assumes "quiet (register_next env) denv me sys t" "access_reachable (sy_registry sys)" "me \<noteq> None"
    and "block_access_claim (sy_registry t) me x True True = Some ((0, k), st)"
  shows "claimed env denv me k sys (t\<lparr>sy_registry := st\<rparr>)"
proof -
  have reach: "access_reachable (sy_registry t)" by (rule quiet_reachable [OF assms(1,2)])
  from claim_cases [OF reach, of me x True] assms(4) obtain i where i: "k = next_identity (sy_registry t)" "k \<noteq> 0" "i < kLeases"
    "\<not> live (leases (sy_registry t) ! i)"
    "st = (sy_registry t)\<lparr>next_identity := k + 1, leases := (leases (sy_registry t))[i := new_lease k me x True]\<rparr>"
    by (auto split: prod.splits)
  have inv: "registry_inv (sy_registry t)" by (rule reachable_inv [OF reach])
  have step: "registry_next (sy_registry t) st"
    unfolding registry_next_def by (rule exI [of _ "Claim me x True"]) (use assms(4) in simp)
  have own: "own_tokens me st = insert k (own_tokens me (sy_registry t))"
    using i inv own_update [of i "leases (sy_registry t)" me "new_lease k me x True"]
    by (simp add: registry_inv_def new_lease_def live_def access_owner_def)
  have "k \<notin> own_tokens me (sy_registry t)" using tokens_below [OF inv, of k me] i(1) by blast
  moreover have "registry_inv st" using access_reachable.step [OF reach, of "Claim me x True" st] assms(4) reachable_inv by auto
  then have "k < next_identity st"
    using own tokens_below by (metis insertI1)
  ultimately show ?thesis using assms(1) i(2) own step unfolding claimed_def quiet_def by (auto intro: rtranclp.rtrancl_into_rtrancl)
qed

section \<open>A sample source\<close>

definition sample_controller :: pci_device where
  "sample_controller = \<lparr>pd_class_code = 0x010601, pd_segment = 0, pd_bus = 0, pd_slot = 3, pd_func = 0, pd_op = Some 0x5000\<rparr>"

definition sample_env :: pci_env where
  "sample_env = \<lparr>pe_pci_device_op = 0x5000, pe_pcie_device_op = 0x6000, pe_read = (\<lambda>_. Some (\<lambda>_ _ _ _ _. 0)), pe_mcfg_entries = [], pe_mcfg_entries_len = 0\<rparr>"

definition sample_hardware :: BlockSourceHardware where
  "sample_hardware = \<lparr>bh_controller = Some sample_controller, bh_transport = 1, bh_block_size = 512, bh_bytes = 0x10000, bh_read_only = False,
     bh_sata_port = 2, bh_sata_multiplier = 0xffff, bh_lun = 0, bh_ide_channel = 0, bh_ide_unit = 0, bh_nvme_namespace = 0,
     bh_nvme_eui64 = replicate 8 0\<rparr>"

definition sample_table :: source_table where
  "sample_table = \<lparr>source_devices = (replicate kSourceDevices \<lparr>sr_hardware = sample_hardware, sr_generation = 0, sr_valid = False\<rparr>)
     [0 := \<lparr>sr_hardware = sample_hardware, sr_generation = 1, sr_valid = True\<rparr>], source_revision = 1\<rparr>"

definition sample_source :: XJ_INSTALLER_SOURCE where
  "sample_source = zero_source\<lparr>is_status := 1, is_transport := 1, is_pci_count := 1, is_physical_block_size := 512, is_volume_block_size := 512,
     is_physical_bytes := 0x10000, is_volume_bytes := 0x10000, is_sata_port := 2, is_sata_multiplier := 0xffff, is_volume_kind := 1,
     is_path_bytes := 32, is_controller_path_bytes := 18, is_pci := zero_pci\<lparr>pl_device := 3\<rparr> # replicate 15 zero_pci,
     is_path := take 32 sample_path @ replicate 480 0\<rparr>"

lemma sample_evaluated: "(case Some sample_source of None \<Rightarrow> False | Some s \<Rightarrow> xj_installer_source_valid (Some s) = Some True)"
  by code_simp

lemma source_sample_valid: "xj_installer_source_valid (Some sample_source) = Some True"
  using sample_evaluated by simp

lemma sample_hardware_same: "same_hardware sample_hardware sample_source = Some True"
  by (simp add: same_hardware_def sample_hardware_def sample_controller_def sample_source_def pci_at_def zero_pci_def zero_source_def)

lemma source_accepted: "accept_match sample_env sample_hardware sample_source sample_disk = Some True"
  by (simp add: accept_match_def authentic_pci_path_def sample_hardware_def sample_source_def sample_disk_def zero_source_def
      XJ_INSTALLER_SOURCE_READ_ONLY_def XJ_INSTALLER_SOURCE_NVME_def)

lemma match_devices_skip:
  "\<forall>d \<in> set ds. \<exists>e. source_at (fst (w (2 * d + 1))) d = Some e \<and> \<not> sr_valid e \<Longrightarrow> match_devices env w s m c ds = Some (Inr (m, c))"
  by (induction ds) auto

lemma resolve_published:
  "resolve_device st d g = Some (Some x) \<Longrightarrow> \<not> access_lock st \<Longrightarrow> block_access_resolve st d g (Some y) = Some ((0, Some x), st)"
  by (simp add: block_access_resolve_def locked_def spin_lock_def spin_unlock_def unlocked_same)

lemma sample_match:
  assumes "resolve_device st 0 1 = Some (Some sample_disk)" "\<not> access_lock st"
  shows "block_source_match sample_env (\<lambda>_. (sample_table, st)) sample_source True = Some (0, sample_disk)"
proof -
  let ?w = "\<lambda>_ :: nat. (sample_table, st)"
  have res: "block_access_resolve st 0 1 (Some zero_extent) = Some ((0, Some sample_disk), st)"
    by (rule resolve_published [OF assms])
  have first: "source_at sample_table 0 = Some \<lparr>sr_hardware = sample_hardware, sr_generation = 1, sr_valid = True\<rparr>"
    by (simp add: source_at_def sample_table_def kSourceDevices_def)
  have rest: "match_devices sample_env ?w sample_source 1 sample_disk [1..<kSourceDevices] = Some (Inr (1, sample_disk))"
    by (rule match_devices_skip) (auto simp: source_at_def sample_table_def nth_list_update)
  have "[0..<kSourceDevices] = 0 # [1..<kSourceDevices]"
    by (simp add: upt_rec kSourceDevices_def)
  then have "match_devices sample_env ?w sample_source 0 zero_extent [0..<kSourceDevices] = Some (Inr (1, sample_disk))"
    using first res rest sample_hardware_same source_accepted by (simp add: sample_disk_def)
  then show ?thesis
    using source_sample_valid res by (simp add: block_source_match_def sample_disk_def)
qed

text \<open>The states of the registry during a retention: the lease claimed, the publication held back, and going on.\<close>

definition claimed_state :: registry where
  "claimed_state = state_after ([RegisterWhole None 0 0x10000 True, Publish 0 1] @ [Claim holder sample_disk True])"

definition managed_state :: registry where
  "managed_state = state_after ([RegisterWhole None 0 0x10000 True, Publish 0 1, Claim holder sample_disk True] @ [ManagementBegin holder])"

definition retained_state :: registry where
  "retained_state = state_after ([RegisterWhole None 0 0x10000 True, Publish 0 1, Claim holder sample_disk True, ManagementBegin holder] @ [ManagementEnd holder 3])"

text \<open>A device file system with the node of the sample device below its root.\<close>

definition sample_denv :: devfs_env where
  "sample_denv = \<lparr>de_device_ctl = 0x100000, de_sizeof_device = 0xc0, de_empty = 0x400, de_last_close = (\<lambda>_ fs. (0, fs))\<rparr>"

definition sample_device :: device_t where
  "sample_device = \<lparr>dv_write = Some 0x500, dv_flag = 1, dv_size = 0x10000, dv_sector_size = 512, dv_type = DEVICE_BLOCK, dv_vdiskid = 0\<rparr>"

definition device_node :: "u32 \<Rightarrow> vfs_node" where
  "device_node c = \<lparr>vn_parent = Some 0x7000, vn_realsize = 512, vn_size = 0x10000, vn_type = file_block, vn_refcount = c, vn_fsid = 4,
     vn_handle = Some 0x9000, vn_child = [], vn_root = Some 0x7000\<rparr>"

definition sample_files :: "u32 \<Rightarrow> files" where
  "sample_files c = \<lparr>fs_nodes = [
       0x7000 \<mapsto> \<lparr>vn_parent = None, vn_realsize = 0, vn_size = 0, vn_type = file_dir, vn_refcount = 1, vn_fsid = 4, vn_handle = None,
         vn_child = [Some 0x8000], vn_root = Some 0x7000\<rparr>,
       0x8000 \<mapsto> device_node c],
     fs_handles = [0x9000 \<mapsto> \<lparr>rh_device = Some 0x100000, rh_is_dir = False, rh_generation = 1\<rparr>],
     fs_device_ctl = sample_device # replicate 255 (sample_device\<lparr>dv_flag := 0, dv_type := DEVICE_STREAM\<rparr>), fs_devfs_id = 4, fs_devfs_root = Some 0x7000,
     fs_rootdir = Some 0x6000, fs_readonly_unmounting = (\<lambda>_. None), fs_retiring_subtrees = []\<rparr>"

definition sample_tasks :: tasks where
  "sample_tasks = \<lparr>ts_tcb = (\<lambda>_. map_option snd holder), ts_referenced = (\<lambda>_. True)\<rparr>"

definition sample_reference :: DevfsBlockReference where
  "sample_reference = \<lparr>rf_node = Some 0x8000, rf_extent = sample_disk, rf_bytes = 0x10000, rf_sector_size = 512, rf_writable = True, rf_quarantined = False\<rparr>"

definition sample_system :: "registry \<Rightarrow> u32 \<Rightarrow> tables" where
  "sample_system st c = \<lparr>sy_table = sample_table, sy_registry = st, sy_files = sample_files c\<rparr>"

definition fresh_source :: SourceLifetime where
  "fresh_source = \<lparr>sl_identity = zero_source, sl_reference = zero_reference, sl_lease = 0, sl_owner = None, sl_owner_tid = 0, sl_state = st_empty\<rparr>"

abbreviation nobody :: "source_table others" where
  "nobody \<equiv> (\<lambda>_ sys. sys)"

lemma nobody_seen [simp]: "states_seen (\<lambda>_ s. s) k s i = s"
  by (induction i) simp_all

lemma access_run_snoc: "access_run (ops @ [op]) st = access_run ops st \<bind> access_step op"
proof (induction ops arbitrary: st)
  case Nil
  then show ?case by (cases "access_step op st") (simp_all del: access_step.simps)
next
  case (Cons a ops)
  then show ?case by (cases "access_step a st") (simp_all del: access_step.simps)
qed

lemma state_after_step:
  "access_run (ops @ [op]) initial_registry \<noteq> None \<Longrightarrow> access_step op (state_after ops) = Some (state_after (ops @ [op]))"
  by (auto simp: access_run_snoc state_after_def simp del: access_step.simps split: option.splits bind_splits)

lemma retained_run:
  "access_run [RegisterWhole None 0 0x10000 True, Publish 0 1, Claim holder sample_disk True, ManagementBegin holder, ManagementEnd holder 3] initial_registry \<noteq> None"
  by code_simp

lemma prefix_runs: "access_run (ops @ ops') st \<noteq> None \<Longrightarrow> access_run ops st \<noteq> None"
  by (induction ops arbitrary: st) (auto simp del: access_step.simps split: bind_splits)

lemma retained_steps:
  "access_step (Claim holder sample_disk True) published_state = Some claimed_state"
  "access_step (ManagementBegin holder) claimed_state = Some managed_state"
  "access_step (ManagementEnd holder 3) managed_state = Some retained_state"
  unfolding published_state_def claimed_state_def managed_state_def retained_state_def
  using state_after_step prefix_runs [of _ _ initial_registry] retained_run
  by (auto simp del: access_step.simps access_run.simps)

lemma claimed_facts: "map_option fst (block_access_management_begin claimed_state holder True) = Some (0, 3)"
  unfolding claimed_state_def by (rule state_afterI) code_simp

lemma managed_facts: "resolve_device managed_state 0 1 = Some (Some sample_disk)"
  unfolding managed_state_def by (rule state_afterI) code_simp

lemma retained_facts:
  "resolve_device retained_state 0 1 = Some (Some sample_disk) \<and>
   map_option fst (block_access_validate_retained_exclusive retained_state sample_tasks 2 sample_disk) = Some 0"
  unfolding retained_state_def by (rule state_afterI) code_simp

lemma sample_states_reachable: "access_reachable claimed_state" "access_reachable managed_state" "access_reachable retained_state"
  by (simp_all add: claimed_state_def managed_state_def retained_state_def state_after_reachable)

lemma sample_capture:
  "capture_match (sample_files 1) 0x100000 1 = Some (0, Some 0x8000, sample_files 2)"
proof -
  have "devfs_capture_tree (sample_files 1) (Some 0x7000) 0 \<lparr>cp_device = 0x100000, cp_generation = 1, cp_match = None, cp_visited = 0, cp_error = 0\<rparr> =
      Some \<lparr>cp_device = 0x100000, cp_generation = 1, cp_match = Some 0x8000, cp_visited = 2, cp_error = 0\<rparr>"
    by (simp add: devfs_capture_tree.simps vfs_node_retiring_locked_def retiring_loop.simps sample_files_def device_node_def capture_node_def
      devfs_capture_depth_def devfs_capture_nodes_def file_block_def file_dir_def file_delete_def file_unlinked_def)
  moreover have "vfs_node_retiring_locked (sample_files 1) (Some 0x7000) = Some False"
    by (simp add: vfs_node_retiring_locked_def retiring_loop.simps sample_files_def)
  ultimately show ?thesis
    by (simp add: capture_match_def sample_files_def device_node_def fun_eq_iff)
qed

lemma sample_resolve_node:
  assumes "resolve_device st 0 1 = Some (Some sample_disk)" "\<not> access_lock st"
  shows "block_access_resolve_node sample_denv (sample_files c) st (Some 0x8000) zero_extent = Some (0, sample_disk)"
  using resolve_published [OF assms]
  by (simp add: block_access_resolve_node_def sample_files_def device_node_def sample_denv_def device_index_def file_block_def device_ctl_at_def sample_device_def)

lemma sample_retains_node:
  "devfs_retain_block sample_denv nobody k (sample_system claimed_state 1) holder 0 1 (Some y) =
     Some ((0, Some sample_reference), sample_system retained_state 2)"
proof -
  obtain q where q: "block_access_management_begin claimed_state holder True = Some (q, managed_state)" using retained_steps(2) by auto
  then have start: "block_access_management_begin claimed_state holder True = Some ((0, 3), managed_state)" using claimed_facts by simp
  obtain u where fin: "block_access_management_end managed_state holder 3 = Some (u, retained_state)" using retained_steps(3) by auto
  have unlocked: "\<not> access_lock managed_state" by (rule reachable_unlocked [OF sample_states_reachable(2)])
  note res = resolve_published [OF managed_facts unlocked]
  have hw: "device_ctl_at (sample_files 1) 0 = Some sample_device" by (simp add: device_ctl_at_def sample_files_def)
  have "\<not> hardware_stale sample_device 0 sample_disk" "(captured_block sample_denv sample_device sample_disk)\<lparr>rf_node := Some 0x8000\<rparr> = sample_reference"
    by (simp_all add: hardware_stale_def captured_block_def sample_device_def sample_disk_def sample_denv_def sample_reference_def zero_reference_def)
  moreover have "device_address sample_denv 0 = 0x100000" by (simp add: device_address_def sample_denv_def)
  ultimately have capture: "capture_block sample_denv nobody j (sample_system managed_state 1) 0 1 = Some ((0, sample_reference), sample_system managed_state 2)" for j
    using res hw sample_capture by (simp add: capture_block_def Let_def sample_system_def)
  have node: "fs_nodes (sample_files 2) 0x8000 = Some (device_node 2)" by (simp add: sample_files_def)
  have again: "capture_again sample_denv nobody j (sample_system managed_state 2) 0 1 sample_reference = Some (0, sample_system managed_state 2)" for j
    using res sample_resolve_node [OF managed_facts unlocked] node
    by (simp add: capture_again_def Let_def sample_system_def sample_reference_def devfs_same_extent_def device_node_def)
  show ?thesis
    using start fin capture again by (simp add: devfs_retain_block_def Let_def sample_system_def)
qed

lemma retain_sample:
  "retain_source sample_env sample_denv nobody sample_tasks (sample_system published_state 1) holder sample_source (Some fresh_source) =
     Some ((0, Some \<lparr>sl_identity = sample_source, sl_reference = sample_reference, sl_lease = 2, sl_owner = Some 0x1000, sl_owner_tid = 7,
       sl_state = st_retained\<rparr>), sample_system retained_state 2)"
proof -
  have view: "tables_view \<circ> states_seen nobody k (sample_system st c) = (\<lambda>_. (sample_table, st))" for k st c
    by (simp add: fun_eq_iff tables_view_def sample_system_def)
  obtain q where q: "block_access_claim published_state holder sample_disk True True = Some (q, claimed_state)" using retained_steps(1) by auto
  then have claim: "block_access_claim published_state holder sample_disk True True = Some ((0, 2), claimed_state)"
    using claim_cases [OF sample_reachable(1), of holder sample_disk True] published_facts by (auto split: prod.splits)
  have unlocked: "\<not> access_lock retained_state" "\<not> access_lock published_state"
    using reachable_unlocked sample_states_reachable sample_reachable by auto
  have match: "block_source_match sample_env (\<lambda>_. (sample_table, published_state)) sample_source True = Some (0, sample_disk)"
    "block_source_match sample_env (\<lambda>_. (sample_table, retained_state)) sample_source True = Some (0, sample_disk)"
    using sample_match published_reuse retained_facts unlocked by auto
  obtain st where "block_access_validate_retained_exclusive retained_state sample_tasks 2 sample_disk = Some (0, st)" using retained_facts by auto
  then have valid: "block_access_validate_retained_exclusive retained_state sample_tasks 2 sample_disk = Some (0, retained_state)"
    using validate_retained_state unlocked(1) by blast
  have "rf_bytes sample_reference = is_physical_bytes sample_source" "rf_sector_size sample_reference = is_physical_block_size sample_source"
    "rf_extent sample_reference = sample_disk" "rf_node sample_reference = Some 0x8000"
    by (simp_all add: sample_reference_def sample_source_def)
  then have again: "recheck sample_env sample_denv nobody k (sample_system retained_state 2) s sample_disk sample_source = Some (0, sample_system retained_state 2)"
    if "sl_identity s = sample_source" "sl_reference s = sample_reference" for k s
    using that match(2) sample_resolve_node retained_facts unlocked(1)
    by (simp add: recheck_def Let_def view) (simp add: sample_system_def same_extent_eq)
  have disk: "be_device sample_disk = 0" "be_generation sample_disk = 1" "rf_extent sample_reference = sample_disk" by (simp_all add: sample_disk_def sample_reference_def)
  have node: "retain_node sample_env sample_denv nobody k sample_tasks (sample_system claimed_state 1) holder s sample_disk sample_source =
      Some ((0, s\<lparr>sl_reference := sample_reference, sl_state := st_retained\<rparr>), sample_system retained_state 2)"
    if "sl_identity s = sample_source" "sl_lease s = 2" for k s
    using that sample_retains_node again valid disk by (simp add: retain_node_def Let_def validate_lease_def same_extent_eq) (simp add: sample_system_def)
  show ?thesis
    unfolding retain_source_def Let_def view
    using match(1) claim node by (simp add: holder_def fresh_source_def sample_system_def)
qed

section \<open>Properties\<close>

text \<open>
  C14. While other tasks register hardware and use the block devices between its sections, a match that returns 0
  names exactly one entry of the source table, the only valid one with the hardware of the boot source, and
  the extent it gives is at the end of the call the registered whole device of that entry, with the size and the PCI path
  the firmware reported.
\<close>

theorem source_match_unique:
  assumes "history env w" "access_reachable (snd (w 0))" "block_source_match env w s True = Some (0, x)"
  shows "\<exists>d < kSourceDevices. \<exists>e. source_at (fst (w 0)) d = Some e \<and> (\<forall>k < kSourceDevices. names_source (fst (w 0)) s k \<longleftrightarrow> k = d) \<and>
    be_device x = of_nat d \<and> registered (devices (snd (w 514))) x \<and> whole_disk x \<and> be_bytes x = is_physical_bytes s \<and>
    bh_block_size (sr_hardware e) = is_physical_block_size s \<and> authentic_pci_path env (sr_hardware e) s = Some True"
  by (rule match_facts [OF assms])

theorem source_match_unique_witness:
  "\<exists>d < kSourceDevices. names_source sample_table sample_source d \<and> be_device sample_disk = of_nat d \<and> registered (devices published_state) sample_disk"
proof -
  let ?w = "\<lambda>_ :: nat. (sample_table, published_state)"
  have "history sample_env ?w" "access_reachable (snd (?w 0))"
    by (simp_all add: history_def sample_reachable)
  moreover have "block_source_match sample_env ?w sample_source True = Some (0, sample_disk)"
    using sample_match published_reuse reachable_unlocked [OF sample_reachable(1)] by blast
  ultimately show ?thesis
    using source_match_unique [of sample_env ?w sample_source sample_disk] by auto
qed

text \<open>
  C15. Retaining the boot source, while other tasks register hardware, use the block devices in their own name and change the
  tree of device files between the sections of the call, but open and close no nodes, gives one of three results. With 0
  the source is held: its extent is at the end the registered whole device, an exclusive lease of the caller over exactly that
  extent is live and not poisoned and is the only one the caller has more than before, one reference to the node is held, and
  both the hardware match and the look-up of the node gave the extent again after the lease was claimed. Otherwise
  everything is undone: the leases of the caller and all reference counts of nodes are those of before. Or the release of the
  lease was refused with \<open>- EIO\<close>: the source is quarantined, the lease is still the caller's and is poisoned, and the reference
  counts of all nodes are those of before. The nodes of block devices are taken to have the reference of their
  tree and to be no pipes, no terminals and not the root.
\<close>

theorem source_retained:
  assumes "others_ok (register_next env) denv (Some (p, t)) o'" "access_reachable (sy_registry sys)" "device_nodes_ok denv (sy_files sys)"
    "sl_state s = st_empty" "sl_lease s = 0" "rf_node (sl_reference s) = None" "t_status t \<noteq> DEATH" "t_status t \<noteq> OUT"
    "retain_source env denv o' ts sys (Some (p, t)) identity (Some s) = Some ((r, s'), sys')"
  shows "\<exists>s1. s' = Some s1 \<and> retention_outcome env denv (Some (p, t)) identity sys r s1 sys'"
proof -
  let ?me = "Some (p, t)" and ?s = "s\<lparr>sl_state := st_retaining, sl_identity := identity, sl_owner := Some p, sl_owner_tid := t_tid t\<rparr>"
  let ?T = "register_next env" and ?sys1 = "states_seen o' 0 sys 514"
  note run = assms(9) [unfolded retain_source_def Let_def]
  have me: "?me \<noteq> None" by simp
  have q1: "quiet ?T denv ?me sys ?sys1" by (rule seen_quiet [OF assms(1) me assms(2)])
  have q2: "quiet ?T denv ?me sys (o' 515 ?sys1)"
    by (rule quiet_trans [OF q1 other_quiet [OF assms(1) quiet_reachable [OF q1 assms(2)] me]])
  have empty: "holding env denv ?me 0 None sys u" if "quiet ?T denv ?me sys u" for u
    using that unfolding holding_def by auto
  note undo = cleanup_retention [OF assms(1) me assms(2)]
  obtain q x where m: "block_source_match env (tables_view \<circ> states_seen o' 0 sys) identity True = Some (q, x)"
    using assms(4,7,8) run by (auto elim!: bind_SomeE)
  show ?thesis
  proof (cases "q = 0")
    case False
    then obtain s1 where "s' = Some s1" "cleanup_unpublished denv o' 515 ?sys1 ?me ?s q = Some ((r, s1), sys')"
      using assms(4,7,8) run m by (auto elim!: bind_SomeE)
    then show ?thesis using undo [of ?s ?sys1 q] empty [OF q1] assms(5,6) False by auto
  next
    case True
    have reach2: "access_reachable (sy_registry (o' 515 ?sys1))" by (rule quiet_reachable [OF q2 assms(2)])
    obtain c k st where c: "block_access_claim (sy_registry (o' 515 ?sys1)) ?me x True True = Some ((c, k), st)"
      using assms(4,7,8) run m True by (auto elim!: bind_SomeE)
    let ?sys2 = "(o' 515 ?sys1)\<lparr>sy_registry := st\<rparr>"
    show ?thesis
    proof (cases "c = 0")
      case False
      then obtain s1 where "s' = Some s1" "cleanup_unpublished denv o' 516 ?sys2 ?me (?s\<lparr>sl_lease := k\<rparr>) c = Some ((r, s1), sys')"
        using assms(4,7,8) run m True c by (auto elim!: bind_SomeE)
      moreover have "k = 0 \<and> ?sys2 = o' 515 ?sys1"
        using claim_cases [OF reach2, of ?me x True, unfolded c] False by simp
      ultimately show ?thesis using undo [of "?s\<lparr>sl_lease := k\<rparr>" ?sys2 c] empty [OF q2] assms(6) False by auto
    next
      case c0: True
      then obtain s1 where "s' = Some s1" "retain_node env denv o' 516 ts ?sys2 ?me (?s\<lparr>sl_lease := k\<rparr>) x identity = Some ((r, s1), sys')"
        using assms(4,7,8) run m True c by (auto elim!: bind_SomeE)
      moreover have "claimed env denv ?me k sys ?sys2" by (rule claim_claimed [OF q2 assms(2) me]) (use c c0 in simp)
      ultimately show ?thesis using retain_node_outcome [OF assms(1) me assms(2,3), of "?s\<lparr>sl_lease := k\<rparr>"] by simp
    qed
  qed
qed

theorem source_retained_witness:
  "case retain_source sample_env sample_denv nobody sample_tasks (sample_system published_state 1) holder sample_source (Some fresh_source) of
     Some ((r, Some s'), sys') \<Rightarrow> r = 0 \<and> source_held sample_env sample_denv holder sample_source (sample_system published_state 1) sys' s' | _ \<Rightarrow> False"
proof -
  have "others_ok (register_next sample_env) sample_denv holder nobody" by (simp add: others_ok_def interferes_def)
  moreover have "device_nodes_ok sample_denv (sy_files (sample_system published_state 1))"
    by (auto simp: device_nodes_ok_def sample_system_def sample_files_def device_node_def endpoint_type_def file_block_def file_pipe_def file_ptmx_def file_pts_def
        split: if_splits)
  moreover have "access_reachable (sy_registry (sample_system published_state 1))" by (simp add: sample_system_def sample_reachable)
  ultimately have "source_held sample_env sample_denv holder sample_source (sample_system published_state 1) (sample_system retained_state 2)
    \<lparr>sl_identity = sample_source, sl_reference = sample_reference, sl_lease = 2, sl_owner = Some 0x1000, sl_owner_tid = 7, sl_state = st_retained\<rparr>"
    using source_retained [OF _ _ _ _ _ _ _ _ retain_sample [unfolded holder_def]]
    by (simp add: fresh_source_def zero_reference_def retention_outcome_def holder_def)
  then show ?thesis
    unfolding retain_sample by simp
qed

end
