(* ===== verification/Spec2Isabelle.thy ===== *)
theory Spec2Isabelle
  imports LockQueueSpec Frame Numbers Utf AtomQueue IdAlloc DiskLayout Mutex Vma Ipc BootProof BootSource
begin

text \<open>
  Verification of components of the OpenXJ380 kernel, an operating system kernel for x86-64 in C++.

  \<^bold>\<open>The program and its parts.\<close> The boot loader leaves a firmware memory map and an installer handoff in
  memory. The kernel checks the map, places its frame bitmaps, hands the free frames to the buddy zones, and from
  then on allocates physical memory from them. Processes, threads, descriptors and messages are kept in
  locked, indexed queues; kernel code waits on yielding mutexes; address spaces are lists of virtual memory areas. Block devices
  are used through a registry of leases and transfers. The installer proves that the packages in memory
  are the ones the loader handed over, finds the device it booted from, holds it exclusively, and
  plans and writes a partition table.

  \<^bold>\<open>Conventions.\<close> Every definition is a translation of the named function, with the source's guards and early
  returns in their order. Integers are words of their C width, so sums wrap as in the code. A pointer is an
  optional address, a linked structure a heap from addresses to records. The result type is an option: \<open>None\<close> is a
  run that C++ gives no meaning (a null or freed pointer, an access outside an array) or that never returns (a spin lock taken twice).
  Return codes, as \<open>- EINVAL\<close>, are values. \<open>malloc\<close> is an argument, the list of the blocks it will give.
  Loops over pointers are partial functions in the option monad and are proved to return; loops with a counter are total
  functions with a measure. No definition uses fuel.

  \<^bold>\<open>Theories, sources and results.\<close>

  \<^item> \<open>Prelude\<close>: the types of words and pointers, heap access, spin locks (\<^verbatim>\<open>include/cpu/lock.h\<close>), doubly linked lists as
    the locales \<open>dll_node\<close> and \<open>dll_payload\<close>, elimination rules for results.
  \<^item> \<open>LockQueue\<close>, \<open>LockQueueSpec\<close>: \<^verbatim>\<open>kernel/lock_queue.cpp\<close>. The locale \<open>dll_payload\<close> is interpreted on the
    queue's nodes. An abstract queue, a list of indexed entries, is refined by the pointer code for every
    sequence of operations.
  \<^item> \<open>Bitmap\<close>: \<^verbatim>\<open>kernel/memory/bitmap.cpp\<close>. Setting a range changes exactly its bits; a found range is free and the first.
  \<^item> \<open>BootMemory\<close>: \<^verbatim>\<open>kernel/memory/boot_memory.cpp\<close>. Which maps are accepted, which span is covered, where the frame bitmaps go.
  \<^item> \<open>Buddy\<close>: \<^verbatim>\<open>kernel/memory/buddy.cpp\<close>. The steps of a zone are an inductive relation; in every run the free blocks
    and the allocated runs partition the zone. Allocation is described exactly; returning a block merges it with its free
    buddies as far as the code goes, and no pair of free buddies below that order is left apart.
  \<^item> \<open>Frame\<close>: \<^verbatim>\<open>kernel/memory/frame.cpp\<close> with the zones and bitmaps: the early allocator, the hand-over of regions, and
    the allocation and return of frames.
  \<^item> \<open>Krlibc\<close>, \<open>Numbers\<close>: \<^verbatim>\<open>kernel/krlibc.cpp\<close>: block and string operations on a byte memory, numbers read and
    written, the command line. Numbers are read back from the text written for them.
  \<^item> \<open>Utf\<close>: \<^verbatim>\<open>kernel/utflib.cpp\<close>: decoding against a reference definition of UTF-8.
  \<^item> \<open>AtomQueue\<close>: \<^verbatim>\<open>kernel/atom_queue.cpp\<close>. The ring is modelled as functions, which interpret the locale
    \<open>bounded_fifo\<close>, and as the interleaved machine steps of a producer and a consumer.
  \<^item> \<open>IdAlloc\<close>: \<^verbatim>\<open>kernel/id_alloc.cpp\<close>: live identifiers are distinct and in range.
  \<^item> \<open>DiskLayout\<close>: \<^verbatim>\<open>kernel/installer/disk_layout.cpp\<close>: the planned partitions are apart and inside the disk, and a written
    table is read back.
  \<^item> \<open>Mutex\<close>: \<^verbatim>\<open>kernel/task/mutex.cpp\<close>: exclusion in every history of locked sections, and that a waiting task returns.
  \<^item> \<open>Vma\<close>: \<^verbatim>\<open>kernel/memory/vma.cpp\<close>: the effect of unmapping and inserting on the list of areas, with \<open>dll_payload\<close> again.
  \<^item> \<open>Ipc\<close>: \<^verbatim>\<open>kernel/task/ipc.cpp\<close> on the locked queue: what a receiver gets and what stays.
  \<^item> \<open>Handoff\<close>: \<^verbatim>\<open>include/efi/installer_handoff.h\<close>: the device path parser and the checks of a handoff.
  \<^item> \<open>BootProof\<close>: \<^verbatim>\<open>kernel/installer/boot_proof.cpp\<close> on the handoff and the memory map: the page table walk returns, and accepted
    packages are apart, covered by the map and mapped one to one.
  \<^item> \<open>BlockAccess\<close>: \<^verbatim>\<open>driver/block_access.cpp\<close>. A step function over all operations and the reachable states; the
    invariant gives exclusion of leases and transfers, and that poisoned entries and generations are permanent.
  \<^item> \<open>Devfs\<close>: \<open>devfs_retain_block\<close> and \<open>block_access_resolve_node\<close> of \<^verbatim>\<open>driver/fs/vfs/dev.cpp\<close>, with \<open>vfs_node_retiring_locked\<close> and
    the counting part of \<open>vfs_close\<close> in \<^verbatim>\<open>driver/fs/vfs/vfs.cpp\<close>. A retained node has one reference more and names the
    registration; a failure leaves all reference counts as they were.
  \<^item> \<open>BootSource\<close>: \<^verbatim>\<open>driver/block_source.cpp\<close>, \<^verbatim>\<open>kernel/installer/source_lifetime.cpp\<close> and
    \<^verbatim>\<open>kernel/installer/session_policy.cpp\<close> on the handoff, the block access and the device files: a match is unique under interference, and a retention holds
    the source, undoes everything, or quarantines it when its lease cannot be released.

  \<^bold>\<open>Bounds.\<close> Table sizes are those of the sources (256 devices, 64 leases, 128 transfers, 16 PCI functions, 512
  path bytes). The heaps, queues, maps and histories are unbounded.

  \<^bold>\<open>Concurrency.\<close> A section under a lock is one step. Between steps other tasks may run in \<open>Mutex\<close>, \<open>AtomQueue\<close>,
  \<open>Devfs\<close> and \<open>BootSource\<close>, where what they do is an argument of the model; the remaining components are called one at a time. Weak memory and interrupts are not modelled.

  \<^bold>\<open>Not modelled.\<close> Device drivers, interrupt and processor set-up and paging act on hardware registers and live
  page tables. The scheduler and the process code switch contexts; the running task is an argument here. The
  file systems, system calls, users, networking and the remaining installer steps run on those, and so are left out with them,
  but for the device files named above; what \<open>vfs_close\<close> does with a last reference is an argument. The boot loader runs on firmware
  services. The heap is a prebuilt library, and third-party code (lwIP, FatFs, mbedTLS, lexbor, BusyBox) is only
  called. Of \<^verbatim>\<open>krlibc.cpp\<close>, \<open>pathacat\<close> and \<open>cmd_free\<close> are left out.
\<close>

end
